(* ===== verification/CPrelude.thy ===== *)
theory CPrelude
  imports Main "HOL-Library.Word" "HOL-Library.Sublist"
begin

text \<open>
  The C vocabulary every component shares: strings and caller-owned buffers as byte lists, the
  conversion to a 32-bit \<open>int\<close>, the decimal output of \<open>printf\<close> and the \<open>%d\<close> and \<open>%Ns\<close> input of
  \<open>sscanf\<close>, with the generic lemmas on them.  Byte lists are HOL strings; a C string is one without
  the NUL byte.
\<close>

section \<open>Theorem collections\<close>

text \<open>\<open>c_simps\<close> holds the equations that evaluate the C library fragment, \<open>keeps\<close> the facts that an
  operation keeps an invariant of its component.\<close>

named_theorems c_simps
named_theorems keeps

section \<open>Bytes and strings\<close>

type_synonym bytes = "char list"

definition NUL :: char where
  "NUL = CHR 0x00"

definition NEWLINE :: char where
  "NEWLINE = CHR 0x0A"

definition DQUOTE :: char where
  "DQUOTE = CHR 0x22"

definition is_cstring :: "bytes \<Rightarrow> bool" where
  "is_cstring s \<longleftrightarrow> NUL \<notin> set s"

text \<open>What a reader of \<open>char *\<close> sees of a buffer: the bytes before the first NUL.\<close>

definition cstr_of :: "bytes \<Rightarrow> bytes" where
  "cstr_of b = takeWhile (\<lambda>c. c \<noteq> NUL) b"

text \<open>Writing \<open>xs\<close> at the start of a buffer leaves the bytes behind it alone.\<close>

definition overlay :: "'a list \<Rightarrow> 'a list \<Rightarrow> 'a list" where
  "overlay xs b = xs @ drop (length xs) b"

definition quoted :: "bytes \<Rightarrow> bytes" where
  "quoted s = DQUOTE # s @ [DQUOTE]"

lemma chars_distinct [simp]:
  "NEWLINE \<noteq> NUL" "DQUOTE \<noteq> NUL" "NUL \<noteq> NEWLINE" "NUL \<noteq> DQUOTE"
  "NEWLINE \<noteq> DQUOTE" "DQUOTE \<noteq> NEWLINE"
  by (simp_all add: NUL_def NEWLINE_def DQUOTE_def)

lemma length_overlay [simp]: "length xs \<le> length b \<Longrightarrow> length (overlay xs b) = length b"
  by (simp add: overlay_def)

lemma drop_overlay [simp]: "length xs \<le> n \<Longrightarrow> drop n (overlay xs b) = drop n b"
  by (simp add: overlay_def)

lemma cstr_of_cstring [simp]: "is_cstring s \<Longrightarrow> cstr_of s = s"
  by (auto simp: is_cstring_def cstr_of_def takeWhile_eq_all_conv)

lemma is_cstring_cstr_of [simp]: "is_cstring (cstr_of s)"
  by (auto simp: is_cstring_def cstr_of_def dest: set_takeWhileD)

lemma takeWhile_NUL: "NUL \<notin> set xs \<Longrightarrow> takeWhile (\<lambda>c. c \<noteq> NUL) (xs @ NUL # ys) = xs"
  by (induction xs) auto

lemma cstr_of_overlay [simp]:
  "is_cstring xs \<Longrightarrow> cstr_of (overlay (xs @ [NUL]) b) = xs"
  by (simp add: is_cstring_def cstr_of_def overlay_def takeWhile_NUL)

lemma is_cstring_take [simp]: "is_cstring s \<Longrightarrow> is_cstring (take n s)"
  by (auto simp: is_cstring_def dest: in_set_takeD)

lemma is_cstring_append [simp]: "is_cstring (xs @ ys) \<longleftrightarrow> is_cstring xs \<and> is_cstring ys"
  by (auto simp: is_cstring_def)

lemma is_cstring_Nil [simp]: "is_cstring []"
  by (simp add: is_cstring_def)

lemma is_cstring_Cons [simp]: "is_cstring (c # s) \<longleftrightarrow> c \<noteq> NUL \<and> is_cstring s"
  by (auto simp: is_cstring_def)

lemma is_cstring_quoted [simp]: "is_cstring (quoted s) \<longleftrightarrow> is_cstring s"
  by (simp add: quoted_def)

lemma length_quoted [simp]: "length (quoted s) = length s + 2"
  by (simp add: quoted_def)

text \<open>\<open>snprintf\<close> and \<open>vsnprintf\<close> keep at most \<open>cap - 1\<close> bytes of what they render.\<close>

definition snprintf_kept :: "nat \<Rightarrow> bytes \<Rightarrow> bytes" where
  "snprintf_kept cap s = take (cap - 1) s"

lemma length_snprintf_kept [simp]: "length (snprintf_kept cap s) = min (cap - 1) (length s)"
  by (simp add: snprintf_kept_def min.commute)

lemma is_cstring_snprintf_kept [simp]: "is_cstring s \<Longrightarrow> is_cstring (snprintf_kept cap s)"
  by (simp add: snprintf_kept_def)

lemma snprintf_kept_fits [simp]: "length s < cap \<Longrightarrow> snprintf_kept cap s = s"
  by (simp add: snprintf_kept_def)

section \<open>Integers\<close>

definition INT_MAX :: int where
  "INT_MAX = 2147483647"

definition INT_MIN :: int where
  "INT_MIN = - 2147483648"

text \<open>Conversion to a 32-bit \<open>int\<close>, two's complement.\<close>

definition to_int32 :: "int \<Rightarrow> int" where
  "to_int32 i = (i + 2147483648) mod 4294967296 - 2147483648"

lemma to_int32_id [simp]: "INT_MIN \<le> i \<Longrightarrow> i \<le> INT_MAX \<Longrightarrow> to_int32 i = i"
  by (simp add: to_int32_def INT_MIN_def INT_MAX_def)

lemma to_int32_range: "INT_MIN \<le> to_int32 i \<and> to_int32 i \<le> INT_MAX"
  by (simp add: to_int32_def INT_MIN_def INT_MAX_def)

lemma to_int32_length [simp]:
  "int (length s) \<le> INT_MAX \<Longrightarrow> to_int32 (int (length s)) = int (length s)"
  by (simp add: INT_MIN_def)

text \<open>It is the signed reading of the 32-bit word.\<close>

lemma to_int32_word: "to_int32 i = sint (word_of_int i :: 32 word)"
  by (simp add: to_int32_def int_word_sint)

section \<open>Decimal output\<close>

definition digit_char :: "nat \<Rightarrow> char" where
  "digit_char d = char_of (48 + d)"

fun show_nat :: "nat \<Rightarrow> bytes" where
  "show_nat n = (if n < 10 then [digit_char n] else show_nat (n div 10) @ [digit_char (n mod 10)])"

declare show_nat.simps [simp del]

definition show_int :: "int \<Rightarrow> bytes" where
  "show_int i = (if i < 0 then CHR ''-'' # show_nat (nat (- i)) else show_nat (nat i))"

definition is_digit :: "char \<Rightarrow> bool" where
  "is_digit c \<longleftrightarrow> 48 \<le> (of_char c :: nat) \<and> (of_char c :: nat) \<le> 57"

definition digit_val :: "char \<Rightarrow> nat" where
  "digit_val c = of_char c - 48"

lemma digit_char_is_digit [simp]: "d < 10 \<Longrightarrow> is_digit (digit_char d)"
  by (simp add: is_digit_def digit_char_def)

lemma digit_val_char [simp]: "d < 10 \<Longrightarrow> digit_val (digit_char d) = d"
  by (simp add: digit_val_def digit_char_def)

lemma show_nat_digits: "c \<in> set (show_nat n) \<Longrightarrow> is_digit c"
proof (induction n rule: show_nat.induct)
  case (1 n)
  then show ?case
    by (subst (asm) show_nat.simps) (auto split: if_splits)
qed

lemma show_nat_nonempty [simp]: "show_nat n \<noteq> []"
  by (subst show_nat.simps) simp

lemma length_show_nat: "n < 10 ^ Suc k \<Longrightarrow> length (show_nat n) \<le> Suc k"
proof (induction k arbitrary: n)
  case 0
  then show ?case by (subst show_nat.simps) simp
next
  case (Suc k)
  show ?case
  proof (cases "n < 10")
    case True
    then show ?thesis by (subst show_nat.simps) simp
  next
    case False
    have "n div 10 < 10 ^ Suc k"
      using Suc.prems by (simp add: less_mult_imp_div_less)
    from Suc.IH [OF this] False show ?thesis
      by (subst show_nat.simps) simp
  qed
qed

lemma is_digit_not_NUL: "is_digit c \<Longrightarrow> c \<noteq> NUL"
  by (auto simp: is_digit_def NUL_def)

lemma is_cstring_show_nat [simp]: "is_cstring (show_nat n)"
  using show_nat_digits is_digit_not_NUL by (auto simp: is_cstring_def)

lemma is_cstring_show_int [simp]: "is_cstring (show_int i)"
  by (auto simp: show_int_def NUL_def)

lemma length_show_int: "\<bar>i\<bar> < 10 ^ Suc k \<Longrightarrow> length (show_int i) \<le> k + 2"
proof -
  assume "\<bar>i\<bar> < 10 ^ Suc k"
  then have "int (nat \<bar>i\<bar>) < int (10 ^ Suc k)" by simp
  then have "nat \<bar>i\<bar> < 10 ^ Suc k" by (simp only: of_nat_less_iff)
  from length_show_nat [OF this] show ?thesis
    by (auto simp: show_int_def abs_if split: if_splits)
qed

section \<open>Formatted input\<close>

definition is_space :: "char \<Rightarrow> bool" where
  "is_space c \<longleftrightarrow> c = CHR '' '' \<or> (9 \<le> (of_char c :: nat) \<and> (of_char c :: nat) \<le> 13)"

definition digits_val :: "bytes \<Rightarrow> nat" where
  "digits_val ds = foldl (\<lambda>acc c. 10 * acc + digit_val c) 0 ds"

text \<open>\<open>%d\<close> reads what \<open>strtol\<close> reads, saturated at 64 bits, and stores its low 32 bits.\<close>

definition clamp64 :: "int \<Rightarrow> int" where
  "clamp64 i = max (- (2 ^ 63)) (min (2 ^ 63 - 1) i)"

definition scan_sign :: "bytes \<Rightarrow> bool \<times> bytes" where
  "scan_sign s =
     (case s of
        [] \<Rightarrow> (False, s)
      | c # r \<Rightarrow> if c = CHR ''-'' then (True, r) else if c = CHR ''+'' then (False, r) else (False, s))"

definition scan_d :: "bytes \<Rightarrow> (int \<times> bytes) option" where
  "scan_d s =
     (let (neg, r) = scan_sign (dropWhile is_space s);
          ds = takeWhile is_digit r;
          v = int (digits_val ds)
      in if ds = [] then None
         else Some (to_int32 (clamp64 (if neg then - v else v)), dropWhile is_digit r))"

text \<open>\<open>%Ns\<close>: a nonempty run of at most \<open>n\<close> bytes that are not white space.\<close>

definition scan_s :: "nat \<Rightarrow> bytes \<Rightarrow> (bytes \<times> bytes) option" where
  "scan_s n s =
     (let r = dropWhile is_space s; w = take n (takeWhile (\<lambda>c. \<not> is_space c) r)
      in if w = [] then None else Some (w, drop (length w) r))"

lemma digits_val_append: "digits_val (xs @ [c]) = 10 * digits_val xs + digit_val c"
  by (simp add: digits_val_def)

lemma digits_val_show_nat [simp]: "digits_val (show_nat n) = n"
proof (induction n rule: show_nat.induct)
  case (1 n)
  show ?case
  proof (cases "n < 10")
    case True
    then show ?thesis by (subst show_nat.simps) (simp add: digits_val_def)
  next
    case False
    with 1 show ?thesis by (subst show_nat.simps) (simp add: digits_val_append)
  qed
qed

lemma is_digit_not_space: "is_digit c \<Longrightarrow> \<not> is_space c"
  by (auto simp: is_digit_def is_space_def)

lemma is_digit_not_sign: "is_digit c \<Longrightarrow> c \<noteq> CHR ''-'' \<and> c \<noteq> CHR ''+''"
  by (auto simp: is_digit_def)

lemma takeWhile_digits_show_nat:
  "(r \<noteq> [] \<longrightarrow> \<not> is_digit (hd r)) \<Longrightarrow> takeWhile is_digit (show_nat n @ r) = show_nat n"
  by (cases r) (auto simp: takeWhile_append2 show_nat_digits)

lemma dropWhile_digits_show_nat:
  "(r \<noteq> [] \<longrightarrow> \<not> is_digit (hd r)) \<Longrightarrow> dropWhile is_digit (show_nat n @ r) = r"
  by (cases r) (auto simp: dropWhile_append2 show_nat_digits)

lemma show_nat_head:
  obtains c w where "show_nat n = c # w" "is_digit c"
  by (metis list.exhaust list.set_intros(1) show_nat_digits show_nat_nonempty)

lemma clamp64_id [simp]: "INT_MIN \<le> i \<Longrightarrow> i \<le> INT_MAX \<Longrightarrow> clamp64 i = i"
  by (simp add: clamp64_def INT_MIN_def INT_MAX_def)

text \<open>\<open>%d\<close> reads back what \<open>%d\<close> wrote, with or without white space before it.\<close>

lemma scan_d_show_int:
  assumes "INT_MIN \<le> i" "i \<le> INT_MAX" and r: "r \<noteq> [] \<longrightarrow> \<not> is_digit (hd r)"
  shows "scan_d (show_int i @ r) = Some (i, r)"
proof (cases "i < 0")
  case True
  have minus: "\<not> is_space (CHR ''-'')"
    by (simp add: is_space_def)
  show ?thesis
    using True assms minus
    by (simp add: scan_d_def show_int_def scan_sign_def takeWhile_digits_show_nat
        dropWhile_digits_show_nat)
next
  case False
  obtain c w where cw: "show_nat (nat i) = c # w" "is_digit c"
    by (rule show_nat_head)
  have "dropWhile is_space (show_nat (nat i) @ r) = show_nat (nat i) @ r"
    using cw by (simp add: is_digit_not_space)
  moreover have "scan_sign (show_nat (nat i) @ r) = (False, show_nat (nat i) @ r)"
    using cw is_digit_not_sign by (auto simp: scan_sign_def)
  ultimately show ?thesis
    using False assms
    by (simp add: scan_d_def show_int_def takeWhile_digits_show_nat dropWhile_digits_show_nat)
qed

lemma scan_d_skip_space [simp]: "is_space c \<Longrightarrow> scan_d (c # s) = scan_d s"
  by (simp add: scan_d_def)

lemma scan_d_Nil [simp]: "scan_d [] = None"
  by (simp add: scan_d_def scan_sign_def)

lemma is_space_blank [simp]: "is_space (CHR '' '')"
  by (simp add: is_space_def)

lemma is_digit_blank [simp]: "\<not> is_digit (CHR '' '')"
  by (simp add: is_digit_def)

section \<open>Lists\<close>

lemma take_Suc_nth: "k < length xs \<Longrightarrow> take (Suc k) xs = take k xs @ [xs ! k]"
  by (rule take_Suc_conv_app_nth)

lemma list_update_same_map: "i < length xs \<Longrightarrow> map f (xs[i := y]) = (map f xs)[i := f y]"
  by (rule map_update)

lemma mod_add_cancel_aux:
  "j \<le> i \<Longrightarrow> (i::nat) < n \<Longrightarrow> (h + i) mod n = (h + j) mod n \<Longrightarrow> i = j"
proof -
  assume "j \<le> i" "i < n" "(h + i) mod n = (h + j) mod n"
  then have "n dvd i - j"
    by (simp add: mod_eq_dvd_iff_nat)
  with \<open>i < n\<close> \<open>j \<le> i\<close> show "i = j"
    using dvd_imp_le [of n "i - j"] by fastforce
qed

lemma mod_add_cancel:
  "(i::nat) < n \<Longrightarrow> j < n \<Longrightarrow> (h + i) mod n = (h + j) mod n \<longleftrightarrow> i = j"
  using mod_add_cancel_aux [of j i n h] mod_add_cancel_aux [of i j n h]
  by (cases "j \<le> i") auto

section \<open>System calls\<close>

definition EINTR :: nat where "EINTR = 4"

definition EIO :: nat where "EIO = 5"

text \<open>What a system call answers: its \<open>errno\<close>, or a result.\<close>

datatype 'a sys = Failed nat | Done 'a

text \<open>A loop that repeats an interrupted call, over what the call answers each time; \<open>None\<close> when it was
  interrupted every time.\<close>

fun uninterrupted :: "'a sys list \<Rightarrow> 'a sys option" where
  "uninterrupted [] = None"
| "uninterrupted (Failed e # as) = (if e = EINTR then uninterrupted as else Some (Failed e))"
| "uninterrupted (Done r # as) = Some (Done r)"

end
