(* ===== verification/Boundary.thy ===== *)
theory Boundary
  imports CPrelude
begin

text \<open>
  The result boundary of \<^verbatim>\<open>native/vispython/vispython.c\<close>: every exported call copies a UTF-8 text
  into a buffer the caller owns and sized, and answers its full length.  A text that does not fit
  is kept whole in a per-thread stash for one follow-up \<open>vispython_take_result\<close>.  A raised
  exception leaves through the same door (\<open>vis_py_take_error\<close>).
\<close>

section \<open>State\<close>

text \<open>
  What one call on one thread sees: the caller's buffer (\<open>None\<close> is a null pointer) and this
  thread's stash.  \<open>malloc_ok\<close> and \<open>pyalloc_ok\<close> say which allocations succeed.
\<close>

record caller =
  out_buf :: "bytes option"
  stash :: "bytes option"

record allocator =
  malloc_ok :: "nat \<Rightarrow> bool"
  pyalloc_ok :: "nat \<Rightarrow> bool"

definition VIS_PY_ERR_BUFFER :: int where
  "VIS_PY_ERR_BUFFER = - 1"

definition VIS_PY_ERR_INIT :: int where
  "VIS_PY_ERR_INIT = - 2"

definition VIS_PY_ERR_PYTHON :: int where
  "VIS_PY_ERR_PYTHON = - 3"

lemmas status_defs = VIS_PY_ERR_BUFFER_def VIS_PY_ERR_INIT_def VIS_PY_ERR_PYTHON_def

section \<open>Stash and copy-out\<close>

definition vis_py_stash :: "allocator \<Rightarrow> bytes option \<Rightarrow> caller \<Rightarrow> caller" where
  "vis_py_stash E s c =
     c\<lparr>stash := (case s of None \<Rightarrow> None
                | Some t \<Rightarrow> if malloc_ok E (length t + 1) then Some t else None)\<rparr>"

definition vis_py_copy_out :: "allocator \<Rightarrow> bytes \<Rightarrow> int \<Rightarrow> caller \<Rightarrow> int \<times> caller" where
  "vis_py_copy_out E s cap c =
     (case out_buf c of
        None \<Rightarrow> (VIS_PY_ERR_BUFFER, c)
      | Some b \<Rightarrow>
          if cap \<le> 0 then (VIS_PY_ERR_BUFFER, c)
          else
            let n = to_int32 (int (length s)) in
            if n > cap - 1 then
              (n, (vis_py_stash E (Some s) c)
                    \<lparr>out_buf := Some (overlay (take (nat (cap - 1)) s @ [NUL]) b)\<rparr>)
            else
              (n, (vis_py_stash E None c)
                    \<lparr>out_buf := Some (overlay (take (nat n) s @ [NUL]) b)\<rparr>))"

definition vispython_take_result :: "int \<Rightarrow> caller \<Rightarrow> int \<times> caller" where
  "vispython_take_result cap c =
     (case out_buf c of
        None \<Rightarrow> (VIS_PY_ERR_BUFFER, c)
      | Some b \<Rightarrow>
          if cap \<le> 0 then (VIS_PY_ERR_BUFFER, c)
          else
            (case stash c of
               None \<Rightarrow> (0, c\<lparr>out_buf := Some (overlay [NUL] b)\<rparr>)
             | Some kept \<Rightarrow>
                 let n = to_int32 (int (length kept)) in
                 if n > cap - 1 then (VIS_PY_ERR_BUFFER, c)
                 else (n, c\<lparr>out_buf := Some (overlay (take (nat n) kept @ [NUL]) b),
                            stash := None\<rparr>)))"

section \<open>Exceptions\<close>

text \<open>
  A Python string as the boundary sees it: the UTF-8 bytes \<open>PyUnicode_AsUTF8\<close> answers, or \<open>None\<close>
  when it holds lone surrogates and has none.  C code reads those bytes up to the first NUL.  An
  exception is its type's name, the result of \<open>str\<close> on it (\<open>None\<close> when that raises) and whether
  its type derives from \<open>Exception\<close>.
\<close>

type_synonym pystr = "bytes option"

record exc =
  tp_name :: bytes
  exc_str :: "pystr option"
  is_exception :: bool

text \<open>The pending exception of a thread state is an \<open>exc option\<close>; taking it leaves none.\<close>

definition vis_py_error_text :: "allocator \<Rightarrow> exc \<Rightarrow> pystr option" where
  "vis_py_error_text E x =
     (case exc_str x of
        None \<Rightarrow> None
      | Some t \<Rightarrow>
          if t = Some [] then
            (if pyalloc_ok E (length (tp_name x)) then Some (Some (tp_name x)) else None)
          else
            (if pyalloc_ok E (length (tp_name x) + 2)
             then Some (case t of None \<Rightarrow> None | Some u \<Rightarrow> Some (tp_name x @ '': '' @ u))
             else Some t))"

definition utf8_or :: "bytes \<Rightarrow> pystr option \<Rightarrow> bytes" where
  "utf8_or fallback t = (case t of Some (Some u) \<Rightarrow> cstr_of u | _ \<Rightarrow> fallback)"

definition vis_py_take_error ::
  "allocator \<Rightarrow> exc option \<Rightarrow> int \<Rightarrow> caller \<Rightarrow> int \<times> exc option \<times> caller" where
  "vis_py_take_error E pending cap c =
     (case pending of
        None \<Rightarrow>
          (let (r, c') = vis_py_copy_out E ''Python failed without raising'' cap c in (r, None, c'))
      | Some x \<Rightarrow>
          (let (r, c') = vis_py_copy_out E
                 (utf8_or ''unprintable Python exception'' (vis_py_error_text E x)) cap c
           in (r, None, c')))"

section \<open>Lemmas\<close>

text \<open>A call stays inside its buffer: nothing at or behind \<open>cap\<close> changes, and no byte is added.\<close>

definition within_cap :: "int \<Rightarrow> caller \<Rightarrow> caller \<Rightarrow> bool" where
  "within_cap cap c c' \<longleftrightarrow>
     (case out_buf c of
        None \<Rightarrow> out_buf c' = None
      | Some b \<Rightarrow> (\<exists>b'. out_buf c' = Some b' \<and> length b' = length b \<and>
                        drop (nat cap) b' = drop (nat cap) b))"

definition buffer_of :: "int \<Rightarrow> caller \<Rightarrow> bool" where
  "buffer_of cap c \<longleftrightarrow> (case out_buf c of None \<Rightarrow> True | Some b \<Rightarrow> cap \<le> int (length b))"

lemma vis_py_stash_simps [simp]:
  "out_buf (vis_py_stash E s c) = out_buf c"
  "stash (vis_py_stash E None c) = None"
  by (simp_all add: vis_py_stash_def)

lemma stash_vis_py_stash:
  "malloc_ok E (length t + 1) \<Longrightarrow> stash (vis_py_stash E (Some t) c) = Some t"
  by (simp add: vis_py_stash_def)

lemma copy_out_null [simp]: "out_buf c = None \<Longrightarrow> vis_py_copy_out E s cap c = (VIS_PY_ERR_BUFFER, c)"
  by (simp add: vis_py_copy_out_def)

lemma copy_out_no_room [simp]: "cap \<le> 0 \<Longrightarrow> vis_py_copy_out E s cap c = (VIS_PY_ERR_BUFFER, c)"
  by (simp add: vis_py_copy_out_def split: option.split)

lemma copy_out_fits:
  assumes "out_buf c = Some b" "int (length s) < cap" "int (length s) \<le> INT_MAX"
  shows "vis_py_copy_out E s cap c =
           (int (length s), c\<lparr>stash := None, out_buf := Some (overlay (s @ [NUL]) b)\<rparr>)"
  using assms by (simp add: vis_py_copy_out_def Let_def vis_py_stash_def)

lemma copy_out_truncates:
  assumes "out_buf c = Some b" "0 < cap" "cap \<le> int (length s)" "int (length s) \<le> INT_MAX"
  shows "vis_py_copy_out E s cap c =
           (int (length s), (vis_py_stash E (Some s) c)
              \<lparr>out_buf := Some (overlay (take (nat (cap - 1)) s @ [NUL]) b)\<rparr>)"
  using assms by (simp add: vis_py_copy_out_def Let_def)

lemma overlay_within_cap:
  assumes "out_buf c = Some b" "int (length xs) \<le> cap" "cap \<le> int (length b)"
    and "out_buf c' = Some (overlay xs b)"
  shows "within_cap cap c c'"
proof -
  have "length xs \<le> length b" "length xs \<le> nat cap"
    using assms by linarith+
  with assms show ?thesis by (simp add: within_cap_def)
qed

lemma copy_out_within_cap [keeps]:
  assumes len: "int (length s) \<le> INT_MAX" and buf: "buffer_of cap c"
    and eq: "vis_py_copy_out E s cap c = (r, c')"
  shows "within_cap cap c c'"
proof (cases "out_buf c")
  case None
  with eq show ?thesis by (simp add: within_cap_def)
next
  case (Some b)
  show ?thesis
  proof (cases "cap \<le> 0")
    case True
    with eq Some show ?thesis by (simp add: within_cap_def)
  next
    case False
    show ?thesis
    proof (cases "int (length s) < cap")
      case True
      with eq Some len buf copy_out_fits [OF Some True len]
      show ?thesis
        by (intro overlay_within_cap [where xs = "s @ [NUL]" and b = b])
           (auto simp: buffer_of_def)
    next
      case ge: False
      with eq Some len buf False copy_out_truncates [OF Some _ _ len]
      show ?thesis
        by (intro overlay_within_cap [where xs = "take (nat (cap - 1)) s @ [NUL]" and b = b])
           (auto simp: buffer_of_def)
    qed
  qed
qed

lemma copy_out_nonneg:
  assumes "int (length s) \<le> INT_MAX" "vis_py_copy_out E s cap c = (r, c')" "0 \<le> r"
  shows "r = int (length s)"
  using assms
  by (auto simp: vis_py_copy_out_def Let_def VIS_PY_ERR_BUFFER_def split: option.splits if_splits)

section \<open>Properties\<close>

text \<open>C33: The two-step result protocol hands over every text whole. When the answered length is below
  the capacity the buffer holds the text and nothing waits in the stash; otherwise the text waits,
  and one \<open>vispython_take_result\<close> with a buffer of the answered length plus one returns all of it
  and empties the stash. So a block never has to run a second time for its answer.\<close>

theorem result_protocol_roundtrip:
  assumes buf: "out_buf c = Some b" "0 < cap" "cap \<le> int (length b)"
    and s: "is_cstring s" "int (length s) < INT_MAX" "malloc_ok E (length s + 1)"
    and call: "vis_py_copy_out E s cap c = (r, c1)"
    and buf2: "r + 1 \<le> int (length b2)"
  shows "r = int (length s) \<and>
    (if r < cap then cstr_of (the (out_buf c1)) = s \<and> stash c1 = None
     else \<exists>b3. vispython_take_result (r + 1) (c1\<lparr>out_buf := Some b2\<rparr>)
                  = (r, c1\<lparr>out_buf := Some b3, stash := None\<rparr>)
                \<and> cstr_of b3 = s \<and> length b3 = length b2)"
proof (cases "int (length s) < cap")
  case True
  with copy_out_fits [OF buf(1) True] s call show ?thesis by auto
next
  case False
  then have c1: "r = int (length s)"
    "c1 = (vis_py_stash E (Some s) c)\<lparr>out_buf := Some (overlay (take (nat (cap - 1)) s @ [NUL]) b)\<rparr>"
    using copy_out_truncates [OF buf(1,2), of s E] s call by auto
  have "stash c1 = Some s"
    using c1 s by (simp add: stash_vis_py_stash)
  then have "vispython_take_result (r + 1) (c1\<lparr>out_buf := Some b2\<rparr>)
      = (r, c1\<lparr>out_buf := Some (overlay (s @ [NUL]) b2), stash := None\<rparr>)"
    using c1 s by (simp add: vispython_take_result_def Let_def)
  then show ?thesis using c1 s buf2 False by auto
qed

theorem result_protocol_roundtrip_witness:
  "\<exists>c1. vis_py_copy_out \<lparr>malloc_ok = \<lambda>_. True, pyalloc_ok = \<lambda>_. True\<rparr> ''hello'' 4
      \<lparr>out_buf = Some ''xxxx'', stash = None\<rparr> = (5, c1)
    \<and> (\<exists>b3. vispython_take_result 6 (c1\<lparr>out_buf := Some ''yyyyyy''\<rparr>)
           = (5, c1\<lparr>out_buf := Some b3, stash := None\<rparr>) \<and> cstr_of b3 = ''hello'')"
proof -
  let ?E = "\<lparr>malloc_ok = \<lambda>_. True, pyalloc_ok = \<lambda>_. True\<rparr>"
  let ?c = "\<lparr>out_buf = Some ''xxxx'', stash = None\<rparr>"
  obtain c1 where c1: "vis_py_copy_out ?E ''hello'' 4 ?c = (5, c1)"
    by (simp add: vis_py_copy_out_def INT_MIN_def INT_MAX_def)
  have s: "is_cstring ''hello''" "int (length ''hello'') < INT_MAX"
    by (simp_all add: NUL_def INT_MAX_def)
  from result_protocol_roundtrip [OF _ _ _ s _ c1, of "''xxxx''" "''yyyyyy''"]
  show ?thesis using c1 by auto
qed

end
