(* ===== verification/Paths.thy ===== *)
theory Paths
  imports Boundary
begin

text \<open>
  Path canonicalisation and the root comparison of \<^verbatim>\<open>native/vispython/vispython.c\<close>.  The operating
  system's \<open>realpath\<close> and \<open>getcwd\<close> are parameters: \<open>rp p\<close> is the resolved path or \<open>None\<close> when the call
  fails.  The lemmas relate the byte comparison to the components of canonical paths and describe
  what canonicalisation of a missing path answers.
\<close>

section \<open>Constants\<close>

definition PATH_MAX :: nat where
  "PATH_MAX = 4096"

definition SLASH :: char where
  "SLASH = CHR ''/''"

text \<open>\<open>strrchr (s, '/')\<close> as an index.\<close>

fun last_slash :: "bytes \<Rightarrow> nat option" where
  "last_slash [] = None"
| "last_slash (c # s) =
     (case last_slash s of Some k \<Rightarrow> Some (Suc k) | None \<Rightarrow> if c = SLASH then Some 0 else None)"

lemma last_slash_less: "last_slash s = Some k \<Longrightarrow> k < length s"
  by (induction s arbitrary: k) (auto split: option.splits if_splits)

lemma last_slash_nth: "last_slash s = Some k \<Longrightarrow> s ! k = SLASH"
  by (induction s arbitrary: k) (auto split: option.splits if_splits)

lemma last_slash_None [simp]: "last_slash s = None \<longleftrightarrow> SLASH \<notin> set s"
  by (induction s) (auto split: option.splits)

lemma last_slash_after: "last_slash s = Some k \<Longrightarrow> SLASH \<notin> set (drop (Suc k) s)"
  by (induction s arbitrary: k) (auto split: option.splits if_splits)

lemma last_slash_split:
  "last_slash s = Some k \<Longrightarrow> s = take k s @ SLASH # drop (Suc k) s"
  using last_slash_less last_slash_nth id_take_nth_drop by metis

lemma last_slash_append: "SLASH \<notin> set q \<Longrightarrow> last_slash (p @ SLASH # q) = Some (length p)"
proof (induction p)
  case Nil
  then have none: "last_slash q = None" by simp
  show ?case by (simp only: append.simps last_slash.simps none option.case) simp
next
  case (Cons c p)
  then show ?case by simp
qed

section \<open>Canonicalisation\<close>

text \<open>
  The loop of \<open>vis_py_canonical\<close>: resolve \<open>work\<close>; while that fails move its last component to the
  front of \<open>tail\<close>.  Answers the resolved ancestor and the missing tail.
\<close>

definition push_piece :: "bytes \<Rightarrow> bytes \<Rightarrow> bytes" where
  "push_piece piece tail = (if tail = [] then piece else piece @ SLASH # tail)"

function canonical_loop ::
  "(bytes \<Rightarrow> bytes option) \<Rightarrow> bytes \<Rightarrow> bytes \<Rightarrow> (bytes \<times> bytes) option" where
  "canonical_loop rp work tail =
     (case rp work of
        Some resolved \<Rightarrow> Some (resolved, tail)
      | None \<Rightarrow>
          (case last_slash work of
             None \<Rightarrow> None
           | Some k \<Rightarrow>
               let piece = drop (Suc k) work in
               if length piece + length tail + 2 \<ge> PATH_MAX then None
               else
                 let tail' = push_piece piece tail in
                 if k = 0 then
                   (case rp [SLASH] of None \<Rightarrow> None | Some resolved \<Rightarrow> Some (resolved, tail'))
                 else canonical_loop rp (take k work) tail'))"
  by pat_completeness auto
termination
  by (relation "measure (\<lambda>(rp, work, tail). length work)") (auto dest: last_slash_less)

declare canonical_loop.simps [simp del]

definition join_tail :: "bytes \<Rightarrow> bytes \<Rightarrow> bytes" where
  "join_tail resolved tail =
     (if tail = [] then resolved
      else resolved @ (if length resolved \<le> 1 then [] else [SLASH]) @ tail)"

definition vis_py_canonical ::
  "(bytes \<Rightarrow> bytes option) \<Rightarrow> bytes option \<Rightarrow> bytes option \<Rightarrow> nat \<Rightarrow> bytes option" where
  "vis_py_canonical rp cwd path cap =
     (case path of
        None \<Rightarrow> None
      | Some p \<Rightarrow>
          if p = [] then None
          else
            (case (if hd p = SLASH then (if length p \<ge> PATH_MAX then None else Some p)
                   else (case cwd of
                           None \<Rightarrow> None
                         | Some d \<Rightarrow> if length (d @ SLASH # p) \<ge> PATH_MAX then None
                                     else Some (d @ SLASH # p))) of
               None \<Rightarrow> None
             | Some work \<Rightarrow>
                 (case canonical_loop rp work [] of
                    None \<Rightarrow> None
                  | Some (resolved, tail) \<Rightarrow>
                      if length (join_tail resolved tail) < cap
                      then Some (join_tail resolved tail) else None)))"

section \<open>Under a root\<close>

definition under_one :: "bytes \<Rightarrow> bytes \<Rightarrow> bool" where
  "under_one path root \<longleftrightarrow>
     take (length root) path = root
     \<and> (length path = length root \<or> path ! length root = SLASH
        \<or> (length root > 0 \<and> last root = SLASH))"

definition vis_py_under :: "bytes \<Rightarrow> bytes list \<Rightarrow> bool" where
  "vis_py_under path roots = list_ex (under_one path) roots"

section \<open>Components\<close>

text \<open>The canonical absolute path with the given components; \<open>/\<close> has none.\<close>

definition path_of :: "bytes list \<Rightarrow> bytes" where
  "path_of cs = (if cs = [] then [SLASH] else concat (map (\<lambda>c. SLASH # c) cs))"

definition component :: "bytes \<Rightarrow> bool" where
  "component c \<longleftrightarrow> c \<noteq> [] \<and> SLASH \<notin> set c"

lemma path_of_Cons: "path_of (c # cs) = SLASH # c @ (if cs = [] then [] else path_of cs)"
  by (simp add: path_of_def)

lemma path_of_append:
  "cs \<noteq> [] \<Longrightarrow> ds \<noteq> [] \<Longrightarrow> path_of (cs @ ds) = path_of cs @ path_of ds"
  by (simp add: path_of_def)

lemma path_of_hd [simp]: "hd (path_of cs) = SLASH"
  by (cases cs) (auto simp: path_of_def)

lemma path_of_ne [simp]: "path_of cs \<noteq> []"
  by (cases cs) (auto simp: path_of_def)

lemma component_prefix_eq:
  assumes "SLASH \<notin> set a" "SLASH \<notin> set b" "a @ SLASH # x = b @ SLASH # y"
  shows "a = b \<and> x = y"
  using assms
proof (induction a arbitrary: b)
  case Nil
  then show ?case by (cases b) auto
next
  case (Cons c a)
  then show ?case by (cases b) auto
qed

text \<open>What follows a component in a canonical path is empty or starts with a slash.\<close>

lemma component_extend:
  assumes "SLASH \<notin> set a" "SLASH \<notin> set b" "a @ x = b @ y"
    and "x = [] \<or> hd x = SLASH" "y = [] \<or> hd y = SLASH"
  shows "a = b \<and> x = y"
proof (cases "x = [] \<or> y = []")
  case True
  then show ?thesis
  proof
    assume "x = []"
    with assms have "a = b @ y" by simp
    with assms have "y = []" by (cases y) auto
    with \<open>x = []\<close> assms show ?thesis by simp
  next
    assume "y = []"
    with assms have "b = a @ x" by simp
    with assms have "x = []" by (cases x) auto
    with \<open>y = []\<close> assms show ?thesis by simp
  qed
next
  case False
  then obtain x' y' where "x = SLASH # x'" "y = SLASH # y'"
    using assms by (cases x; cases y) auto
  with component_prefix_eq [of a b x' y'] assms show ?thesis by simp
qed

lemma path_of_prefix:
  assumes "\<forall>c \<in> set rs. component c" "\<forall>c \<in> set cs. component c" "rs \<noteq> []"
    and "path_of cs = path_of rs @ z" "z = [] \<or> hd z = SLASH"
  shows "prefix rs cs"
  using assms
proof (induction rs arbitrary: cs)
  case Nil
  then show ?case by simp
next
  case (Cons r rs)
  obtain c cs' where cs: "cs = c # cs'"
  proof (cases cs)
    case Nil
    with Cons.prems show thesis by (auto simp: path_of_def component_def split: if_splits)
  qed (use that in blast)
  let ?x = "if cs' = [] then [] else path_of cs'" and ?y = "(if rs = [] then [] else path_of rs) @ z"
  have "c @ ?x = r @ ?y"
    using Cons.prems(4) cs by (simp add: path_of_Cons split: if_splits)
  moreover have "?x = [] \<or> hd ?x = SLASH" "?y = [] \<or> hd ?y = SLASH"
    using Cons.prems(5) by auto
  ultimately have eq: "c = r \<and> ?x = ?y"
    using Cons.prems(1,2) cs by (intro component_extend) (auto simp: component_def)
  show ?case
  proof (cases "rs = []")
    case True
    with eq cs show ?thesis by simp
  next
    case False
    then have "cs' \<noteq> []" "path_of cs' = path_of rs @ z" using eq by (auto split: if_splits)
    with Cons.IH [of cs'] Cons.prems cs eq False show ?thesis by simp
  qed
qed

text \<open>On canonical paths the byte test is exactly "is the root or lies below it".\<close>

lemma under_one_components:
  assumes "\<forall>c \<in> set rs. component c" "\<forall>c \<in> set cs. component c"
  shows "under_one (path_of cs) (path_of rs) \<longleftrightarrow> prefix rs cs"
proof (cases "rs = []")
  case True
  then show ?thesis by (cases cs) (auto simp: under_one_def path_of_def)
next
  case ne: False
  have last: "last (path_of rs) \<noteq> SLASH"
  proof -
    obtain c where c: "rs = butlast rs @ [c]" "component c"
      using ne assms(1) by (metis append_butlast_last_id last_in_set)
    have "path_of (bs @ [c]) = concat (map (\<lambda>c. SLASH # c) bs) @ SLASH # c" for bs
      by (simp add: path_of_def)
    then have "path_of rs = concat (map (\<lambda>c. SLASH # c) (butlast rs)) @ SLASH # c"
      using c(1) by metis
    then have "last (path_of rs) = last c" using c by (simp add: component_def)
    with c show ?thesis by (metis component_def last_in_set)
  qed
  show ?thesis
  proof
    assume u: "under_one (path_of cs) (path_of rs)"
    let ?z = "drop (length (path_of rs)) (path_of cs)"
    from u have eq: "path_of cs = path_of rs @ ?z"
      by (metis under_one_def append_take_drop_id)
    have "?z = [] \<or> hd ?z = SLASH"
    proof (cases "length (path_of cs) = length (path_of rs)")
      case True
      then show ?thesis by simp
    next
      case False
      have "length (path_of rs) \<le> length (path_of cs)"
        using eq by (metis length_append le_add1)
      with False have "length (path_of rs) < length (path_of cs)" by simp
      with u last False show ?thesis by (auto simp: under_one_def hd_drop_conv_nth)
    qed
    with path_of_prefix [OF assms ne eq] show "prefix rs cs" by blast
  next
    assume "prefix rs cs"
    then obtain ds where ds: "cs = rs @ ds" by (auto simp: prefix_def)
    show "under_one (path_of cs) (path_of rs)"
    proof (cases "ds = []")
      case True
      with ds show ?thesis by (simp add: under_one_def)
    next
      case False
      with ds ne have eq: "path_of cs = path_of rs @ path_of ds" by (simp add: path_of_append)
      moreover have "path_of ds ! 0 = SLASH" by (metis hd_conv_nth path_of_hd path_of_ne)
      ultimately show ?thesis by (simp add: under_one_def nth_append)
    qed
  qed
qed

section \<open>What canonicalisation answers\<close>

text \<open>The tail never keeps the slashes a path ends with.\<close>

definition strip_slashes :: "bytes \<Rightarrow> bytes" where
  "strip_slashes s = rev (dropWhile (\<lambda>c. c = SLASH) (rev s))"

lemma strip_slashes_Nil [simp]: "strip_slashes [] = []"
  by (simp add: strip_slashes_def)

lemma strip_slashes_no_slash: "SLASH \<notin> set s \<Longrightarrow> strip_slashes s = s"
  by (cases s rule: rev_cases) (auto simp: strip_slashes_def)

lemma strip_slashes_push:
  assumes "SLASH \<notin> set piece"
  shows "strip_slashes (piece @ SLASH # rest) = push_piece piece (strip_slashes rest)"
proof (cases "\<exists>c \<in> set rest. c \<noteq> SLASH")
  case True
  then have "dropWhile (\<lambda>c. c = SLASH) (rev rest @ SLASH # rev piece)
      = dropWhile (\<lambda>c. c = SLASH) (rev rest) @ SLASH # rev piece"
    by (auto simp: dropWhile_append)
  moreover from True have "dropWhile (\<lambda>c. c = SLASH) (rev rest) \<noteq> []"
    by (auto simp: dropWhile_eq_Nil_conv)
  ultimately show ?thesis by (simp add: strip_slashes_def push_piece_def)
next
  case False
  then have all: "dropWhile (\<lambda>c. c = SLASH) (rev rest) = []" by (auto simp: dropWhile_eq_Nil_conv)
  then have "strip_slashes (piece @ SLASH # rest) = strip_slashes piece"
    by (simp add: strip_slashes_def dropWhile_append)
  moreover have "strip_slashes rest = []" using all by (simp add: strip_slashes_def)
  ultimately show ?thesis using assms by (simp add: strip_slashes_no_slash push_piece_def)
qed

text \<open>\<open>k\<close> is the end of a leading part of \<open>w\<close>: the whole of it or the place of a slash.\<close>

definition path_cut :: "bytes \<Rightarrow> nat \<Rightarrow> bool" where
  "path_cut w k \<longleftrightarrow> k = length w \<or> k < length w \<and> w ! k = SLASH"

definition ancestor :: "bytes \<Rightarrow> nat \<Rightarrow> bytes" where
  "ancestor w k = (if k = 0 then [SLASH] else take k w)"

lemma no_cut_between:
  assumes "last_slash (take k w) = Some j" "path_cut w k" "k \<le> length w" "j < i" "i < k"
  shows "\<not> path_cut w i"
proof
  assume "path_cut w i"
  with assms(3,5) have "i < length w" "w ! i = SLASH" by (auto simp: path_cut_def)
  then have "take k w ! i = SLASH" "i < length (take k w)" using assms(3,5) by auto
  moreover from this have "drop (Suc j) (take k w) ! (i - Suc j) = take k w ! i"
    "i - Suc j < length (drop (Suc j) (take k w))"
    using assms(4) by auto
  ultimately have "SLASH \<in> set (drop (Suc j) (take k w))"
    by (metis nth_mem)
  with last_slash_after [OF assms(1)] show False by blast
qed

lemma canonical_loop_spec:
  assumes "canonical_loop rp (take k w) tail = Some (resolved, rest)" "path_cut w k" "0 < k"
    and "tail = strip_slashes (drop (Suc k) w)"
    and "\<forall>i. k < i \<and> path_cut w i \<longrightarrow> rp (take i w) = None"
  shows "\<exists>j \<le> k. path_cut w j \<and> rp (ancestor w j) = Some resolved
    \<and> rest = strip_slashes (drop (Suc j) w)
    \<and> (\<forall>i. j < i \<and> path_cut w i \<longrightarrow> rp (take i w) = None)"
  using assms
proof (induction k arbitrary: tail rule: less_induct)
  case (less k)
  have le: "k \<le> length w" using less.prems(2) by (auto simp: path_cut_def)
  show ?case
  proof (cases "rp (take k w)")
    case (Some r)
    with less.prems show ?thesis
      by (intro exI [of _ k]) (auto simp: canonical_loop.simps ancestor_def)
  next
    case None
    then obtain j where j: "last_slash (take k w) = Some j"
      using less.prems(1)
      by (subst (asm) canonical_loop.simps) (auto split: option.splits)
    let ?piece = "drop (Suc j) (take k w)"
    have jk: "j < k" using last_slash_less [OF j] le by simp
    have cut: "path_cut w j" using last_slash_nth [OF j] jk le by (simp add: path_cut_def)
    have tail': "push_piece ?piece tail = strip_slashes (drop (Suc j) w)"
    proof (cases "k = length w")
      case True
      then show ?thesis
        using less.prems(4) last_slash_after [OF j]
        by (simp add: push_piece_def strip_slashes_no_slash)
    next
      case False
      then have "k < length w" "w ! k = SLASH" using less.prems(2) le by (auto simp: path_cut_def)
      then have "drop (Suc j) w = ?piece @ SLASH # drop (Suc k) w"
        using jk by (metis Cons_nth_drop_Suc Suc_leI append_take_drop_id drop_append
            drop_take le_add_diff_inverse drop_drop add.commute)
      then show ?thesis
        using strip_slashes_push [OF last_slash_after [OF j]] less.prems(4) by simp
    qed
    have below: "\<forall>i. j < i \<and> path_cut w i \<longrightarrow> rp (take i w) = None"
    proof (intro allI impI)
      fix i assume i: "j < i \<and> path_cut w i"
      with no_cut_between [OF j less.prems(2) le] have "\<not> i < k" by blast
      then show "rp (take i w) = None" using less.prems(5) None i by (cases "i = k") auto
    qed
    have step: "(if j = 0 then (case rp [SLASH] of None \<Rightarrow> None
             | Some resolved \<Rightarrow> Some (resolved, push_piece ?piece tail))
         else canonical_loop rp (take j w) (push_piece ?piece tail)) = Some (resolved, rest)"
      using less.prems(1) None j jk
      by (subst (asm) canonical_loop.simps) (auto simp: Let_def min_def split: if_splits)
    show ?thesis
    proof (cases "j = 0")
      case True
      with step tail' cut below show ?thesis
        by (intro exI [of _ 0]) (auto simp: ancestor_def split: option.splits)
    next
      case False
      with step have "canonical_loop rp (take j w) (push_piece ?piece tail) = Some (resolved, rest)"
        by simp
      from less.IH [OF jk this cut _ tail' below] False obtain i where
        "i \<le> j \<and> path_cut w i \<and> rp (ancestor w i) = Some resolved
          \<and> rest = strip_slashes (drop (Suc i) w)
          \<and> (\<forall>i'. i < i' \<and> path_cut w i' \<longrightarrow> rp (take i' w) = None)"
        by auto
      with jk show ?thesis by (intro exI [of _ i]) auto
    qed
  qed
qed

lemma canonical_loop_whole:
  assumes "canonical_loop rp w [] = Some (resolved, rest)" "w \<noteq> []"
  shows "\<exists>j. path_cut w j \<and> rp (ancestor w j) = Some resolved
    \<and> rest = strip_slashes (drop (Suc j) w)
    \<and> (\<forall>i. j < i \<and> path_cut w i \<longrightarrow> rp (take i w) = None)"
proof -
  have "canonical_loop rp (take (length w) w) [] = Some (resolved, rest)" using assms by simp
  moreover have "path_cut w (length w)" "0 < length w" "[] = strip_slashes (drop (Suc (length w)) w)"
    using assms by (simp_all add: path_cut_def)
  moreover have "\<forall>i. length w < i \<and> path_cut w i \<longrightarrow> rp (take i w) = None"
    by (auto simp: path_cut_def)
  ultimately show ?thesis using canonical_loop_spec by blast
qed

lemma canonical_existing:
  assumes "hd p = SLASH" "p \<noteq> []" "length p < PATH_MAX" "rp p = Some r" "length r < cap"
  shows "vis_py_canonical rp cwd (Some p) cap = Some r"
  using assms by (simp add: vis_py_canonical_def canonical_loop.simps join_tail_def)

lemma under_components:
  assumes "\<forall>rs \<in> set roots. \<forall>c \<in> set rs. component c" "\<forall>c \<in> set cs. component c"
  shows "vis_py_under (path_of cs) (map path_of roots) \<longleftrightarrow> (\<exists>rs \<in> set roots. prefix rs cs)"
  using assms under_one_components by (auto simp: vis_py_under_def list_ex_iff)

section \<open>Properties\<close>

text \<open>C26: A canonical path is the deepest ancestor of the asked path that resolves, resolved by the
  operating system (so free of symbolic links), followed by the part of the path behind that
  ancestor as it was written, and it is shorter than the buffer. A relative path is taken from the
  working directory. No longer leading part of the path resolves.\<close>

theorem canonical_deepest_ancestor:
  assumes "vis_py_canonical rp cwd (Some p) cap = Some q"
  shows "\<exists>w j r. w = (if hd p = SLASH then p else the cwd @ SLASH # p)
    \<and> path_cut w j \<and> rp (ancestor w j) = Some r
    \<and> q = join_tail r (strip_slashes (drop (Suc j) w))
    \<and> (\<forall>i. j < i \<and> path_cut w i \<longrightarrow> rp (take i w) = None) \<and> length q < cap"
proof -
  let ?w = "if hd p = SLASH then p else the cwd @ SLASH # p"
  have p: "p \<noteq> []" using assms by (auto simp: vis_py_canonical_def)
  then have w: "?w \<noteq> []" by simp
  obtain r rest where loop: "canonical_loop rp ?w [] = Some (r, rest)"
    and q: "q = join_tail r rest" "length q < cap"
    using assms p
    by (auto simp: vis_py_canonical_def split: option.splits if_splits)
  from canonical_loop_whole [OF loop w] q show ?thesis by blast
qed

theorem canonical_deepest_ancestor_witness:
  "vis_py_canonical (\<lambda>p. if p = ''/a'' then Some ''/real/a'' else None) (Some ''/a'') (Some ''b/c'') 4096
     = Some ''/real/a/b/c''
   \<and> (\<exists>j. path_cut ''/a/b/c'' j \<and> ''/real/a/b/c'' = join_tail ''/real/a'' (strip_slashes (drop (Suc j) ''/a/b/c'')))"
proof -
  let ?rp = "\<lambda>p. if p = ''/a'' then Some ''/real/a'' else None"
  have run: "vis_py_canonical ?rp (Some ''/a'') (Some ''b/c'') 4096 = Some ''/real/a/b/c''"
    by (simp add: vis_py_canonical_def canonical_loop.simps join_tail_def push_piece_def SLASH_def PATH_MAX_def)
  from canonical_deepest_ancestor [OF this] obtain j r where
    "path_cut ''/a/b/c'' j" "?rp (ancestor ''/a/b/c'' j) = Some r"
    "''/real/a/b/c'' = join_tail r (strip_slashes (drop (Suc j) ''/a/b/c''))"
    by (auto simp: SLASH_def)
  then show ?thesis using run by (auto split: if_splits)
qed

text \<open>C29: On canonical paths the byte comparison of the boundary is exactly containment in a root: a
  path is accepted if and only if the components of some root are the first components of the path.
  A sibling that merely shares the first bytes of a root is not accepted.\<close>

theorem under_is_component_prefix:
  assumes "\<forall>rs \<in> set roots. \<forall>c \<in> set rs. component c" "\<forall>c \<in> set cs. component c"
  shows "vis_py_under (path_of cs) (map path_of roots) \<longleftrightarrow> (\<exists>rs \<in> set roots. prefix rs cs)"
  using assms by (rule under_components)

theorem under_is_component_prefix_witness:
  "vis_py_under ''/work/src/x'' [''/tmp'', ''/work/src''] \<and> \<not> vis_py_under ''/work/srcs'' [''/tmp'', ''/work/src'']"
proof -
  have c: "\<forall>rs \<in> set [[''tmp''], [''work'', ''src'']]. \<forall>c \<in> set rs. component c"
    "\<forall>c \<in> set [''work'', ''src'', ''x'']. component c" "\<forall>c \<in> set [''work'', ''srcs'']. component c"
    by (simp_all add: component_def SLASH_def)
  show ?thesis
    using under_is_component_prefix [OF c(1,2)] under_is_component_prefix [OF c(1,3)]
    by (simp add: path_of_def SLASH_def)
qed

end
