(* ===== verification/EventLog.thy ===== *)
theory EventLog
  imports Boundary
begin

text \<open>
  The diagnostics ring of \<^verbatim>\<open>native/vispython/vispython.c\<close>: a fixed array of slots that overwrites its
  oldest record and counts what it dropped, and the drain that hands the waiting records to the
  host.  The abstract contract is a bounded queue; the array code is shown to implement it.
\<close>

section \<open>State\<close>

definition VIS_PY_LOG_SLOTS :: nat where
  "VIS_PY_LOG_SLOTS = 1024"

definition VIS_PY_LOG_LINE :: nat where
  "VIS_PY_LOG_LINE = 256"

definition VIS_PY_LOG_OFF :: nat where "VIS_PY_LOG_OFF = 0"

definition VIS_PY_LOG_WARN :: nat where "VIS_PY_LOG_WARN = 1"

definition VIS_PY_LOG_INFO :: nat where "VIS_PY_LOG_INFO = 2"

definition VIS_PY_LOG_DEBUG :: nat where "VIS_PY_LOG_DEBUG = 3"

definition vis_py_log_levels :: "bytes list" where
  "vis_py_log_levels = [''off'', ''warn'', ''info'', ''debug'']"

lemmas log_consts = VIS_PY_LOG_SLOTS_def VIS_PY_LOG_LINE_def VIS_PY_LOG_OFF_def VIS_PY_LOG_WARN_def
  VIS_PY_LOG_INFO_def VIS_PY_LOG_DEBUG_def

text \<open>\<open>stderr_lines\<close> is what mirroring wrote to the process's standard error.\<close>

record log_state =
  slot :: "bytes list"
  head :: nat
  count :: nat
  level :: nat
  mirror :: bool
  dropped :: nat
  stderr_lines :: "bytes list"

definition vis_py_log_init :: log_state where
  "vis_py_log_init = \<lparr>slot = replicate VIS_PY_LOG_SLOTS [], head = 0, count = 0,
     level = VIS_PY_LOG_OFF, mirror = False, dropped = 0, stderr_lines = []\<rparr>"

definition log_inv :: "log_state \<Rightarrow> bool" where
  "log_inv l \<longleftrightarrow> length (slot l) = VIS_PY_LOG_SLOTS \<and> head l < VIS_PY_LOG_SLOTS
     \<and> count l \<le> VIS_PY_LOG_SLOTS \<and> level l \<le> VIS_PY_LOG_DEBUG
     \<and> (\<forall>s \<in> set (slot l). is_cstring s \<and> length s < VIS_PY_LOG_LINE)"

text \<open>The waiting records, oldest first.\<close>

definition pending :: "log_state \<Rightarrow> bytes list" where
  "pending l = map (\<lambda>k. slot l ! ((head l + k) mod VIS_PY_LOG_SLOTS)) [0..<count l]"

section \<open>Operations\<close>

definition vis_py_session_name :: "bytes option \<Rightarrow> bytes" where
  "vis_py_session_name m =
     (case m of None \<Rightarrow> ''__main__'' | Some n \<Rightarrow> if n = [] then ''__main__'' else n)"

text \<open>Both clocks answer seconds and nanoseconds; the log keeps milliseconds.\<close>

definition vis_py_now_ms :: "int \<times> int \<Rightarrow> int" where
  "vis_py_now_ms now = fst now * 1000 + snd now div 1000000"

definition log_line :: "int \<Rightarrow> nat \<Rightarrow> bytes \<Rightarrow> bytes \<Rightarrow> bytes" where
  "log_line ts lvl event body =
     ''{'' @ quoted ''ts'' @ '':'' @ show_int ts @ '','' @ quoted ''level'' @ '':''
     @ quoted (vis_py_log_levels ! lvl) @ '','' @ quoted ''event'' @ '':'' @ quoted event
     @ (if body = [] then [] else '','') @ body @ ''}''"

text \<open>\<open>rendered\<close> is the rendered format of the call, \<open>None\<close> for a null format.\<close>

definition vis_py_record ::
  "int \<times> int \<Rightarrow> nat \<Rightarrow> bytes \<Rightarrow> bytes option \<Rightarrow> log_state \<Rightarrow> log_state" where
  "vis_py_record now lvl event rendered l =
     (if lvl > level l then l
      else
        let body = (case rendered of None \<Rightarrow> [] | Some f \<Rightarrow> snprintf_kept VIS_PY_LOG_LINE f);
            at = (head l + count l) mod VIS_PY_LOG_SLOTS;
            l1 = (if count l = VIS_PY_LOG_SLOTS
                  then l\<lparr>head := (head l + 1) mod VIS_PY_LOG_SLOTS, dropped := dropped l + 1\<rparr>
                  else l\<lparr>count := count l + 1\<rparr>);
            line = snprintf_kept VIS_PY_LOG_LINE (log_line (vis_py_now_ms now) lvl event body);
            l2 = l1\<lparr>slot := (slot l1)[at := line]\<rparr>
        in if mirror l2 then l2\<lparr>stderr_lines := stderr_lines l2 @ [line]\<rparr> else l2)"

text \<open>The loop of \<open>vispython_drain_log\<close> over the waiting records: \<open>acc\<close> is what the buffer holds.\<close>

function drain_loop :: "int \<Rightarrow> bytes \<Rightarrow> log_state \<Rightarrow> bytes \<times> log_state" where
  "drain_loop cap acc l =
     (if count l > 0 then
        let line = slot l ! head l in
        if int (length acc) + int (length line) + 2 > cap then (acc, l)
        else drain_loop cap (acc @ line @ [NEWLINE])
               (l\<lparr>head := (head l + 1) mod VIS_PY_LOG_SLOTS, count := count l - 1\<rparr>)
      else (acc, l))"
  by pat_completeness auto
termination
  by (relation "measure (\<lambda>(cap, acc, l). count l)") auto

declare drain_loop.simps [simp del]

definition dropped_line :: "nat \<Rightarrow> bytes" where
  "dropped_line n =
     ''{'' @ quoted ''level'' @ '':'' @ quoted ''warn'' @ '','' @ quoted ''event'' @ '':''
     @ quoted ''log_dropped'' @ '','' @ quoted ''records'' @ '':'' @ show_nat n @ ''}'' @ [NEWLINE]"

definition vispython_drain_log :: "int \<Rightarrow> bytes option \<Rightarrow> log_state \<Rightarrow> int \<times> bytes option \<times> log_state" where
  "vispython_drain_log cap out l =
     (case out of
        None \<Rightarrow> (VIS_PY_ERR_BUFFER, None, l)
      | Some b \<Rightarrow>
          if cap \<le> 0 then (VIS_PY_ERR_BUFFER, Some b, l)
          else
            let (start, l1) =
                  (if dropped l > 0 \<and> cap > int VIS_PY_LOG_LINE
                   then (dropped_line (dropped l), l\<lparr>dropped := 0\<rparr>) else ([], l));
                (text, l2) = drain_loop cap start l1
            in (int (length text), Some (overlay (text @ [NUL]) b), l2))"

text \<open>\<open>%15s %d\<close> of \<open>vispython_logging\<close>: the level's name and, optionally, the mirror flag.\<close>

definition scan_log_policy :: "bytes \<Rightarrow> (bytes \<times> int) option" where
  "scan_log_policy p =
     (case scan_s 15 p of
        None \<Rightarrow> None
      | Some (want, r) \<Rightarrow> Some (want, case scan_d r of None \<Rightarrow> 0 | Some (m, _) \<Rightarrow> m))"

fun find_level :: "bytes \<Rightarrow> nat list \<Rightarrow> nat \<Rightarrow> nat" where
  "find_level want [] current = current"
| "find_level want (i # is) current =
     find_level want is (if vis_py_log_levels ! i = want then i else current)"

definition log_policy_text :: "log_state \<Rightarrow> bytes" where
  "log_policy_text l = snprintf_kept 32
     (vis_py_log_levels ! level l @ '' '' @ show_int (if mirror l then 1 else 0))"

definition vispython_logging ::
  "allocator \<Rightarrow> bytes option \<Rightarrow> int \<Rightarrow> caller \<Rightarrow> log_state \<Rightarrow> int \<times> caller \<times> log_state" where
  "vispython_logging E policy cap c l =
     (let l1 = (case Option.bind policy scan_log_policy of
                  None \<Rightarrow> l
                | Some (want, m) \<Rightarrow>
                    l\<lparr>level := find_level want [0..<VIS_PY_LOG_DEBUG + 1] (level l),
                      mirror := (m \<noteq> 0)\<rparr>);
          (r, c1) = vis_py_copy_out E (log_policy_text l1) cap c
      in (r, c1, l1))"

section \<open>The ring as a bounded queue\<close>

text \<open>The contract: \<open>offer\<close> appends and, when the queue is full, forgets the oldest.\<close>

locale bounded_log =
  fixes items :: "'s \<Rightarrow> 'a list"
    and offer :: "'a \<Rightarrow> 's \<Rightarrow> 's"
    and take_first :: "'s \<Rightarrow> 's"
    and lost :: "'s \<Rightarrow> nat"
    and ok :: "'s \<Rightarrow> bool"
    and fits :: "'a \<Rightarrow> bool"
    and cap :: nat
  assumes items_offer: "ok s \<Longrightarrow> fits x \<Longrightarrow>
      items (offer x s) = (if length (items s) = cap then tl (items s) @ [x] else items s @ [x])"
    and lost_offer: "ok s \<Longrightarrow> fits x \<Longrightarrow>
      lost (offer x s) = (if length (items s) = cap then lost s + 1 else lost s)"
    and items_take: "ok s \<Longrightarrow> items s \<noteq> [] \<Longrightarrow> items (take_first s) = tl (items s)"
    and lost_take: "ok s \<Longrightarrow> items s \<noteq> [] \<Longrightarrow> lost (take_first s) = lost s"
    and ok_offer: "ok s \<Longrightarrow> fits x \<Longrightarrow> ok (offer x s)"
    and ok_take: "ok s \<Longrightarrow> items s \<noteq> [] \<Longrightarrow> ok (take_first s)"
    and items_bound: "ok s \<Longrightarrow> length (items s) \<le> cap"
    and cap_pos: "0 < cap"
begin

lemma offers_ok: "ok s \<Longrightarrow> \<forall>x \<in> set xs. fits x \<Longrightarrow> ok (fold offer xs s)"
  by (induction xs arbitrary: s) (auto simp: ok_offer)

lemma tl_append_drop: "xs \<noteq> [] \<Longrightarrow> tl xs @ ys = drop 1 (xs @ ys)"
  by (cases xs) auto

text \<open>After any offers the queue holds the newest \<open>cap\<close> of everything that was ever in it.\<close>

lemma items_offers:
  "ok s \<Longrightarrow> \<forall>x \<in> set xs. fits x \<Longrightarrow>
     items (fold offer xs s) =
       drop (length (items s) + length xs - cap) (items s @ xs)"
proof (induction xs arbitrary: s)
  case Nil
  then show ?case using items_bound [of s] by simp
next
  case (Cons x xs)
  then have step: "items (offer x s)
      = (if length (items s) = cap then tl (items s) @ [x] else items s @ [x])"
    and ok': "ok (offer x s)"
    by (simp_all add: items_offer ok_offer)
  have IH: "items (fold offer xs (offer x s)) =
      drop (length (items (offer x s)) + length xs - cap) (items (offer x s) @ xs)"
    using Cons ok' by simp
  show ?case
  proof (cases "length (items s) = cap")
    case True
    then have ne: "items s \<noteq> []" using cap_pos by auto
    have "items (offer x s) @ xs = drop 1 (items s @ x # xs)"
      using step True ne by (cases "items s") auto
    with IH step True cap_pos show ?thesis by (simp add: drop_drop del: drop_append)
  next
    case False
    with IH step show ?thesis by simp
  qed
qed

text \<open>Nothing is lost silently: waiting plus lost counts every offer.\<close>

lemma offers_conserved:
  "ok s \<Longrightarrow> \<forall>x \<in> set xs. fits x \<Longrightarrow>
     length (items (fold offer xs s)) + lost (fold offer xs s)
       = length (items s) + lost s + length xs"
proof (induction xs arbitrary: s)
  case Nil
  then show ?case by simp
next
  case (Cons x xs)
  then have "length (items (offer x s)) + lost (offer x s) = length (items s) + lost s + 1"
    using cap_pos by (simp add: items_offer lost_offer)
  with Cons show ?case by (simp add: ok_offer)
qed

end

text \<open>The code's enqueue, without the rendering, and its dequeue.\<close>

definition ring_put :: "bytes \<Rightarrow> log_state \<Rightarrow> log_state" where
  "ring_put line l =
     (let at = (head l + count l) mod VIS_PY_LOG_SLOTS;
          l1 = (if count l = VIS_PY_LOG_SLOTS
                then l\<lparr>head := (head l + 1) mod VIS_PY_LOG_SLOTS, dropped := dropped l + 1\<rparr>
                else l\<lparr>count := count l + 1\<rparr>)
      in l1\<lparr>slot := (slot l1)[at := line]\<rparr>)"

definition ring_get :: "log_state \<Rightarrow> log_state" where
  "ring_get l = l\<lparr>head := (head l + 1) mod VIS_PY_LOG_SLOTS, count := count l - 1\<rparr>"

lemma length_pending [simp]: "length (pending l) = count l"
  by (simp add: pending_def)

lemma pending_nth:
  "k < count l \<Longrightarrow> pending l ! k = slot l ! ((head l + k) mod VIS_PY_LOG_SLOTS)"
  by (simp add: pending_def)

lemma pending_head: "0 < count l \<Longrightarrow> log_inv l \<Longrightarrow> hd (pending l) = slot l ! head l"
  by (simp add: log_inv_def hd_conv_nth pending_nth pending_def flip: length_0_conv)

lemma mod_slots_inj:
  "i < VIS_PY_LOG_SLOTS \<Longrightarrow> j < VIS_PY_LOG_SLOTS \<Longrightarrow>
     (h + i) mod VIS_PY_LOG_SLOTS = (h + j) mod VIS_PY_LOG_SLOTS \<longleftrightarrow> i = j"
  by (rule mod_add_cancel)

lemma pending_ring_get: "0 < count l \<Longrightarrow> pending (ring_get l) = tl (pending l)"
  by (rule nth_equalityI) (auto simp: ring_get_def pending_nth nth_tl mod_simps)

lemma slots_positive [simp]: "0 < VIS_PY_LOG_SLOTS"
  by (simp add: VIS_PY_LOG_SLOTS_def)

lemma pending_ring_put:
  assumes "log_inv l"
  shows "pending (ring_put line l) =
    (if count l = VIS_PY_LOG_SLOTS then tl (pending l) @ [line] else pending l @ [line])"
proof (cases "count l = VIS_PY_LOG_SLOTS")
  case True
  show ?thesis
  proof (rule nth_equalityI)
    show "length (pending (ring_put line l)) = length (if count l = VIS_PY_LOG_SLOTS
        then tl (pending l) @ [line] else pending l @ [line])"
      using True slots_positive by (simp add: ring_put_def)
  next
    fix k assume "k < length (pending (ring_put line l))"
    then have k: "k < VIS_PY_LOG_SLOTS" using True by (simp add: ring_put_def)
    have put: "pending (ring_put line l) ! k
        = (slot l)[head l := line] ! ((head l + 1 + k) mod VIS_PY_LOG_SLOTS)"
      using True assms k by (simp add: ring_put_def pending_nth mod_simps log_inv_def)
    show "pending (ring_put line l) ! k = (if count l = VIS_PY_LOG_SLOTS
        then tl (pending l) @ [line] else pending l @ [line]) ! k"
    proof (cases "k = VIS_PY_LOG_SLOTS - 1")
      case last: True
      then have "head l + 1 + k = head l + VIS_PY_LOG_SLOTS"
        using slots_positive by simp
      then have "(head l + 1 + k) mod VIS_PY_LOG_SLOTS = head l mod VIS_PY_LOG_SLOTS"
        by (metis mod_add_self2)
      with put True assms k last show ?thesis
        by (simp add: nth_append log_inv_def)
    next
      case False
      with k have "Suc k < VIS_PY_LOG_SLOTS" and k': "k < VIS_PY_LOG_SLOTS - Suc 0" by simp_all
      then have "(head l + Suc k) mod VIS_PY_LOG_SLOTS \<noteq> (head l + 0) mod VIS_PY_LOG_SLOTS"
        by (subst mod_slots_inj) auto
      with put True assms k k' show ?thesis
        by (simp add: pending_nth nth_append nth_tl log_inv_def)
    qed
  qed
next
  case False
  then have less: "count l < VIS_PY_LOG_SLOTS" using assms by (simp add: log_inv_def)
  show ?thesis
  proof (rule nth_equalityI)
    show "length (pending (ring_put line l)) = length (if count l = VIS_PY_LOG_SLOTS
        then tl (pending l) @ [line] else pending l @ [line])"
      using False by (simp add: ring_put_def)
  next
    fix k assume "k < length (pending (ring_put line l))"
    then have k: "k \<le> count l" using False by (simp add: ring_put_def)
    have "(head l + count l) mod VIS_PY_LOG_SLOTS = (head l + k) mod VIS_PY_LOG_SLOTS \<longleftrightarrow> k = count l"
      using less k by (subst mod_slots_inj) auto
    with False assms k less show "pending (ring_put line l) ! k = (if count l = VIS_PY_LOG_SLOTS
        then tl (pending l) @ [line] else pending l @ [line]) ! k"
      by (auto simp: ring_put_def pending_nth nth_append log_inv_def)
  qed
qed

lemma dropped_ring [simp]:
  "dropped (ring_put line l) = (if count l = VIS_PY_LOG_SLOTS then dropped l + 1 else dropped l)"
  "dropped (ring_get l) = dropped l"
  by (simp_all add: ring_put_def ring_get_def)

definition log_line_ok :: "bytes \<Rightarrow> bool" where
  "log_line_ok line \<longleftrightarrow> is_cstring line \<and> length line < VIS_PY_LOG_LINE"

lemma log_inv_ring_put [keeps]: "log_inv l \<Longrightarrow> log_line_ok line \<Longrightarrow> log_inv (ring_put line l)"
  by (auto simp: log_inv_def log_line_ok_def ring_put_def dest: set_update_subset_insert [THEN subsetD])

lemma log_inv_ring_get [keeps]: "log_inv l \<Longrightarrow> log_inv (ring_get l)"
  by (auto simp: log_inv_def ring_get_def)

lemma pending_empty_iff: "pending l = [] \<longleftrightarrow> count l = 0"
  by (simp flip: length_0_conv)

interpretation ring: bounded_log pending ring_put ring_get dropped log_inv log_line_ok VIS_PY_LOG_SLOTS
proof
  show "pending (ring_put x l) = (if length (pending l) = VIS_PY_LOG_SLOTS
      then tl (pending l) @ [x] else pending l @ [x])" if "log_inv l" for x l
    using pending_ring_put [OF that, of x] by simp
  show "length (pending l) \<le> VIS_PY_LOG_SLOTS" if "log_inv l" for l
    using that by (simp add: log_inv_def)
qed (simp_all add: pending_ring_get pending_empty_iff keeps)

section \<open>Recording\<close>

definition record_line :: "int \<times> int \<Rightarrow> nat \<Rightarrow> bytes \<Rightarrow> bytes option \<Rightarrow> bytes" where
  "record_line now lvl event rendered =
     snprintf_kept VIS_PY_LOG_LINE (log_line (vis_py_now_ms now) lvl event
       (case rendered of None \<Rightarrow> [] | Some f \<Rightarrow> snprintf_kept VIS_PY_LOG_LINE f))"

lemma vis_py_record_put:
  "lvl \<le> level l \<Longrightarrow>
     vis_py_record now lvl event rendered l =
       (ring_put (record_line now lvl event rendered) l)
         \<lparr>stderr_lines := stderr_lines l @ (if mirror l then [record_line now lvl event rendered] else [])\<rparr>"
  by (simp add: vis_py_record_def ring_put_def record_line_def Let_def)

lemma stderr_frame [simp]:
  "pending (l\<lparr>stderr_lines := x\<rparr>) = pending l"
  "log_inv (l\<lparr>stderr_lines := x\<rparr>) = log_inv l"
  "pending (l\<lparr>dropped := d\<rparr>) = pending l"
  "log_inv (l\<lparr>dropped := d\<rparr>) = log_inv l"
  by (simp_all add: pending_def log_inv_def)

lemma level_names: "lvl \<le> VIS_PY_LOG_DEBUG \<Longrightarrow> is_cstring (vis_py_log_levels ! lvl)"
  by (auto simp: VIS_PY_LOG_DEBUG_def vis_py_log_levels_def NUL_def le_Suc_eq numeral_3_eq_3)

lemma record_line_ok:
  assumes "lvl \<le> VIS_PY_LOG_DEBUG" "is_cstring event" "\<forall>f. rendered = Some f \<longrightarrow> is_cstring f"
  shows "log_line_ok (record_line now lvl event rendered)"
  using assms level_names [OF assms(1)]
  by (cases rendered)
     (auto simp: log_line_ok_def record_line_def log_line_def VIS_PY_LOG_LINE_def NUL_def)

lemma vis_py_record_quiet: "level l < lvl \<Longrightarrow> vis_py_record now lvl event rendered l = l"
  by (simp add: vis_py_record_def)

lemma vis_py_record_frame [simp]:
  "level (vis_py_record now lvl event rendered l) = level l"
  "mirror (vis_py_record now lvl event rendered l) = mirror l"
  by (simp_all add: vis_py_record_def Let_def)

lemma log_inv_vis_py_record [keeps]:
  assumes "log_inv l" "is_cstring event" "\<forall>f. rendered = Some f \<longrightarrow> is_cstring f"
  shows "log_inv (vis_py_record now lvl event rendered l)"
proof (cases "lvl \<le> level l")
  case True
  with assms have "log_line_ok (record_line now lvl event rendered)"
    by (intro record_line_ok) (auto simp: log_inv_def)
  with True assms show ?thesis by (simp add: vis_py_record_put keeps)
qed (use assms in \<open>simp add: vis_py_record_quiet\<close>)

lemma log_inv_init: "log_inv vis_py_log_init"
  by (simp add: log_inv_def vis_py_log_init_def log_consts)

section \<open>Draining\<close>

definition render :: "bytes list \<Rightarrow> bytes" where
  "render ls = concat (map (\<lambda>s. s @ [NEWLINE]) ls)"

lemma render_simps [simp]:
  "render [] = []" "render (s # ls) = s @ NEWLINE # render ls"
  "render (xs @ ys) = render xs @ render ys"
  by (simp_all add: render_def)

lemma drain_loop_stop:
  "count l = 0 \<or> int (length acc) + int (length (slot l ! head l)) + 2 > cap \<Longrightarrow>
     drain_loop cap acc l = (acc, l)"
  by (subst drain_loop.simps) (auto simp: Let_def)

lemma drain_loop_step:
  "0 < count l \<Longrightarrow> int (length acc) + int (length (slot l ! head l)) + 2 \<le> cap \<Longrightarrow>
     drain_loop cap acc l = drain_loop cap (acc @ slot l ! head l @ [NEWLINE]) (ring_get l)"
  by (subst drain_loop.simps) (simp add: Let_def ring_get_def)

text \<open>The loop moves the longest prefix of the waiting records that fits.\<close>

lemma drain_loop_prefix:
  assumes "log_inv l" "int (length acc) < cap"
  shows "\<exists>k l'. drain_loop cap acc l = (acc @ render (take k (pending l)), l')
      \<and> k \<le> count l \<and> pending l' = drop k (pending l) \<and> log_inv l' \<and> dropped l' = dropped l
      \<and> int (length (acc @ render (take k (pending l)))) < cap
      \<and> (k < count l \<longrightarrow>
           int (length (acc @ render (take k (pending l)))) + int (length (pending l ! k)) + 2 > cap)"
  using assms
proof (induction "count l" arbitrary: acc l)
  case 0
  then show ?case
    by (intro exI [of _ 0] exI [of _ l]) (simp add: drain_loop_stop)
next
  case (Suc n)
  then have pos: "0 < count l" by simp
  have hd: "pending l ! 0 = slot l ! head l"
    using pos Suc.prems by (simp add: pending_nth log_inv_def)
  have split: "pending l = slot l ! head l # pending (ring_get l)"
    using pos hd pending_ring_get [OF pos]
    by (cases "pending l") (auto simp: pending_empty_iff)
  show ?case
  proof (cases "int (length acc) + int (length (slot l ! head l)) + 2 > cap")
    case True
    then show ?thesis
      using Suc.prems hd by (intro exI [of _ 0] exI [of _ l]) (simp add: drain_loop_stop)
  next
    case False
    let ?acc = "acc @ slot l ! head l @ [NEWLINE]"
    have "n = count (ring_get l)" "int (length ?acc) < cap"
      using Suc False by (simp_all add: ring_get_def)
    from Suc.hyps(1) [OF this(1) log_inv_ring_get [OF Suc.prems(1)] this(2)] obtain k l' where
      k: "drain_loop cap ?acc (ring_get l) = (?acc @ render (take k (pending (ring_get l))), l')"
      "k \<le> count (ring_get l)" "pending l' = drop k (pending (ring_get l))" "log_inv l'"
      "dropped l' = dropped l"
      "int (length (?acc @ render (take k (pending (ring_get l))))) < cap"
      "k < count (ring_get l) \<longrightarrow> int (length (?acc @ render (take k (pending (ring_get l)))))
         + int (length (pending (ring_get l) ! k)) + 2 > cap"
      by auto
    have "Suc k \<le> count l \<longleftrightarrow> k \<le> count (ring_get l)" "Suc k < count l \<longleftrightarrow> k < count (ring_get l)"
      using pos by (auto simp: ring_get_def)
    with k False pos show ?thesis
      by (intro exI [of _ "Suc k"] exI [of _ l']) (simp add: split drain_loop_step)
  qed
qed

lemma dropped_line_length:
  assumes "n < 10 ^ 20"
  shows "length (dropped_line n) \<le> 80"
  using length_show_nat [of n 19] assms by (simp add: dropped_line_def)

definition drain_header :: "int \<Rightarrow> log_state \<Rightarrow> bytes" where
  "drain_header cap l =
     (if dropped l > 0 \<and> cap > int VIS_PY_LOG_LINE then dropped_line (dropped l) else [])"

definition after_header :: "int \<Rightarrow> log_state \<Rightarrow> log_state" where
  "after_header cap l =
     (if dropped l > 0 \<and> cap > int VIS_PY_LOG_LINE then l\<lparr>dropped := 0\<rparr> else l)"

lemma after_header_simps [simp]:
  "pending (after_header cap l) = pending l" "count (after_header cap l) = count l"
  "log_inv (after_header cap l) = log_inv l"
  by (simp_all add: after_header_def)

lemma drain_header_fits: "dropped l < 10 ^ 20 \<Longrightarrow> 0 < cap \<Longrightarrow> int (length (drain_header cap l)) < cap"
  using dropped_line_length [of "dropped l"] by (auto simp: drain_header_def VIS_PY_LOG_LINE_def)

lemma vispython_drain_log_eq:
  "0 < cap \<Longrightarrow> vispython_drain_log cap (Some b) l =
     (let (text, l2) = drain_loop cap (drain_header cap l) (after_header cap l)
      in (int (length text), Some (overlay (text @ [NUL]) b), l2))"
  by (simp add: vispython_drain_log_def drain_header_def after_header_def Let_def)

text \<open>A host that drains until the answer is 0, at most \<open>n\<close> times.\<close>

fun drain_until_empty :: "nat \<Rightarrow> int \<Rightarrow> bytes \<Rightarrow> log_state \<Rightarrow> (bytes \<times> log_state) option" where
  "drain_until_empty 0 cap b l = None"
| "drain_until_empty (Suc n) cap b l =
     (case vispython_drain_log cap (Some b) l of
        (r, out, l') \<Rightarrow>
          if r \<le> 0 then Some ([], l')
          else (case drain_until_empty n cap b l' of
                  None \<Rightarrow> None
                | Some (rest, l'') \<Rightarrow> Some (take (nat r) (the out) @ rest, l'')))"

lemma drain_log_spec:
  assumes inv: "log_inv l" and d: "dropped l < 10 ^ 20" and cap: "0 < cap"
  shows "\<exists>k l'. vispython_drain_log cap (Some b) l =
       (int (length (drain_header cap l @ render (take k (pending l)))),
        Some (overlay ((drain_header cap l @ render (take k (pending l))) @ [NUL]) b), l')
    \<and> k \<le> count l \<and> pending l' = drop k (pending l) \<and> log_inv l'
    \<and> dropped l' = dropped (after_header cap l)
    \<and> int (length (drain_header cap l @ render (take k (pending l)))) < cap
    \<and> (k < count l \<longrightarrow> int (length (drain_header cap l @ render (take k (pending l))))
         + int (length (pending l ! k)) + 2 > cap)"
proof -
  have "log_inv (after_header cap l)" using inv by simp
  from drain_loop_prefix [OF this drain_header_fits [OF d cap]] obtain k l' where
    k: "drain_loop cap (drain_header cap l) (after_header cap l)
        = (drain_header cap l @ render (take k (pending l)), l')"
      "k \<le> count l" "pending l' = drop k (pending l)" "log_inv l'"
      "dropped l' = dropped (after_header cap l)"
      "int (length (drain_header cap l @ render (take k (pending l)))) < cap"
      "k < count l \<longrightarrow> int (length (drain_header cap l @ render (take k (pending l))))
         + int (length (pending l ! k)) + 2 > cap"
    unfolding after_header_simps by blast
  have "vispython_drain_log cap (Some b) l =
       (int (length (drain_header cap l @ render (take k (pending l)))),
        Some (overlay ((drain_header cap l @ render (take k (pending l))) @ [NUL]) b), l')"
    by (simp add: vispython_drain_log_eq [OF cap] k(1))
  with k(2-) show ?thesis by blast
qed

lemma pending_nth_short: "log_inv l \<Longrightarrow> k < count l \<Longrightarrow> length (pending l ! k) < VIS_PY_LOG_LINE"
  by (simp add: pending_nth log_inv_def)

lemma drain_header_none: "dropped l = 0 \<Longrightarrow> drain_header cap l = []"
  by (simp add: drain_header_def)

lemma take_overlay_text: "take (length t) (overlay (t @ [NUL]) b) = t"
  by (simp add: overlay_def)

lemma drain_until_empty_step:
  assumes "vispython_drain_log cap (Some b) l = (int (length t), Some (overlay (t @ [NUL]) b), l')"
    and "t \<noteq> []" and "drain_until_empty n cap b l' = Some (rest, l'')"
  shows "drain_until_empty (Suc n) cap b l = Some (t @ rest, l'')"
  using assms by (simp add: take_overlay_text)

lemma drain_until_empty_stop:
  assumes "vispython_drain_log cap (Some b) l = (int (length t), out, l')" and "t = []"
  shows "drain_until_empty (Suc n) cap b l = Some ([], l')"
  using assms by simp

lemma render_empty_iff [simp]: "render xs = [] \<longleftrightarrow> xs = []"
  by (cases xs) (auto simp: render_def)

text \<open>With room for one full line every call of a draining host makes progress.\<close>

lemma drain_until_empty_clean:
  assumes "log_inv l" "dropped l = 0" "int VIS_PY_LOG_LINE < cap" "count l < n"
  shows "\<exists>l'. drain_until_empty n cap b l = Some (render (pending l), l')
      \<and> pending l' = [] \<and> dropped l' = 0"
  using assms
proof (induction n arbitrary: l)
  case 0
  then show ?case by simp
next
  case (Suc n)
  have cap: "0 < cap" using Suc.prems by (simp add: VIS_PY_LOG_LINE_def)
  from Suc.prems have d: "dropped l < 10 ^ 20" by simp
  obtain k l' where k:
    "vispython_drain_log cap (Some b) l = (int (length (render (take k (pending l)))),
        Some (overlay (render (take k (pending l)) @ [NUL]) b), l')"
    "k \<le> count l" "pending l' = drop k (pending l)" "log_inv l'" "dropped l' = 0"
    "k < count l \<longrightarrow> int (length (render (take k (pending l)))) + int (length (pending l ! k)) + 2 > cap"
    using drain_log_spec [OF Suc.prems(1) d cap, of b] Suc.prems(2)
    by (auto simp: drain_header_none after_header_def)
  show ?case
  proof (cases "count l = 0")
    case True
    with k show ?thesis
      by (intro exI [of _ l']) (simp add: drain_until_empty_stop flip: pending_empty_iff)
  next
    case False
    have "k \<noteq> 0"
    proof
      assume "k = 0"
      with k(6) False pending_nth_short [OF Suc.prems(1), of 0] Suc.prems(3)
      show False by simp
    qed
    moreover have "count l' = count l - k"
      using k(3) by (metis length_pending length_drop)
    ultimately have "count l' < n" using False Suc.prems(4) k(2) by linarith
    from Suc.IH [OF k(4,5) Suc.prems(3) this] obtain l'' where
      "drain_until_empty n cap b l' = Some (render (pending l'), l'')" "pending l'' = []" "dropped l'' = 0"
      by blast
    moreover have "render (take k (pending l)) \<noteq> []"
      using \<open>k \<noteq> 0\<close> False by (simp add: pending_empty_iff)
    ultimately show ?thesis
      using drain_until_empty_step [OF k(1)] k(3)
      by (intro exI [of _ l'']) (simp flip: render_simps(3))
  qed
qed

section \<open>Properties\<close>

text \<open>C37: Recording refines a bounded queue that overwrites its oldest entry. An event at or below the
  level in force is appended to the waiting records; when all 1024 slots are full the oldest record
  leaves and the drop counter grows by one; an event above the level changes nothing. The ring's
  invariant is kept on both branches.\<close>

theorem record_refines_bounded_queue:
  assumes "log_inv l" "is_cstring event" "\<forall>f. rendered = Some f \<longrightarrow> is_cstring f"
  shows "log_inv (vis_py_record now lvl event rendered l)
    \<and> pending (vis_py_record now lvl event rendered l) =
        (if lvl > level l then pending l
         else if count l = VIS_PY_LOG_SLOTS
         then tl (pending l) @ [record_line now lvl event rendered]
         else pending l @ [record_line now lvl event rendered])
    \<and> dropped (vis_py_record now lvl event rendered l) =
        (if lvl \<le> level l \<and> count l = VIS_PY_LOG_SLOTS then dropped l + 1 else dropped l)"
proof -
  have "log_inv (vis_py_record now lvl event rendered l)"
    using assms by (rule log_inv_vis_py_record)
  moreover have "lvl \<le> level l \<Longrightarrow> log_line_ok (record_line now lvl event rendered)"
    using assms by (intro record_line_ok) (auto simp: log_inv_def)
  ultimately show ?thesis
    using assms(1)
    by (cases "lvl \<le> level l")
       (auto simp: vis_py_record_put vis_py_record_quiet ring.items_offer)
qed

theorem record_refines_bounded_queue_witness:
  "log_inv (vis_py_log_init\<lparr>level := 2\<rparr>)
   \<and> pending (vis_py_record (1, 0) 2 ''init'' None (vis_py_log_init\<lparr>level := 2\<rparr>))
       = [record_line (1, 0) 2 ''init'' None]"
proof -
  have inv: "log_inv (vis_py_log_init\<lparr>level := 2\<rparr>)"
    by (simp add: log_inv_def vis_py_log_init_def log_consts)
  show ?thesis
    using record_refines_bounded_queue [OF inv, of "''init''" None "(1, 0)" 2] inv
    by (simp add: NUL_def vis_py_log_init_def pending_def VIS_PY_LOG_SLOTS_def)
qed

text \<open>Whatever the recording history, the ring holds exactly the newest 1024 of the records, in
  order, and a record is either still waiting or counted as dropped.\<close>

theorem log_history_newest:
  assumes "log_inv l" "\<forall>x \<in> set xs. log_line_ok x"
  shows "pending (fold ring_put xs l) =
           drop (count l + length xs - VIS_PY_LOG_SLOTS) (pending l @ xs)
    \<and> count (fold ring_put xs l) + dropped (fold ring_put xs l) = count l + dropped l + length xs"
  using ring.items_offers [OF assms, unfolded length_pending]
    ring.offers_conserved [OF assms, unfolded length_pending]
  by blast

theorem log_history_newest_witness:
  "pending (fold ring_put [''a'', ''b''] vis_py_log_init) = [''a'', ''b'']"
proof -
  have "\<forall>x \<in> set [''a'', ''b'']. log_line_ok x"
    by (simp add: log_line_ok_def NUL_def VIS_PY_LOG_LINE_def)
  from log_history_newest [OF log_inv_init this] show ?thesis
    by (simp add: vis_py_log_init_def pending_def VIS_PY_LOG_SLOTS_def)
qed

text \<open>A drain never writes past the caller's capacity, its terminator included, and answers a line
  reporting the dropped records, if any, followed by the oldest waiting records in order. What it
  answered leaves the ring and the rest keeps waiting; it stops only when the next line would not fit.\<close>

theorem drain_log_moves_prefix:
  assumes "log_inv l" "dropped l < 10 ^ 20" "0 < cap" "cap \<le> int (length b)"
  shows "\<exists>k text b' l'. vispython_drain_log cap (Some b) l = (int (length text), Some b', l')
    \<and> text = drain_header cap l @ render (take k (pending l))
    \<and> pending l' = drop k (pending l) \<and> log_inv l'
    \<and> take (length text + 1) b' = text @ [NUL]
    \<and> length b' = length b \<and> drop (nat cap) b' = drop (nat cap) b
    \<and> (k < count l \<longrightarrow> int (length text) + int (length (pending l ! k)) + 2 > cap)"
proof -
  obtain k l' where k:
    "vispython_drain_log cap (Some b) l =
       (int (length (drain_header cap l @ render (take k (pending l)))),
        Some (overlay ((drain_header cap l @ render (take k (pending l))) @ [NUL]) b), l')"
    "pending l' = drop k (pending l)" "log_inv l'"
    "int (length (drain_header cap l @ render (take k (pending l)))) < cap"
    "k < count l \<longrightarrow> int (length (drain_header cap l @ render (take k (pending l))))
       + int (length (pending l ! k)) + 2 > cap"
    using drain_log_spec [OF assms(1-3), of b] by blast
  let ?t = "drain_header cap l @ render (take k (pending l))"
  have "length (?t @ [NUL]) \<le> nat cap" "length (?t @ [NUL]) \<le> length b"
    using k(4) assms(4) by auto
  then have "length (overlay (?t @ [NUL]) b) = length b"
    "drop (nat cap) (overlay (?t @ [NUL]) b) = drop (nat cap) b"
    by simp_all
  moreover have "take (length ?t + 1) (overlay (?t @ [NUL]) b) = ?t @ [NUL]"
    by (simp add: overlay_def)
  ultimately show ?thesis
    using k by blast
qed

theorem drain_log_moves_prefix_witness:
  "\<exists>k text b' l'. vispython_drain_log 3 (Some ''xyzw'') vis_py_log_init = (int (length text), Some b', l')
     \<and> text = drain_header 3 vis_py_log_init @ render (take k (pending vis_py_log_init))
     \<and> length b' = 4"
  using drain_log_moves_prefix [OF log_inv_init, of 3 "''xyzw''"]
  by (auto simp: vis_py_log_init_def)

text \<open>A host that drains in a loop until the answer is empty, with room for one full line, gets
  every waiting record exactly once and in order, preceded by the report of the drops, within as many
  calls as there are records plus two, and leaves nothing behind.\<close>

theorem drain_loop_delivers_everything:
  assumes "log_inv l" "dropped l < 10 ^ 20" "int VIS_PY_LOG_LINE < cap"
  shows "\<exists>l'. drain_until_empty (count l + 2) cap b l
      = Some ((if dropped l > 0 then dropped_line (dropped l) else []) @ render (pending l), l')
    \<and> pending l' = [] \<and> dropped l' = 0"
proof (cases "dropped l = 0")
  case True
  then show ?thesis
    using drain_until_empty_clean [OF assms(1) True assms(3), of "count l + 2" b] by simp
next
  case False
  have cap: "0 < cap" using assms by (simp add: VIS_PY_LOG_LINE_def)
  obtain k l1 where k:
    "vispython_drain_log cap (Some b) l =
       (int (length (drain_header cap l @ render (take k (pending l)))),
        Some (overlay ((drain_header cap l @ render (take k (pending l))) @ [NUL]) b), l1)"
    "k \<le> count l" "pending l1 = drop k (pending l)" "log_inv l1" "dropped l1 = 0"
    using drain_log_spec [OF assms(1,2) cap, of b] assms(3) by (auto simp: after_header_def)
  have header: "drain_header cap l = dropped_line (dropped l)" "dropped_line (dropped l) \<noteq> []"
    using False assms(3) by (simp_all add: drain_header_def dropped_line_def)
  have "count l1 < count l + 1"
    using k(3) by (metis length_pending length_drop diff_le_self less_add_one le_less_trans)
  from drain_until_empty_clean [OF k(4,5) assms(3) this, of b] obtain l2 where
    "drain_until_empty (count l + 1) cap b l1 = Some (render (pending l1), l2)"
    "pending l2 = []" "dropped l2 = 0" by blast
  then show ?thesis
    using drain_until_empty_step [OF k(1), of "count l + 1"] header k(3) False
    by (intro exI [of _ l2]) (simp flip: render_simps(3))
qed

theorem drain_loop_delivers_everything_witness:
  "\<exists>l'. drain_until_empty 3 300 [] (ring_put ''a'' vis_py_log_init) = Some (''a'' @ [NEWLINE], l')"
proof -
  have "log_line_ok ''a''" by (simp add: log_line_ok_def NUL_def VIS_PY_LOG_LINE_def)
  then have inv: "log_inv (ring_put ''a'' vis_py_log_init)" by (intro keeps log_inv_init)
  have c: "count (ring_put ''a'' vis_py_log_init) = 1" "dropped (ring_put ''a'' vis_py_log_init) = 0"
    "pending (ring_put ''a'' vis_py_log_init) = [''a'']"
    by (simp_all add: ring_put_def vis_py_log_init_def pending_def VIS_PY_LOG_SLOTS_def)
  show ?thesis
    using drain_loop_delivers_everything [OF inv, of 300 "[]"] c
    by (auto simp: VIS_PY_LOG_LINE_def numeral_3_eq_3)
qed

end
