(* ===== verification/ThreadPolicy.thy ===== *)
theory ThreadPolicy
  imports EventLog
begin

text \<open>
  The thread budget of \<^verbatim>\<open>native/vispython/vispython.c\<close>: the three numbers the host sets through
  \<open>vispython_threads\<close> (cap, workers, quota), the size of the worker pool they give, and the verdict
  the audit hook needs when a thread is about to start.
\<close>

section \<open>State and constants\<close>

definition VIS_PY_WORKERS_MAX :: int where "VIS_PY_WORKERS_MAX = 64"

definition VIS_PY_WORKERS :: int where "VIS_PY_WORKERS = 32"

definition VIS_PY_CALLER_RUNS_MS :: int where "VIS_PY_CALLER_RUNS_MS = 50"

definition VIS_PY_THREAD_CAP :: int where "VIS_PY_THREAD_CAP = 100"

definition VIS_PY_PAR_QUOTA :: int where "VIS_PY_PAR_QUOTA = 8"

lemmas thread_consts = VIS_PY_WORKERS_MAX_def VIS_PY_WORKERS_def VIS_PY_THREAD_CAP_def VIS_PY_PAR_QUOTA_def

record thread_policy =
  thread_cap :: int
  worker_setting :: int
  par_quota :: int

definition initial_thread_policy :: thread_policy where
  "initial_thread_policy =
     \<lparr>thread_cap = VIS_PY_THREAD_CAP, worker_setting = 0, par_quota = VIS_PY_PAR_QUOTA\<rparr>"

text \<open>The Python exceptions this library raises itself: a class and a message.\<close>

datatype exc_class = PermissionError | RuntimeError | OSError | TypeError | ValueError | MemoryError
  | KeyboardInterrupt

type_synonym raised = "exc_class \<times> bytes"

section \<open>Operations\<close>

definition vis_py_worker_target :: "thread_policy \<Rightarrow> int" where
  "vis_py_worker_target p =
     (let w0 = worker_setting p;
          w1 = (if w0 \<le> 0 then VIS_PY_WORKERS else w0);
          w2 = (if w1 > VIS_PY_WORKERS_MAX then VIS_PY_WORKERS_MAX else w1);
          w3 = (if thread_cap p > 0 \<and> w2 > thread_cap p then thread_cap p else w2)
      in if w3 < 1 then 1 else w3)"

text \<open>\<open>states\<close> is the interpreter's list of thread states, \<open>idle\<close> the pool's waiting workers.\<close>

definition vis_py_live_threads :: "'t list \<Rightarrow> int \<Rightarrow> int" where
  "vis_py_live_threads states idle = int (length states) + idle"

definition thread_refusal_text :: "thread_policy \<Rightarrow> bytes" where
  "thread_refusal_text p = snprintf_kept 128
     (''the sandbox may run '' @ show_int (thread_cap p) @ '' threads at once and they are all taken'')"

definition vis_py_thread_refused ::
  "int \<times> int \<Rightarrow> 't list \<Rightarrow> int \<Rightarrow> thread_policy \<Rightarrow> log_state \<Rightarrow> raised option \<times> log_state" where
  "vis_py_thread_refused now states idle p l =
     (if thread_cap p < 0 \<or> vis_py_live_threads states idle < thread_cap p then (None, l)
      else (Some (RuntimeError, thread_refusal_text p),
            vis_py_record now VIS_PY_LOG_WARN ''thread_refused''
              (Some (quoted ''cap'' @ '':'' @ show_int (thread_cap p))) l))"

text \<open>\<open>sscanf (policy, "%d %d %d")\<close>: up to three numbers; a number that does not parse ends the scan.\<close>

definition scan_thread_policy :: "bytes \<Rightarrow> int \<times> int \<times> int" where
  "scan_thread_policy s =
     (case scan_d s of
        None \<Rightarrow> (0, 0, 0)
      | Some (a, s1) \<Rightarrow>
          (case scan_d s1 of
             None \<Rightarrow> (a, 0, 0)
           | Some (b, s2) \<Rightarrow>
               (case scan_d s2 of
                  None \<Rightarrow> (a, b, 0)
                | Some (c, _) \<Rightarrow> (a, b, c))))"

definition apply_thread_policy :: "int \<times> int \<times> int \<Rightarrow> thread_policy \<Rightarrow> thread_policy" where
  "apply_thread_policy w p =
     (case w of (want_cap, want_workers, want_quota) \<Rightarrow>
        p\<lparr>thread_cap := if want_cap \<noteq> 0 then want_cap else thread_cap p,
          worker_setting := if want_workers > 0 then want_workers else worker_setting p,
          par_quota := if want_quota > 0 then want_quota else par_quota p\<rparr>)"

definition thread_policy_text :: "thread_policy \<Rightarrow> bytes" where
  "thread_policy_text p = snprintf_kept 64
     (show_int (thread_cap p) @ '' '' @ show_int (vis_py_worker_target p) @ '' '' @ show_int (par_quota p))"

definition vispython_threads ::
  "allocator \<Rightarrow> bytes option \<Rightarrow> int \<Rightarrow> caller \<Rightarrow> thread_policy \<Rightarrow> int \<times> caller \<times> thread_policy" where
  "vispython_threads E policy cap c p =
     (let p1 = apply_thread_policy
                 (case policy of None \<Rightarrow> (0, 0, 0) | Some s \<Rightarrow> scan_thread_policy s) p;
          (r, c1) = vis_py_copy_out E (thread_policy_text p1) cap c
      in (r, c1, p1))"

text \<open>\<open>_vis_host.threads()\<close>: the policy in force and what is alive under it, as a dict.\<close>

definition vis_py_threads :: "'t list \<Rightarrow> int \<Rightarrow> int \<Rightarrow> thread_policy \<Rightarrow> (bytes \<times> int) list" where
  "vis_py_threads states idle queued p =
     [(''cap'', thread_cap p), (''workers'', vis_py_worker_target p), (''quota'', par_quota p),
      (''live'', vis_py_live_threads states idle), (''idle'', idle), (''queued'', queued)]"

section \<open>Lemmas\<close>

definition policy_inv :: "thread_policy \<Rightarrow> bool" where
  "policy_inv p \<longleftrightarrow> thread_cap p \<noteq> 0 \<and> 0 < par_quota p
     \<and> INT_MIN \<le> thread_cap p \<and> thread_cap p \<le> INT_MAX \<and> par_quota p \<le> INT_MAX
     \<and> 0 \<le> worker_setting p \<and> worker_setting p \<le> INT_MAX"

lemma policy_inv_initial: "policy_inv initial_thread_policy"
  by (simp add: policy_inv_def initial_thread_policy_def thread_consts INT_MIN_def INT_MAX_def)

lemma worker_target_bounds:
  "1 \<le> vis_py_worker_target p \<and> vis_py_worker_target p \<le> VIS_PY_WORKERS_MAX"
  by (auto simp: vis_py_worker_target_def Let_def thread_consts)

lemma worker_target_cap: "0 < thread_cap p \<Longrightarrow> vis_py_worker_target p \<le> thread_cap p"
  by (auto simp: vis_py_worker_target_def Let_def thread_consts)

lemma scan_d_range: "scan_d s = Some (v, r) \<Longrightarrow> INT_MIN \<le> v \<and> v \<le> INT_MAX"
  using to_int32_range by (auto simp: scan_d_def Let_def split: prod.splits if_splits)

lemma scan_thread_policy_range:
  assumes "scan_thread_policy s = (a, b, c)"
  shows "INT_MIN \<le> a \<and> a \<le> INT_MAX \<and> b \<le> INT_MAX \<and> c \<le> INT_MAX"
  using assms
  by (auto simp: scan_thread_policy_def INT_MIN_def INT_MAX_def split: option.splits prod.splits
      dest!: scan_d_range [unfolded INT_MIN_def INT_MAX_def])

lemma policy_inv_apply [keeps]:
  "policy_inv p \<Longrightarrow> INT_MIN \<le> a \<Longrightarrow> a \<le> INT_MAX \<Longrightarrow> b \<le> INT_MAX \<Longrightarrow> c \<le> INT_MAX \<Longrightarrow>
     policy_inv (apply_thread_policy (a, b, c) p)"
  by (auto simp: policy_inv_def apply_thread_policy_def)

lemma policy_inv_threads [keeps]:
  assumes "policy_inv p" "vispython_threads E policy cap c p = (r, c1, p1)"
  shows "policy_inv p1"
proof (cases policy)
  case None
  with assms show ?thesis
    by (auto simp: vispython_threads_def Let_def split: prod.splits intro!: keeps)
       (auto simp: INT_MIN_def INT_MAX_def)
next
  case (Some s)
  obtain x y z where xyz: "scan_thread_policy s = (x, y, z)" by (metis prod_cases3)
  from scan_thread_policy_range [OF xyz] assms Some xyz show ?thesis
    by (auto simp: vispython_threads_def Let_def split: prod.splits intro!: policy_inv_apply)
qed

lemma worker_target_as_setting:
  assumes "thread_cap q = thread_cap p" "worker_setting q = vis_py_worker_target p"
  shows "vis_py_worker_target q = vis_py_worker_target p"
  using assms worker_target_bounds [of p] worker_target_cap [of p]
  by (auto simp: vis_py_worker_target_def [of q] Let_def)

lemma int_text_short: "INT_MIN \<le> i \<Longrightarrow> i \<le> INT_MAX \<Longrightarrow> length (show_int i) \<le> 11"
  using length_show_int [of i 9] by (simp add: INT_MIN_def INT_MAX_def abs_if split: if_splits)

lemma thread_policy_text_eq:
  assumes "policy_inv p"
  shows "thread_policy_text p =
    show_int (thread_cap p) @ '' '' @ show_int (vis_py_worker_target p) @ '' '' @ show_int (par_quota p)"
proof -
  have "length (show_int (thread_cap p)) \<le> 11" "length (show_int (par_quota p)) \<le> 11"
    "length (show_int (vis_py_worker_target p)) \<le> 11"
    using assms worker_target_bounds [of p]
    by (auto intro!: int_text_short simp: policy_inv_def thread_consts INT_MIN_def INT_MAX_def)
  then show ?thesis unfolding thread_policy_text_def by (intro snprintf_kept_fits) simp
qed

lemma scan_thread_policy_text:
  assumes "policy_inv p"
  shows "scan_thread_policy (thread_policy_text p) = (thread_cap p, vis_py_worker_target p, par_quota p)"
proof -
  let ?w = "show_int (vis_py_worker_target p)" and ?q = "show_int (par_quota p)"
  have bounds: "INT_MIN \<le> vis_py_worker_target p" "vis_py_worker_target p \<le> INT_MAX"
    "INT_MIN \<le> par_quota p" "par_quota p \<le> INT_MAX" "INT_MIN \<le> thread_cap p" "thread_cap p \<le> INT_MAX"
    using assms worker_target_bounds [of p]
    by (auto simp: policy_inv_def thread_consts INT_MIN_def INT_MAX_def)
  have "scan_d (show_int (thread_cap p) @ CHR '' '' # ?w @ CHR '' '' # ?q)
      = Some (thread_cap p, CHR '' '' # ?w @ CHR '' '' # ?q)"
    using bounds by (intro scan_d_show_int) auto
  moreover have "scan_d (?w @ CHR '' '' # ?q) = Some (vis_py_worker_target p, CHR '' '' # ?q)"
    using bounds by (intro scan_d_show_int) auto
  moreover have "scan_d ?q = Some (par_quota p, [])"
    using scan_d_show_int [of "par_quota p" "[]"] bounds by simp
  ultimately show ?thesis
    by (simp add: scan_thread_policy_def thread_policy_text_eq [OF assms])
qed

section \<open>Properties\<close>

text \<open>The answer of \<open>vispython_threads\<close> is a policy: handing the text it answered back to it
  leaves the cap, the quota and the pool size in force as they are and answers the same text.\<close>

theorem thread_policy_roundtrip:
  assumes "policy_inv p"
  shows "let p1 = snd (snd (vispython_threads E (Some (thread_policy_text p)) cap c p))
    in thread_cap p1 = thread_cap p \<and> par_quota p1 = par_quota p
       \<and> vis_py_worker_target p1 = vis_py_worker_target p
       \<and> thread_policy_text p1 = thread_policy_text p"
proof -
  let ?p1 = "apply_thread_policy (thread_cap p, vis_py_worker_target p, par_quota p) p"
  have p1: "thread_cap ?p1 = thread_cap p" "par_quota ?p1 = par_quota p"
    "worker_setting ?p1 = vis_py_worker_target p"
    using assms worker_target_bounds [of p] by (auto simp: apply_thread_policy_def policy_inv_def)
  from worker_target_as_setting [OF p1(1,3)] p1
  have "vis_py_worker_target ?p1 = vis_py_worker_target p"
    "thread_policy_text ?p1 = thread_policy_text p"
    by (simp_all add: thread_policy_text_def)
  with p1 show ?thesis
    by (simp add: vispython_threads_def scan_thread_policy_text [OF assms] split: prod.split)
qed

theorem thread_policy_roundtrip_witness:
  "thread_cap (snd (snd (vispython_threads \<lparr>malloc_ok = \<lambda>_. True, pyalloc_ok = \<lambda>_. True\<rparr>
      (Some (thread_policy_text initial_thread_policy)) 64 \<lparr>out_buf = None, stash = None\<rparr>
      initial_thread_policy))) = 100"
  using thread_policy_roundtrip [OF policy_inv_initial]
  by (auto simp: Let_def initial_thread_policy_def VIS_PY_THREAD_CAP_def)

text \<open>The pool always has between 1 and 64 workers, never more than a positive cap allows, and a
  policy call of any text keeps the cap nonzero and the quota positive.\<close>

theorem worker_pool_bounds:
  assumes "policy_inv p" "vispython_threads E policy cap c p = (r, c1, p1)"
  shows "policy_inv p1 \<and> 1 \<le> vis_py_worker_target p1 \<and> vis_py_worker_target p1 \<le> 64
    \<and> (0 < thread_cap p1 \<longrightarrow> vis_py_worker_target p1 \<le> thread_cap p1)"
  using policy_inv_threads [OF assms] worker_target_bounds [of p1] worker_target_cap [of p1]
  by (simp add: VIS_PY_WORKERS_MAX_def)

theorem worker_pool_bounds_witness:
  "vis_py_worker_target (snd (snd (vispython_threads \<lparr>malloc_ok = \<lambda>_. True, pyalloc_ok = \<lambda>_. True\<rparr>
      (Some ''4 9000 -2'') 64 \<lparr>out_buf = None, stash = None\<rparr> initial_thread_policy))) \<le> 4"
proof -
  let ?r = "vispython_threads \<lparr>malloc_ok = \<lambda>_. True, pyalloc_ok = \<lambda>_. True\<rparr> (Some ''4 9000 -2'') 64
     \<lparr>out_buf = None, stash = None\<rparr> initial_thread_policy"
  have "thread_cap (snd (snd ?r)) = 4"
    by code_simp
  then show ?thesis
    using worker_pool_bounds [OF policy_inv_initial, of _ _ _ _ "fst ?r" "fst (snd ?r)" "snd (snd ?r)"]
    by simp
qed

end
