(* ===== verification/Confinement.thy ===== *)
theory Confinement
  imports Paths ThreadPolicy
begin

unbundle bit_operations_syntax

text \<open>
  The confinement policy and the audit hook of \<^verbatim>\<open>native/vispython/vispython.c\<close>: the root lists the
  host sets, what \<open>vispython_confine\<close> and \<open>vispython_network\<close> put in force, and the answer of the
  hook to one audited event.  The hook reads the flags and, later and under a lock, the roots and
  the refusal sentences, so it takes the policy seen at each of these reads separately.
\<close>

section \<open>State\<close>

definition VIS_PY_MAX_ROOTS :: nat where
  "VIS_PY_MAX_ROOTS = 64"

type_synonym roots = "bytes list"

record policy =
  read_roots :: roots
  write_roots :: roots
  confined :: bool
  net_allowed :: bool
  pycache_prefix :: bytes
  process_refusal :: bytes
  network_refusal :: bytes

definition initial_policy :: policy where
  "initial_policy = \<lparr>read_roots = [], write_roots = [], confined = False, net_allowed = True,
     pycache_prefix = [], process_refusal = [], network_refusal = []\<rparr>"

text \<open>What the operating system answers while a path is resolved.  A build for Windows has a canonical path of its
  own, \<open>vis_py_win_canonical\<close> (theory \<^verbatim>\<open>WinPort\<close>) over the answers of Win32; other builds have none.\<close>

record os_paths =
  realpath :: "bytes \<Rightarrow> bytes option"
  getcwd :: "bytes option"
  win_canonical :: "(bytes option \<Rightarrow> nat \<Rightarrow> bytes option) option"

definition on_windows :: "os_paths \<Rightarrow> bool" where
  "on_windows os \<longleftrightarrow> win_canonical os \<noteq> None"

text \<open>\<open>PATH_MAX\<close> of the build.\<close>

definition path_max :: "os_paths \<Rightarrow> nat" where
  "path_max os = (if on_windows os then 32768 else PATH_MAX)"

definition PROCESS_REFUSAL :: bytes where
  "PROCESS_REFUSAL = ''vis sandbox: starting a process is refused here - every process this product runs is started by the host''"

definition NATIVE_REFUSAL :: bytes where
  "NATIVE_REFUSAL = ''vis sandbox: reaching a native symbol through ctypes is refused here - an extension module the interpreter imports is native code the host chose, and this is not''"

definition NETWORK_REFUSAL :: bytes where
  "NETWORK_REFUSAL = ''vis sandbox: the network is off for this session - no address can be resolved and no connection opened from here''"

section \<open>Root lists\<close>

definition vis_py_roots_clear :: "roots \<Rightarrow> roots" where
  "vis_py_roots_clear r = []"

definition canonical_of :: "os_paths \<Rightarrow> bytes option \<Rightarrow> bytes option" where
  "canonical_of os path =
     (case win_canonical os of
        Some canonical \<Rightarrow> canonical path (path_max os)
      | None \<Rightarrow> vis_py_canonical (realpath os) (getcwd os) path (path_max os))"

definition vis_py_roots_add :: "allocator \<Rightarrow> os_paths \<Rightarrow> bytes option \<Rightarrow> roots \<Rightarrow> roots" where
  "vis_py_roots_add E os path r =
     (if path = None \<or> path = Some [] \<or> length r \<ge> VIS_PY_MAX_ROOTS then r
      else
        (case canonical_of os path of
           None \<Rightarrow> r
         | Some canon \<Rightarrow>
             if list_ex (\<lambda>x. x = canon) r then r
             else if malloc_ok E (length canon + 1) then r @ [canon] else r))"

text \<open>The loop of \<open>vis_py_roots_set\<close> over the newline-separated list.\<close>

function roots_loop :: "allocator \<Rightarrow> os_paths \<Rightarrow> bytes \<Rightarrow> roots \<Rightarrow> roots" where
  "roots_loop E os spec r =
     (if spec \<noteq> [] \<and> length r < VIS_PY_MAX_ROOTS then
        let n = length (takeWhile (\<lambda>c. c \<noteq> NEWLINE) spec);
            r1 = (if n > 0 \<and> n < path_max os then vis_py_roots_add E os (Some (take n spec)) r else r)
        in if n = length spec then r1 else roots_loop E os (drop (n + 1) spec) r1
      else r)"
  by pat_completeness auto
termination
  by (relation "measure (\<lambda>(E, os, spec, r). length spec)") auto

declare roots_loop.simps [simp del]

definition vis_py_roots_set :: "allocator \<Rightarrow> os_paths \<Rightarrow> bytes option \<Rightarrow> roots \<Rightarrow> roots" where
  "vis_py_roots_set E os spec r =
     (case spec of None \<Rightarrow> vis_py_roots_clear r | Some s \<Rightarrow> roots_loop E os s (vis_py_roots_clear r))"

section \<open>Audit arguments\<close>

text \<open>
  An argument of an audit event.  \<open>PyPathLike\<close> carries what its \<open>__fspath__\<close> answered, \<open>None\<close> when it
  raised or answered neither \<open>str\<close> nor \<open>bytes\<close>.
\<close>

datatype fs_text = FsStr pystr | FsBytes bytes

datatype pyarg = PyNone | PyLong int | PyStr pystr | PyBytes bytes | PyPathLike "fs_text option" | PyOther

fun PyOS_FSPath :: "pyarg \<Rightarrow> fs_text option" where
  "PyOS_FSPath (PyStr s) = Some (FsStr s)"
| "PyOS_FSPath (PyBytes b) = Some (FsBytes b)"
| "PyOS_FSPath (PyPathLike t) = t"
| "PyOS_FSPath _ = None"

fun fs_bytes :: "fs_text \<Rightarrow> bytes option" where
  "fs_bytes (FsStr s) = s"
| "fs_bytes (FsBytes b) = Some b"

text \<open>A \<open>bool\<close> is an \<open>int\<close> too.\<close>

fun PyLong_Check :: "pyarg \<Rightarrow> bool" where
  "PyLong_Check (PyLong i) = True"
| "PyLong_Check _ = False"

datatype arg_path = NoPath | InvalidPath | Path bytes

definition vis_py_arg_path :: "pyarg \<Rightarrow> nat \<Rightarrow> arg_path" where
  "vis_py_arg_path arg cap =
     (if arg = PyNone \<or> PyLong_Check arg then NoPath
      else
        (case PyOS_FSPath arg of
           None \<Rightarrow> NoPath
         | Some t \<Rightarrow>
             (case fs_bytes t of
                None \<Rightarrow> InvalidPath
              | Some u \<Rightarrow> if length (cstr_of u) \<ge> cap then InvalidPath else Path (cstr_of u))))"

text \<open>The mode string says \<open>w\<close>, \<open>a\<close>, \<open>x\<close> or \<open>+\<close>, or the flags ask for a writing open.  The flags are
  \<open>O_WRONLY\<close>, \<open>O_RDWR\<close>, \<open>O_CREAT\<close>, \<open>O_TRUNC\<close> and \<open>O_APPEND\<close> of Windows or of Linux; a \<open>long\<close> has 32 or 64 bits.\<close>

definition O_WRITES :: "bool \<Rightarrow> int" where
  "O_WRITES win = (if win then 1 OR 2 OR 256 OR 512 OR 8 else 1 OR 2 OR 64 OR 512 OR 1024)"

definition LONG_LIMIT :: "bool \<Rightarrow> int" where
  "LONG_LIMIT win = (if win then 2 ^ 31 else 2 ^ 63)"

definition vis_py_open_writes :: "bool \<Rightarrow> pyarg option \<Rightarrow> pyarg option \<Rightarrow> bool" where
  "vis_py_open_writes win mode flags =
     ((case mode of
         Some (PyStr (Some t)) \<Rightarrow> list_ex (\<lambda>c. c \<in> set ''wax+'') (cstr_of t)
       | _ \<Rightarrow> False)
      \<or> (case flags of
           Some (PyLong bits) \<Rightarrow>
             if bits < - LONG_LIMIT win \<or> bits \<ge> LONG_LIMIT win then True else bits AND O_WRITES win \<noteq> 0
         | _ \<Rightarrow> False))"

section \<open>Event tables\<close>

definition vis_py_thread_events :: "bytes list" where
  "vis_py_thread_events = [''_thread.start_new_thread'', ''_thread.start_joinable_thread'']"

definition vis_py_write_events :: "bytes list" where
  "vis_py_write_events =
    [''os.chmod'', ''os.chown'', ''os.link'', ''os.mkdir'', ''os.remove'',
     ''os.removexattr'', ''os.rename'', ''os.rmdir'', ''os.setxattr'', ''os.symlink'',
     ''os.truncate'', ''os.utime'', ''shutil.copyfile'', ''shutil.copymode'', ''shutil.copystat'',
     ''shutil.move'', ''shutil.rmtree'', ''shutil.unpack_archive'']"

definition vis_py_read_events :: "bytes list" where
  "vis_py_read_events = [''os.chdir'', ''os.getxattr'', ''os.listdir'', ''os.scandir'',
     ''glob.glob'', ''pathlib.Path.glob'']"

definition vis_py_process_events :: "bytes list" where
  "vis_py_process_events =
    [''os.system'', ''os.exec'', ''os.fork'', ''os.forkpty'', ''os.posix_spawn'',
     ''os.spawn'', ''os.startfile'', ''subprocess.Popen'', ''pty.spawn'']"

definition vis_py_native_events :: "bytes list" where
  "vis_py_native_events = [''ctypes.dlsym'', ''ctypes.dlsym/handle'', ''ctypes.call_function'']"

definition vis_py_network_events :: "bytes list" where
  "vis_py_network_events =
    [''socket.__new__'', ''socket.bind'', ''socket.connect'', ''socket.getaddrinfo'',
     ''socket.gethostbyname'', ''socket.gethostbyaddr'', ''socket.sendto'']"

lemmas event_tables = vis_py_thread_events_def vis_py_write_events_def vis_py_read_events_def
  vis_py_process_events_def vis_py_native_events_def vis_py_network_events_def

fun vis_py_event_in :: "bytes \<Rightarrow> bytes list \<Rightarrow> bool" where
  "vis_py_event_in event [] = False"
| "vis_py_event_in event (e # es) = (if event = e then True else vis_py_event_in event es)"

section \<open>The hook\<close>

definition vis_py_refuse ::
  "int \<times> int \<Rightarrow> bytes \<Rightarrow> bytes \<Rightarrow> bool \<Rightarrow> log_state \<Rightarrow> raised option \<times> log_state" where
  "vis_py_refuse now event path writing l =
     (Some (PermissionError,
        ''vis sandbox: '' @ event @ '' of '' @ path @ '' is outside the ''
        @ (if writing then ''writable'' else ''readable'') @ '' roots''),
      vis_py_record now VIS_PY_LOG_WARN ''confine_refused''
        (Some (quoted ''op'' @ '':'' @ quoted event @ '','' @ quoted ''writing'' @ '':''
               @ show_int (if writing then 1 else 0))) l)"

text \<open>\<open>p\<close> is the policy in force while the check holds the policy lock.\<close>

definition vis_py_check ::
  "os_paths \<Rightarrow> int \<times> int \<Rightarrow> policy \<Rightarrow> bytes \<Rightarrow> pyarg \<Rightarrow> bool \<Rightarrow> log_state \<Rightarrow> raised option \<times> log_state" where
  "vis_py_check os now p event arg writing l =
     (case vis_py_arg_path arg (path_max os) of
        NoPath \<Rightarrow> (None, l)
      | InvalidPath \<Rightarrow> vis_py_refuse now event ''<invalid path>'' writing l
      | Path raw \<Rightarrow>
          (case canonical_of os (Some raw) of
             None \<Rightarrow> vis_py_refuse now event raw writing l
           | Some canon \<Rightarrow>
               if vis_py_under canon (write_roots p)
                  \<or> (\<not> writing \<and> vis_py_under canon (read_roots p))
               then (None, l)
               else vis_py_refuse now event canon writing l))"

definition vis_py_refusal :: "bytes \<Rightarrow> bytes \<Rightarrow> nat \<Rightarrow> bytes" where
  "vis_py_refusal chosen fallback cap = snprintf_kept cap (if chosen \<noteq> [] then chosen else fallback)"

text \<open>The loop over the arguments; argument \<open>i\<close> is checked under the policy \<open>ps i\<close>.\<close>

fun check_args ::
  "os_paths \<Rightarrow> int \<times> int \<Rightarrow> (nat \<Rightarrow> policy) \<Rightarrow> bytes \<Rightarrow> nat \<Rightarrow> pyarg list \<Rightarrow> bool \<Rightarrow> log_state \<Rightarrow>
     raised option \<times> log_state" where
  "check_args os now ps event i [] writing l = (None, l)"
| "check_args os now ps event i (a # as) writing l =
     (case vis_py_check os now (ps i) event a writing l of
        (Some e, l1) \<Rightarrow> (Some e, l1)
      | (None, l1) \<Rightarrow> check_args os now ps event (Suc i) as writing l1)"

text \<open>What the hook sees besides the event: the threads of the interpreter, the clock and the
  thread policy.\<close>

record 't hook_env =
  paths :: os_paths
  clock :: "int \<times> int"
  thread_states :: "'t list"
  idle_workers :: int
  budget :: thread_policy

text \<open>The events of direct handles and of the registry, which the build for Windows refuses.\<close>

definition WINDOWS_REFUSAL :: bytes where
  "WINDOWS_REFUSAL = ''vis sandbox: direct Windows handles and registry access are refused''"

definition windows_event :: "bytes \<Rightarrow> bool" where
  "windows_event ev \<longleftrightarrow> take 8 ev = ''_winapi.'' \<or> take 7 ev = ''winreg.''"

text \<open>\<open>p\<close> is the policy whose flags the hook reads, \<open>ps i\<close> the one in force at its \<open>i\<close>-th hold of
  the policy lock.  An absent event or argument tuple is \<open>None\<close>.\<close>

definition vis_py_audit ::
  "'t hook_env \<Rightarrow> policy \<Rightarrow> (nat \<Rightarrow> policy) \<Rightarrow> bytes option \<Rightarrow> pyarg list option \<Rightarrow> log_state \<Rightarrow>
     raised option \<times> log_state" where
  "vis_py_audit H p ps event args l =
     (case event of
        None \<Rightarrow> (None, l)
      | Some ev \<Rightarrow>
          if vis_py_event_in ev vis_py_thread_events then
            vis_py_thread_refused (clock H) (thread_states H) (idle_workers H) (budget H) l
          else if \<not> net_allowed p \<and> vis_py_event_in ev vis_py_network_events then
            (Some (PermissionError, vis_py_refusal (network_refusal (ps 0)) NETWORK_REFUSAL 512), l)
          else
            (case args of
               None \<Rightarrow> (None, l)
             | Some as \<Rightarrow>
                 if \<not> confined p then (None, l)
                 else if on_windows (paths H) \<and> windows_event ev then (Some (PermissionError, WINDOWS_REFUSAL), l)
                 else if vis_py_event_in ev vis_py_process_events then
                   (Some (RuntimeError, vis_py_refusal (process_refusal (ps 0)) PROCESS_REFUSAL 512), l)
                 else if vis_py_event_in ev vis_py_native_events then
                   (Some (RuntimeError, NATIVE_REFUSAL), l)
                 else if length as < 1 then (None, l)
                 else if ev = ''open'' then
                   vis_py_check (paths H) (clock H) (ps 0) ev (as ! 0)
                     (vis_py_open_writes (on_windows (paths H)) (if length as > 1 then Some (as ! 1) else None)
                                         (if length as > 2 then Some (as ! 2) else None)) l
                 else
                   let writing = vis_py_event_in ev vis_py_write_events in
                   if \<not> writing \<and> \<not> vis_py_event_in ev vis_py_read_events then (None, l)
                   else check_args (paths H) (clock H) ps ev 0 as writing l))"

section \<open>Putting a policy in force\<close>

text \<open>What \<open>sys\<close> answers: its attributes as far as the boundary reads them.\<close>

datatype pyval = VStr pystr | VList "pyval list" | VOther

record sys_view =
  initialized :: bool
  sys_module :: "(bytes \<Rightarrow> pyval option) option"

definition add_prefix_root ::
  "allocator \<Rightarrow> os_paths \<Rightarrow> (bytes \<Rightarrow> pyval option) \<Rightarrow> bytes \<Rightarrow> roots \<Rightarrow> roots" where
  "add_prefix_root E os sys name r =
     (case sys name of
        Some (VStr t) \<Rightarrow> vis_py_roots_add E os (map_option cstr_of t) r
      | _ \<Rightarrow> r)"

text \<open>An absolute path, which on Windows also is one that starts with a drive.\<close>

definition absolute_entry :: "bool \<Rightarrow> bytes \<Rightarrow> bool" where
  "absolute_entry win t \<longleftrightarrow>
     (t \<noteq> [] \<and> hd t = SLASH)
     \<or> (win \<and> length t \<ge> 3 \<and> t ! 1 = CHR '':'' \<and> (t ! 2 = CHR 0x5C \<or> t ! 2 = SLASH))"

definition add_path_entry :: "allocator \<Rightarrow> os_paths \<Rightarrow> pyval \<Rightarrow> roots \<Rightarrow> roots" where
  "add_path_entry E os entry r =
     (case entry of
        VStr (Some t) \<Rightarrow>
          if absolute_entry (on_windows os) (cstr_of t)
          then vis_py_roots_add E os (Some (cstr_of t)) r else r
      | _ \<Rightarrow> r)"

definition vis_py_add_interpreter_roots ::
  "allocator \<Rightarrow> os_paths \<Rightarrow> sys_view \<Rightarrow> roots \<Rightarrow> roots" where
  "vis_py_add_interpreter_roots E os S r =
     (if \<not> initialized S then r
      else
        (case sys_module S of
           None \<Rightarrow> r
         | Some sys \<Rightarrow>
             let r1 = fold (add_prefix_root E os sys) [''prefix'', ''base_prefix'', ''exec_prefix''] r
             in (case sys ''path'' of
                   Some (VList entries) \<Rightarrow> fold (add_path_entry E os) entries r1
                 | _ \<Rightarrow> r1)))"

definition vis_py_add_device_roots ::
  "allocator \<Rightarrow> os_paths \<Rightarrow> roots \<Rightarrow> roots \<Rightarrow> roots \<times> roots" where
  "vis_py_add_device_roots E os rr wr =
     (if on_windows os then (rr, wr) else
      (fold (\<lambda>d. vis_py_roots_add E os (Some d))
        [''/dev/null'', ''/dev/zero'', ''/dev/urandom'', ''/dev/random''] rr,
      vis_py_roots_add E os (Some ''/dev/null'') wr))"

definition given :: "bytes option \<Rightarrow> bool" where
  "given s \<longleftrightarrow> (case s of None \<Rightarrow> False | Some t \<Rightarrow> t \<noteq> [])"

text \<open>The policy assembled aside, before the swap: the two lists and whether they confine.\<close>

definition next_roots ::
  "allocator \<Rightarrow> os_paths \<Rightarrow> sys_view \<Rightarrow> bytes \<Rightarrow> bytes option \<Rightarrow> bytes option \<Rightarrow> roots \<times> roots \<times> bool" where
  "next_roots E os S pycache rspec wspec =
     (let rr = vis_py_roots_set E os rspec [];
          wr = vis_py_roots_set E os wspec []
      in if given rspec \<or> given wspec then
           let wr1 = vis_py_roots_add E os (Some pycache) wr;
               rr1 = vis_py_add_interpreter_roots E os S rr;
               (rr2, wr2) = vis_py_add_device_roots E os rr1 wr1
           in (rr2, wr2, True)
         else (rr, wr, False))"

definition vispython_confine ::
  "allocator \<Rightarrow> os_paths \<Rightarrow> sys_view \<Rightarrow> bytes option \<Rightarrow> bytes option \<Rightarrow> bytes option \<Rightarrow> int \<Rightarrow> caller \<Rightarrow>
     policy \<Rightarrow> int \<times> caller \<times> policy" where
  "vispython_confine E os S rspec wspec refusal cap c p =
     (let (rr, wr, conf) = next_roots E os S (pycache_prefix p) rspec wspec;
          summary = snprintf_kept 64 (show_nat (length rr) @ '' '' @ show_nat (length wr));
          p1 = p\<lparr>read_roots := rr, write_roots := wr, confined := conf,
                 process_refusal := snprintf_kept 512 (case refusal of None \<Rightarrow> [] | Some t \<Rightarrow> t)\<rparr>;
          (n, c1) = vis_py_copy_out E summary cap c
      in (n, c1, p1))"

definition vispython_network ::
  "allocator \<Rightarrow> bytes option \<Rightarrow> bytes option \<Rightarrow> int \<Rightarrow> caller \<Rightarrow> policy \<Rightarrow> int \<times> caller \<times> policy" where
  "vispython_network E want refusal cap c p =
     (let p1 = (case Option.bind want scan_d of
                  None \<Rightarrow> p
                | Some (w, _) \<Rightarrow> p\<lparr>net_allowed := (w \<noteq> 0)\<rparr>);
          p2 = (case refusal of
                  None \<Rightarrow> p1
                | Some t \<Rightarrow> p1\<lparr>network_refusal := snprintf_kept 512 t\<rparr>);
          (n, c1) = vis_py_copy_out E
            (snprintf_kept 8 (show_int (if net_allowed p2 then 1 else 0))) cap c
      in (n, c1, p2))"

section \<open>Lemmas\<close>

lemma vis_py_event_in_iff [simp]: "vis_py_event_in ev es \<longleftrightarrow> ev \<in> set es"
  by (induction es) auto

text \<open>What a check lets through: no path at all, or a path whose canonical form lies under a root.\<close>

definition admitted :: "os_paths \<Rightarrow> policy \<Rightarrow> bool \<Rightarrow> pyarg \<Rightarrow> bool" where
  "admitted os p writing arg \<longleftrightarrow>
     (case vis_py_arg_path arg (path_max os) of
        NoPath \<Rightarrow> True
      | InvalidPath \<Rightarrow> False
      | Path raw \<Rightarrow>
          (case canonical_of os (Some raw) of
             None \<Rightarrow> False
           | Some canon \<Rightarrow> vis_py_under canon (write_roots p)
                \<or> (\<not> writing \<and> vis_py_under canon (read_roots p))))"

lemma check_verdict: "fst (vis_py_check os now p ev a writing l) = None \<longleftrightarrow> admitted os p writing a"
  by (auto simp: vis_py_check_def admitted_def vis_py_refuse_def split: arg_path.splits option.splits)

lemma check_admits_quiet: "admitted os p writing a \<Longrightarrow> vis_py_check os now p ev a writing l = (None, l)"
  by (auto simp: vis_py_check_def admitted_def split: arg_path.splits option.splits)

lemma check_refuses:
  "\<not> admitted os p writing a \<Longrightarrow> \<exists>m. fst (vis_py_check os now p ev a writing l) = Some (PermissionError, m)"
  by (auto simp: vis_py_check_def admitted_def vis_py_refuse_def split: arg_path.splits option.splits)

lemma check_args_verdict:
  "fst (check_args os now ps ev i as writing l) = None \<longleftrightarrow>
     (\<forall>k < length as. admitted os (ps (i + k)) writing (as ! k))"
proof (induction as arbitrary: i l)
  case Nil
  then show ?case by simp
next
  case (Cons a as)
  have all: "(\<forall>k < Suc (length as). P k) \<longleftrightarrow> P 0 \<and> (\<forall>k < length as. P (Suc k))" for P
    by (auto simp: less_Suc_eq_0_disj)
  show ?case
  proof (cases "admitted os (ps i) writing a")
    case True
    with Cons show ?thesis by (simp add: check_admits_quiet all)
  next
    case False
    then have "fst (vis_py_check os now (ps i) ev a writing l) \<noteq> None" by (simp add: check_verdict)
    with False show ?thesis by (auto simp: all split: prod.split option.split)
  qed
qed

lemma check_args_quiet:
  "fst (check_args os now ps ev i as writing l) = None \<Longrightarrow> check_args os now ps ev i as writing l = (None, l)"
proof (induction as arbitrary: i l)
  case (Cons a as)
  then have "admitted os (ps i) writing a" using check_args_verdict [of os now ps ev i "a # as" writing l] by force
  moreover from this have "check_args os now ps ev (Suc i) as writing l = (None, l)"
    using Cons by (intro Cons.IH) (simp add: check_admits_quiet split: prod.splits)
  ultimately show ?case by (simp add: check_admits_quiet)
qed simp

text \<open>The path arguments the boundary answers for: the first of \<open>open\<close>, every one of the others.\<close>

definition writing_event :: "bool \<Rightarrow> bytes \<Rightarrow> pyarg list \<Rightarrow> bool" where
  "writing_event win ev as =
     (if ev = ''open'' then vis_py_open_writes win (if length as > 1 then Some (as ! 1) else None)
                              (if length as > 2 then Some (as ! 2) else None)
      else ev \<in> set vis_py_write_events)"

definition path_args :: "bytes \<Rightarrow> pyarg list \<Rightarrow> nat" where
  "path_args ev as = (if ev = ''open'' then 1 else length as)"

definition filesystem_events :: "bytes list" where
  "filesystem_events = ''open'' # vis_py_write_events @ vis_py_read_events"

lemma filesystem_events_distinct:
  "ev \<in> set filesystem_events \<Longrightarrow>
     ev \<notin> set vis_py_thread_events \<and> ev \<notin> set vis_py_network_events
     \<and> ev \<notin> set vis_py_process_events \<and> ev \<notin> set vis_py_native_events \<and> \<not> windows_event ev"
  unfolding filesystem_events_def event_tables windows_event_def
  by (simp only: list.set append.simps) (elim insertE; simp)

lemma open_not_table: "''open'' \<notin> set vis_py_write_events" "''open'' \<notin> set vis_py_read_events"
  by (simp_all add: event_tables)

lemma audit_filesystem:
  assumes "confined p" "ev \<in> set filesystem_events" "as \<noteq> []"
  shows "vis_py_audit H p ps (Some ev) (Some as) l =
    check_args (paths H) (clock H) ps ev 0 (take (path_args ev as) as)
      (writing_event (on_windows (paths H)) ev as) l"
proof (cases "ev = ''open''")
  case True
  have "check_args (paths H) (clock H) ps ev 0 (take 1 as) w l
      = vis_py_check (paths H) (clock H) (ps 0) ev (as ! 0) w l" for w
    using assms(3) by (cases as) (auto split: prod.split option.split)
  with True assms filesystem_events_distinct [OF assms(2)] show ?thesis
    by (auto simp: vis_py_audit_def writing_event_def path_args_def Suc_le_eq)
next
  case False
  with assms filesystem_events_distinct [OF assms(2)] show ?thesis
    by (auto simp: vis_py_audit_def writing_event_def path_args_def Let_def Suc_le_eq filesystem_events_def)
qed

text \<open>Every root in force is the canonical form of some path, no root stands twice, and there are at
  most 64 of them.\<close>

definition roots_ok :: "os_paths \<Rightarrow> roots \<Rightarrow> bool" where
  "roots_ok os r \<longleftrightarrow> distinct r \<and> length r \<le> VIS_PY_MAX_ROOTS
     \<and> (\<forall>x \<in> set r. \<exists>path. canonical_of os (Some path) = Some x)"

lemma roots_ok_Nil [simp]: "roots_ok os []"
  by (simp add: roots_ok_def)

lemma roots_add_ok [keeps]: "roots_ok os r \<Longrightarrow> roots_ok os (vis_py_roots_add E os path r)"
  by (cases path) (auto simp: vis_py_roots_add_def roots_ok_def list_ex_iff split: option.split)

lemma roots_add_full [simp]:
  "VIS_PY_MAX_ROOTS \<le> length r \<Longrightarrow> vis_py_roots_add E os path r = r"
  by (simp add: vis_py_roots_add_def)

lemma fold_keeps: "(\<And>x r. P r \<Longrightarrow> P (f x r)) \<Longrightarrow> P r \<Longrightarrow> P (fold f xs r)"
  by (induction xs arbitrary: r) auto

text \<open>The reference: the lines of the list, each added in turn.\<close>

fun spec_lines :: "bytes \<Rightarrow> bytes list" where
  "spec_lines [] = [[]]"
| "spec_lines (c # s) =
     (if c = NEWLINE then [] # spec_lines s
      else (case spec_lines s of [] \<Rightarrow> [[c]] | l # ls \<Rightarrow> (c # l) # ls))"

definition add_line :: "allocator \<Rightarrow> os_paths \<Rightarrow> bytes \<Rightarrow> roots \<Rightarrow> roots" where
  "add_line E os line r = (if length line < path_max os then vis_py_roots_add E os (Some line) r else r)"

lemma spec_lines_ne [simp]: "spec_lines s \<noteq> []"
  by (induction s) (auto split: list.split)

lemma spec_lines_split:
  "spec_lines s = (let l = takeWhile (\<lambda>c. c \<noteq> NEWLINE) s in
     if length l = length s then [s] else l # spec_lines (drop (length l + 1) s))"
proof (induction s)
  case (Cons c s)
  show ?case
  proof (cases "c = NEWLINE")
    case False
    with Cons show ?thesis
      by (auto simp: Let_def split: list.split if_splits)
  qed simp
qed simp

lemma add_line_full [simp]: "VIS_PY_MAX_ROOTS \<le> length r \<Longrightarrow> fold (add_line E os) ls r = r"
  by (induction ls) (auto simp: add_line_def)

lemma add_line_Nil [simp]: "add_line E os [] r = r"
  by (simp add: add_line_def vis_py_roots_add_def)

lemma roots_loop_step:
  fixes spec defines "l \<equiv> takeWhile (\<lambda>c. c \<noteq> NEWLINE) spec"
  assumes "spec \<noteq> []" "length r < VIS_PY_MAX_ROOTS"
  shows "roots_loop E os spec r =
    (if length l = length spec then add_line E os spec r
     else roots_loop E os (drop (length l + 1) spec) (add_line E os l r))"
proof -
  have take: "take (length l) spec = l"
    unfolding l_def by (metis append_eq_conv_conj takeWhile_dropWhile_id)
  have "(if length l > 0 \<and> length l < path_max os
      then vis_py_roots_add E os (Some (take (length l) spec)) r else r) = add_line E os l r"
    by (cases "l = []") (auto simp: add_line_def take vis_py_roots_add_def)
  moreover have "length l = length spec \<Longrightarrow> l = spec" using take by simp
  ultimately show ?thesis
    using assms(2,3) by (subst roots_loop.simps) (simp only: Let_def l_def [symmetric] simp_thms if_True, metis)
qed

lemma roots_loop_lines: "roots_loop E os spec r = fold (add_line E os) (spec_lines spec) r"
proof (induction "length spec" arbitrary: spec r rule: less_induct)
  case less
  let ?l = "takeWhile (\<lambda>c. c \<noteq> NEWLINE) spec"
  show ?case
  proof (cases "spec = [] \<or> VIS_PY_MAX_ROOTS \<le> length r")
    case True
    then show ?thesis by (subst roots_loop.simps) auto
  next
    case go: False
    show ?thesis
    proof (cases "length ?l = length spec")
      case True
      with go show ?thesis
        by (subst spec_lines_split) (simp add: roots_loop_step Let_def)
    next
      case False
      have "length (drop (length ?l + 1) spec) < length spec" using go by simp
      from less [OF this] go False show ?thesis
        by (subst spec_lines_split) (simp add: roots_loop_step Let_def)
    qed
  qed
qed

lemma add_line_ok: "roots_ok os r \<Longrightarrow> roots_ok os (add_line E os line r)"
  by (simp add: add_line_def roots_add_ok)

lemma roots_set_ok [keeps]: "roots_ok os (vis_py_roots_set E os spec r)"
  by (cases spec) (auto simp: vis_py_roots_set_def vis_py_roots_clear_def roots_loop_lines
      intro!: fold_keeps [where P = "roots_ok os"] add_line_ok)

lemma add_prefix_root_ok: "roots_ok os r \<Longrightarrow> roots_ok os (add_prefix_root E os sys name r)"
  by (auto simp: add_prefix_root_def roots_add_ok split: option.split pyval.split)

lemma add_path_entry_ok: "roots_ok os r \<Longrightarrow> roots_ok os (add_path_entry E os entry r)"
  by (auto simp: add_path_entry_def roots_add_ok split: pyval.split option.split)

lemma add_interpreter_roots_ok [keeps]:
  "roots_ok os r \<Longrightarrow> roots_ok os (vis_py_add_interpreter_roots E os S r)"
  unfolding vis_py_add_interpreter_roots_def Let_def
  by (auto split: option.split pyval.split
      intro!: fold_keeps [where P = "roots_ok os"] add_prefix_root_ok add_path_entry_ok)

lemma add_device_roots_ok [keeps]:
  "roots_ok os r \<Longrightarrow> roots_ok os w \<Longrightarrow>
     roots_ok os (fst (vis_py_add_device_roots E os r w)) \<and> roots_ok os (snd (vis_py_add_device_roots E os r w))"
  by (simp add: vis_py_add_device_roots_def roots_add_ok)

lemma next_roots_ok:
  assumes "next_roots E os S pycache rspec wspec = (rr, wr, conf)"
  shows "roots_ok os rr \<and> roots_ok os wr \<and> (conf \<longleftrightarrow> given rspec \<or> given wspec)"
proof (cases "given rspec \<or> given wspec")
  case True
  let ?r = "vis_py_add_interpreter_roots E os S (vis_py_roots_set E os rspec [])"
  let ?w = "vis_py_roots_add E os (Some pycache) (vis_py_roots_set E os wspec [])"
  have "roots_ok os ?r" "roots_ok os ?w" by (intro keeps)+
  with add_device_roots_ok [of os ?r ?w E] True assms show ?thesis
    by (auto simp: next_roots_def Let_def split: prod.splits)
next
  case False
  with assms show ?thesis by (auto simp: next_roots_def Let_def intro: keeps)
qed

section \<open>Properties\<close>

text \<open>C1: A filesystem event the hook lets through under a confining policy named no path, or only
  paths whose canonical form lies under a root of a policy in force while that argument was checked:
  a writable root for a writing event, a writable or readable root for a reading one. This holds for
  every argument of the event, however the host swaps policies while the hook runs, and conversely
  an event whose paths all lie there is let through without a log record.\<close>

theorem audit_admits_only_roots:
  assumes "confined p" "ev \<in> set filesystem_events" "as \<noteq> []"
  shows "fst (vis_py_audit H p ps (Some ev) (Some as) l) = None \<longleftrightarrow>
    (\<forall>i < path_args ev as. i < length as \<longrightarrow>
       admitted (paths H) (ps i) (writing_event (on_windows (paths H)) ev as) (as ! i))"
  using audit_filesystem [OF assms, of H ps l] by (auto simp: check_args_verdict)

definition witness_hook :: "nat hook_env" where
  "witness_hook = \<lparr>paths = \<lparr>realpath = (\<lambda>p. Some p), getcwd = None, win_canonical = None\<rparr>, clock = (0, 0),
     thread_states = [], idle_workers = 0, budget = initial_thread_policy\<rparr>"

definition witness_policy :: policy where
  "witness_policy = initial_policy\<lparr>confined := True, write_roots := [''/w''], read_roots := [''/r'']\<rparr>"

theorem audit_admits_only_roots_witness:
  "fst (vis_py_audit witness_hook witness_policy (\<lambda>_. witness_policy) (Some ''os.rename'')
     (Some [PyStr (Some ''/w/a''), PyStr (Some ''/r/b'')]) vis_py_log_init) \<noteq> None"
proof -
  have h: "confined witness_policy" "''os.rename'' \<in> set filesystem_events"
    "[PyStr (Some ''/w/a''), PyStr (Some ''/r/b'')] \<noteq> []"
    by (simp_all add: witness_policy_def filesystem_events_def vis_py_write_events_def)
  have "\<not> admitted (paths witness_hook) witness_policy True (PyStr (Some ''/r/b''))"
    by (simp add: admitted_def vis_py_arg_path_def canonical_of_def vis_py_canonical_def
        canonical_loop.simps join_tail_def witness_hook_def witness_policy_def vis_py_under_def
        under_one_def path_max_def on_windows_def PATH_MAX_def SLASH_def cstr_of_def NUL_def)
  moreover have "writing_event (on_windows (paths witness_hook)) ''os.rename'' [PyStr (Some ''/w/a''), PyStr (Some ''/r/b'')]"
    "path_args ''os.rename'' [PyStr (Some ''/w/a''), PyStr (Some ''/r/b'')] = 2"
    by (simp_all add: writing_event_def path_args_def vis_py_write_events_def)
  ultimately show ?thesis
    unfolding audit_admits_only_roots [OF h, of witness_hook "\<lambda>_. witness_policy" vis_py_log_init]
    by (auto intro!: exI [of _ 1])
qed

lemma capability_events_distinct:
  "ev \<in> set vis_py_network_events \<Longrightarrow> ev \<notin> set vis_py_thread_events"
  "ev \<in> set vis_py_process_events \<Longrightarrow>
     ev \<notin> set vis_py_thread_events \<and> ev \<notin> set vis_py_network_events"
  "ev \<in> set vis_py_native_events \<Longrightarrow> ev \<notin> set vis_py_thread_events
     \<and> ev \<notin> set vis_py_network_events \<and> ev \<notin> set vis_py_process_events"
  unfolding event_tables by (simp only: list.set; elim insertE; simp)+

lemma capability_not_windows:
  "ev \<in> set vis_py_network_events \<or> ev \<in> set vis_py_process_events \<or> ev \<in> set vis_py_native_events
     \<or> ev \<in> set vis_py_thread_events \<Longrightarrow> \<not> windows_event ev"
  unfolding event_tables windows_event_def by (simp only: list.set) (elim disjE insertE; simp)

text \<open>C3: The capabilities a session was not given are refused whatever the arguments say. Without
  network access every socket and name-lookup event raises \<open>PermissionError\<close>, confined or not; under
  a confining policy every process event raises \<open>RuntimeError\<close> with the host's sentence, cut to 511
  bytes, or the library's when the host gave none, and every native-symbol event the library's; in a build for
  Windows every event of a direct handle or of the registry raises \<open>PermissionError\<close>.\<close>

theorem audit_refuses_capabilities:
  "(\<not> net_allowed p \<and> ev \<in> set vis_py_network_events \<longrightarrow>
      vis_py_audit H p ps (Some ev) args l =
        (Some (PermissionError, take 511 (if network_refusal (ps 0) = [] then NETWORK_REFUSAL
                                          else network_refusal (ps 0))), l))
   \<and> (confined p \<and> ev \<in> set vis_py_process_events \<longrightarrow>
      vis_py_audit H p ps (Some ev) (Some as) l =
        (Some (RuntimeError, take 511 (if process_refusal (ps 0) = [] then PROCESS_REFUSAL
                                       else process_refusal (ps 0))), l))
   \<and> (confined p \<and> ev \<in> set vis_py_native_events \<longrightarrow>
      vis_py_audit H p ps (Some ev) (Some as) l = (Some (RuntimeError, NATIVE_REFUSAL), l))
   \<and> (confined p \<and> on_windows (paths H) \<and> windows_event ev \<longrightarrow>
      vis_py_audit H p ps (Some ev) (Some as) l = (Some (PermissionError, WINDOWS_REFUSAL), l))"
  using capability_events_distinct [of ev] capability_not_windows [of ev]
  by (auto simp add: vis_py_audit_def vis_py_refusal_def snprintf_kept_def)

theorem audit_refuses_capabilities_witness:
  "fst (vis_py_audit witness_hook (witness_policy\<lparr>net_allowed := False\<rparr>) (\<lambda>_. witness_policy)
     (Some ''socket.connect'') None vis_py_log_init) = Some (PermissionError, take 511 NETWORK_REFUSAL)
   \<and> fst (vis_py_audit witness_hook witness_policy (\<lambda>_. witness_policy\<lparr>process_refusal := ''no''\<rparr>)
     (Some ''os.system'') (Some []) vis_py_log_init) = Some (RuntimeError, ''no'')"
  using audit_refuses_capabilities [of "witness_policy\<lparr>net_allowed := False\<rparr>" "''socket.connect''"
      witness_hook "\<lambda>_. witness_policy" None vis_py_log_init]
    audit_refuses_capabilities [of witness_policy "''os.system''" witness_hook
      "\<lambda>_. witness_policy\<lparr>process_refusal := ''no''\<rparr>" _ vis_py_log_init "[]"]
  by (simp add: vis_py_network_events_def vis_py_process_events_def witness_policy_def initial_policy_def)

text \<open>After \<open>vispython_confine\<close> a policy is in force exactly when a nonempty list was given, even
  when none of its paths resolves. Every root in force is the canonical form of a path, no list
  holds a root twice or more than 64 roots, and the network capability is left as it was.\<close>

theorem confine_installs_canonical_roots:
  "let p1 = snd (snd (vispython_confine E os S rspec wspec refusal cap c p))
   in (confined p1 \<longleftrightarrow> given rspec \<or> given wspec)
      \<and> roots_ok os (read_roots p1) \<and> roots_ok os (write_roots p1)
      \<and> net_allowed p1 = net_allowed p \<and> pycache_prefix p1 = pycache_prefix p"
proof -
  obtain rr wr conf where n: "next_roots E os S (pycache_prefix p) rspec wspec = (rr, wr, conf)"
    by (metis prod_cases3)
  from next_roots_ok [OF n] n show ?thesis
    by (auto simp: vispython_confine_def Let_def split: prod.split)
qed

text \<open>The root list the host's newline-separated text gives is the list of its lines in order, each
  added when it is shorter than the path limit, resolves and is not there yet, until 64 are kept.
  The old list never shows through.\<close>

theorem roots_set_adds_lines:
  "vis_py_roots_set E os (Some spec) old = fold (add_line E os) (spec_lines spec) []"
  by (simp add: vis_py_roots_set_def vis_py_roots_clear_def roots_loop_lines)

text \<open>The paths a policy stands for: the lines the host gave, and what the interpreter owns.\<close>

definition host_lines :: "bytes option \<Rightarrow> bytes list" where
  "host_lines spec = (case spec of None \<Rightarrow> [] | Some t \<Rightarrow> spec_lines t)"

definition prefix_path :: "(bytes \<Rightarrow> pyval option) \<Rightarrow> bytes \<Rightarrow> bytes list" where
  "prefix_path sys name = (case sys name of Some (VStr (Some t)) \<Rightarrow> [cstr_of t] | _ \<Rightarrow> [])"

definition entry_path :: "bool \<Rightarrow> pyval \<Rightarrow> bytes list" where
  "entry_path win entry =
     (case entry of VStr (Some t) \<Rightarrow> if absolute_entry win (cstr_of t) then [cstr_of t] else [] | _ \<Rightarrow> [])"

definition interpreter_paths :: "bool \<Rightarrow> sys_view \<Rightarrow> bytes list" where
  "interpreter_paths win S =
     (if \<not> initialized S then []
      else case sys_module S of
          None \<Rightarrow> []
        | Some sys \<Rightarrow>
            concat (map (prefix_path sys) [''prefix'', ''base_prefix'', ''exec_prefix''])
            @ (case sys ''path'' of Some (VList entries) \<Rightarrow> concat (map (entry_path win) entries) | _ \<Rightarrow> []))"

definition policy_paths ::
  "bool \<Rightarrow> sys_view \<Rightarrow> bytes \<Rightarrow> bytes option \<Rightarrow> bytes option \<Rightarrow> bool \<Rightarrow> bytes list" where
  "policy_paths win S pycache rspec wspec writing =
     host_lines wspec @ [pycache] @ (if win then [] else [''/dev/null''])
     @ (if writing then []
        else host_lines rspec @ interpreter_paths win S
          @ (if win then [] else [''/dev/null'', ''/dev/zero'', ''/dev/urandom'', ''/dev/random'']))"

text \<open>Every root of a list is the canonical form of one of some paths.\<close>

definition roots_from :: "os_paths \<Rightarrow> bytes set \<Rightarrow> roots \<Rightarrow> bool" where
  "roots_from os ps r \<longleftrightarrow> (\<forall>x \<in> set r. \<exists>path \<in> ps. canonical_of os (Some path) = Some x)"

lemma roots_from_Nil [simp]: "roots_from os ps []"
  by (simp add: roots_from_def)

lemma roots_from_mono: "roots_from os ps r \<Longrightarrow> ps \<subseteq> qs \<Longrightarrow> roots_from os qs r"
  by (auto simp: roots_from_def)

lemma roots_from_add: "roots_from os ps r \<Longrightarrow> path \<in> ps \<Longrightarrow> roots_from os ps (vis_py_roots_add E os (Some path) r)"
  by (auto simp: vis_py_roots_add_def roots_from_def split: option.split)

lemma roots_from_fold:
  "(\<And>x r. x \<in> set xs \<Longrightarrow> roots_from os ps r \<Longrightarrow> roots_from os ps (f x r)) \<Longrightarrow> roots_from os ps r
     \<Longrightarrow> roots_from os ps (fold f xs r)"
  by (induction xs arbitrary: r) auto

lemma roots_from_set: "roots_from os (set (host_lines spec)) (vis_py_roots_set E os spec [])"
  by (cases spec) (auto simp: vis_py_roots_set_def vis_py_roots_clear_def roots_loop_lines host_lines_def add_line_def
      intro!: roots_from_fold roots_from_add)

lemma roots_from_prefix:
  "set (prefix_path sys name) \<subseteq> ps \<Longrightarrow> roots_from os ps r \<Longrightarrow> roots_from os ps (add_prefix_root E os sys name r)"
proof (cases "sys name")
  case (Some v)
  assume a: "set (prefix_path sys name) \<subseteq> ps" "roots_from os ps r"
  show ?thesis
  proof (cases v)
    case (VStr t)
    with Some a show ?thesis
      by (cases t) (auto simp: add_prefix_root_def prefix_path_def vis_py_roots_add_def [of E os None] intro: roots_from_add)
  qed (use Some a in \<open>simp_all add: add_prefix_root_def\<close>)
qed (simp add: add_prefix_root_def)

lemma roots_from_entry:
  "set (entry_path (on_windows os) entry) \<subseteq> ps \<Longrightarrow> roots_from os ps r \<Longrightarrow> roots_from os ps (add_path_entry E os entry r)"
  by (auto simp: add_path_entry_def entry_path_def intro: roots_from_add split: pyval.split option.split if_splits)

lemma roots_from_interpreter:
  assumes "set (interpreter_paths (on_windows os) S) \<subseteq> ps" "roots_from os ps r"
  shows "roots_from os ps (vis_py_add_interpreter_roots E os S r)"
proof (cases "initialized S \<and> sys_module S \<noteq> None")
  case True
  then obtain sys where sys: "initialized S" "sys_module S = Some sys" by auto
  let ?names = "[''prefix'', ''base_prefix'', ''exec_prefix'']"
  have names: "\<forall>n \<in> set ?names. set (prefix_path sys n) \<subseteq> ps"
    using assms(1) by (auto simp: interpreter_paths_def sys)
  have 1: "roots_from os ps (fold (add_prefix_root E os sys) ?names r)"
    by (rule roots_from_fold) (use names assms(2) in \<open>auto intro: roots_from_prefix\<close>)
  have 2: "roots_from os ps (fold (add_path_entry E os) es (fold (add_prefix_root E os sys) ?names r))"
    if "sys ''path'' = Some (VList es)" for es
  proof (rule roots_from_fold [OF _ 1])
    fix x r assume "x \<in> set es" "roots_from os ps r"
    moreover have "set (concat (map (entry_path (on_windows os)) es)) \<subseteq> ps"
      using assms(1) that by (auto simp: interpreter_paths_def sys)
    ultimately show "roots_from os ps (add_path_entry E os x r)" by (intro roots_from_entry) auto
  qed
  show ?thesis
    using 1 2 by (auto simp: vis_py_add_interpreter_roots_def sys Let_def split: option.split pyval.split)
next
  case False
  with assms(2) show ?thesis by (auto simp: vis_py_add_interpreter_roots_def split: option.split)
qed

lemma roots_from_devices:
  assumes "roots_from os ps r" "roots_from os qs w"
    and "\<not> on_windows os \<Longrightarrow> set [''/dev/null'', ''/dev/zero'', ''/dev/urandom'', ''/dev/random''] \<subseteq> ps \<and> ''/dev/null'' \<in> qs"
  shows "roots_from os ps (fst (vis_py_add_device_roots E os r w))" "roots_from os qs (snd (vis_py_add_device_roots E os r w))"
  using assms by (auto simp: vis_py_add_device_roots_def intro!: roots_from_add)

lemma confine_roots_from:
  assumes "given rspec \<or> given wspec" "next_roots E os S pycache rspec wspec = (rr, wr, conf)"
  shows "conf" "roots_from os (set (policy_paths (on_windows os) S pycache rspec wspec True)) wr"
    "roots_from os (set (policy_paths (on_windows os) S pycache rspec wspec False)) rr"
proof -
  let ?P = "\<lambda>writing. set (policy_paths (on_windows os) S pycache rspec wspec writing)"
  let ?r = "vis_py_add_interpreter_roots E os S (vis_py_roots_set E os rspec [])"
  let ?w = "vis_py_roots_add E os (Some pycache) (vis_py_roots_set E os wspec [])"
  have w: "roots_from os (?P True) ?w"
    by (rule roots_from_add, rule roots_from_mono [OF roots_from_set]) (auto simp: policy_paths_def)
  have r: "roots_from os (?P False) ?r"
    by (rule roots_from_interpreter, simp add: policy_paths_def, blast)
      (rule roots_from_mono [OF roots_from_set], auto simp: policy_paths_def)
  have dev: "roots_from os (?P False) (fst (vis_py_add_device_roots E os ?r ?w))"
    "roots_from os (?P True) (snd (vis_py_add_device_roots E os ?r ?w))"
    by (rule roots_from_devices [OF r w]; simp add: policy_paths_def)+
  have "(rr, wr) = vis_py_add_device_roots E os ?r ?w" "conf"
    using assms by (auto simp: next_roots_def Let_def split: prod.splits)
  with dev show "conf" "roots_from os (?P True) wr" "roots_from os (?P False) rr" by (auto simp: prod_eq_iff)
qed

text \<open>C30: Confinement fails closed.  When the host asks for a policy by any nonempty list, whatever policy was in
  force before and whichever lines resolve, the guest is confined, and a filesystem event passes for an argument that
  names a path only when the path lies under the canonical form of a line of the host's lists, of the cache prefix, of
  a path the interpreter is installed at, or of a null or random device; for writing only lines of the writable list,
  the cache prefix and the null device count.  A line that does not resolve admits nothing, so a list of such lines
  leaves only what the interpreter owns.\<close>

theorem confine_fails_closed:
  assumes "given rspec \<or> given wspec"
    and "p1 = snd (snd (vispython_confine E (paths H) S rspec wspec refusal cap c p))"
    and "ev \<in> set filesystem_events" "vis_py_arg_path a (path_max (paths H)) \<noteq> NoPath"
  shows "confined p1 \<and>
    (fst (vis_py_audit H p1 (\<lambda>_. p1) (Some ev) (Some (a # as)) l) = None \<longrightarrow>
      (\<exists>raw canon path root. vis_py_arg_path a (path_max (paths H)) = Path raw
        \<and> canonical_of (paths H) (Some raw) = Some canon
        \<and> path \<in> set (policy_paths (on_windows (paths H)) S (pycache_prefix p) rspec wspec
            (writing_event (on_windows (paths H)) ev (a # as)))
        \<and> canonical_of (paths H) (Some path) = Some root \<and> under_one canon root))"
proof -
  let ?w = "writing_event (on_windows (paths H)) ev (a # as)"
  let ?P = "\<lambda>writing. set (policy_paths (on_windows (paths H)) S (pycache_prefix p) rspec wspec writing)"
  obtain rr wr conf where n: "next_roots E (paths H) S (pycache_prefix p) rspec wspec = (rr, wr, conf)"
    by (metis prod_cases3)
  have p1: "read_roots p1 = rr" "write_roots p1 = wr" "confined p1"
    using n confine_roots_from(1) [OF assms(1) n] assms(2) by (simp_all add: vispython_confine_def split: prod.split)
  have sub: "?P True \<subseteq> ?P w" for w by (auto simp: policy_paths_def)
  have wr: "roots_from (paths H) (?P ?w) wr"
    by (rule roots_from_mono [OF confine_roots_from(2) [OF assms(1) n] sub])
  have rr: "\<not> ?w \<Longrightarrow> roots_from (paths H) (?P ?w) rr" using confine_roots_from(3) [OF assms(1) n] by simp
  have "\<exists>raw canon path root. vis_py_arg_path a (path_max (paths H)) = Path raw
      \<and> canonical_of (paths H) (Some raw) = Some canon \<and> path \<in> ?P ?w
      \<and> canonical_of (paths H) (Some path) = Some root \<and> under_one canon root"
    if "fst (vis_py_audit H p1 (\<lambda>_. p1) (Some ev) (Some (a # as)) l) = None"
  proof -
    have "admitted (paths H) p1 ?w a"
    proof -
      have "fst (check_args (paths H) (clock H) (\<lambda>_. p1) ev 0 (take (path_args ev (a # as)) (a # as)) ?w l) = None"
        using that audit_filesystem [OF p1(3) assms(3), of "a # as" H "\<lambda>_. p1" l] by simp
      then have "\<forall>k < length (take (path_args ev (a # as)) (a # as)). admitted (paths H) p1 ?w (take (path_args ev (a # as)) (a # as) ! k)"
        unfolding check_args_verdict .
      moreover have "0 < path_args ev (a # as)" by (simp add: path_args_def)
      ultimately show ?thesis by force
    qed
    moreover obtain raw where raw: "vis_py_arg_path a (path_max (paths H)) = Path raw"
      using calculation assms(4) by (cases "vis_py_arg_path a (path_max (paths H))") (simp_all add: admitted_def)
    ultimately obtain canon where canon: "canonical_of (paths H) (Some raw) = Some canon"
      and u: "vis_py_under canon wr \<or> \<not> ?w \<and> vis_py_under canon rr"
      by (auto simp: admitted_def p1 split: option.splits)
    then obtain root where root: "under_one canon root" "root \<in> set wr \<or> \<not> ?w \<and> root \<in> set rr"
      unfolding vis_py_under_def list_ex_iff by blast
    then obtain path where "path \<in> ?P ?w" "canonical_of (paths H) (Some path) = Some root"
      using wr rr unfolding roots_from_def by blast
    with raw canon root(1) have "vis_py_arg_path a (path_max (paths H)) = Path raw \<and> canonical_of (paths H) (Some raw) = Some canon
      \<and> path \<in> ?P ?w \<and> canonical_of (paths H) (Some path) = Some root \<and> under_one canon root" by simp
    then show ?thesis by blast
  qed
  with p1(3) show ?thesis by blast
qed

theorem confine_fails_closed_witness:
  "let p1 = snd (snd (vispython_confine \<lparr>malloc_ok = \<lambda>_. True, pyalloc_ok = \<lambda>_. True\<rparr> (paths witness_hook)
        \<lparr>initialized = False, sys_module = None\<rparr> (Some ''/r'') None None 8 \<lparr>out_buf = None, stash = None\<rparr> initial_policy))
   in confined p1 \<and> fst (vis_py_audit witness_hook p1 (\<lambda>_. p1) (Some ''open'') (Some [PyStr (Some ''/etc/passwd'')]) vis_py_log_init) \<noteq> None"
proof -
  let ?E = "\<lparr>malloc_ok = \<lambda>_. True, pyalloc_ok = \<lambda>_. True\<rparr>"
  let ?S = "\<lparr>initialized = False, sys_module = None\<rparr>" and ?c = "\<lparr>out_buf = None, stash = None\<rparr>"
  let ?p1 = "snd (snd (vispython_confine ?E (paths witness_hook) ?S (Some ''/r'') None None 8 ?c initial_policy))"
  let ?a = "PyStr (Some ''/etc/passwd'')"
  have posix: "on_windows (paths witness_hook) = False" "path_max (paths witness_hook) = PATH_MAX"
    by (simp_all add: on_windows_def path_max_def witness_hook_def)
  have given: "given (Some ''/r'') \<or> given None" by (simp add: given_def)
  have ev: "''open'' \<in> set filesystem_events" "vis_py_arg_path ?a (path_max (paths witness_hook)) = Path ''/etc/passwd''"
    by (simp_all add: filesystem_events_def vis_py_arg_path_def posix cstr_of_def NUL_def PATH_MAX_def)
  have canon: "canonical_of (paths witness_hook) (Some q) = Some q" if "hd q = SLASH" "q \<noteq> []" "length q < PATH_MAX" for q
    using that posix by (simp add: canonical_of_def canonical_existing witness_hook_def path_max_def on_windows_def)
  have none: "canonical_of (paths witness_hook) (Some []) = None"
    by (simp add: canonical_of_def vis_py_canonical_def witness_hook_def)
  have "\<not> under_one ''/etc/passwd'' root"
    if "path \<in> set (policy_paths False ?S [] (Some ''/r'') None w)" "canonical_of (paths witness_hook) (Some path) = Some root" for path root w
    using that by (cases w) (auto simp: policy_paths_def host_lines_def interpreter_paths_def canon none under_one_def SLASH_def NEWLINE_def PATH_MAX_def)
  then have away: "\<not> (\<exists>path root. path \<in> set (policy_paths False ?S [] (Some ''/r'') None w)
      \<and> canonical_of (paths witness_hook) (Some path) = Some root \<and> under_one ''/etc/passwd'' root)" for w by blast
  have passwd: "canonical_of (paths witness_hook) (Some ''/etc/passwd'') = Some ''/etc/passwd''"
    by (rule canon) (simp_all add: SLASH_def PATH_MAX_def)
  have cache: "pycache_prefix initial_policy = []" by (simp add: initial_policy_def)
  have named: "vis_py_arg_path ?a (path_max (paths witness_hook)) \<noteq> NoPath" unfolding ev(2) by simp
  note T = confine_fails_closed [OF given refl ev(1) named, of ?E ?S None 8 ?c initial_policy "[]" vis_py_log_init,
      unfolded posix(1) cache ev(2)]
  have "fst (vis_py_audit witness_hook ?p1 (\<lambda>_. ?p1) (Some ''open'') (Some [?a]) vis_py_log_init) \<noteq> None"
  proof
    assume none: "fst (vis_py_audit witness_hook ?p1 (\<lambda>_. ?p1) (Some ''open'') (Some [?a]) vis_py_log_init) = None"
    from T [THEN conjunct2, THEN mp, OF none] obtain raw canon path root where "Path ''/etc/passwd'' = Path raw"
      "canonical_of (paths witness_hook) (Some raw) = Some canon"
      "path \<in> set (policy_paths False ?S [] (Some ''/r'') None (writing_event False ''open'' [?a]))"
      "canonical_of (paths witness_hook) (Some path) = Some root" "under_one canon root"
      by blast
    with passwd away show False by auto
  qed
  then show ?thesis unfolding Let_def using T [THEN conjunct1] by blast
qed

text \<open>The part of a path behind its deepest existing directory keeps its \<open>..\<close> components, so a
  path that leaves a root through a directory that does not exist yet is let through as written:
  with \<open>/root\<close> writable and nothing below it, \<open>/root/missing/../../etc/x\<close> passes the check of a
  writing event although its lexical target is \<open>/etc/x\<close>.\<close>

theorem missing_parent_dotdot_admitted:
  "vis_py_check \<lparr>realpath = (\<lambda>p. if p = ''/root'' \<or> p = ''/'' then Some p else None), getcwd = None, win_canonical = None\<rparr> (0, 0)
     (initial_policy\<lparr>confined := True, write_roots := [''/root'']\<rparr>) ''os.mkdir''
     (PyStr (Some ''/root/missing/../../etc/x'')) True vis_py_log_init = (None, vis_py_log_init)"
  by (intro check_admits_quiet)
     (simp add: admitted_def vis_py_arg_path_def canonical_of_def vis_py_canonical_def
        canonical_loop.simps join_tail_def push_piece_def vis_py_under_def initial_policy_def
        under_one_def path_max_def on_windows_def PATH_MAX_def SLASH_def cstr_of_def NUL_def)

end
