(* ===== verification/Sessions.thy ===== *)
theory Sessions
  imports Confinement
begin

text \<open>
  Who is calling: the per-thread stack of sessions the runtime was asked to run, the table of
  sessions the host trusts, and the upcall \<open>_vis_host.call\<close> with its two-step reply buffer
  (\<^verbatim>\<open>native/vispython/vispython.c\<close>).  The host's function is a parameter.
\<close>

section \<open>The run stack\<close>

definition VIS_PY_SESSION_NAME :: nat where "VIS_PY_SESSION_NAME = 128"

definition VIS_PY_RUN_DEPTH :: nat where "VIS_PY_RUN_DEPTH = 32"

definition VIS_PY_TRUSTED_MAX :: nat where "VIS_PY_TRUSTED_MAX = 64"

lemmas session_consts = VIS_PY_SESSION_NAME_def VIS_PY_RUN_DEPTH_def VIS_PY_TRUSTED_MAX_def

record thread_runs =
  run_stack :: "bytes list"
  run_depth :: nat

definition initial_runs :: thread_runs where
  "initial_runs = \<lparr>run_stack = replicate VIS_PY_RUN_DEPTH [], run_depth = 0\<rparr>"

definition vis_py_run_push :: "bytes option \<Rightarrow> thread_runs \<Rightarrow> thread_runs" where
  "vis_py_run_push session t =
     (if run_depth t \<ge> VIS_PY_RUN_DEPTH then t\<lparr>run_depth := run_depth t + 1\<rparr>
      else t\<lparr>run_stack := (run_stack t)[run_depth t :=
               snprintf_kept VIS_PY_SESSION_NAME (case session of None \<Rightarrow> [] | Some s \<Rightarrow> s)],
             run_depth := run_depth t + 1\<rparr>)"

definition vis_py_run_pop :: "thread_runs \<Rightarrow> thread_runs" where
  "vis_py_run_pop t = (if run_depth t > 0 then t\<lparr>run_depth := run_depth t - 1\<rparr> else t)"

definition vis_py_current_session :: "thread_runs \<Rightarrow> bytes option" where
  "vis_py_current_session t =
     (if run_depth t = 0 \<or> run_depth t - 1 \<ge> VIS_PY_RUN_DEPTH then None
      else
        let name = run_stack t ! (run_depth t - 1)
        in if name = [] then None else Some name)"

section \<open>The trusted sessions\<close>

text \<open>The table: 64 names, the empty name a free slot.\<close>

type_synonym trusted = "bytes list"

definition initial_trusted :: trusted where
  "initial_trusted = replicate VIS_PY_TRUSTED_MAX []"

definition vis_py_session_trusted :: "bytes option \<Rightarrow> trusted \<Rightarrow> bool" where
  "vis_py_session_trusted session T =
     (case session of
        None \<Rightarrow> False
      | Some s \<Rightarrow> if s = [] then False else list_ex (\<lambda>x. x = s) T)"

text \<open>The search of \<open>vispython_trust\<close>: the session's slot, else the first free one.\<close>

fun trust_slot :: "bytes \<Rightarrow> nat \<Rightarrow> bytes list \<Rightarrow> nat option \<Rightarrow> nat option" where
  "trust_slot s i [] found = found"
| "trust_slot s i (x # xs) found =
     (if x = s then Some i
      else trust_slot s (Suc i) xs (if found = None \<and> x = [] then Some i else found))"

definition trusted_count :: "trusted \<Rightarrow> nat" where
  "trusted_count T = length [x \<leftarrow> T. x \<noteq> []]"

definition trust_want :: "bytes option \<Rightarrow> int" where
  "trust_want policy = (case Option.bind policy scan_d of None \<Rightarrow> 1 | Some (w, _) \<Rightarrow> w)"

definition trust_update :: "bytes \<Rightarrow> int \<Rightarrow> trusted \<Rightarrow> trusted" where
  "trust_update s want T =
     (case trust_slot s 0 T None of
        None \<Rightarrow> T
      | Some k \<Rightarrow>
          if want \<noteq> 0 then T[k := snprintf_kept VIS_PY_SESSION_NAME s]
          else if T ! k = s then T[k := []] else T)"

definition vispython_trust ::
  "allocator \<Rightarrow> bytes option \<Rightarrow> bytes option \<Rightarrow> int \<Rightarrow> caller \<Rightarrow> trusted \<Rightarrow> int \<times> caller \<times> trusted" where
  "vispython_trust E session policy cap c T =
     (case session of
        None \<Rightarrow> (VIS_PY_ERR_INIT, snd (vis_py_copy_out E ''a trust policy needs a session name'' cap c), T)
      | Some s \<Rightarrow>
          if s = [] \<or> length s \<ge> VIS_PY_SESSION_NAME then
            (VIS_PY_ERR_INIT, snd (vis_py_copy_out E ''a trust policy needs a session name'' cap c), T)
          else
            let T1 = trust_update s (trust_want policy) T in
            if trust_slot s 0 T None = None then
              (VIS_PY_ERR_INIT, snd (vis_py_copy_out E ''no room for another trusted session'' cap c), T1)
            else
              let (n, c1) = vis_py_copy_out E (snprintf_kept 16 (show_nat (trusted_count T1))) cap c
              in (n, c1, T1))"

section \<open>Host calls\<close>

definition VIS_PY_HOST_BUFFER :: nat where
  "VIS_PY_HOST_BUFFER = 65536"

text \<open>
  The registered function: from the number of the call, the session, the tool's name, the payload,
  the capacity and the buffer's bytes to the length it answers and the buffer's bytes afterwards.
\<close>

type_synonym host_fn = "nat \<Rightarrow> bytes \<Rightarrow> bytes \<Rightarrow> bytes \<Rightarrow> int \<Rightarrow> bytes \<Rightarrow> int \<times> bytes"

definition vispython_host :: "host_fn option \<Rightarrow> int \<times> host_fn option" where
  "vispython_host fn = (0, fn)"

text \<open>
  What CPython contributes to an upcall: \<open>PyArg_ParseTuple\<close> on two strings, the decoding of the
  reply, and the bytes a fresh allocation holds.
\<close>

record host_python =
  parse_ss :: "pyarg list \<Rightarrow> raised + (bytes \<times> bytes)"
  decode_utf8 :: "bytes \<Rightarrow> raised + bytes"
  fresh :: "nat \<Rightarrow> bytes"

definition call_failed :: "int \<Rightarrow> bytes \<Rightarrow> raised" where
  "call_failed cap buffer =
     (let b = buffer[nat (cap - 1) := NUL]
      in (RuntimeError, if cstr_of b = [] then ''host call failed'' else cstr_of b))"

definition vis_py_host_call ::
  "host_python \<Rightarrow> allocator \<Rightarrow> host_fn option \<Rightarrow> thread_runs \<Rightarrow> pyarg list \<Rightarrow> raised + bytes" where
  "vis_py_host_call P E host t args =
     (case parse_ss P args of
        Inl e \<Rightarrow> Inl e
      | Inr (name, payload) \<Rightarrow>
          (case host of
             None \<Rightarrow> Inl (RuntimeError, ''no host is bound to this interpreter'')
           | Some h \<Rightarrow>
               if \<not> malloc_ok E VIS_PY_HOST_BUFFER then Inl (MemoryError, [])
               else
                 let cap = int VIS_PY_HOST_BUFFER;
                     session = (case vis_py_current_session t of None \<Rightarrow> [] | Some s \<Rightarrow> s);
                     (needed, buffer) = h 0 session name payload cap (fresh P VIS_PY_HOST_BUFFER)
                 in if needed \<ge> cap then
                      if \<not> malloc_ok E (nat needed + 1) then Inl (MemoryError, [])
                      else
                        let grown = buffer @ drop (length buffer) (fresh P (nat needed + 1));
                            cap2 = to_int32 (needed + 1);
                            (needed2, buffer2) = h 1 session name payload cap2 grown
                        in if needed2 \<ge> cap2 then Inl (RuntimeError, ''host reply grew between calls'')
                           else if needed2 < 0 then Inl (call_failed cap2 buffer2)
                           else decode_utf8 P (take (nat needed2) buffer2)
                    else if needed < 0 then Inl (call_failed cap buffer)
                    else decode_utf8 P (take (nat needed) buffer)))"

section \<open>Lemmas on the run stack\<close>

text \<open>
  The code a thread runs, seen as calls into the library: an upcall, or a block the host asked this
  thread to run in a session, with what happens inside it.
\<close>

datatype guest = Upcall | Block "bytes option" "guest list"

fun run_guest :: "guest \<Rightarrow> thread_runs \<Rightarrow> bytes option list \<times> thread_runs"
  and run_guests :: "guest list \<Rightarrow> thread_runs \<Rightarrow> bytes option list \<times> thread_runs" where
  "run_guest Upcall t = ([vis_py_current_session t], t)"
| "run_guest (Block s gs) t =
     (let (calls, t1) = run_guests gs (vis_py_run_push s t) in (calls, vis_py_run_pop t1))"
| "run_guests [] t = ([], t)"
| "run_guests (g # gs) t =
     (let (calls, t1) = run_guest g t; (calls2, t2) = run_guests gs t1 in (calls @ calls2, t2))"

text \<open>The specification: an upcall belongs to the innermost block around it.\<close>

definition owner_of :: "bytes list \<Rightarrow> bytes option" where
  "owner_of enclosing =
     (if enclosing = [] \<or> length enclosing > VIS_PY_RUN_DEPTH then None
      else if last enclosing = [] then None else Some (take 127 (last enclosing)))"

fun owners :: "guest \<Rightarrow> bytes list \<Rightarrow> bytes option list"
  and owners_list :: "guest list \<Rightarrow> bytes list \<Rightarrow> bytes option list" where
  "owners Upcall enclosing = [owner_of enclosing]"
| "owners (Block s gs) enclosing =
     owners_list gs (enclosing @ [case s of None \<Rightarrow> [] | Some n \<Rightarrow> n])"
| "owners_list [] enclosing = []"
| "owners_list (g # gs) enclosing = owners g enclosing @ owners_list gs enclosing"

definition runs_as :: "thread_runs \<Rightarrow> bytes list \<Rightarrow> bool" where
  "runs_as t enclosing \<longleftrightarrow> length (run_stack t) = VIS_PY_RUN_DEPTH \<and> run_depth t = length enclosing
     \<and> (\<forall>i < length enclosing. i < VIS_PY_RUN_DEPTH \<longrightarrow> run_stack t ! i = take 127 (enclosing ! i))"

lemma runs_as_initial: "runs_as initial_runs []"
  by (simp add: runs_as_def initial_runs_def)

lemma runs_as_push:
  "runs_as t enclosing \<Longrightarrow>
     runs_as (vis_py_run_push s t) (enclosing @ [case s of None \<Rightarrow> [] | Some n \<Rightarrow> n])"
  by (auto simp: runs_as_def vis_py_run_push_def nth_append nth_list_update snprintf_kept_def
      VIS_PY_SESSION_NAME_def less_Suc_eq)

lemma runs_as_pop: "runs_as t (enclosing @ [n]) \<Longrightarrow> runs_as (vis_py_run_pop t) enclosing"
  by (auto simp: runs_as_def vis_py_run_pop_def nth_append)

lemma current_session_owner: "runs_as t enclosing \<Longrightarrow> vis_py_current_session t = owner_of enclosing"
  by (cases enclosing rule: rev_cases)
     (auto simp: runs_as_def vis_py_current_session_def owner_of_def Let_def nth_append)

lemma run_guest_owners:
  "runs_as t enclosing \<Longrightarrow> fst (run_guest g t) = owners g enclosing \<and> runs_as (snd (run_guest g t)) enclosing"
  "runs_as t enclosing \<Longrightarrow> fst (run_guests gs t) = owners_list gs enclosing
     \<and> runs_as (snd (run_guests gs t)) enclosing"
proof (induction g t and gs t arbitrary: enclosing and enclosing rule: run_guest_run_guests.induct)
  case (2 s gs t)
  then have "runs_as (vis_py_run_push s t) (enclosing @ [case s of None \<Rightarrow> [] | Some n \<Rightarrow> n])"
    by (simp add: runs_as_push)
  from 2(1) [OF this] show ?case
    by (auto simp: runs_as_pop split: prod.split)
next
  case (4 g gs t)
  then show ?case by (fastforce split: prod.split)
qed (auto simp: current_session_owner)

section \<open>Lemmas on the trusted table\<close>

definition trust_inv :: "trusted \<Rightarrow> bool" where
  "trust_inv T \<longleftrightarrow> length T = VIS_PY_TRUSTED_MAX \<and> distinct [x \<leftarrow> T. x \<noteq> []]
     \<and> (\<forall>x \<in> set T. length x < VIS_PY_SESSION_NAME)"

definition trusted_set :: "trusted \<Rightarrow> bytes set" where
  "trusted_set T = {x \<in> set T. x \<noteq> []}"

lemma session_trusted_iff: "vis_py_session_trusted (Some s) T \<longleftrightarrow> s \<in> trusted_set T"
  by (auto simp: vis_py_session_trusted_def trusted_set_def list_ex_iff)

lemma trust_slot_spec:
  "trust_slot s i xs found =
     (if s \<in> set xs then Some (i + length (takeWhile (\<lambda>x. x \<noteq> s) xs))
      else case found of Some k \<Rightarrow> Some k
           | None \<Rightarrow> if [] \<in> set xs then Some (i + length (takeWhile (\<lambda>x. x \<noteq> []) xs)) else None)"
  by (induction s i xs found rule: trust_slot.induct) (auto split: option.split)

lemma nth_takeWhile_ne: "s \<in> set xs \<Longrightarrow> xs ! length (takeWhile (\<lambda>x. x \<noteq> s) xs) = s
    \<and> length (takeWhile (\<lambda>x. x \<noteq> s) xs) < length xs"
  by (induction xs) auto

lemma filter_update:
  "k < length xs \<Longrightarrow> [x \<leftarrow> xs[k := y]. P x] = [x \<leftarrow> take k xs. P x] @ (if P y then [y] else []) @ [x \<leftarrow> drop (Suc k) xs. P x]"
  by (simp add: upd_conv_take_nth_drop)

lemma filter_at:
  "k < length xs \<Longrightarrow> [x \<leftarrow> xs. P x] = [x \<leftarrow> take k xs. P x] @ (if P (xs ! k) then [xs ! k] else []) @ [x \<leftarrow> drop (Suc k) xs. P x]"
  using filter_update [of k xs P "xs ! k"] by simp

lemma trusted_set_filter: "trusted_set T = set [x \<leftarrow> T. x \<noteq> []]"
  by (auto simp: trusted_set_def)

lemma trusted_count_card: "trust_inv T \<Longrightarrow> trusted_count T = card (trusted_set T)"
  unfolding trusted_count_def trusted_set_filter trust_inv_def by (metis distinct_card)

lemma set_update_short:
  "k < length T \<Longrightarrow> \<forall>x \<in> set T. P x \<Longrightarrow> P y \<Longrightarrow> \<forall>x \<in> set (T[k := y]). P x"
  using set_update_subset_insert [of T k y] by blast

lemma trust_put:
  assumes "trust_inv T" "k < length T" "T ! k = [] \<or> T ! k = s" "s \<notin> set T \<or> T ! k = s" "s \<noteq> []"
    "length s < VIS_PY_SESSION_NAME"
  shows "trust_inv (T[k := s]) \<and> trusted_set (T[k := s]) = insert s (trusted_set T)"
proof -
  have "set [x \<leftarrow> T. x \<noteq> []] \<subseteq> set T" by auto
  then show ?thesis
    using assms set_update_short [OF assms(2), of "\<lambda>x. length x < VIS_PY_SESSION_NAME" s]
      filter_at [OF assms(2), of "\<lambda>x. x \<noteq> []"] filter_update [OF assms(2), of "\<lambda>x. x \<noteq> []" s]
      in_set_takeD [of s k T] in_set_dropD [of s "Suc k" T]
    by (auto simp: trust_inv_def trusted_set_filter)
qed

lemma trust_clear:
  assumes "trust_inv T" "k < length T" "T ! k = s" "s \<noteq> []"
  shows "trust_inv (T[k := []]) \<and> trusted_set (T[k := []]) = trusted_set T - {s}"
  using assms set_update_short [OF assms(2), of "\<lambda>x. length x < VIS_PY_SESSION_NAME" "[]"]
    filter_at [OF assms(2), of "\<lambda>x. x \<noteq> []"] filter_update [OF assms(2), of "\<lambda>x. x \<noteq> []" "[]"]
  by (auto simp: trust_inv_def trusted_set_filter VIS_PY_SESSION_NAME_def)

lemma trust_update_spec:
  assumes "trust_inv T" "s \<noteq> []" "length s < VIS_PY_SESSION_NAME"
  shows "trust_inv (trust_update s want T) \<and> trusted_set (trust_update s want T) =
    (if want = 0 then trusted_set T - {s}
     else if s \<in> set T \<or> [] \<in> set T then insert s (trusted_set T) else trusted_set T)"
proof (cases "s \<in> set T")
  case True
  let ?k = "length (takeWhile (\<lambda>x. x \<noteq> s) T)"
  from True nth_takeWhile_ne [OF True] trust_put [OF assms(1), of ?k s] trust_clear [OF assms(1), of ?k s] assms
  show ?thesis by (simp add: trust_update_def trust_slot_spec)
next
  case False
  then have out: "s \<notin> trusted_set T" by (simp add: trusted_set_def)
  show ?thesis
  proof (cases "[] \<in> set T")
    case True
    let ?k = "length (takeWhile (\<lambda>x. x \<noteq> []) T)"
    from True False nth_takeWhile_ne [OF True] trust_put [OF assms(1), of ?k s] assms out
    show ?thesis by (auto simp: trust_update_def trust_slot_spec)
  next
    case none: False
    with False assms out show ?thesis by (simp add: trust_update_def trust_slot_spec)
  qed
qed

lemma trust_slot_None: "trust_slot s 0 T None = None \<longleftrightarrow> s \<notin> set T \<and> [] \<notin> set T"
  by (simp add: trust_slot_spec)

lemma trust_inv_initial: "trust_inv initial_trusted"
  by (simp add: trust_inv_def initial_trusted_def session_consts)

text \<open>A host that follows the documented protocol: it answers the length its reply needs, and writes
  the reply with a final NUL when that fits and nothing when it does not.\<close>

definition host_replies :: "host_fn \<Rightarrow> bytes \<Rightarrow> bytes \<Rightarrow> bytes \<Rightarrow> bytes \<Rightarrow> bool" where
  "host_replies h session name payload reply \<longleftrightarrow>
     (\<forall>k cap b. h k session name payload cap b =
        (int (length reply), if int (length reply) < cap then overlay (reply @ [NUL]) b else b))"

lemma take_overlay [simp]: "take (length xs) (overlay (xs @ ys) b) = xs"
  by (simp add: overlay_def)

section \<open>Properties\<close>

text \<open>Every upcall is attributed to the innermost block the runtime was asked to run on its thread,
  whatever the nesting: within the 32 levels the stack records, to that block's session (its first
  127 bytes); deeper, outside every block, or in a block without a name, to nobody. When the blocks
  have returned the thread is attributed as before.\<close>

theorem upcalls_attributed_to_innermost:
  assumes "runs_as t enclosing"
  shows "fst (run_guest g t) = owners g enclosing \<and> runs_as (snd (run_guest g t)) enclosing"
  using run_guest_owners(1) [OF assms] .

theorem upcalls_attributed_to_innermost_witness:
  "fst (run_guest (Block (Some ''a'') [Upcall, Block (Some ''b'') [Upcall], Upcall]) initial_runs)
     = [Some ''a'', Some ''b'', Some ''a'']"
  using upcalls_attributed_to_innermost [OF runs_as_initial,
      of "Block (Some ''a'') [Upcall, Block (Some ''b'') [Upcall], Upcall]"]
  by (simp add: owner_of_def VIS_PY_RUN_DEPTH_def)

text \<open>The trust table is a set of at most 64 sessions. For an acceptable name a policy of 0 removes
  exactly that session, any other policy adds exactly it, and the call answers how many are trusted
  (as a decimal text); only when the table is full and the name is not in it does it answer the
  error and change nothing. A missing, empty or too long name changes nothing either.\<close>

theorem trust_table_is_a_set:
  assumes "trust_inv T" "vispython_trust E session policy cap c T = (r, c1, T1)"
  shows "trust_inv T1 \<and>
    (case session of None \<Rightarrow> r = VIS_PY_ERR_INIT \<and> T1 = T
     | Some s \<Rightarrow>
         if s = [] \<or> 128 \<le> length s then r = VIS_PY_ERR_INIT \<and> T1 = T
         else if s \<notin> trusted_set T \<and> card (trusted_set T) = 64 then r = VIS_PY_ERR_INIT \<and> T1 = T
         else (\<forall>s'. vis_py_session_trusted (Some s') T1 \<longleftrightarrow>
                 (if s' = s then trust_want policy \<noteq> 0 else vis_py_session_trusted (Some s') T))
              \<and> (r, c1) = vis_py_copy_out E (show_nat (card (trusted_set T1))) cap c)"
proof -
  have full: "[] \<notin> set T \<longleftrightarrow> card (trusted_set T) = 64"
  proof -
    have "card (trusted_set T) = length [x \<leftarrow> T. x \<noteq> []]"
      using trusted_count_card [OF assms(1)] by (simp add: trusted_count_def)
    moreover have "length [x \<leftarrow> T. x \<noteq> []] = length T \<longleftrightarrow> [] \<notin> set T"
    proof
      assume full: "length [x \<leftarrow> T. x \<noteq> []] = length T"
      show "[] \<notin> set T"
      proof
        assume "[] \<in> set T"
        from length_filter_less [OF this, of "\<lambda>x. x \<noteq> []"] full show False by simp
      qed
    next
      assume "[] \<notin> set T"
      then have "[x \<leftarrow> T. x \<noteq> []] = T" by (intro filter_True) auto
      then show "length [x \<leftarrow> T. x \<noteq> []] = length T" by simp
    qed
    ultimately show ?thesis using assms(1) by (simp add: trust_inv_def VIS_PY_TRUSTED_MAX_def)
  qed
  show ?thesis
  proof (cases session)
    case None
    with assms show ?thesis by (simp add: vispython_trust_def)
  next
    case (Some s)
    show ?thesis
    proof (cases "s = [] \<or> 128 \<le> length s")
      case True
      with Some assms show ?thesis by (auto simp: vispython_trust_def VIS_PY_SESSION_NAME_def)
    next
      case False
      then have s: "s \<noteq> []" "length s < VIS_PY_SESSION_NAME" by (auto simp: VIS_PY_SESSION_NAME_def)
      note upd = trust_update_spec [OF assms(1) s, of "trust_want policy"]
      have mem: "s \<in> trusted_set T \<longleftrightarrow> s \<in> set T" using s by (simp add: trusted_set_def)
      have T1: "T1 = trust_update s (trust_want policy) T"
        using assms(2) Some s by (auto simp: vispython_trust_def Let_def split: if_splits prod.splits)
      have short: "length (show_nat (trusted_count T1)) \<le> 2"
      proof -
        have "trusted_count T1 \<le> length T1" by (simp add: trusted_count_def)
        also have "\<dots> = 64" using upd T1 by (simp add: trust_inv_def VIS_PY_TRUSTED_MAX_def)
        finally show ?thesis using length_show_nat [of "trusted_count T1" 1] by simp
      qed
      show ?thesis
      proof (cases "s \<notin> set T \<and> [] \<notin> set T")
        case True
        then have "trust_slot s 0 T None = None" by (simp add: trust_slot_None)
        then have "T1 = T" "r = VIS_PY_ERR_INIT"
          using assms(2) Some s T1 by (simp_all add: trust_update_def vispython_trust_def)
        with Some True False assms(1) full mem show ?thesis by simp
      next
        case room: False
        then have "(r, c1) = vis_py_copy_out E (show_nat (trusted_count T1)) cap c"
          using assms(2) Some s T1 short
          by (auto simp: vispython_trust_def Let_def trust_slot_None split: prod.splits)
        moreover have "trusted_set T1 =
            (if trust_want policy = 0 then trusted_set T - {s} else insert s (trusted_set T))"
          using upd room T1 by auto
        moreover have "s \<in> trusted_set T \<or> card (trusted_set T) \<noteq> 64" using room full mem by blast
        moreover have "trust_inv T1" "trusted_count T1 = card (trusted_set T1)"
          using upd T1 trusted_count_card by auto
        ultimately show ?thesis
          using Some False by (auto simp: session_trusted_iff)
      qed
    qed
  qed
qed

theorem trust_table_is_a_set_witness:
  "vis_py_session_trusted (Some ''ext'')
     (snd (snd (vispython_trust \<lparr>malloc_ok = \<lambda>_. True, pyalloc_ok = \<lambda>_. True\<rparr> (Some ''ext'') (Some ''1'') 16
        \<lparr>out_buf = None, stash = None\<rparr> initial_trusted)))"
proof -
  let ?r = "vispython_trust \<lparr>malloc_ok = \<lambda>_. True, pyalloc_ok = \<lambda>_. True\<rparr> (Some ''ext'') (Some ''1'') 16
        \<lparr>out_buf = None, stash = None\<rparr> initial_trusted"
  have "trust_want (Some ''1'') = 1" by code_simp
  moreover have "trusted_set initial_trusted = {}" by (simp add: trusted_set_def initial_trusted_def)
  ultimately show ?thesis
    using trust_table_is_a_set [OF trust_inv_initial, of _ "Some ''ext''" "Some ''1''" 16
        "\<lparr>out_buf = None, stash = None\<rparr>" "fst ?r" "fst (snd ?r)" "snd (snd ?r)"]
    by simp
qed

text \<open>An upcall hands the guest the host's reply whole, whatever its length: a reply that does not
  fit the first 64 KiB costs exactly one more call with a buffer of the answered length plus one,
  and never a cut.\<close>

theorem host_call_returns_whole_reply:
  assumes "parse_ss P args = Inr (name, payload)" "malloc_ok E VIS_PY_HOST_BUFFER"
    "malloc_ok E (length reply + 1)" "int (length reply) < INT_MAX"
    "host_replies h (case vis_py_current_session t of None \<Rightarrow> [] | Some s \<Rightarrow> s) name payload reply"
  shows "vis_py_host_call P E (Some h) t args = decode_utf8 P reply"
proof -
  have "to_int32 (int (length reply) + 1) = int (length reply) + 1"
    using assms(4) by (simp add: INT_MIN_def)
  with assms show ?thesis
    by (simp add: vis_py_host_call_def host_replies_def Let_def)
qed

definition witness_python :: host_python where
  "witness_python = \<lparr>parse_ss = (\<lambda>_. Inr (''grep'', ''{}'')), decode_utf8 = Inr, fresh = (\<lambda>n. replicate n NUL)\<rparr>"

theorem host_call_returns_whole_reply_witness:
  "vis_py_host_call witness_python \<lparr>malloc_ok = \<lambda>_. True, pyalloc_ok = \<lambda>_. True\<rparr>
     (Some (\<lambda>k s n p cap b. (int 70000, if int 70000 < cap then overlay (replicate 70000 DQUOTE @ [NUL]) b else b)))
     initial_runs [] = Inr (replicate 70000 DQUOTE)"
proof -
  let ?h = "\<lambda>k s n p cap b. (int 70000, if int 70000 < cap then overlay (replicate 70000 DQUOTE @ [NUL]) b else b)"
  have "host_replies ?h x n p (replicate 70000 DQUOTE)" for x n p
    by (simp add: host_replies_def)
  with host_call_returns_whole_reply [of witness_python "[]" "''grep''" "''{}''"
      "\<lparr>malloc_ok = \<lambda>_. True, pyalloc_ok = \<lambda>_. True\<rparr>" "replicate 70000 DQUOTE" ?h initial_runs]
  show ?thesis by (simp add: witness_python_def INT_MAX_def)
qed

text \<open>A session name of 127 bytes or more is attributed by its first 127 bytes, so a block of a
  longer, untrusted name passes the trust test of the 127-byte session the host trusted.\<close>

theorem long_session_name_inherits_trust:
  assumes "127 \<le> length s" "vis_py_session_trusted (Some (take 127 s)) T" "runs_as t enclosing"
    "length enclosing < VIS_PY_RUN_DEPTH"
  shows "vis_py_session_trusted (vis_py_current_session (vis_py_run_push (Some s) t)) T"
proof -
  have "vis_py_current_session (vis_py_run_push (Some s) t) = owner_of (enclosing @ [s])"
    using runs_as_push [OF assms(3), of "Some s"] by (simp add: current_session_owner)
  with assms show ?thesis by (auto simp: owner_of_def)
qed

theorem long_session_name_inherits_trust_witness:
  "vis_py_session_trusted (vis_py_current_session (vis_py_run_push (Some (replicate 130 DQUOTE)) initial_runs))
     (initial_trusted[0 := replicate 127 DQUOTE])
   \<and> \<not> vis_py_session_trusted (Some (replicate 130 DQUOTE)) (initial_trusted[0 := replicate 127 DQUOTE])"
proof -
  let ?T = "initial_trusted[0 := replicate 127 DQUOTE]"
  have T: "set ?T \<subseteq> {replicate 127 DQUOTE, []}"
    using set_update_subset_insert [of initial_trusted 0 "replicate 127 DQUOTE"]
    by (auto simp: initial_trusted_def)
  have "length x \<noteq> 130" if "x \<in> set ?T" for x using T that by auto
  then have "replicate 130 DQUOTE \<notin> set ?T" by (metis length_replicate)
  moreover have "replicate 127 DQUOTE \<in> set ?T"
    by (simp add: set_update_memI initial_trusted_def VIS_PY_TRUSTED_MAX_def)
  ultimately show ?thesis
    using long_session_name_inherits_trust [of "replicate 130 DQUOTE" ?T initial_runs "[]"] runs_as_initial
    by (simp add: session_trusted_iff trusted_set_def VIS_PY_RUN_DEPTH_def take_replicate)
qed

end
