(* ===== verification/TaskQueue.thy ===== *)
theory TaskQueue
  imports CPrelude
begin

text \<open>
  The queue of tasks in \<^verbatim>\<open>native/vispython/vispython.c\<close>: a singly linked list threaded through the tasks'
  \<open>next\<close> fields with a head, a tail and a counter.  A \<open>par\<close> appends at the tail, a worker takes the
  head, and \<open>vis_py_unqueue\<close> takes a task out of the middle.  The contract is a list without
  repetition; the pointer code is shown to implement it.
\<close>

section \<open>State and operations\<close>

record 't task_queue =
  q_head :: "'t option"
  q_tail :: "'t option"
  q_next :: "'t \<Rightarrow> 't option"
  queued :: nat

definition empty_queue :: "'t task_queue" where
  "empty_queue = \<lparr>q_head = None, q_tail = None, q_next = (\<lambda>_. None), queued = 0\<rparr>"

text \<open>The body of the submission loop of \<open>vis_py_par\<close>.\<close>

definition submit_task :: "'t \<Rightarrow> 't task_queue \<Rightarrow> 't task_queue" where
  "submit_task t q =
     (let q1 = (case q_tail q of
                  None \<Rightarrow> q\<lparr>q_head := Some t\<rparr>
                | Some l \<Rightarrow> q\<lparr>q_next := (q_next q)(l := Some t)\<rparr>)
      in q1\<lparr>q_tail := Some t, queued := queued q1 + 1\<rparr>)"

text \<open>The claim of \<open>vis_py_worker_main\<close>; a worker waits while the queue is empty.\<close>

definition claim_task :: "'t task_queue \<Rightarrow> ('t \<times> 't task_queue) option" where
  "claim_task q =
     (case q_head q of
        None \<Rightarrow> None
      | Some t \<Rightarrow>
          let q1 = q\<lparr>q_head := q_next q t\<rparr>;
              q2 = (if q_head q1 = None then q1\<lparr>q_tail := None\<rparr> else q1)
          in Some (t, q2\<lparr>queued := queued q2 - 1\<rparr>))"

text \<open>The walk of \<open>vis_py_unqueue\<close>: the node found and its predecessor.  It has no answer on a cycle.\<close>

partial_function (option) find_node ::
  "('t \<Rightarrow> 't option) \<Rightarrow> 't \<Rightarrow> 't option \<Rightarrow> 't option \<Rightarrow> ('t option \<times> 't option) option" where
  "find_node nxt t node prev =
     (case node of
        None \<Rightarrow> Some (None, prev)
      | Some n \<Rightarrow> if n = t then Some (Some n, prev) else find_node nxt t (nxt n) (Some n))"

definition vis_py_unqueue :: "'t \<Rightarrow> 't task_queue \<Rightarrow> (bool \<times> 't task_queue) option" where
  "vis_py_unqueue t q =
     (case find_node (q_next q) t (q_head q) None of
        None \<Rightarrow> None
      | Some (None, prev) \<Rightarrow> Some (False, q)
      | Some (Some n, prev) \<Rightarrow>
          let q1 = (case prev of
                      None \<Rightarrow> q\<lparr>q_head := q_next q n\<rparr>
                    | Some p \<Rightarrow> q\<lparr>q_next := (q_next q)(p := q_next q n)\<rparr>);
              q2 = (if q_tail q1 = Some n then q1\<lparr>q_tail := prev\<rparr> else q1);
              q3 = q2\<lparr>q_next := (q_next q2)(n := None)\<rparr>
          in Some (True, q3\<lparr>queued := queued q3 - 1\<rparr>))"

section \<open>The list a queue stands for\<close>

text \<open>\<open>linked nxt node xs\<close>: following \<open>nxt\<close> from \<open>node\<close> visits exactly \<open>xs\<close>.\<close>

fun linked :: "('t \<Rightarrow> 't option) \<Rightarrow> 't option \<Rightarrow> 't list \<Rightarrow> bool" where
  "linked nxt node [] \<longleftrightarrow> node = None"
| "linked nxt node (x # xs) \<longleftrightarrow> node = Some x \<and> linked nxt (nxt x) xs"

definition last_option :: "'t list \<Rightarrow> 't option" where
  "last_option xs = (if xs = [] then None else Some (last xs))"

definition represents :: "'t task_queue \<Rightarrow> 't list \<Rightarrow> bool" where
  "represents q xs \<longleftrightarrow> linked (q_next q) (q_head q) xs \<and> q_tail q = last_option xs
     \<and> distinct xs \<and> queued q = length xs"

lemma linked_unique: "linked nxt node xs \<Longrightarrow> linked nxt node ys \<Longrightarrow> xs = ys"
proof (induction xs arbitrary: node ys)
  case Nil
  then show ?case by (cases ys) auto
next
  case (Cons x xs)
  then show ?case by (cases ys) auto
qed

lemma linked_update [simp]: "x \<notin> set xs \<Longrightarrow> linked (nxt(x := y)) node xs = linked nxt node xs"
  by (induction xs arbitrary: node) auto

lemma linked_cong: "(\<And>x. x \<in> set xs \<Longrightarrow> nxt x = nxt' x) \<Longrightarrow> linked nxt node xs = linked nxt' node xs"
  by (induction xs arbitrary: node) auto

lemma represents_unique: "represents q xs \<Longrightarrow> represents q ys \<Longrightarrow> xs = ys"
  by (auto simp: represents_def intro: linked_unique)

lemma represents_empty: "represents empty_queue []"
  by (simp add: represents_def empty_queue_def last_option_def)

lemma linked_append:
  "distinct xs \<Longrightarrow> t \<notin> set xs \<Longrightarrow> xs \<noteq> [] \<Longrightarrow> nxt t = None \<Longrightarrow> linked nxt node xs \<Longrightarrow>
     linked (nxt(last xs := Some t)) node (xs @ [t])"
proof (induction xs arbitrary: node)
  case (Cons x xs)
  then show ?case by (cases "xs = []") auto
qed simp

lemma represents_submit:
  assumes "represents q xs" "t \<notin> set xs" "q_next q t = None"
  shows "represents (submit_task t q) (xs @ [t])"
proof (cases "xs = []")
  case True
  with assms show ?thesis by (simp add: represents_def submit_task_def last_option_def)
next
  case False
  with assms linked_append [of xs t "q_next q" "q_head q"] show ?thesis
    by (simp add: represents_def submit_task_def last_option_def)
qed

lemma represents_claim:
  assumes "represents q xs"
  shows "case claim_task q of None \<Rightarrow> xs = []
    | Some (t, q1) \<Rightarrow> xs \<noteq> [] \<and> t = hd xs \<and> represents q1 (tl xs)"
proof (cases xs)
  case Nil
  with assms show ?thesis by (simp add: represents_def claim_task_def)
next
  case (Cons x ys)
  with assms show ?thesis
    by (cases ys) (auto simp: represents_def claim_task_def last_option_def Let_def)
qed

lemma find_node_spec:
  "linked nxt node xs \<Longrightarrow>
     find_node nxt t node prev =
       Some (if t \<in> set xs
             then (Some t, if hd xs = t then prev else last_option (takeWhile (\<lambda>x. x \<noteq> t) xs))
             else (None, if xs = [] then prev else last_option xs))"
proof (induction xs arbitrary: node prev)
  case Nil
  then show ?case by (subst find_node.simps) simp
next
  case (Cons x xs)
  then have node: "node = Some x" "linked nxt (nxt x) xs" by auto
  show ?case
  proof (cases "x = t")
    case True
    with node show ?thesis by (subst find_node.simps) simp
  next
    case False
    have "find_node nxt t node prev = find_node nxt t (nxt x) (Some x)"
      using node False by (subst find_node.simps) simp
    with Cons.IH [OF node(2), of "Some x"] False show ?thesis
      by (cases xs) (auto simp: last_option_def)
  qed
qed

lemma linked_split: "linked nxt node (ys @ t # zs) \<Longrightarrow> linked nxt (nxt t) zs"
  by (induction ys arbitrary: node) auto

lemma linked_skip:
  assumes "linked nxt node (ys @ t # zs)" "distinct (ys @ t # zs)" "ys \<noteq> []"
  shows "linked (nxt(last ys := nxt t)) node (ys @ zs)"
  using assms
proof (induction ys arbitrary: node)
  case (Cons y ys)
  then show ?case
    by (cases "ys = []") (auto simp: linked_update [unfolded fun_upd_def])
qed simp

lemma last_option_append [simp]:
  "last_option (ys @ zs) = (if zs = [] then last_option ys else last_option zs)"
  by (simp add: last_option_def)

lemma represents_unqueue:
  assumes "represents q xs"
  shows "if t \<in> set xs
    then \<exists>q1. vis_py_unqueue t q = Some (True, q1) \<and> represents q1 (removeAll t xs)
              \<and> q_next q1 t = None
    else vis_py_unqueue t q = Some (False, q)"
proof (cases "t \<in> set xs")
  case False
  with assms find_node_spec [of "q_next q" "q_head q" xs t None] show ?thesis
    by (simp add: represents_def vis_py_unqueue_def)
next
  case True
  then obtain ys zs where xs: "xs = ys @ t # zs" "t \<notin> set ys"
    by (metis split_list_first)
  have rep: "linked (q_next q) (q_head q) xs" "q_tail q = last_option xs" "distinct xs" "queued q = length xs"
    using assms by (auto simp: represents_def)
  have removed: "removeAll t xs = ys @ zs" using rep(3) xs by auto
  have t_zs: "t \<notin> set zs" using rep(3) xs by auto
  have before: "takeWhile (\<lambda>x. x \<noteq> t) xs = ys" using xs by (induction ys arbitrary: xs) auto
  have head: "hd xs = t \<longleftrightarrow> ys = []" using xs by (cases ys) auto
  have found: "find_node (q_next q) t (q_head q) None = Some (Some t, last_option ys)"
    using find_node_spec [OF rep(1), of t None] True before head by (auto simp: last_option_def)
  show ?thesis
  proof (cases "ys = []")
    case ys: True
    with rep(1) xs have "linked (q_next q) (q_next q t) zs" "q_head q = Some t" by auto
    with found ys rep xs t_zs removed True show ?thesis
      by (auto simp: vis_py_unqueue_def Let_def represents_def last_option_def split: if_splits)
  next
    case ys: False
    let ?n = "(q_next q)(last ys := q_next q t, t := None)"
    have "linked ?n (q_head q) (ys @ zs)"
      using linked_skip [of "q_next q" "q_head q" ys t zs] rep(1,3) xs ys t_zs by simp
    moreover have "last zs \<noteq> t" if "zs \<noteq> []" using t_zs that by (metis last_in_set)
    moreover have "last ys \<noteq> t" using xs ys by (metis last_in_set)
    ultimately show ?thesis
      using found ys rep xs removed True
      by (auto simp: vis_py_unqueue_def Let_def represents_def last_option_def split: if_splits)
  qed
qed

section \<open>The contract of the queue\<close>

text \<open>What the pool relies on.  \<open>fresh t q\<close> says \<open>t\<close> may be submitted: its link is still null.\<close>

locale work_queue =
  fixes reps :: "'q \<Rightarrow> 't list \<Rightarrow> bool"
    and fresh :: "'t \<Rightarrow> 'q \<Rightarrow> bool"
    and put :: "'t \<Rightarrow> 'q \<Rightarrow> 'q"
    and claim :: "'q \<Rightarrow> ('t \<times> 'q) option"
    and remove :: "'t \<Rightarrow> 'q \<Rightarrow> (bool \<times> 'q) option"
  assumes put_law: "reps q xs \<Longrightarrow> t \<notin> set xs \<Longrightarrow> fresh t q \<Longrightarrow> reps (put t q) (xs @ [t])"
    and claim_law: "reps q xs \<Longrightarrow>
      (case claim q of None \<Rightarrow> xs = [] | Some (t, q1) \<Rightarrow> xs \<noteq> [] \<and> t = hd xs \<and> reps q1 (tl xs))"
    and remove_law: "reps q xs \<Longrightarrow>
      (if t \<in> set xs then \<exists>q1. remove t q = Some (True, q1) \<and> reps q1 (removeAll t xs)
       else remove t q = Some (False, q))"
    and reps_distinct: "reps q xs \<Longrightarrow> distinct xs"
    and reps_function: "reps q xs \<Longrightarrow> reps q ys \<Longrightarrow> xs = ys"
    and fresh_put: "reps q xs \<Longrightarrow> t \<notin> set xs \<Longrightarrow> t \<noteq> u \<Longrightarrow> fresh t q \<Longrightarrow> fresh t (put u q)"
    and fresh_claim: "reps q xs \<Longrightarrow> fresh t q \<Longrightarrow> claim q = Some (u, q1) \<Longrightarrow> fresh t q1"
    and fresh_remove: "reps q xs \<Longrightarrow> t \<notin> set xs \<Longrightarrow> fresh t q \<Longrightarrow> remove u q = Some (b, q1) \<Longrightarrow> fresh t q1"

datatype 't queue_op = Put 't | Claim | Remove 't

text \<open>A run of operations: the tasks it handed out, in order, and the queue it leaves.\<close>

fun queue_run ::
  "('t \<Rightarrow> 'q \<Rightarrow> 'q) \<Rightarrow> ('q \<Rightarrow> ('t \<times> 'q) option) \<Rightarrow> ('t \<Rightarrow> 'q \<Rightarrow> (bool \<times> 'q) option) \<Rightarrow>
     't queue_op list \<Rightarrow> 'q \<Rightarrow> 't list \<times> 'q" where
  "queue_run put claim remove [] q = ([], q)"
| "queue_run put claim remove (Put t # ops) q = queue_run put claim remove ops (put t q)"
| "queue_run put claim remove (Claim # ops) q =
     (case claim q of
        None \<Rightarrow> queue_run put claim remove ops q
      | Some (t, q1) \<Rightarrow> let (out, q2) = queue_run put claim remove ops q1 in (t # out, q2))"
| "queue_run put claim remove (Remove t # ops) q =
     (case remove t q of
        Some (True, q1) \<Rightarrow> let (out, q2) = queue_run put claim remove ops q1 in (t # out, q2)
      | _ \<Rightarrow> queue_run put claim remove ops q)"

text \<open>The same run on a plain list.\<close>

fun list_run :: "'t queue_op list \<Rightarrow> 't list \<Rightarrow> 't list \<times> 't list" where
  "list_run [] xs = ([], xs)"
| "list_run (Put t # ops) xs = list_run ops (xs @ [t])"
| "list_run (Claim # ops) xs =
     (case xs of [] \<Rightarrow> list_run ops xs
      | t # ys \<Rightarrow> let (out, zs) = list_run ops ys in (t # out, zs))"
| "list_run (Remove t # ops) xs =
     (if t \<in> set xs then let (out, zs) = list_run ops (removeAll t xs) in (t # out, zs)
      else list_run ops xs)"

fun puts :: "'t queue_op list \<Rightarrow> 't list" where
  "puts [] = []"
| "puts (Put t # ops) = t # puts ops"
| "puts (Claim # ops) = puts ops"
| "puts (Remove t # ops) = puts ops"

context work_queue
begin

lemma run_simulates:
  assumes "reps q xs" "distinct (puts ops)" "\<forall>t \<in> set (puts ops). t \<notin> set xs \<and> fresh t q"
  shows "fst (queue_run put claim remove ops q) = fst (list_run ops xs)
    \<and> reps (snd (queue_run put claim remove ops q)) (snd (list_run ops xs))"
  using assms
proof (induction ops xs arbitrary: q rule: list_run.induct)
  case (2 t ops xs)
  then have "reps (put t q) (xs @ [t])" by (simp add: put_law)
  moreover have "\<forall>u \<in> set (puts ops). u \<notin> set (xs @ [t]) \<and> fresh u (put t q)"
    using 2 by (auto intro: fresh_put)
  ultimately show ?case using 2 by simp
next
  case (3 ops xs)
  show ?case
  proof (cases xs)
    case Nil
    with claim_law [OF 3(3)] have "claim q = None" by (auto split: option.splits)
    with 3 Nil show ?thesis by simp
  next
    case (Cons t ys)
    with claim_law [OF 3(3)] obtain q1 where q1: "claim q = Some (t, q1)" "reps q1 ys"
      by (auto split: option.splits)
    then have "\<forall>u \<in> set (puts ops). u \<notin> set ys \<and> fresh u q1"
      using 3 Cons by (auto intro: fresh_claim)
    with 3(2) [OF Cons q1(2)] 3(4) q1 Cons show ?thesis by (auto split: prod.split)
  qed
next
  case (4 t ops xs)
  show ?case
  proof (cases "t \<in> set xs")
    case True
    with remove_law [OF 4(3), of t] obtain q1 where
      q1: "remove t q = Some (True, q1)" "reps q1 (removeAll t xs)" by auto
    then have "\<forall>u \<in> set (puts ops). u \<notin> set (removeAll t xs) \<and> fresh u q1"
      using 4 by (auto intro: fresh_remove)
    with 4(1) [OF True q1(2)] 4(4) q1 True show ?thesis by (auto split: prod.split)
  next
    case False
    with remove_law [OF 4(3), of t] have "remove t q = Some (False, q)" by simp
    with 4 False show ?thesis by simp
  qed
qed simp

end

interpretation wq: work_queue represents "\<lambda>t q. q_next q t = None" submit_task claim_task vis_py_unqueue
proof unfold_locales
  fix q :: "'a task_queue" and xs ys t u q1 b
  show "represents q xs \<Longrightarrow> t \<notin> set xs \<Longrightarrow> q_next q t = None \<Longrightarrow> represents (submit_task t q) (xs @ [t])"
    by (rule represents_submit)
  show "represents q xs \<Longrightarrow> (case claim_task q of None \<Rightarrow> xs = []
      | Some (t, q1) \<Rightarrow> xs \<noteq> [] \<and> t = hd xs \<and> represents q1 (tl xs))"
    by (rule represents_claim)
  show "represents q xs \<Longrightarrow>
      (if t \<in> set xs then \<exists>q1. vis_py_unqueue t q = Some (True, q1) \<and> represents q1 (removeAll t xs)
       else vis_py_unqueue t q = Some (False, q))"
    using represents_unqueue [of q xs t] by auto
  show "represents q xs \<Longrightarrow> distinct xs" by (simp add: represents_def)
  show "represents q xs \<Longrightarrow> represents q ys \<Longrightarrow> xs = ys" by (rule represents_unique)
  show "represents q xs \<Longrightarrow> t \<notin> set xs \<Longrightarrow> t \<noteq> u \<Longrightarrow> q_next q t = None \<Longrightarrow>
      q_next (submit_task u q) t = None"
    by (auto simp: submit_task_def represents_def last_option_def Let_def split: option.splits if_splits)
  show "represents q xs \<Longrightarrow> q_next q t = None \<Longrightarrow> claim_task q = Some (u, q1) \<Longrightarrow> q_next q1 t = None"
    by (auto simp: claim_task_def Let_def split: option.splits if_splits)
  show "represents q xs \<Longrightarrow> t \<notin> set xs \<Longrightarrow> q_next q t = None \<Longrightarrow>
      vis_py_unqueue u q = Some (b, q1) \<Longrightarrow> q_next q1 t = None"
  proof -
    assume rep: "represents q xs" and t: "t \<notin> set xs" "q_next q t = None"
      and call: "vis_py_unqueue u q = Some (b, q1)"
    from rep find_node_spec [of "q_next q" "q_head q" xs u None]
    have found: "find_node (q_next q) u (q_head q) None =
        Some (if u \<in> set xs then (Some u, if hd xs = u then None else last_option (takeWhile (\<lambda>x. x \<noteq> u) xs))
              else (None, last_option xs))"
      by (auto simp: represents_def last_option_def)
    have pred: "p \<in> set xs" if "last_option (takeWhile (\<lambda>x. x \<noteq> u) xs) = Some p" for p
      using that by (auto simp: last_option_def split: if_splits) (metis last_in_set set_takeWhileD)
    show "q_next q1 t = None"
      using call found t pred
      by (auto simp: vis_py_unqueue_def Let_def split: if_splits option.splits)
  qed
qed

section \<open>Properties\<close>

text \<open>C39: The linked list behaves as a plain queue: any sequence of submissions of new tasks, claims by
  workers and removals hands out the same tasks in the same order and leaves the same tasks waiting
  as the sequence does on a list, and the list, its tail and its counter agree at the end.\<close>

theorem task_queue_refines_list:
  assumes "represents q xs" "distinct (puts ops)" "\<forall>t \<in> set (puts ops). t \<notin> set xs \<and> q_next q t = None"
  shows "fst (queue_run submit_task claim_task vis_py_unqueue ops q) = fst (list_run ops xs)
    \<and> represents (snd (queue_run submit_task claim_task vis_py_unqueue ops q)) (snd (list_run ops xs))"
  using assms by (rule wq.run_simulates)

theorem task_queue_refines_list_witness:
  "fst (queue_run submit_task claim_task vis_py_unqueue
      [Put (1::nat), Put 2, Put 3, Remove 2, Claim, Put 4, Remove 4, Claim, Claim] empty_queue) = [2, 1, 4, 3]"
  using task_queue_refines_list [OF represents_empty,
      of "[Put (1::nat), Put 2, Put 3, Remove 2, Claim, Put 4, Remove 4, Claim, Claim]"]
  by (simp add: empty_queue_def)

end
