(* ===== verification/ScanBudget.thy ===== *)
theory ScanBudget
  imports Confinement
begin

text \<open>
  The directory traversal guard of \<^verbatim>\<open>native/vispython/vispython.c\<close>: one entry budget per block, shared by
  reference with its gather batches, spent by every \<open>next\<close> on a directory iterator and by \<open>os.listdir\<close>.
  A directory iterator of CPython is the finite list of what its \<open>next\<close> calls give: an entry or an
  exception.
\<close>

section \<open>Budgets\<close>

definition VIS_PY_SCAN_ENTRIES :: int where
  "VIS_PY_SCAN_ENTRIES = 10000"

record scan_budget =
  remaining :: int
  references :: nat

text \<open>The heap of budgets by address; no reference means freed.\<close>

type_synonym budgets = "nat \<Rightarrow> scan_budget"

definition vis_py_scan_release :: "nat option \<Rightarrow> budgets \<Rightarrow> budgets" where
  "vis_py_scan_release a H =
     (case a of None \<Rightarrow> H | Some b \<Rightarrow> H(b := (H b)\<lparr>references := references (H b) - 1\<rparr>))"

definition scan_retain :: "nat option \<Rightarrow> budgets \<Rightarrow> budgets" where
  "scan_retain a H =
     (case a of None \<Rightarrow> H | Some b \<Rightarrow> H(b := (H b)\<lparr>references := references (H b) + 1\<rparr>))"

definition scan_budget_new :: "nat \<Rightarrow> budgets \<Rightarrow> budgets" where
  "scan_budget_new b H = H(b := \<lparr>remaining = VIS_PY_SCAN_ENTRIES, references = 1\<rparr>)"

lemma release_retain [simp]: "vis_py_scan_release a (scan_retain a H) = H"
  by (auto simp: vis_py_scan_release_def scan_retain_def split: option.split)

section \<open>The guard\<close>

text \<open>The \<open>__name__\<close> of a frame's globals, \<open>None\<close> when there is none or it is not a \<open>str\<close>.\<close>

type_synonym frame = "pystr option"

definition vis_py_scan_exempt_module :: "frame \<Rightarrow> bool" where
  "vis_py_scan_exempt_module name =
     (case name of
        Some (Some u) \<Rightarrow>
          let text = cstr_of u
          in text = ''shutil'' \<or> text = ''pytest'' \<or> text = ''_pytest'' \<or> take 8 text = ''_pytest.''
      | _ \<Rightarrow> False)"

fun vis_py_scan_exempt :: "frame list \<Rightarrow> bool" where
  "vis_py_scan_exempt [] = False"
| "vis_py_scan_exempt (f # fs) = (if vis_py_scan_exempt_module f then True else vis_py_scan_exempt fs)"

text \<open>What CPython answers about an entry: its \<open>path\<close>, as \<open>%R\<close> prints it, and its \<open>name\<close>.\<close>

record 'e entry_python =
  entry_path :: "'e \<Rightarrow> raised + bytes"
  entry_name :: "'e \<Rightarrow> raised + bytes"

type_synonym 'e stream = "(raised + 'e) list"

datatype 'e next_answer = Yield 'e | Exhausted | Raise raised

definition scan_exceeded :: "bytes \<Rightarrow> raised" where
  "scan_exceeded path =
     (RuntimeError, ''directory traversal exceeded '' @ show_int VIS_PY_SCAN_ENTRIES
        @ '' entries in this Python block while scanning the directory containing '' @ path
        @ ''; narrow the path or use grep/ls for workspace searches; shutil.rmtree, shutil.copytree and pytest are not capped'')"

definition vis_py_scandir_next ::
  "'e entry_python \<Rightarrow> nat option \<Rightarrow> frame list \<Rightarrow> budgets \<Rightarrow> 'e stream \<Rightarrow>
     'e next_answer \<times> budgets \<times> 'e stream" where
  "vis_py_scandir_next P current frames H it =
     (case it of
        [] \<Rightarrow> (Exhausted, H, [])
      | Inl e # rest \<Rightarrow> (Raise e, H, rest)
      | Inr entry # rest \<Rightarrow>
          (case current of
             None \<Rightarrow> (Yield entry, H, rest)
           | Some b \<Rightarrow>
               if vis_py_scan_exempt frames then (Yield entry, H, rest)
               else if remaining (H b) > 0 then
                 (Yield entry, H(b := (H b)\<lparr>remaining := remaining (H b) - 1\<rparr>), rest)
               else
                 (case entry_path P entry of
                    Inl e \<Rightarrow> (Raise e, H, rest)
                  | Inr path \<Rightarrow> (Raise (scan_exceeded path), H, []))))"

text \<open>The collecting loop of \<open>vis_py_listdir\<close>: \<open>append_ok\<close> says whether the list can still grow.\<close>

function listdir_loop ::
  "'e entry_python \<Rightarrow> (nat \<Rightarrow> bool) \<Rightarrow> nat option \<Rightarrow> frame list \<Rightarrow> budgets \<Rightarrow> 'e stream \<Rightarrow> bytes list \<Rightarrow>
     (raised + bytes list) \<times> budgets" where
  "listdir_loop P append_ok current frames H it names =
     (case vis_py_scandir_next P current frames H it of
        (Exhausted, H1, _) \<Rightarrow> (Inr names, H1)
      | (Raise e, H1, _) \<Rightarrow> (Inl e, H1)
      | (Yield entry, H1, it1) \<Rightarrow>
          (case entry_name P entry of
             Inl e \<Rightarrow> (Inl e, H1)
           | Inr n \<Rightarrow>
               if append_ok (length names)
               then listdir_loop P append_ok current frames H1 it1 (names @ [n])
               else (Inl (MemoryError, []), H1)))"
  by pat_completeness auto
termination
  by (relation "measure (\<lambda>(P, a, c, f, H, it, n). length it)")
     (auto simp: vis_py_scandir_next_def split: list.splits sum.splits option.splits if_splits)

declare listdir_loop.simps [simp del]

text \<open>
  The rest of CPython the replacement of \<open>os.listdir\<close> uses: the original function, \<open>scandir\<close>, the
  audit hooks and the allocation of the list.  \<open>keywords\<close> are the names of the last arguments.
\<close>

record ('e, 'r) listdir_python =
  entries_of :: "'e entry_python"
  original_listdir :: "pyarg list \<Rightarrow> bytes list \<Rightarrow> raised + bytes list"
  original_scandir :: "pyarg list \<Rightarrow> bytes list \<Rightarrow> raised + 'e stream"
  sys_audit :: "bytes \<Rightarrow> pyarg list \<Rightarrow> raised option"
  list_new_ok :: bool
  list_append_ok :: "nat \<Rightarrow> bool"

definition vis_py_listdir ::
  "('e, 'r) listdir_python \<Rightarrow> nat option \<Rightarrow> frame list \<Rightarrow> pyarg list \<Rightarrow> bytes list \<Rightarrow> budgets \<Rightarrow>
     (raised + bytes list) \<times> budgets" where
  "vis_py_listdir P current frames args keywords H =
     (if current = None \<or> length args > 1 \<or> (length keywords = 1 \<and> keywords ! 0 \<noteq> ''path'')
      then (original_listdir P args keywords, H)
      else
        let path = (if length args = 1 then args ! 0 else PyNone) in
        (case sys_audit P ''os.listdir'' [path] of
           Some e \<Rightarrow> (Inl e, H)
         | None \<Rightarrow>
             (case original_scandir P args keywords of
                Inl e \<Rightarrow> (Inl e, H)
              | Inr it \<Rightarrow>
                  if list_new_ok P
                  then listdir_loop (entries_of P) (list_append_ok P) current frames H it []
                  else (Inl (MemoryError, []), H))))"

section \<open>Installing it\<close>

text \<open>What the interpreter shows while the guard is installed; \<open>Inl\<close> is a call that raised.\<close>

record guard_view =
  posix_module :: "raised option"
  has_functions :: "raised option"
  functions_fastcall :: bool
  decode_home :: "bytes \<Rightarrow> raised option"
  call_scandir :: "bytes \<Rightarrow> raised option"
  iterator_slot_ok :: bool
  close_iterator :: "raised option"

text \<open>Status 0 and the guard in place, or -1 with the exception and nothing replaced.\<close>

definition vis_py_install_scan_guard :: "guard_view \<Rightarrow> bytes option \<Rightarrow> int \<times> raised option \<times> bool" where
  "vis_py_install_scan_guard V home =
     (case posix_module V of
        Some e \<Rightarrow> (- 1, Some e, False)
      | None \<Rightarrow>
     (case has_functions V of
        Some e \<Rightarrow> (- 1, Some e, False)
      | None \<Rightarrow>
          if \<not> functions_fastcall V
          then (- 1, Some (RuntimeError, ''unexpected directory enumeration ABI''), False)
          else
            let path = (if home \<noteq> None \<and> home \<noteq> Some [] then the home else ''.'') in
            (case decode_home V path of
               Some e \<Rightarrow> (- 1, Some e, False)
             | None \<Rightarrow>
            (case call_scandir V path of
               Some e \<Rightarrow> (- 1, Some e, False)
             | None \<Rightarrow>
                 if \<not> iterator_slot_ok V
                 then (- 1, Some (RuntimeError, ''unexpected directory iterator ABI''), False)
                 else
                   (case close_iterator V of
                      Some e \<Rightarrow> (- 1, Some e, False)
                    | None \<Rightarrow> (0, None, True))))))"

section \<open>Lemmas\<close>

lemma exempt_iff: "vis_py_scan_exempt fs \<longleftrightarrow> (\<exists>f \<in> set fs. vis_py_scan_exempt_module f)"
  by (induction fs) auto

text \<open>A directory that reads without an exception: its entries.\<close>

definition spend :: "nat \<Rightarrow> nat \<Rightarrow> budgets \<Rightarrow> budgets" where
  "spend b n H = H(b := (H b)\<lparr>remaining := remaining (H b) - int n\<rparr>)"

lemma spend_0 [simp]: "spend b 0 H = H"
  by (simp add: spend_def)

lemma remaining_spend [simp]: "remaining (spend b n H b) = remaining (H b) - int n"
  by (simp add: spend_def)

lemma spend_spend [simp]: "spend b m (spend b n H) = spend b (n + m) H"
  by (rule ext) (simp add: spend_def)

lemma spend_one: "H(b := (H b)\<lparr>remaining := remaining (H b) - 1\<rparr>) = spend b 1 H"
  by (simp add: spend_def)

lemma listdir_loop_budget:
  assumes "\<not> vis_py_scan_exempt frames" "\<forall>e \<in> set es. entry_name P e = Inr (nm e)"
    "\<forall>e \<in> set es. entry_path P e = Inr (pt e)" "append_ok = (\<lambda>_. True)" "0 \<le> remaining (H b)"
  shows "listdir_loop P append_ok (Some b) frames H (map Inr es) names =
    (if int (length es) \<le> remaining (H b)
     then (Inr (names @ map nm es), spend b (length es) H)
     else (Inl (scan_exceeded (pt (es ! nat (remaining (H b))))), spend b (nat (remaining (H b))) H))"
  using assms(2,3,5)
proof (induction es arbitrary: H names)
  case Nil
  then show ?case by (simp add: listdir_loop.simps vis_py_scandir_next_def)
next
  case (Cons e es)
  show ?case
  proof (cases "remaining (H b) = 0")
    case True
    with Cons assms(1) show ?thesis by (simp add: listdir_loop.simps vis_py_scandir_next_def)
  next
    case False
    then have pos: "remaining (H b) > 0" using Cons.prems by simp
    let ?H = "spend b 1 H"
    have step: "listdir_loop P append_ok (Some b) frames H (map Inr (e # es)) names
        = listdir_loop P append_ok (Some b) frames ?H (map Inr es) (names @ [nm e])"
      using Cons.prems assms(1,4) pos
      by (subst listdir_loop.simps) (simp add: vis_py_scandir_next_def spend_one)
    have nat_eq: "nat (remaining (H b)) = Suc (nat (remaining (H b) - 1))" using pos by simp
    show ?thesis
      unfolding step using Cons.IH [of ?H "names @ [nm e]"] Cons.prems pos
      by (auto simp: nat_eq)
  qed
qed

lemma listdir_loop_unbudgeted:
  assumes "current = None \<or> vis_py_scan_exempt frames" "\<forall>e \<in> set es. entry_name P e = Inr (nm e)"
    "append_ok = (\<lambda>_. True)"
  shows "listdir_loop P append_ok current frames H (map Inr es) names = (Inr (names @ map nm es), H)"
  using assms(2)
proof (induction es arbitrary: names)
  case Nil
  then show ?case by (simp add: listdir_loop.simps vis_py_scandir_next_def)
next
  case (Cons e es)
  with assms(1,3) show ?case
    by (subst listdir_loop.simps) (auto simp: vis_py_scandir_next_def split: option.split)
qed

text \<open>A block that steps through directories in any order: each step is a \<open>next\<close> of one stream.\<close>

fun scan_steps ::
  "'e entry_python \<Rightarrow> nat option \<Rightarrow> (frame list \<times> 'e stream) list \<Rightarrow> budgets \<Rightarrow> 'e list \<times> budgets" where
  "scan_steps P current [] H = ([], H)"
| "scan_steps P current ((frames, it) # ss) H =
     (let (a, H1, _) = vis_py_scandir_next P current frames H it;
          (seen, H2) = scan_steps P current ss H1
      in (case a of Yield e \<Rightarrow> e # seen | _ \<Rightarrow> seen, H2))"

lemma scan_steps_spend:
  assumes "\<forall>(frames, it) \<in> set ss. \<not> vis_py_scan_exempt frames" "0 \<le> remaining (H b)"
  shows "remaining (snd (scan_steps P (Some b) ss H) b) + int (length (fst (scan_steps P (Some b) ss H)))
      = remaining (H b) \<and> 0 \<le> remaining (snd (scan_steps P (Some b) ss H) b)"
  using assms
proof (induction ss arbitrary: H)
  case (Cons s ss)
  obtain frames it where s: "s = (frames, it)" by (cases s)
  obtain a H1 it1 where n: "vis_py_scandir_next P (Some b) frames H it = (a, H1, it1)"
    by (metis prod_cases3)
  have spent: "0 \<le> remaining (H1 b) \<and>
      remaining (H1 b) = remaining (H b) - (case a of Yield e \<Rightarrow> 1 | _ \<Rightarrow> 0)"
    using n Cons.prems s
    by (auto simp: vis_py_scandir_next_def split: list.splits sum.splits if_splits)
  with Cons.IH [of H1] Cons.prems s n show ?case
    by (auto simp: Let_def split: prod.splits next_answer.splits)
qed simp

section \<open>Properties\<close>

text \<open>Under a block's budget \<open>os.listdir\<close> answers the whole directory or an error, never a part of
  it: it returns the name of every entry when they fit what remains of the budget and spends exactly
  that many, and otherwise raises \<open>RuntimeError\<close> with the budget used up. A caller that is exempt
  gets every entry and spends nothing.\<close>

theorem listdir_all_or_error:
  assumes "sys_audit P ''os.listdir'' [arg] = None" "original_scandir P [arg] kw = Inr (map Inr es)"
    "kw = [] \<or> kw = [''path'']" "list_new_ok P" "list_append_ok P = (\<lambda>_. True)"
    "\<forall>e. entry_name (entries_of P) e = Inr (nm e)" "\<forall>e. entry_path (entries_of P) e = Inr (pt e)"
    "0 \<le> remaining (H b)"
  shows "vis_py_listdir P (Some b) frames [arg] kw H =
    (if vis_py_scan_exempt frames then (Inr (map nm es), H)
     else if int (length es) \<le> remaining (H b) then (Inr (map nm es), spend b (length es) H)
     else (Inl (scan_exceeded (pt (es ! nat (remaining (H b))))), spend b (nat (remaining (H b))) H))"
proof -
  have "vis_py_listdir P (Some b) frames [arg] kw H
      = listdir_loop (entries_of P) (list_append_ok P) (Some b) frames H (map Inr es) []"
    using assms by (auto simp: vis_py_listdir_def)
  then show ?thesis
    using assms listdir_loop_budget [of frames es "entries_of P" nm pt "list_append_ok P" H b "[]"]
      listdir_loop_unbudgeted [of "Some b" frames es "entries_of P" nm "list_append_ok P" H "[]"]
    by simp
qed

definition witness_dir :: "(nat, unit) listdir_python" where
  "witness_dir = \<lparr>entries_of = \<lparr>entry_path = (\<lambda>_. Inr ''p''), entry_name = (\<lambda>_. Inr ''n'')\<rparr>,
     original_listdir = (\<lambda>_ _. Inr []), original_scandir = (\<lambda>_ _. Inr (map Inr [0, 1, 2])),
     sys_audit = (\<lambda>_ _. None), list_new_ok = True, list_append_ok = (\<lambda>_. True)\<rparr>"

theorem listdir_all_or_error_witness:
  "fst (vis_py_listdir witness_dir (Some 0) [] [PyStr (Some ''.'')] []
      (\<lambda>_. \<lparr>remaining = 2, references = 1\<rparr>)) = Inl (scan_exceeded ''p'')
   \<and> fst (vis_py_listdir witness_dir (Some 0) [] [PyStr (Some ''.'')] []
      (scan_budget_new 0 (\<lambda>_. \<lparr>remaining = 0, references = 0\<rparr>))) = Inr [''n'', ''n'', ''n'']"
  using listdir_all_or_error [of witness_dir "PyStr (Some ''.'')" "[]" "[0, 1, 2]" "\<lambda>_. ''n''" "\<lambda>_. ''p''"
      "\<lambda>_. \<lparr>remaining = 2, references = 1\<rparr>" 0 "[]"]
    listdir_all_or_error [of witness_dir "PyStr (Some ''.'')" "[]" "[0, 1, 2]" "\<lambda>_. ''n''" "\<lambda>_. ''p''"
      "scan_budget_new 0 (\<lambda>_. \<lparr>remaining = 0, references = 0\<rparr>)" 0 "[]"]
  by (simp add: witness_dir_def scan_budget_new_def VIS_PY_SCAN_ENTRIES_def)

text \<open>C40: However a block interleaves its directory iterators, each entry it is handed costs one unit of
  its one budget: entries seen and budget left always add up to the budget it had, so a block that
  starts with a fresh budget sees at most 10000 entries in all.\<close>

theorem block_sees_at_most_budget:
  assumes "\<forall>(frames, it) \<in> set ss. \<not> vis_py_scan_exempt frames"
  shows "length (fst (scan_steps P (Some b) ss (scan_budget_new b H))) \<le> 10000"
  using scan_steps_spend [OF assms, of "scan_budget_new b H" b P]
  by (simp add: scan_budget_new_def VIS_PY_SCAN_ENTRIES_def)

theorem block_sees_at_most_budget_witness:
  "length (fst (scan_steps (entries_of witness_dir) (Some 0) (replicate 20000 ([], [Inr 7]))
      (scan_budget_new 0 (\<lambda>_. \<lparr>remaining = 0, references = 0\<rparr>)))) \<le> 10000"
  by (rule block_sees_at_most_budget) simp

end
