(* ===== verification/WorkerPool.thy ===== *)
theory WorkerPool
  imports Sessions TaskQueue ScanBudget
begin

text \<open>
  The worker pool and \<open>_vis_host.par\<close> of \<^verbatim>\<open>native/vispython/vispython.c\<close>: batches and their tasks, and the
  code of \<open>par\<close>, of the workers and of the host's interrupt, one definition per critical section of the
  pool's lock.  A task is named by its batch and its position; an interrupted wait is modelled by the
  guard it wakes up for.  The theory PoolInvariants runs these sections in any order.
\<close>

section \<open>State\<close>

type_synonym task_id = "nat \<times> nat"

record 'v vis_py_task =
  t_value :: "'v option"
  t_error :: "exc option"
  t_finished :: bool
  t_runner :: nat

definition task_zero :: "'v vis_py_task" where
  "task_zero = \<lparr>t_value = None, t_error = None, t_finished = False, t_runner = 0\<rparr>"

record 'v vis_py_batch =
  b_task :: "'v vis_py_task list"
  b_session :: bytes
  b_budget :: "nat option"
  b_done :: nat
  b_outstanding :: nat
  b_stopped :: bool
  b_interrupted :: bool
  b_owner :: nat

text \<open>\<open>batch_at\<close> is the heap of batches, \<open>None\<close> a freed one; \<open>waiting\<close> the list a \<open>par\<close> puts its batch on.\<close>

record 'v vis_py_pool =
  tasks :: "task_id task_queue"
  batch_at :: "nat \<Rightarrow> 'v vis_py_batch option"
  waiting :: "nat list"
  running :: nat
  idle :: nat
  started :: bool

definition initial_pool :: "'v vis_py_pool" where
  "initial_pool = \<lparr>tasks = empty_queue, batch_at = (\<lambda>_. None), waiting = [], running = 0, idle = 0,
     started = False\<rparr>"

definition update_batch :: "nat \<Rightarrow> ('v vis_py_batch \<Rightarrow> 'v vis_py_batch) \<Rightarrow> 'v vis_py_pool \<Rightarrow> 'v vis_py_pool" where
  "update_batch b f P = P\<lparr>batch_at := (batch_at P)(b := map_option f (batch_at P b))\<rparr>"

definition update_task ::
  "nat \<Rightarrow> ('v vis_py_task \<Rightarrow> 'v vis_py_task) \<Rightarrow> 'v vis_py_batch \<Rightarrow> 'v vis_py_batch" where
  "update_task i f B = B\<lparr>b_task := (b_task B)[i := f (b_task B ! i)]\<rparr>"

section \<open>Starting the pool\<close>

text \<open>\<open>create_ok i\<close> says whether the \<open>i\<close>-th \<open>pthread_create\<close> succeeds.\<close>

fun create_workers :: "(nat \<Rightarrow> bool) \<Rightarrow> nat \<Rightarrow> nat \<Rightarrow> nat" where
  "create_workers create_ok 0 made = made"
| "create_workers create_ok (Suc n) made =
     (if create_ok made then create_workers create_ok n (made + 1) else made)"

definition vis_py_pool_start ::
  "(nat \<Rightarrow> bool) \<Rightarrow> int \<times> int \<Rightarrow> thread_policy \<Rightarrow> 'v vis_py_pool \<Rightarrow> log_state \<Rightarrow>
     raised option \<times> 'v vis_py_pool \<times> log_state" where
  "vis_py_pool_start create_ok now p P l =
     (if started P then (None, P, l)
      else
        let made = create_workers create_ok (nat (vis_py_worker_target p)) 0;
            P1 = P\<lparr>running := made, started := (made > 0)\<rparr>;
            l1 = vis_py_record now VIS_PY_LOG_INFO ''pool_start''
                   (Some (quoted ''workers'' @ '':'' @ show_nat made)) l
        in (if made = 0 then Some (RuntimeError, ''no worker thread could be started'') else None, P1, l1))"

section \<open>Running a task\<close>

definition vis_py_stops_batch :: "exc option \<Rightarrow> bool" where
  "vis_py_stops_batch e = (case e of None \<Rightarrow> False | Some x \<Rightarrow> \<not> is_exception x)"

text \<open>The first critical section of \<open>vis_py_task_run\<close>: whether the batch is stopped, else the runner's name.\<close>

definition task_begin :: "nat \<Rightarrow> task_id \<Rightarrow> 'v vis_py_pool \<Rightarrow> bool \<times> 'v vis_py_pool" where
  "task_begin me t P =
     (case batch_at P (fst t) of
        None \<Rightarrow> (True, P)
      | Some B \<Rightarrow>
          if b_stopped B then (True, P)
          else (False, update_batch (fst t) (update_task (snd t) (\<lambda>x. x\<lparr>t_runner := me\<rparr>)) P))"

text \<open>The second one: the outcome is recorded and the batch counts the task as done.\<close>

definition task_end ::
  "task_id \<Rightarrow> 'v option \<Rightarrow> exc option \<Rightarrow> bool \<Rightarrow> 'v vis_py_pool \<Rightarrow> 'v vis_py_pool" where
  "task_end t v e stop P =
     update_batch (fst t)
       (\<lambda>B. (update_task (snd t)
               (\<lambda>x. x\<lparr>t_runner := 0, t_value := v, t_error := e, t_finished := True\<rparr>) B)
            \<lparr>b_stopped := (if stop then True else b_stopped B),
              b_done := b_done B + 1, b_outstanding := b_outstanding B - 1\<rparr>) P"

text \<open>What a thread carries while it runs guest code: its run stack and its scan budget.\<close>

record thread_local =
  runs :: thread_runs
  scan_current :: "nat option"

text \<open>The whole routine on one thread; \<open>call\<close> is the thunk, run with the thread's state as it sees it.\<close>

definition vis_py_task_run ::
  "nat \<Rightarrow> (thread_local \<Rightarrow> ('v option \<times> exc option) \<times> thread_local) \<Rightarrow> task_id \<Rightarrow>
     thread_local \<Rightarrow> 'v vis_py_pool \<Rightarrow> thread_local \<times> 'v vis_py_pool" where
  "vis_py_task_run me call t T P =
     (let (stop, P1) = task_begin me t P in
      if stop then (T, task_end t None None True P1)
      else
        (case batch_at P1 (fst t) of
           None \<Rightarrow> (T, P1)
         | Some B \<Rightarrow>
             let previous = scan_current T;
                 T1 = T\<lparr>scan_current := b_budget B, runs := vis_py_run_push (Some (b_session B)) (runs T)\<rparr>;
                 ((v, e), T2) = call T1;
                 T3 = T2\<lparr>runs := vis_py_run_pop (runs T2), scan_current := previous\<rparr>
             in (T3, task_end t v e (vis_py_stops_batch e) P1)))"

text \<open>The claim of \<open>vis_py_worker_main\<close> and the wait before it.\<close>

definition worker_claim :: "'v vis_py_pool \<Rightarrow> (task_id \<times> 'v vis_py_pool) option" where
  "worker_claim P =
     (case claim_task (tasks P) of
        None \<Rightarrow> None
      | Some (t, q) \<Rightarrow> Some (t, P\<lparr>tasks := q\<rparr>))"

definition worker_wait :: "'v vis_py_pool \<Rightarrow> 'v vis_py_pool" where
  "worker_wait P = P\<lparr>idle := idle P + 1\<rparr>"

definition worker_wake :: "'v vis_py_pool \<Rightarrow> 'v vis_py_pool" where
  "worker_wake P = P\<lparr>idle := idle P - 1\<rparr>"

section \<open>The batch of one par call\<close>

text \<open>A batch as \<open>calloc\<close> and the setup of \<open>vis_py_par\<close> leave it: its address \<open>b\<close> was free, so its tasks'
  links are null.\<close>

definition par_register ::
  "nat \<Rightarrow> nat \<Rightarrow> bytes option \<Rightarrow> nat option \<Rightarrow> nat \<Rightarrow> 'v vis_py_pool \<Rightarrow> 'v vis_py_pool" where
  "par_register b n session scan owner P =
     P\<lparr>tasks := (tasks P)\<lparr>q_next := (\<lambda>t. if fst t = b then None else q_next (tasks P) t)\<rparr>,
       batch_at := (batch_at P)(b \<mapsto>
         \<lparr>b_task = replicate n task_zero,
          b_session = snprintf_kept VIS_PY_SESSION_NAME (case session of None \<Rightarrow> [] | Some s \<Rightarrow> s),
          b_budget = scan, b_done = 0, b_outstanding = 0, b_stopped = False, b_interrupted = False,
          b_owner = owner\<rparr>),
       waiting := b # waiting P\<rparr>"

definition par_quota_of :: "thread_policy \<Rightarrow> int" where
  "par_quota_of p = (if par_quota p < 1 then 1 else par_quota p)"

text \<open>The submission loop: it queues tasks in order until the quota is out or every task is queued.\<close>

function par_submit :: "int \<Rightarrow> nat \<Rightarrow> nat \<Rightarrow> 'v vis_py_pool \<Rightarrow> nat \<times> 'v vis_py_pool" where
  "par_submit quota b submitted P =
     (case batch_at P b of
        None \<Rightarrow> (submitted, P)
      | Some B \<Rightarrow>
          if submitted < length (b_task B) \<and> int submitted - int (b_done B) < quota then
            par_submit quota b (submitted + 1)
              (update_batch b (\<lambda>B. B\<lparr>b_outstanding := b_outstanding B + 1\<rparr>)
                 (P\<lparr>tasks := submit_task (b, submitted) (tasks P)\<rparr>))
          else (submitted, P))"
  by pat_completeness auto
termination
proof (relation "measure (\<lambda>(quota, b, submitted, P).
    (case batch_at P b of None \<Rightarrow> 0 | Some B \<Rightarrow> length (b_task B)) - submitted)", goal_cases)
  case (2 quota b submitted P B)
  then show ?case by (simp add: update_batch_def diff_less_mono2)
qed simp

declare par_submit.simps [simp del]

text \<open>The wait for task \<open>i\<close>: straight away when the pool was saturated and nobody is idle, or when the
  timed wait ran out, the caller takes the task back off the queue.\<close>

definition par_take_back :: "nat \<Rightarrow> nat \<Rightarrow> 'v vis_py_pool \<Rightarrow> (bool \<times> 'v vis_py_pool) option" where
  "par_take_back b i P =
     map_option (\<lambda>(found, q). (found, P\<lparr>tasks := q\<rparr>)) (vis_py_unqueue (b, i) (tasks P))"

definition par_claims_now :: "bool \<Rightarrow> nat \<Rightarrow> nat \<Rightarrow> 'v vis_py_pool \<Rightarrow> (bool \<times> 'v vis_py_pool) option" where
  "par_claims_now saturated b i P =
     (if saturated \<and> idle P = 0 then par_take_back b i P else Some (False, P))"

definition par_wait_over :: "nat \<Rightarrow> nat \<Rightarrow> 'v vis_py_pool \<Rightarrow> bool" where
  "par_wait_over b i P =
     (case batch_at P b of None \<Rightarrow> True | Some B \<Rightarrow> t_finished (b_task B ! i) \<or> b_stopped B)"

text \<open>After an interrupt the tasks still queued go back unstarted, position by position.\<close>

fun par_drop_queued :: "nat \<Rightarrow> nat list \<Rightarrow> 'v vis_py_pool \<Rightarrow> 'v vis_py_pool option" where
  "par_drop_queued b [] P = Some P"
| "par_drop_queued b (i # is) P =
     (case batch_at P b of
        None \<Rightarrow> None
      | Some B \<Rightarrow>
          if t_finished (b_task B ! i) then par_drop_queued b is P
          else
            (case vis_py_unqueue (b, i) (tasks P) of
               None \<Rightarrow> None
             | Some (False, _) \<Rightarrow> par_drop_queued b is P
             | Some (True, q) \<Rightarrow>
                 par_drop_queued b is
                   (update_batch b
                      (\<lambda>B. (update_task i (\<lambda>x. x\<lparr>t_finished := True\<rparr>) B)
                             \<lparr>b_done := b_done B + 1, b_outstanding := b_outstanding B - 1\<rparr>)
                      (P\<lparr>tasks := q\<rparr>))))"

definition par_settled :: "nat \<Rightarrow> 'v vis_py_pool \<Rightarrow> bool" where
  "par_settled b P = (case batch_at P b of None \<Rightarrow> True | Some B \<Rightarrow> b_outstanding B = 0)"

definition par_drain :: "nat \<Rightarrow> nat \<Rightarrow> 'v vis_py_pool \<Rightarrow> 'v vis_py_pool option" where
  "par_drain b submitted P =
     (case batch_at P b of
        None \<Rightarrow> None
      | Some B \<Rightarrow> if b_stopped B then par_drop_queued b [0..<submitted] P else Some P)"

definition par_unlink :: "nat \<Rightarrow> 'v vis_py_pool \<Rightarrow> bool \<times> 'v vis_py_pool" where
  "par_unlink b P =
     ((case batch_at P b of None \<Rightarrow> False | Some B \<Rightarrow> b_interrupted B),
      P\<lparr>waiting := remove1 b (waiting P)\<rparr>)"

section \<open>What par answers\<close>

text \<open>The loop that picks the failure: the first interrupt, else the first failure, by position.\<close>

fun par_choose :: "exc option list \<Rightarrow> nat \<Rightarrow> nat option \<Rightarrow> nat option" where
  "par_choose [] i chosen = chosen"
| "par_choose (e # es) i chosen =
     (if e = None then par_choose es (Suc i) chosen
      else if vis_py_stops_batch e then Some i
      else par_choose es (Suc i) (if chosen = None then Some i else chosen))"

text \<open>A fresh \<open>KeyboardInterrupt\<close>.\<close>

definition keyboard_interrupt :: exc where
  "keyboard_interrupt = \<lparr>tp_name = ''KeyboardInterrupt'', exc_str = Some (Some []), is_exception = False\<rparr>"

definition par_result :: "'v vis_py_task list \<Rightarrow> bool \<Rightarrow> exc + 'v option list" where
  "par_result ts interrupted =
     (let errors = map t_error ts;
          chosen = par_choose errors 0 None;
          chosen1 = (case chosen of
                       Some k \<Rightarrow> if interrupted \<and> \<not> vis_py_stops_batch (errors ! k) then None else Some k
                     | None \<Rightarrow> None)
      in (case chosen1 of
            Some k \<Rightarrow> Inl (the (errors ! k))
          | None \<Rightarrow> if interrupted then Inl keyboard_interrupt else Inr (map t_value ts)))"

text \<open>Releasing the batch: its reference to the scan budget and its memory.\<close>

definition vis_py_batch_free :: "nat \<Rightarrow> budgets \<Rightarrow> 'v vis_py_pool \<Rightarrow> budgets \<times> 'v vis_py_pool" where
  "vis_py_batch_free b H P =
     (case batch_at P b of
        None \<Rightarrow> (H, P)
      | Some B \<Rightarrow> (vis_py_scan_release (b_budget B) H, P\<lparr>batch_at := (batch_at P)(b := None)\<rparr>))"

text \<open>\<open>par\<close> on the calling thread: fewer than two thunks, or the caller is a worker.  \<open>outs\<close> lists what the
  thunks give when called, in order.\<close>

fun vis_py_par_inline ::
  "('v option \<times> exc option) list \<Rightarrow> exc option \<Rightarrow> 'v option list \<Rightarrow> exc + 'v option list" where
  "vis_py_par_inline [] failure vals =
     (case failure of Some e \<Rightarrow> Inl e | None \<Rightarrow> Inr vals)"
| "vis_py_par_inline ((v, e) # outs) failure vals =
     (case e of
        None \<Rightarrow> vis_py_par_inline outs failure (vals @ [v])
      | Some x \<Rightarrow>
          if vis_py_stops_batch e then Inl x
          else vis_py_par_inline outs (if failure = None then Some x else failure) (vals @ [None]))"

section \<open>The host's interrupt\<close>

text \<open>The runners of one batch, its owner aside, appended while there is room.\<close>

fun name_runners :: "nat \<Rightarrow> nat \<Rightarrow> 'v vis_py_task list \<Rightarrow> nat list \<Rightarrow> nat list" where
  "name_runners owner cap [] named = named"
| "name_runners owner cap (x # xs) named =
     name_runners owner cap xs
       (if t_runner x \<noteq> 0 \<and> t_runner x \<noteq> owner \<and> length named < cap then named @ [t_runner x] else named)"

fun interrupt_loop ::
  "nat \<Rightarrow> nat \<Rightarrow> nat list \<Rightarrow> 'v vis_py_pool \<Rightarrow> nat list \<Rightarrow> nat list \<times> 'v vis_py_pool" where
  "interrupt_loop owner cap [] P named = (named, P)"
| "interrupt_loop owner cap (b # bs) P named =
     (case batch_at P b of
        None \<Rightarrow> interrupt_loop owner cap bs P named
      | Some B \<Rightarrow>
          if b_owner B \<noteq> owner then interrupt_loop owner cap bs P named
          else interrupt_loop owner cap bs
                 (update_batch b (\<lambda>B. B\<lparr>b_stopped := True, b_interrupted := True\<rparr>) P)
                 (name_runners owner cap (b_task B) named))"

definition vis_py_interrupt_batches :: "nat \<Rightarrow> nat \<Rightarrow> 'v vis_py_pool \<Rightarrow> nat list \<times> 'v vis_py_pool" where
  "vis_py_interrupt_batches owner cap P = interrupt_loop owner cap (waiting P) P []"

section \<open>Lemmas\<close>

lemma stops_simps [simp]: "\<not> vis_py_stops_batch None"
  by (simp add: vis_py_stops_batch_def)

lemma update_batch_simps [simp]:
  "tasks (update_batch b f P) = tasks P" "waiting (update_batch b f P) = waiting P"
  "running (update_batch b f P) = running P" "idle (update_batch b f P) = idle P"
  "started (update_batch b f P) = started P"
  "batch_at (update_batch b f P) = (batch_at P)(b := map_option f (batch_at P b))"
  by (simp_all add: update_batch_def)

lemma create_workers_bounds: "made \<le> create_workers ok n made \<and> create_workers ok n made \<le> made + n"
  by (induction ok n made rule: create_workers.induct) auto

text \<open>The exception a batch of outcomes raises: its first interrupt, else its first failure.\<close>

definition batch_raises :: "exc option list \<Rightarrow> exc option" where
  "batch_raises es =
     (case find vis_py_stops_batch es of
        Some e \<Rightarrow> e
      | None \<Rightarrow> (case find (\<lambda>e. e \<noteq> None) es of Some e \<Rightarrow> e | None \<Rightarrow> None))"

lemma par_choose_picks:
  assumes "\<forall>k. chosen = Some k \<longrightarrow> k < length pre"
  shows "(case par_choose es (length pre) chosen of None \<Rightarrow> None | Some k \<Rightarrow> (pre @ es) ! k) =
    (case find vis_py_stops_batch es of
       Some e \<Rightarrow> e
     | None \<Rightarrow>
         (case chosen of Some k \<Rightarrow> pre ! k
          | None \<Rightarrow> (case find (\<lambda>e. e \<noteq> None) es of Some e \<Rightarrow> e | None \<Rightarrow> None)))"
  using assms
proof (induction es arbitrary: pre chosen)
  case Nil
  then show ?case by (auto simp: nth_append split: option.split)
next
  case (Cons e es)
  let ?chosen = "if e = None then chosen else if chosen = None then Some (length pre) else chosen"
  show ?case
  proof (cases "vis_py_stops_batch e")
    case True
    then obtain x where "e = Some x" by (cases e) auto
    with True show ?thesis by (simp add: nth_append)
  next
    case False
    have "\<forall>k. ?chosen = Some k \<longrightarrow> k < length (pre @ [e])" using Cons.prems by (auto split: if_splits)
    note ih = Cons.IH [OF this]
    show ?thesis
    proof (cases e)
      case None
      with ih show ?thesis
        using Cons.prems by (cases chosen) (simp_all add: nth_append cong: option.case_cong)
    next
      case (Some x)
      with ih False show ?thesis
        using Cons.prems by (cases chosen) (simp_all add: nth_append cong: option.case_cong)
    qed
  qed
qed

lemma par_choose_raises:
  "(case par_choose es 0 None of None \<Rightarrow> None | Some k \<Rightarrow> es ! k) = batch_raises es"
  using par_choose_picks [of None "[]" es]
  by (simp add: batch_raises_def cong: option.case_cong)

lemma par_choose_error:
  "\<forall>k. chosen = Some k \<longrightarrow> k < length pre \<and> pre ! k \<noteq> None \<Longrightarrow>
     par_choose es (length pre) chosen = Some k \<Longrightarrow> k < length (pre @ es) \<and> (pre @ es) ! k \<noteq> None"
proof (induction es arbitrary: pre chosen)
  case Nil
  then show ?case by (simp add: nth_append)
next
  case (Cons e es)
  show ?case
  proof (cases "vis_py_stops_batch e")
    case True
    with Cons.prems show ?thesis by (auto simp: nth_append split: if_splits)
  next
    case False
    let ?chosen = "if e = None then chosen else if chosen = None then Some (length pre) else chosen"
    have "\<forall>k. ?chosen = Some k \<longrightarrow> k < length (pre @ [e]) \<and> (pre @ [e]) ! k \<noteq> None"
      using Cons.prems(1) by (auto simp: nth_append split: if_splits)
    moreover have "par_choose es (length (pre @ [e])) ?chosen = Some k"
      using Cons.prems(2) False by (auto split: if_splits)
    ultimately show ?thesis using Cons.IH [of ?chosen "pre @ [e]"] by simp
  qed
qed

lemma par_result_clean:
  "par_result ts False =
     (case batch_raises (map t_error ts) of Some x \<Rightarrow> Inl x | None \<Rightarrow> Inr (map t_value ts))"
proof (cases "par_choose (map t_error ts) 0 None")
  case None
  with par_choose_raises [of "map t_error ts"] show ?thesis by (simp add: par_result_def)
next
  case (Some k)
  with par_choose_error [of None "[]" "map t_error ts" k] par_choose_raises [of "map t_error ts"]
  show ?thesis by (auto simp: par_result_def)
qed

lemma find_stops_Some: "find vis_py_stops_batch es = Some e \<Longrightarrow> \<exists>x. e = Some x"
  by (auto simp: find_Some_iff vis_py_stops_batch_def split: option.splits)

lemma par_inline_raises:
  "vis_py_par_inline outs failure vals =
     (case find vis_py_stops_batch (map snd outs) of
        Some (Some x) \<Rightarrow> Inl x
      | _ \<Rightarrow>
          (case failure of Some x \<Rightarrow> Inl x
           | None \<Rightarrow> (case find (\<lambda>e. e \<noteq> None) (map snd outs) of Some (Some x) \<Rightarrow> Inl x
                     | _ \<Rightarrow> Inr (vals @ map fst outs))))"
  by (induction outs failure vals rule: vis_py_par_inline.induct) (auto split: option.split)

text \<open>Naming the runners of an interrupted owner.\<close>

lemma name_runners_take:
  "length named \<le> cap \<Longrightarrow> name_runners owner cap xs named =
     take cap (named @ [r \<leftarrow> map t_runner xs. r \<noteq> 0 \<and> r \<noteq> owner])"
  by (induction owner cap xs named rule: name_runners.induct) (auto simp: take_Cons' split: if_splits)

definition runners_of :: "nat \<Rightarrow> 'v vis_py_pool \<Rightarrow> nat \<Rightarrow> nat list" where
  "runners_of owner P b =
     (case batch_at P b of
        None \<Rightarrow> []
      | Some B \<Rightarrow> if b_owner B = owner
                 then [r \<leftarrow> map t_runner (b_task B). r \<noteq> 0 \<and> r \<noteq> owner] else [])"

definition stop_owned :: "nat \<Rightarrow> nat set \<Rightarrow> 'v vis_py_pool \<Rightarrow> 'v vis_py_pool" where
  "stop_owned owner bs P =
     P\<lparr>batch_at := (\<lambda>b. map_option (\<lambda>B. if b \<in> bs \<and> b_owner B = owner
          then B\<lparr>b_stopped := True, b_interrupted := True\<rparr> else B) (batch_at P b))\<rparr>"

lemma stop_owned_eqI:
  "(\<And>b. batch_at (stop_owned owner bs P) b = batch_at (stop_owned owner bs' Q) b) \<Longrightarrow>
     P\<lparr>batch_at := undefined\<rparr> = Q\<lparr>batch_at := undefined\<rparr> \<Longrightarrow> stop_owned owner bs P = stop_owned owner bs' Q"
  by (cases P; cases Q) (auto simp: stop_owned_def fun_eq_iff)

lemma interrupt_loop_spec:
  assumes "distinct bs" "length named \<le> cap"
  shows "interrupt_loop owner cap bs P named =
    (take cap (named @ concat (map (runners_of owner P) bs)), stop_owned owner (set bs) P)"
  using assms
proof (induction bs arbitrary: P named)
  case Nil
  have "stop_owned owner {} P = P"
    by (cases P) (simp add: stop_owned_def map_option.id [unfolded id_def])
  with Nil show ?case by simp
next
  case (Cons b bs)
  show ?case
  proof (cases "\<exists>B. batch_at P b = Some B \<and> b_owner B = owner")
    case False
    then have "stop_owned owner (set (b # bs)) P = stop_owned owner (set bs) P"
      by (intro stop_owned_eqI) (auto simp: stop_owned_def map_option_case split: option.split)
    with False Cons show ?thesis by (auto simp: runners_of_def split: option.split)
  next
    case True
    then obtain B where B: "batch_at P b = Some B" "b_owner B = owner" by blast
    let ?P = "update_batch b (\<lambda>B. B\<lparr>b_stopped := True, b_interrupted := True\<rparr>) P"
    have "runners_of owner ?P c = runners_of owner P c" if "c \<in> set bs" for c
      using that Cons.prems by (auto simp: runners_of_def)
    then have same: "map (runners_of owner ?P) bs = map (runners_of owner P) bs" by simp
    have "stop_owned owner (set bs) ?P = stop_owned owner (set (b # bs)) P"
      using B Cons.prems
      by (intro stop_owned_eqI)
         (auto simp: stop_owned_def update_batch_def map_option_case split: option.split)
    moreover have "take cap (take cap xs @ ys) = take cap (xs @ ys)" for xs ys :: "nat list"
      by (cases "length xs \<le> cap") (simp_all add: min_def)
    moreover have "interrupt_loop owner cap (b # bs) P named =
        interrupt_loop owner cap bs ?P (take cap (named @ runners_of owner P b))"
      using B Cons.prems by (simp add: name_runners_take runners_of_def)
    moreover have "length (take cap (named @ runners_of owner P b)) \<le> cap" by simp
    ultimately show ?thesis
      using Cons.IH [of "take cap (named @ runners_of owner P b)" ?P] Cons.prems(1) same
      by (simp only: distinct.simps list.map concat.simps append_assoc simp_thms)
  qed
qed

section \<open>Properties\<close>

text \<open>Once every thunk has run, the pool's answer is the one the calling thread alone would have
  given: the values in order, or the exception of the first interrupt, else of the first failure by
  position. So whether the pool or the caller ran a thunk cannot be told from what \<open>par\<close> answers.\<close>

theorem pooled_result_is_inline_result:
  "par_result (map (\<lambda>(v, e). \<lparr>t_value = v, t_error = e, t_finished = True, t_runner = 0\<rparr>) outs) False
     = vis_py_par_inline outs None []"
proof -
  let ?ts = "map (\<lambda>(v, e). \<lparr>t_value = v, t_error = e, t_finished = True, t_runner = 0\<rparr>) outs"
  have maps: "map t_error ?ts = map snd outs" "map t_value ?ts = map fst outs"
    by (auto simp: case_prod_beta)
  have raises: "(case batch_raises es of Some x \<Rightarrow> Inl x | None \<Rightarrow> Inr ys) =
      (case find vis_py_stops_batch es of
         Some (Some x) \<Rightarrow> Inl x
       | _ \<Rightarrow> (case find (\<lambda>e. e \<noteq> None) es of Some (Some x) \<Rightarrow> Inl x | _ \<Rightarrow> Inr ys))"
    for es :: "exc option list" and ys :: "'a option list"
    using find_stops_Some [of es]
    by (cases "find vis_py_stops_batch es"; cases "find (\<lambda>e. e \<noteq> None) es")
       (auto simp: batch_raises_def split: option.splits)
  show ?thesis
    unfolding par_result_clean par_inline_raises maps append_Nil option.case(1) by (rule raises)
qed

text \<open>The host's interrupt stops and marks every waiting batch of the interrupted thread and no other
  batch, and names exactly the threads other than that one that run a thunk of such a batch, in
  order, as many as the caller's array holds.\<close>

theorem interrupt_stops_owned_batches:
  assumes "distinct (waiting P)"
  shows "vis_py_interrupt_batches owner cap P =
    (take cap (concat (map (runners_of owner P) (waiting P))), stop_owned owner (set (waiting P)) P)"
  using interrupt_loop_spec [OF assms, of "[]" cap owner P] by (simp add: vis_py_interrupt_batches_def)

theorem interrupt_stops_owned_batches_witness:
  "fst (vis_py_interrupt_batches 7 64
      (snd (task_begin 9 (0, 1) (par_register 0 2 None None 7 (initial_pool :: nat vis_py_pool))))) = [9]"
proof -
  let ?P = "snd (task_begin 9 (0, 1) (par_register 0 2 None None 7 (initial_pool :: nat vis_py_pool)))"
  have "waiting ?P = [0]" by (simp add: task_begin_def par_register_def initial_pool_def)
  moreover have "runners_of 7 ?P 0 = [9]"
    by (simp add: task_begin_def par_register_def initial_pool_def runners_of_def update_task_def
        numeral_2_eq_2 task_zero_def)
  ultimately show ?thesis using interrupt_stops_owned_batches [of ?P 7 64] by simp
qed

text \<open>A thunk runs attributed to the session whose block called \<open>par\<close> and spends that block's scan
  budget, on whatever thread it runs, and the thread gets its own run stack and budget back; a task
  of a stopped batch is not called at all.\<close>

theorem task_runs_as_its_block:
  assumes "batch_at P (fst t) = Some B" "runs_as (runs T) enclosing"
    "\<And>T1. runs_as (runs T1) (enclosing @ [b_session B]) \<Longrightarrow> scan_current T1 = b_budget B \<Longrightarrow>
        runs_as (runs (snd (call T1))) (enclosing @ [b_session B])"
  shows "let T' = fst (vis_py_task_run me call t T P)
    in runs_as (runs T') enclosing \<and> scan_current T' = scan_current T
       \<and> (b_stopped B \<longrightarrow> T' = T \<and> vis_py_task_run me call t T P = (T, task_end t None None True P))
       \<and> (\<not> b_stopped B \<longrightarrow>
            (\<exists>T1. runs_as (runs T1) (enclosing @ [b_session B]) \<and> scan_current T1 = b_budget B
               \<and> snd (vis_py_task_run me call t T P) =
                   task_end t (fst (fst (call T1))) (snd (fst (call T1)))
                     (vis_py_stops_batch (snd (fst (call T1)))) (snd (task_begin me t P))))"
proof (cases "b_stopped B")
  case True
  with assms show ?thesis by (simp add: vis_py_task_run_def task_begin_def)
next
  case False
  let ?T1 = "T\<lparr>scan_current := b_budget B, runs := vis_py_run_push (Some (b_session B)) (runs T)\<rparr>"
  have T1: "runs_as (runs ?T1) (enclosing @ [b_session B])" "scan_current ?T1 = b_budget B"
    using runs_as_push [OF assms(2), of "Some (b_session B)"] by simp_all
  have "vis_py_task_run me call t T P =
      (let ((v, e), T2) = call ?T1
       in (T2\<lparr>runs := vis_py_run_pop (runs T2), scan_current := scan_current T\<rparr>,
           task_end t v e (vis_py_stops_batch e) (snd (task_begin me t P))))"
    using assms(1) False by (simp add: vis_py_task_run_def task_begin_def update_task_def)
  then have run: "fst (vis_py_task_run me call t T P) = (snd (call ?T1))
        \<lparr>runs := vis_py_run_pop (runs (snd (call ?T1))), scan_current := scan_current T\<rparr>"
    "snd (vis_py_task_run me call t T P) = task_end t (fst (fst (call ?T1))) (snd (fst (call ?T1)))
        (vis_py_stops_batch (snd (fst (call ?T1)))) (snd (task_begin me t P))"
    by (simp_all add: Let_def split: prod.split)
  have "runs_as (runs (fst (vis_py_task_run me call t T P))) enclosing"
    "scan_current (fst (vis_py_task_run me call t T P)) = scan_current T"
    using runs_as_pop [OF assms(3) [OF T1]] run(1) by simp_all
  then show ?thesis unfolding Let_def using T1 run(2) False by blast
qed

theorem task_runs_as_its_block_witness:
  "let call = (\<lambda>T1. ((vis_py_current_session (runs T1), None), T1));
       P = par_register 0 2 (Some ''blk'') (Some 3) 7 (initial_pool :: bytes vis_py_pool);
       T = \<lparr>runs = initial_runs, scan_current = None\<rparr>
   in scan_current (fst (vis_py_task_run 9 call (0, 1) T P)) = None"
proof -
  let ?call = "\<lambda>T1. ((vis_py_current_session (runs T1), None), T1)"
  let ?P = "par_register 0 2 (Some ''blk'') (Some 3) 7 (initial_pool :: bytes vis_py_pool)"
  let ?T = "\<lparr>runs = initial_runs, scan_current = None\<rparr>"
  have B: "batch_at ?P (fst (0, 1::nat)) = Some (the (batch_at ?P 0))"
    by (simp add: par_register_def)
  have r: "runs_as (runs ?T) []" by (simp add: runs_as_initial)
  from task_runs_as_its_block [OF B r, of ?call 9] show ?thesis by (simp add: Let_def)
qed

end
