(* ===== verification/PoolInvariants.thy ===== *)
theory PoolInvariants
  imports WorkerPool
begin

text \<open>
  The worker pool run concurrently: every critical section of WorkerPool is a step, and the steps of
  workers, of \<open>par\<close> calls and of the host's interrupt interleave in any order.  A wait is a step that is
  enabled when its wake-up condition holds, a timed wait one that may end at any time.  The invariant
  ties the counters of a batch to its tasks; the properties are consequences of it.
\<close>

section \<open>The system\<close>

text \<open>Where a \<open>par\<close> call stands: before the submission for task \<open>i\<close>, waiting for it, running it itself,
  past the loop, waiting for the batch to settle, before unlinking the batch, and after it.\<close>

datatype phase = Loop nat | Wait nat | Exec nat | Settle | Drain | Unlinking | Unlinked bool

record par_call =
  par_phase :: phase
  par_submitted :: nat
  par_limit :: int
  par_saturated :: bool

text \<open>A thread that runs tasks: a worker, or the caller of the \<open>par\<close> that owns a batch.\<close>

datatype executor = Worker nat | Caller nat

datatype activity = Free | Waiting | Taken task_id | Skipped task_id | Running task_id

fun task_of :: "activity \<Rightarrow> task_id option" where
  "task_of (Taken t) = Some t"
| "task_of (Skipped t) = Some t"
| "task_of (Running t) = Some t"
| "task_of _ = None"

text \<open>\<open>starts\<close> counts the calls of each thunk; it is a history variable.\<close>

record 'v pool_system =
  pool :: "'v vis_py_pool"
  calls :: "nat \<Rightarrow> par_call option"
  act :: "executor \<Rightarrow> activity"
  starts :: "task_id \<Rightarrow> nat"

definition initial_system :: "'v pool_system" where
  "initial_system = \<lparr>pool = initial_pool, calls = (\<lambda>_. None), act = (\<lambda>_. Free), starts = (\<lambda>_. 0)\<rparr>"

text \<open>The thread that executes: worker \<open>w\<close> is the thread \<open>wid w\<close>, a caller its batch's owner.\<close>

definition thread_name :: "(nat \<Rightarrow> nat) \<Rightarrow> nat \<Rightarrow> executor \<Rightarrow> nat" where
  "thread_name wid owner e = (case e of Worker w \<Rightarrow> wid w | Caller _ \<Rightarrow> owner)"

definition owner_at :: "'v vis_py_pool \<Rightarrow> nat \<Rightarrow> nat" where
  "owner_at P b = (case batch_at P b of None \<Rightarrow> 0 | Some B \<Rightarrow> b_owner B)"

definition set_phase :: "nat \<Rightarrow> phase \<Rightarrow> 'v pool_system \<Rightarrow> 'v pool_system" where
  "set_phase b ph S = S\<lparr>calls := (calls S)(b := map_option (\<lambda>c. c\<lparr>par_phase := ph\<rparr>) (calls S b))\<rparr>"

text \<open>A task is over: its executor is free again, and a caller goes on with the next task.\<close>

definition task_over :: "executor \<Rightarrow> task_id \<Rightarrow> 'v pool_system \<Rightarrow> 'v pool_system" where
  "task_over e t S =
     (case e of
        Worker w \<Rightarrow> S\<lparr>act := (act S)(e := Free)\<rparr>
      | Caller b \<Rightarrow> set_phase b (Loop (Suc (snd t))) (S\<lparr>act := (act S)(e := Free)\<rparr>))"

inductive pool_step :: "(nat \<Rightarrow> nat) \<Rightarrow> 'v pool_system \<Rightarrow> 'v pool_system \<Rightarrow> bool" for wid where
  register: "batch_at (pool S) b = None \<Longrightarrow> 2 \<le> n \<Longrightarrow>
    pool_step wid S
      (S\<lparr>pool := par_register b n session scan owner (pool S),
         calls := (calls S)(b \<mapsto> \<lparr>par_phase = Loop 0, par_submitted = 0, par_limit = par_quota_of p,
                                par_saturated = False\<rparr>),
         starts := (\<lambda>t. if fst t = b then 0 else starts S t)\<rparr>)"
| start: "\<not> started (pool S) \<Longrightarrow> vis_py_pool_start ok now p (pool S) l = (r, P, l') \<Longrightarrow>
    pool_step wid S (S\<lparr>pool := P\<rparr>)"
| submit: "calls S b = Some c \<Longrightarrow> par_phase c = Loop i \<Longrightarrow> batch_at (pool S) b = Some B \<Longrightarrow>
    i < length (b_task B) \<Longrightarrow> \<not> b_stopped B \<Longrightarrow>
    par_submit (par_limit c) b (par_submitted c) (pool S) = (s, P) \<Longrightarrow>
    pool_step wid S
      (S\<lparr>pool := P, calls := (calls S)(b \<mapsto> c\<lparr>par_phase := Wait i, par_submitted := s\<rparr>)\<rparr>)"
| submit_stopped: "calls S b = Some c \<Longrightarrow> par_phase c = Loop i \<Longrightarrow> batch_at (pool S) b = Some B \<Longrightarrow>
    i < length (b_task B) \<Longrightarrow> b_stopped B \<Longrightarrow> pool_step wid S (set_phase b Settle S)"
| loop_end: "calls S b = Some c \<Longrightarrow> par_phase c = Loop i \<Longrightarrow> batch_at (pool S) b = Some B \<Longrightarrow>
    length (b_task B) \<le> i \<Longrightarrow> pool_step wid S (set_phase b Settle S)"
| claim_now: "calls S b = Some c \<Longrightarrow> par_phase c = Wait i \<Longrightarrow>
    par_claims_now (par_saturated c) b i (pool S) = Some (True, P) \<Longrightarrow>
    pool_step wid S
      (set_phase b (Exec i) (S\<lparr>pool := P, act := (act S)(Caller b := Taken (b, i))\<rparr>))"
| time_out: "calls S b = Some c \<Longrightarrow> par_phase c = Wait i \<Longrightarrow>
    par_take_back b i (pool S) = Some (True, P) \<Longrightarrow>
    pool_step wid S
      (S\<lparr>pool := P, act := (act S)(Caller b := Taken (b, i)),
         calls := (calls S)(b \<mapsto> c\<lparr>par_phase := Exec i, par_saturated := True\<rparr>)\<rparr>)"
| wait_over: "calls S b = Some c \<Longrightarrow> par_phase c = Wait i \<Longrightarrow> par_wait_over b i (pool S) \<Longrightarrow>
    pool_step wid S (set_phase b (Loop (Suc i)) S)"
| run_begin: "act S e = Taken t \<Longrightarrow>
    task_begin (thread_name wid (owner_at (pool S) (fst t)) e) t (pool S) = (False, P) \<Longrightarrow>
    pool_step wid S
      (S\<lparr>pool := P, act := (act S)(e := Running t), starts := (starts S)(t := Suc (starts S t))\<rparr>)"
| run_stopped: "act S e = Taken t \<Longrightarrow> task_begin me t (pool S) = (True, P) \<Longrightarrow>
    pool_step wid S (S\<lparr>pool := P, act := (act S)(e := Skipped t)\<rparr>)"
| finish_run: "act S e = Running t \<Longrightarrow> (v = None \<longleftrightarrow> x \<noteq> None) \<Longrightarrow>
    pool_step wid S (task_over e t (S\<lparr>pool := task_end t v x (vis_py_stops_batch x) (pool S)\<rparr>))"
| finish_skip: "act S e = Skipped t \<Longrightarrow>
    pool_step wid S (task_over e t (S\<lparr>pool := task_end t None None True (pool S)\<rparr>))"
| worker_waits: "act S (Worker w) = Free \<Longrightarrow> w < running (pool S) \<Longrightarrow> worker_claim (pool S) = None \<Longrightarrow>
    pool_step wid S (S\<lparr>pool := worker_wait (pool S), act := (act S)(Worker w := Waiting)\<rparr>)"
| worker_wakes: "act S (Worker w) = Waiting \<Longrightarrow>
    pool_step wid S (S\<lparr>pool := worker_wake (pool S), act := (act S)(Worker w := Free)\<rparr>)"
| worker_claims: "act S (Worker w) = Free \<Longrightarrow> w < running (pool S) \<Longrightarrow>
    worker_claim (pool S) = Some (t, P) \<Longrightarrow>
    pool_step wid S (S\<lparr>pool := P, act := (act S)(Worker w := Taken t)\<rparr>)"
| settle_now: "calls S b = Some c \<Longrightarrow> par_phase c = Settle \<Longrightarrow> par_settled b (pool S) \<Longrightarrow>
    pool_step wid S (set_phase b Unlinking S)"
| settle_drain: "calls S b = Some c \<Longrightarrow> par_phase c = Settle \<Longrightarrow>
    par_drain b (par_submitted c) (pool S) = Some P \<Longrightarrow>
    pool_step wid S (set_phase b Drain (S\<lparr>pool := P\<rparr>))"
| drained: "calls S b = Some c \<Longrightarrow> par_phase c = Drain \<Longrightarrow> par_settled b (pool S) \<Longrightarrow>
    pool_step wid S (set_phase b Unlinking S)"
| unlink: "calls S b = Some c \<Longrightarrow> par_phase c = Unlinking \<Longrightarrow> par_unlink b (pool S) = (k, P) \<Longrightarrow>
    pool_step wid S (set_phase b (Unlinked k) (S\<lparr>pool := P\<rparr>))"
| answer: "calls S b = Some c \<Longrightarrow> par_phase c = Unlinked k \<Longrightarrow>
    pool_step wid S (S\<lparr>pool := snd (vis_py_batch_free b H (pool S)), calls := (calls S)(b := None)\<rparr>)"
| interrupt: "vis_py_interrupt_batches owner cap (pool S) = (named, P) \<Longrightarrow>
    pool_step wid S (S\<lparr>pool := P\<rparr>)"

inductive reachable :: "(nat \<Rightarrow> nat) \<Rightarrow> 'v pool_system \<Rightarrow> bool" for wid where
  init: "reachable wid initial_system"
| step: "reachable wid S \<Longrightarrow> pool_step wid S S' \<Longrightarrow> reachable wid S'"

section \<open>The invariant\<close>

text \<open>
  What holds of one batch.  \<open>qd i\<close>: task \<open>i\<close> is queued; \<open>hl i\<close>: an executor has it; \<open>rn i\<close>: the executors
  running it; \<open>nx i\<close>: its link; \<open>st i\<close>: how often its thunk was called; \<open>ca\<close>: what the caller does;
  \<open>wt\<close>: the batch is on the waiting list.
\<close>

definition phase_inv ::
  "nat \<Rightarrow> (nat \<Rightarrow> bool) \<Rightarrow> activity \<Rightarrow> 'v vis_py_batch \<Rightarrow> par_call \<Rightarrow> bool" where
  "phase_inv b qd ca B c \<longleftrightarrow>
     (case par_phase c of
        Loop i \<Rightarrow> i \<le> length (b_task B) \<and> ca = Free
          \<and> (\<not> b_stopped B \<longrightarrow> (\<forall>j < i. t_finished (b_task B ! j)))
      | Wait i \<Rightarrow> i < length (b_task B) \<and> ca = Free
          \<and> (\<not> b_stopped B \<longrightarrow> i < par_submitted c \<and> (\<forall>j < i. t_finished (b_task B ! j)))
      | Exec i \<Rightarrow> i < length (b_task B) \<and> task_of ca = Some (b, i)
          \<and> (\<not> b_stopped B \<longrightarrow> (\<forall>j < i. t_finished (b_task B ! j)))
      | Settle \<Rightarrow> ca = Free \<and> (\<not> b_stopped B \<longrightarrow> (\<forall>x \<in> set (b_task B). t_finished x))
      | Drain \<Rightarrow> ca = Free \<and> (\<not> b_stopped B \<longrightarrow> (\<forall>x \<in> set (b_task B). t_finished x)) \<and> (\<forall>i. \<not> qd i)
      | Unlinking \<Rightarrow> ca = Free \<and> (\<not> b_stopped B \<longrightarrow> (\<forall>x \<in> set (b_task B). t_finished x))
          \<and> b_outstanding B = 0
      | Unlinked k \<Rightarrow> ca = Free \<and> (\<not> b_stopped B \<longrightarrow> (\<forall>x \<in> set (b_task B). t_finished x))
          \<and> b_outstanding B = 0 \<and> k = b_interrupted B)"

definition unlinked :: "par_call \<Rightarrow> bool" where
  "unlinked c \<longleftrightarrow> (\<exists>k. par_phase c = Unlinked k)"

definition has_outcome :: "'v vis_py_task \<Rightarrow> bool" where
  "has_outcome x \<longleftrightarrow> t_value x \<noteq> None \<or> t_error x \<noteq> None"

definition counts_inv :: "'v vis_py_batch \<Rightarrow> par_call \<Rightarrow> bool" where
  "counts_inv B c \<longleftrightarrow>
     b_done B = length [x \<leftarrow> b_task B. t_finished x]
     \<and> b_outstanding B + b_done B = par_submitted c \<and> par_submitted c \<le> length (b_task B)
     \<and> 1 \<le> par_limit c \<and> int (b_outstanding B) \<le> par_limit c
     \<and> (b_stopped B \<longrightarrow> b_interrupted B \<or> (\<exists>x \<in> set (b_task B). vis_py_stops_batch (t_error x)))"

definition task_inv ::
  "(nat \<Rightarrow> nat) \<Rightarrow> bool \<Rightarrow> bool \<Rightarrow> executor set \<Rightarrow> task_id option \<Rightarrow> nat \<Rightarrow> bool \<Rightarrow> 'v vis_py_batch \<Rightarrow>
     'v vis_py_task \<Rightarrow> bool" where
  "task_inv wid qd hl rn nx st sub B x \<longleftrightarrow>
     (t_finished x \<longrightarrow> sub) \<and> (sub \<and> \<not> t_finished x \<longleftrightarrow> qd \<or> hl) \<and> (\<not> sub \<longrightarrow> nx = None)
     \<and> (\<forall>e \<in> rn. t_runner x = thread_name wid (b_owner B) e) \<and> (rn = {} \<longrightarrow> t_runner x = 0)
     \<and> st = (if rn \<noteq> {} \<or> has_outcome x then 1 else 0)
     \<and> (has_outcome x \<longrightarrow> t_finished x \<and> (t_value x = None \<longleftrightarrow> t_error x \<noteq> None))
     \<and> (t_finished x \<and> \<not> has_outcome x \<longrightarrow> b_stopped B)"

definition batch_inv ::
  "(nat \<Rightarrow> nat) \<Rightarrow> nat \<Rightarrow> (nat \<Rightarrow> bool) \<Rightarrow> (nat \<Rightarrow> bool) \<Rightarrow> (nat \<Rightarrow> executor set) \<Rightarrow> (nat \<Rightarrow> task_id option) \<Rightarrow>
     (nat \<Rightarrow> nat) \<Rightarrow> activity \<Rightarrow> bool \<Rightarrow> 'v vis_py_batch \<Rightarrow> par_call \<Rightarrow> bool" where
  "batch_inv wid b qd hl rn nx st ca wt B c \<longleftrightarrow>
     counts_inv B c \<and> phase_inv b qd ca B c \<and> (wt \<longleftrightarrow> \<not> unlinked c)
     \<and> (\<forall>i < length (b_task B).
          task_inv wid (qd i) (hl i) (rn i) (nx i) (st i) (i < par_submitted c) B (b_task B ! i))"

definition live :: "'v vis_py_pool \<Rightarrow> task_id \<Rightarrow> bool" where
  "live P t \<longleftrightarrow> (\<exists>B. batch_at P (fst t) = Some B \<and> snd t < length (b_task B))"

definition holds :: "(executor \<Rightarrow> activity) \<Rightarrow> task_id \<Rightarrow> executor set" where
  "holds A t = {e. task_of (A e) = Some t}"

definition runs_task :: "(executor \<Rightarrow> activity) \<Rightarrow> task_id \<Rightarrow> executor set" where
  "runs_task A t = {e. A e = Running t}"

definition batch_ok ::
  "(nat \<Rightarrow> nat) \<Rightarrow> 'v pool_system \<Rightarrow> task_id list \<Rightarrow> nat \<Rightarrow> 'v vis_py_batch \<Rightarrow> par_call \<Rightarrow> bool" where
  "batch_ok wid S xs b B c \<longleftrightarrow>
     batch_inv wid b (\<lambda>i. (b, i) \<in> set xs) (\<lambda>i. holds (act S) (b, i) \<noteq> {}) (\<lambda>i. runs_task (act S) (b, i))
       (\<lambda>i. q_next (tasks (pool S)) (b, i)) (\<lambda>i. starts S (b, i)) (act S (Caller b))
       (b \<in> set (waiting (pool S))) B c"

definition system_inv :: "(nat \<Rightarrow> nat) \<Rightarrow> 'v pool_system \<Rightarrow> task_id list \<Rightarrow> bool" where
  "system_inv wid S xs \<longleftrightarrow>
     represents (tasks (pool S)) xs
     \<and> (\<forall>t \<in> set xs. live (pool S) t \<and> holds (act S) t = {})
     \<and> (\<forall>e t. e \<in> holds (act S) t \<longrightarrow> live (pool S) t \<and> holds (act S) t = {e})
     \<and> (\<forall>b. calls S b = None \<longleftrightarrow> batch_at (pool S) b = None)
     \<and> (\<forall>b. calls S b = None \<longrightarrow> act S (Caller b) = Free)
     \<and> distinct (waiting (pool S)) \<and> (\<forall>b \<in> set (waiting (pool S)). calls S b \<noteq> None)
     \<and> (\<forall>b B c. batch_at (pool S) b = Some B \<longrightarrow> calls S b = Some c \<longrightarrow> batch_ok wid S xs b B c)"

section \<open>Preservation\<close>

lemma holds_update [simp]:
  "holds (A(e := a)) t = (if task_of a = Some t then insert e (holds A t) else holds A t - {e})"
  by (auto simp: holds_def)

lemma runs_update [simp]:
  "runs_task (A(e := a)) t = (if a = Running t then insert e (runs_task A t) else runs_task A t - {e})"
  by (auto simp: runs_task_def)

lemma runs_holds: "runs_task A t \<subseteq> holds A t"
  by (auto simp: runs_task_def holds_def)

lemma holds_act: "e \<in> holds A t \<longleftrightarrow> task_of (A e) = Some t"
  by (simp add: holds_def)

lemma task_inv_next:
  assumes "task_inv wid qd hl rn nx st sub B x" "\<not> qd \<Longrightarrow> nx = None \<Longrightarrow> nx' = None"
  shows "task_inv wid qd hl rn nx' st sub B x"
proof (cases sub)
  case True
  then have "task_inv wid qd hl rn nx' st sub B x = task_inv wid qd hl rn nx st sub B x"
    by (simp only: task_inv_def simp_thms)
  with assms(1) show ?thesis by (simp only:)
next
  case False
  with assms(1) have "\<not> qd" "nx = None" unfolding task_inv_def by blast+
  with assms show ?thesis by simp
qed

lemma batch_inv_next:
  assumes "batch_inv wid b qd hl rn nx st ca wt B c" "\<forall>i. \<not> qd i \<longrightarrow> nx i = None \<longrightarrow> nx' i = None"
  shows "batch_inv wid b qd hl rn nx' st ca wt B c"
proof -
  have "task_inv wid (qd i) (hl i) (rn i) (nx' i) (st i) (i < par_submitted c) B (b_task B ! i)"
    if "i < length (b_task B)" for i
  proof (rule task_inv_next)
    show "task_inv wid (qd i) (hl i) (rn i) (nx i) (st i) (i < par_submitted c) B (b_task B ! i)"
      using assms(1) that by (simp add: batch_inv_def)
  qed (use assms(2) in blast)
  then show ?thesis using assms(1) by (simp add: batch_inv_def)
qed

lemma system_invD:
  assumes "system_inv wid S xs"
  shows "represents (tasks (pool S)) xs"
    and "t \<in> set xs \<Longrightarrow> live (pool S) t \<and> holds (act S) t = {}"
    and "e \<in> holds (act S) t \<Longrightarrow> live (pool S) t \<and> holds (act S) t = {e}"
    and "calls S b = None \<longleftrightarrow> batch_at (pool S) b = None"
    and "calls S b = None \<Longrightarrow> act S (Caller b) = Free"
    and "distinct (waiting (pool S))"
    and "b \<in> set (waiting (pool S)) \<Longrightarrow> calls S b \<noteq> None"
    and "batch_at (pool S) b = Some B \<Longrightarrow> calls S b = Some c \<Longrightarrow> batch_ok wid S xs b B c"
  using assms unfolding system_inv_def by blast+

text \<open>A step that changes one batch, its tasks and its call leaves the other batches as they were.\<close>

lemma system_inv_update:
  assumes inv: "system_inv wid S xs"
    and rep: "represents (tasks (pool S')) xs'"
    and others: "\<And>b'. b' \<noteq> b \<Longrightarrow> batch_at (pool S') b' = batch_at (pool S) b' \<and> calls S' b' = calls S b'
      \<and> act S' (Caller b') = act S (Caller b')
      \<and> (b' \<in> set (waiting (pool S')) \<longleftrightarrow> b' \<in> set (waiting (pool S)))"
    and tasks: "\<And>t. fst t \<noteq> b \<Longrightarrow> (t \<in> set xs' \<longleftrightarrow> t \<in> set xs) \<and> holds (act S') t = holds (act S) t
      \<and> runs_task (act S') t = runs_task (act S) t \<and> starts S' t = starts S t
      \<and> (t \<notin> set xs \<longrightarrow> q_next (tasks (pool S)) t = None \<longrightarrow> q_next (tasks (pool S')) t = None)"
    and at: "batch_at (pool S') b = Some B'" "calls S' b = Some c'" "batch_ok wid S' xs' b B' c'"
    and queued: "\<And>i. (b, i) \<in> set xs' \<Longrightarrow> i < length (b_task B') \<and> holds (act S') (b, i) = {}"
    and held: "\<And>i e. e \<in> holds (act S') (b, i) \<Longrightarrow> i < length (b_task B') \<and> holds (act S') (b, i) = {e}"
    and waiting: "distinct (waiting (pool S'))"
  shows "system_inv wid S' xs'"
proof -
  have live: "live (pool S') t = (if fst t = b then snd t < length (b_task B') else live (pool S) t)" for t
    using at(1) others [of "fst t"] by (simp add: live_def)
  have ok: "batch_ok wid S' xs' b' B c" if "batch_at (pool S') b' = Some B" "calls S' b' = Some c" for b' B c
  proof (cases "b' = b")
    case True
    with that at show ?thesis by simp
  next
    case False
    with that others inv have "batch_ok wid S xs b' B c" by (auto simp: system_inv_def)
    then have "batch_inv wid b' (\<lambda>i. (b', i) \<in> set xs') (\<lambda>i. holds (act S') (b', i) \<noteq> {})
        (\<lambda>i. runs_task (act S') (b', i)) (\<lambda>i. q_next (tasks (pool S)) (b', i)) (\<lambda>i. starts S' (b', i))
        (act S' (Caller b')) (b' \<in> set (waiting (pool S'))) B c"
      using False others [OF False] tasks [of "(b', _)"] by (simp add: batch_ok_def)
    then show ?thesis
      unfolding batch_ok_def
      by (rule batch_inv_next) (use False tasks [of "(b', _)"] in auto)
  qed
  have "t \<in> set xs' \<Longrightarrow> live (pool S') t \<and> holds (act S') t = {}" for t
    using queued [of "snd t"] tasks [of t] inv live [of t]
    by (cases t) (auto simp: system_inv_def split: if_splits)
  moreover have "e \<in> holds (act S') t \<Longrightarrow> live (pool S') t \<and> holds (act S') t = {e}" for e t
    using held [of e "snd t"] tasks [of t] inv live [of t]
    by (cases "fst t = b"; cases t) (auto simp: system_inv_def)
  moreover have "calls S' b' = None \<longleftrightarrow> batch_at (pool S') b' = None" for b'
    using at others [of b'] inv by (cases "b' = b") (auto simp: system_inv_def)
  moreover have "calls S' b' = None \<Longrightarrow> act S' (Caller b') = Free" for b'
    using at others [of b'] inv by (cases "b' = b") (auto simp: system_inv_def)
  moreover have "b' \<in> set (waiting (pool S')) \<Longrightarrow> calls S' b' \<noteq> None" for b'
    using at others [of b'] system_invD(7) [OF inv, of b'] by (cases "b' = b") auto
  ultimately show ?thesis
    unfolding system_inv_def using rep waiting ok by blast
qed

end
