(* ===== verification/PoolSafety.thy ===== *)
theory PoolSafety
  imports PoolInvariants
begin

text \<open>
  Every step of the pool keeps the invariant, and what follows from it.
\<close>

section \<open>Steps of one batch\<close>

lemma queue_of: "system_inv wid S xs \<Longrightarrow> (b, i) \<in> set xs \<Longrightarrow> batch_at (pool S) b = Some B \<Longrightarrow>
    i < length (b_task B) \<and> holds (act S) (b, i) = {}"
  using system_invD(2) [of wid S xs "(b, i)"] by (auto simp: live_def)

lemma held_of: "system_inv wid S xs \<Longrightarrow> e \<in> holds (act S) (b, i) \<Longrightarrow> batch_at (pool S) b = Some B \<Longrightarrow>
    i < length (b_task B) \<and> holds (act S) (b, i) = {e}"
  using system_invD(3) [of wid S xs e "(b, i)"] by (auto simp: live_def)

lemma set_phase_simps [simp]:
  "pool (set_phase b ph S) = pool S" "act (set_phase b ph S) = act S" "starts (set_phase b ph S) = starts S"
  "calls (set_phase b ph S) = (calls S)(b := map_option (\<lambda>c. c\<lparr>par_phase := ph\<rparr>) (calls S b))"
  by (simp_all add: set_phase_def)

text \<open>A change of phase alone.\<close>

lemma batch_inv_phase:
  assumes "batch_inv wid b qd hl rn nx st ca wt B c" "phase_inv b qd ca B (c\<lparr>par_phase := ph\<rparr>)"
    "wt \<longleftrightarrow> \<not> unlinked (c\<lparr>par_phase := ph\<rparr>)"
  shows "batch_inv wid b qd hl rn nx st ca wt B (c\<lparr>par_phase := ph\<rparr>)"
  using assms by (simp add: batch_inv_def counts_inv_def)

lemma set_phase_inv:
  assumes inv: "system_inv wid S xs" and c: "calls S b = Some c" "batch_at (pool S) b = Some B"
    and ph: "phase_inv b (\<lambda>i. (b, i) \<in> set xs) (act S (Caller b)) B (c\<lparr>par_phase := ph\<rparr>)"
    "unlinked (c\<lparr>par_phase := ph\<rparr>) = unlinked c"
  shows "system_inv wid (set_phase b ph S) xs"
proof (rule system_inv_update [OF inv])
  have "batch_ok wid S xs b B c" using system_invD(8) [OF inv c(2,1)] .
  then show "batch_ok wid (set_phase b ph S) xs b B (c\<lparr>par_phase := ph\<rparr>)"
    using ph unfolding batch_ok_def set_phase_simps
    by (intro batch_inv_phase) (auto simp: batch_inv_def)
qed (use c system_invD(1,6) [OF inv] queue_of [OF inv _ c(2)] held_of [OF inv _ c(2)] in auto)

text \<open>What the invariant says of the batch of a call.\<close>

lemma call_batch:
  assumes "system_inv wid S xs" "calls S b = Some c"
  shows "\<exists>B. batch_at (pool S) b = Some B \<and> batch_ok wid S xs b B c"
proof -
  obtain B where "batch_at (pool S) b = Some B"
    using system_invD(4) [OF assms(1), of b] assms(2) by (cases "batch_at (pool S) b") auto
  then show ?thesis using system_invD(8) [OF assms(1) _ assms(2)] by blast
qed

lemma phase_of: "batch_ok wid S xs b B c \<Longrightarrow> phase_inv b (\<lambda>i. (b, i) \<in> set xs) (act S (Caller b)) B c"
  by (simp add: batch_ok_def batch_inv_def)

lemma counts_of: "batch_ok wid S xs b B c \<Longrightarrow> counts_inv B c"
  by (simp add: batch_ok_def batch_inv_def)

lemma task_of_batch:
  "batch_ok wid S xs b B c \<Longrightarrow> i < length (b_task B) \<Longrightarrow>
     task_inv wid ((b, i) \<in> set xs) (holds (act S) (b, i) \<noteq> {}) (runs_task (act S) (b, i))
       (q_next (tasks (pool S)) (b, i)) (starts S (b, i)) (i < par_submitted c) B (b_task B ! i)"
  by (simp add: batch_ok_def batch_inv_def)

lemma all_nth: "(\<forall>j < length xs. P (xs ! j)) \<longleftrightarrow> (\<forall>x \<in> set xs. P x)"
  by (auto simp: all_set_conv_all_nth)

lemma step_submit_stopped:
  assumes "system_inv wid S xs" "calls S b = Some c" "par_phase c = Loop i" "batch_at (pool S) b = Some B"
    "b_stopped B"
  shows "system_inv wid (set_phase b Settle S) xs"
  using assms phase_of [OF system_invD(8) [OF assms(1,4,2)]]
  by (intro set_phase_inv) (auto simp: phase_inv_def unlinked_def)

lemma step_loop_end:
  assumes "system_inv wid S xs" "calls S b = Some c" "par_phase c = Loop i" "batch_at (pool S) b = Some B"
    "length (b_task B) \<le> i"
  shows "system_inv wid (set_phase b Settle S) xs"
  using assms phase_of [OF system_invD(8) [OF assms(1,4,2)]]
  by (intro set_phase_inv) (auto simp: phase_inv_def unlinked_def all_set_conv_all_nth)

lemma step_wait_over:
  assumes "system_inv wid S xs" "calls S b = Some c" "par_phase c = Wait i" "par_wait_over b i (pool S)"
  shows "system_inv wid (set_phase b (Loop (Suc i)) S) xs"
proof -
  obtain B where B: "batch_at (pool S) b = Some B" "batch_ok wid S xs b B c"
    using call_batch [OF assms(1,2)] by blast
  with assms phase_of [OF B(2)] show ?thesis
    by (intro set_phase_inv) (auto simp: phase_inv_def unlinked_def par_wait_over_def less_Suc_eq)
qed

lemma step_settled:
  assumes "system_inv wid S xs" "calls S b = Some c" "par_phase c = Settle \<or> par_phase c = Drain"
    "par_settled b (pool S)"
  shows "system_inv wid (set_phase b Unlinking S) xs"
proof -
  obtain B where B: "batch_at (pool S) b = Some B" "batch_ok wid S xs b B c"
    using call_batch [OF assms(1,2)] by blast
  with assms phase_of [OF B(2)] show ?thesis
    by (intro set_phase_inv) (auto simp: phase_inv_def unlinked_def par_settled_def)
qed

section \<open>Steps of one task\<close>

lemma task_inv_batch:
  assumes "task_inv wid qd hl rn nx st sub B x" "b_owner B' = b_owner B" "b_stopped B \<longrightarrow> b_stopped B'"
  shows "task_inv wid qd hl rn nx st sub B' x"
  using assms by (simp add: task_inv_def)

lemma batch_ok_update:
  assumes ok: "batch_ok wid S xs b B c"
    and B': "b_task B' = (b_task B)[i := x']" "i < length (b_task B)" "b_owner B' = b_owner B"
      "b_stopped B \<longrightarrow> b_stopped B'"
    and batch: "counts_inv B' c'" "phase_inv b (\<lambda>i. (b, i) \<in> set xs') (act S' (Caller b)) B' c'"
      "b \<in> set (waiting (pool S')) \<longleftrightarrow> \<not> unlinked c'"
    and this_task: "task_inv wid ((b, i) \<in> set xs') (holds (act S') (b, i) \<noteq> {}) (runs_task (act S') (b, i))
      (q_next (tasks (pool S')) (b, i)) (starts S' (b, i)) (i < par_submitted c') B' x'"
    and other_tasks: "\<And>j. j \<noteq> i \<Longrightarrow> ((b, j) \<in> set xs' \<longleftrightarrow> (b, j) \<in> set xs)
      \<and> holds (act S') (b, j) = holds (act S) (b, j) \<and> runs_task (act S') (b, j) = runs_task (act S) (b, j)
      \<and> starts S' (b, j) = starts S (b, j) \<and> (j < par_submitted c' \<longleftrightarrow> j < par_submitted c)
      \<and> ((b, j) \<notin> set xs \<longrightarrow> q_next (tasks (pool S)) (b, j) = None \<longrightarrow> q_next (tasks (pool S')) (b, j) = None)"
  shows "batch_ok wid S' xs' b B' c'"
proof -
  have "task_inv wid ((b, j) \<in> set xs') (holds (act S') (b, j) \<noteq> {}) (runs_task (act S') (b, j))
      (q_next (tasks (pool S')) (b, j)) (starts S' (b, j)) (j < par_submitted c') B' (b_task B' ! j)"
    if j: "j < length (b_task B')" for j
  proof (cases "j = i")
    case True
    with this_task B' show ?thesis by simp
  next
    case False
    from j B'(1) have "j < length (b_task B)" by simp
    from task_of_batch [OF ok this] have "task_inv wid ((b, j) \<in> set xs') (holds (act S') (b, j) \<noteq> {})
        (runs_task (act S') (b, j)) (q_next (tasks (pool S)) (b, j)) (starts S' (b, j))
        (j < par_submitted c') B (b_task B ! j)"
      using other_tasks [OF False] by simp
    from task_inv_batch [OF this B'(3,4)] have "task_inv wid ((b, j) \<in> set xs') (holds (act S') (b, j) \<noteq> {})
        (runs_task (act S') (b, j)) (q_next (tasks (pool S)) (b, j)) (starts S' (b, j))
        (j < par_submitted c') B' (b_task B' ! j)"
      using B' False by simp
    then show ?thesis by (rule task_inv_next) (use other_tasks [OF False] in auto)
  qed
  with batch show ?thesis by (simp add: batch_ok_def batch_inv_def)
qed

text \<open>The two invariants on counters and phase see the tasks only through their flags.\<close>

lemma phase_inv_flags:
  assumes "phase_inv b qd ca B c" "map t_finished (b_task B') = map t_finished (b_task B)"
    "b_stopped B' = b_stopped B" "b_outstanding B' = b_outstanding B" "b_interrupted B' = b_interrupted B"
    "\<And>i. qd' i \<Longrightarrow> qd i" "ca' = Free \<longleftrightarrow> ca = Free" "task_of ca' = task_of ca"
  shows "phase_inv b qd' ca' B' c"
proof -
  have len: "length (b_task B') = length (b_task B)" using assms(2) map_eq_imp_length_eq by blast
  have nth: "t_finished (b_task B' ! j) = t_finished (b_task B ! j)" if "j < length (b_task B)" for j
    using assms(2) that len by (metis nth_map)
  have all: "(\<forall>x \<in> set (b_task B'). t_finished x) \<longleftrightarrow> (\<forall>x \<in> set (b_task B). t_finished x)"
    using nth len by (auto simp: all_set_conv_all_nth)
  show ?thesis
    using assms(1,3-8) nth len all
    by (auto simp: phase_inv_def split: phase.splits)
qed

lemma filter_flags:
  "map f xs = map f ys \<Longrightarrow> length [x \<leftarrow> xs. f x] = length [x \<leftarrow> ys. f x]"
  by (metis length_filter_map filter_map length_map comp_id id_comp)

lemma flags_update [simp]:
  "i < length xs \<Longrightarrow> t_finished x' = t_finished (xs ! i) \<Longrightarrow> map t_finished (xs[i := x']) = map t_finished xs"
  by (simp add: map_update) (metis list_update_id nth_map)

lemma runs_act: "e \<in> runs_task A t \<longleftrightarrow> A e = Running t"
  by (simp add: runs_task_def)

lemmas act_mem = holds_act runs_act

lemma counts_inv_flags:
  fixes B B' :: "'v vis_py_batch"
  assumes "counts_inv B c" "map t_finished (b_task B') = map t_finished (b_task B)"
    "map t_error (b_task B') = map t_error (b_task B)" "b_stopped B' = b_stopped B"
    "b_outstanding B' = b_outstanding B" "b_interrupted B' = b_interrupted B" "b_done B' = b_done B"
  shows "counts_inv B' c"
proof -
  have "length (b_task B') = length (b_task B)" using assms(2) map_eq_imp_length_eq by blast
  moreover have "(\<exists>x \<in> set ts. vis_py_stops_batch (t_error x)) \<longleftrightarrow> (\<exists>x \<in> set (map t_error ts). vis_py_stops_batch x)"
    for ts :: "'v vis_py_task list"
    by simp
  ultimately show ?thesis
    using assms filter_flags [OF assms(2)] unfolding counts_inv_def by metis
qed

lemma update_task_simps [simp]:
  "b_task (update_task i f B) = (b_task B)[i := f (b_task B ! i)]" "b_done (update_task i f B) = b_done B"
  "b_outstanding (update_task i f B) = b_outstanding B" "b_stopped (update_task i f B) = b_stopped B"
  "b_interrupted (update_task i f B) = b_interrupted B" "b_owner (update_task i f B) = b_owner B"
  by (simp_all add: update_task_def)

lemma errors_update [simp]:
  "i < length xs \<Longrightarrow> t_error x' = t_error (xs ! i) \<Longrightarrow> map t_error (xs[i := x']) = map t_error xs"
  by (simp add: map_update) (metis list_update_id nth_map)

lemma length_filter_set:
  "i < length xs \<Longrightarrow> \<not> P (xs ! i) \<Longrightarrow> P y \<Longrightarrow> length (filter P (xs[i := y])) = Suc (length (filter P xs))"
proof (induction xs arbitrary: i)
  case (Cons x xs)
  then show ?case by (cases i) auto
qed simp

lemma runs_if_held:
  assumes "holds A t = {e}"
  shows "runs_task A t = (if A e = Running t then {e} else {})"
proof -
  have "runs_task A t \<subseteq> {e}" using runs_holds [of A t] assms by simp
  then show ?thesis by (auto simp: runs_task_def)
qed

text \<open>A thunk starts: its executor held it, it had not run, its batch is not stopped.\<close>

lemma task_held:
  assumes inv: "system_inv wid S xs" and a: "task_of (act S e) = Some (b, i)"
  shows "\<exists>B c. batch_at (pool S) b = Some B \<and> calls S b = Some c \<and> batch_ok wid S xs b B c
    \<and> i < length (b_task B) \<and> holds (act S) (b, i) = {e} \<and> (b, i) \<notin> set xs
    \<and> i < par_submitted c \<and> \<not> t_finished (b_task B ! i) \<and> \<not> has_outcome (b_task B ! i)
    \<and> (b, i) \<notin> set xs"
proof -
  have e: "e \<in> holds (act S) (b, i)" using a by (simp add: holds_def)
  then obtain B where B: "batch_at (pool S) b = Some B" "i < length (b_task B)"
    using system_invD(3) [OF inv e] by (auto simp: live_def)
  then obtain c where c: "calls S b = Some c"
    using system_invD(4) [OF inv, of b] by (cases "calls S b") auto
  note ok = system_invD(8) [OF inv B(1) c]
  have "holds (act S) (b, i) = {e}" using system_invD(3) [OF inv e] by simp
  moreover from this have "(b, i) \<notin> set xs" using system_invD(2) [OF inv, of "(b, i)"] by auto
  ultimately show ?thesis using task_of_batch [OF ok B(2)] B c ok by (auto simp: task_inv_def)
qed

text \<open>One executor does something to one task.\<close>

lemma task_step_inv:
  assumes inv: "system_inv wid S xs"
    and B: "batch_at (pool S) b = Some B" "calls S b = Some c" "i < length (b_task B)"
    and S': "represents (tasks (pool S')) xs'" "act S' = (act S)(e := a')"
      "batch_at (pool S') = (batch_at (pool S))(b \<mapsto> B')" "calls S' = (calls S)(b \<mapsto> c')"
      "waiting (pool S') = waiting (pool S)"
      "\<And>t. t \<noteq> (b, i) \<Longrightarrow> starts S' t = starts S t"
      "\<And>t. t \<noteq> (b, i) \<Longrightarrow> t \<in> set xs' \<longleftrightarrow> t \<in> set xs"
      "\<And>t. t \<noteq> (b, i) \<Longrightarrow> t \<notin> set xs \<Longrightarrow> q_next (tasks (pool S)) t = None \<Longrightarrow> q_next (tasks (pool S')) t = None"
    and e: "task_of (act S e) = None \<or> task_of (act S e) = Some (b, i)"
      "task_of a' = None \<or> task_of a' = Some (b, i)" "\<And>k. e = Caller k \<Longrightarrow> k = b"
      "holds (act S) (b, i) \<subseteq> {e}" "(b, i) \<in> set xs' \<Longrightarrow> task_of a' = None"
    and B': "b_task B' = (b_task B)[i := x']" "b_owner B' = b_owner B" "b_stopped B \<longrightarrow> b_stopped B'"
      "counts_inv B' c'" "phase_inv b (\<lambda>i. (b, i) \<in> set xs') (((act S)(e := a')) (Caller b)) B' c'"
      "unlinked c' = unlinked c" "\<And>j. j \<noteq> i \<Longrightarrow> j < par_submitted c' \<longleftrightarrow> j < par_submitted c"
    and task: "task_inv wid ((b, i) \<in> set xs') (task_of a' = Some (b, i))
      (if a' = Running (b, i) then {e} else {}) (q_next (tasks (pool S')) (b, i)) (starts S' (b, i))
      (i < par_submitted c') B' x'"
  shows "system_inv wid S' xs'"
proof -
  have acts: "holds (act S') t = holds (act S) t \<and> runs_task (act S') t = runs_task (act S) t"
    if "t \<noteq> (b, i)" for t
  proof -
    have "e \<notin> holds (act S) t" using e(1) that by (auto simp: holds_act)
    moreover have "e \<notin> runs_task (act S) t" using e(1) that by (auto simp: runs_act)
    moreover have "task_of a' \<noteq> Some t" "a' \<noteq> Running t" using e(2) that by auto
    ultimately show ?thesis using S'(2) by simp
  qed
  have held: "holds (act S') (b, i) = (if task_of a' = Some (b, i) then {e} else {})"
    using e(4) S'(2) by auto
  have "runs_task (act S) (b, i) \<subseteq> {e}" using e(4) runs_holds [of "act S"] by blast
  then have runs: "runs_task (act S') (b, i) = (if a' = Running (b, i) then {e} else {})"
    using S'(2) by auto
  have caller: "act S' (Caller b') = act S (Caller b')" if "b' \<noteq> b" for b'
    using e(3) S'(2) that by auto
  note ok = system_invD(8) [OF inv B(1,2)]
  show ?thesis
  proof (rule system_inv_update [OF inv S'(1)])
    show "batch_ok wid S' xs' b B' c'"
    proof (rule batch_ok_update [OF ok B'(1) B(3) B'(2,3,4)])
      show "phase_inv b (\<lambda>i. (b, i) \<in> set xs') (act S' (Caller b)) B' c'" using B'(5) S'(2) by simp
      show "b \<in> set (waiting (pool S')) \<longleftrightarrow> \<not> unlinked c'"
        using ok S'(5) B'(6) by (simp add: batch_ok_def batch_inv_def)
      show "task_inv wid ((b, i) \<in> set xs') (holds (act S') (b, i) \<noteq> {}) (runs_task (act S') (b, i))
          (q_next (tasks (pool S')) (b, i)) (starts S' (b, i)) (i < par_submitted c') B' x'"
        using task held runs by (simp split: if_splits)
      fix j assume j: "j \<noteq> i"
      then have "(b, j) \<noteq> (b, i)" by simp
      from acts [OF this] S'(6-8) [OF this] B'(7) [OF j]
      show "((b, j) \<in> set xs' \<longleftrightarrow> (b, j) \<in> set xs)
        \<and> holds (act S') (b, j) = holds (act S) (b, j) \<and> runs_task (act S') (b, j) = runs_task (act S) (b, j)
        \<and> starts S' (b, j) = starts S (b, j) \<and> (j < par_submitted c' \<longleftrightarrow> j < par_submitted c)
        \<and> ((b, j) \<notin> set xs \<longrightarrow> q_next (tasks (pool S)) (b, j) = None \<longrightarrow> q_next (tasks (pool S')) (b, j) = None)"
        by auto
    qed
    fix b' assume "b' \<noteq> b"
    with caller S'(3-5) show "batch_at (pool S') b' = batch_at (pool S) b' \<and> calls S' b' = calls S b'
      \<and> act S' (Caller b') = act S (Caller b')
      \<and> (b' \<in> set (waiting (pool S')) \<longleftrightarrow> b' \<in> set (waiting (pool S)))" by simp
  next
    fix t :: task_id assume "fst t \<noteq> b"
    then have "t \<noteq> (b, i)" by auto
    from acts [OF this] S'(6-8) [OF this]
    show "(t \<in> set xs' \<longleftrightarrow> t \<in> set xs) \<and> holds (act S') t = holds (act S) t
      \<and> runs_task (act S') t = runs_task (act S) t \<and> starts S' t = starts S t
      \<and> (t \<notin> set xs \<longrightarrow> q_next (tasks (pool S)) t = None \<longrightarrow> q_next (tasks (pool S')) t = None)"
      by auto
  next
    fix j assume j: "(b, j) \<in> set xs'"
    show "j < length (b_task B') \<and> holds (act S') (b, j) = {}"
    proof (cases "j = i")
      case True
      with j e(5) B'(1) B(3) held show ?thesis by simp
    next
      case False
      then have "(b, j) \<noteq> (b, i)" by simp
      from acts [OF this] S'(7) [OF this] j B'(1) queue_of [OF inv _ B(1), of j] show ?thesis by simp
    qed
  next
    fix j e' assume j: "e' \<in> holds (act S') (b, j)"
    show "j < length (b_task B') \<and> holds (act S') (b, j) = {e'}"
    proof (cases "j = i")
      case True
      with j B'(1) B(3) held show ?thesis by (auto split: if_splits)
    next
      case False
      then have "(b, j) \<noteq> (b, i)" by simp
      from acts [OF this] j B'(1) held_of [OF inv _ B(1), of e' j] show ?thesis by simp
    qed
  qed (use S' system_invD(6) [OF inv] in auto)
qed

lemma caller_own:
  assumes inv: "system_inv wid S xs" and a: "task_of (act S (Caller b)) = Some t"
  shows "b = fst t \<and> (\<exists>c. calls S b = Some c \<and> par_phase c = Exec (snd t))"
proof -
  obtain c where c: "calls S b = Some c"
    using a system_invD(5) [OF inv, of b] by (cases "calls S b") auto
  then obtain B where "batch_ok wid S xs b B c"
    using call_batch [OF inv c] by blast
  from phase_of [OF this] a c show ?thesis by (cases "par_phase c") (auto simp: phase_inv_def)
qed

lemma step_run_begin:
  assumes inv: "system_inv wid S xs" and a: "act S e = Taken t"
    and call: "task_begin (thread_name wid (owner_at (pool S) (fst t)) e) t (pool S) = (False, P)"
  shows "system_inv wid
    (S\<lparr>pool := P, act := (act S)(e := Running t), starts := (starts S)(t := Suc (starts S t))\<rparr>) xs"
proof -
  obtain b i where t: "t = (b, i)" by (cases t)
  obtain B c where B: "batch_at (pool S) b = Some B" "calls S b = Some c" "batch_ok wid S xs b B c"
    "i < length (b_task B)" "holds (act S) (b, i) = {e}" "(b, i) \<notin> set xs"
    "i < par_submitted c" "\<not> t_finished (b_task B ! i)" "\<not> has_outcome (b_task B ! i)"
    using task_held [OF inv, of e b i] a t by auto
  let ?f = "\<lambda>x. x\<lparr>t_runner := thread_name wid (b_owner B) e\<rparr>"
  have P: "\<not> b_stopped B" "P = update_batch b (update_task i ?f) (pool S)"
    using call B(1) t by (auto simp: task_begin_def owner_at_def split: if_splits)
  have runs: "runs_task (act S) (b, i) = {}"
    using runs_if_held [OF B(5)] a t by simp
  have starts: "starts S (b, i) = 0"
    using task_of_batch [OF B(3,4)] runs B(9) by (simp add: task_inv_def)
  have caller: "k = b" if "e = Caller k" for k
    using caller_own [OF inv, of k t] a t that by auto
  show ?thesis
  proof (rule task_step_inv [OF inv B(1,2,4), where e = e and a' = "Running t" and x' = "?f (b_task B ! i)"])
    show "counts_inv (update_task i ?f B) c"
      by (rule counts_inv_flags [OF counts_of [OF B(3)]]) (use B(4) in simp_all)
    show "phase_inv b (\<lambda>i. (b, i) \<in> set xs) (((act S)(e := Running t)) (Caller b)) (update_task i ?f B) c"
      by (rule phase_inv_flags [OF phase_of [OF B(3)]]) (use B(4) a t in simp_all)
  qed (use B t a P runs starts caller system_invD(1) [OF inv] task_of_batch [OF B(3,4)] in
      \<open>auto simp: task_inv_def has_outcome_def update_batch_def\<close>)
qed

lemma step_run_stopped:
  assumes inv: "system_inv wid S xs" and a: "act S e = Taken t"
    and call: "task_begin me t (pool S) = (True, P)"
  shows "P = pool S \<and> system_inv wid (S\<lparr>pool := P, act := (act S)(e := Skipped t)\<rparr>) xs
    \<and> (\<forall>B. batch_at (pool S) (fst t) = Some B \<longrightarrow> b_stopped B)"
proof -
  obtain b i where t: "t = (b, i)" by (cases t)
  obtain B c where B: "batch_at (pool S) b = Some B" "calls S b = Some c" "batch_ok wid S xs b B c"
    "i < length (b_task B)" "holds (act S) (b, i) = {e}" "(b, i) \<notin> set xs"
    using task_held [OF inv, of e b i] a t by auto
  have P: "b_stopped B" "P = pool S"
    using call B(1) t by (auto simp: task_begin_def split: if_splits)
  have runs: "runs_task (act S) (b, i) = {}"
    using runs_if_held [OF B(5)] a t by simp
  have caller: "k = b" if "e = Caller k" for k
    using caller_own [OF inv, of k t] a t that by auto
  have "system_inv wid (S\<lparr>pool := P, act := (act S)(e := Skipped t)\<rparr>) xs"
  proof (rule task_step_inv [OF inv B(1,2,4), where e = e and a' = "Skipped t" and x' = "b_task B ! i"])
    show "phase_inv b (\<lambda>i. (b, i) \<in> set xs) (((act S)(e := Skipped t)) (Caller b)) B c"
      by (rule phase_inv_flags [OF phase_of [OF B(3)]]) (use a t in simp_all)
  qed (use B t a P runs caller system_invD(1) [OF inv] task_of_batch [OF B(3,4)] counts_of [OF B(3)] in auto)
  with P B(1) t show ?thesis by simp
qed

lemma length_filter_below:
  assumes "\<And>j. j < length xs \<Longrightarrow> P (xs ! j) \<Longrightarrow> j < s" "i < s" "i < length xs" "\<not> P (xs ! i)"
  shows "length (filter P xs) < s"
proof -
  have "filter P (drop s xs) = []"
    using assms(1) [of "s + _"] by (fastforce simp: filter_empty_conv in_set_conv_nth)
  then have "filter P xs = filter P (take s xs)"
    by (metis append.right_neutral append_take_drop_id filter_append)
  moreover have "xs ! i \<in> set (take s xs)"
    using assms(2,3) by (metis in_set_conv_nth length_take min_less_iff_conj nth_take)
  then have "length (filter P (take s xs)) < length (take s xs)"
    using assms(4) by (rule length_filter_less)
  ultimately show ?thesis by simp
qed

lemma outstanding_positive:
  assumes "batch_ok wid S xs b B c" "i < length (b_task B)" "i < par_submitted c" "\<not> t_finished (b_task B ! i)"
  shows "0 < b_outstanding B"
proof -
  have "t_finished (b_task B ! j) \<Longrightarrow> j < par_submitted c" if "j < length (b_task B)" for j
    using task_of_batch [OF assms(1) that] by (simp add: task_inv_def)
  from length_filter_below [of "b_task B" t_finished, OF this assms(3,2,4)]
  show ?thesis using counts_of [OF assms(1)] by (simp add: counts_inv_def)
qed

text \<open>More tasks finished, perhaps stopped.\<close>

lemma phase_inv_grow:
  assumes "phase_inv b qd ca B c" "length (b_task B') = length (b_task B)"
    "\<And>j. j < length (b_task B) \<Longrightarrow> t_finished (b_task B ! j) \<Longrightarrow> t_finished (b_task B' ! j)"
    "b_stopped B \<longrightarrow> b_stopped B'" "b_outstanding B = 0 \<longrightarrow> b_outstanding B' = 0"
    "b_interrupted B' = b_interrupted B" "\<And>i. qd' i \<Longrightarrow> qd i"
    "ca' = Free \<longleftrightarrow> ca = Free" "task_of ca' = task_of ca"
  shows "phase_inv b qd' ca' B' c"
proof -
  have all: "(\<forall>x \<in> set (b_task B). t_finished x) \<Longrightarrow> (\<forall>x \<in> set (b_task B'). t_finished x)"
    using assms(2,3) by (auto simp: all_set_conv_all_nth)
  show ?thesis
    using assms(1,2,3,4,5,6,7,8,9) all by (auto simp: phase_inv_def split: phase.splits)
qed

lemma finish_counts:
  assumes ok: "batch_ok wid S xs b B c" and i: "i < length (b_task B)" "i < par_submitted c"
      "\<not> t_finished (b_task B ! i)" "t_finished x'" "\<not> has_outcome (b_task B ! i)"
    and B': "b_task B' = (b_task B)[i := x']" "b_done B' = b_done B + 1"
      "b_outstanding B' = b_outstanding B - 1" "b_interrupted B' = b_interrupted B"
      "b_stopped B' \<longrightarrow> b_stopped B \<or> vis_py_stops_batch (t_error x')"
    and c': "par_submitted c' = par_submitted c" "par_limit c' = par_limit c"
  shows "counts_inv B' c'"
proof -
  note counts = counts_of [OF ok, unfolded counts_inv_def]
  have "length [x \<leftarrow> b_task B'. t_finished x] = Suc (length [x \<leftarrow> b_task B. t_finished x])"
    unfolding B'(1) by (rule length_filter_set) (use i in auto)
  moreover have "0 < b_outstanding B" by (rule outstanding_positive [OF ok i(1-3)])
  moreover have "\<exists>x \<in> set (b_task B'). vis_py_stops_batch (t_error x)"
    if "x \<in> set (b_task B)" "vis_py_stops_batch (t_error x)" for x
  proof -
    obtain j where j: "j < length (b_task B)" "x = b_task B ! j" using \<open>x \<in> set (b_task B)\<close> by (auto simp: in_set_conv_nth)
    have "j \<noteq> i" using j that(2) i(5) by (auto simp: has_outcome_def)
    with j B'(1) have "b_task B' ! j = x" by simp
    with that(2) j(1) B'(1) show ?thesis by (metis length_list_update nth_mem)
  qed
  moreover have "x' \<in> set (b_task B')" using B'(1) i(1) by (simp add: set_update_memI)
  ultimately show ?thesis
    using counts B' c' by (auto simp: counts_inv_def)
qed

lemma step_finish:
  assumes inv: "system_inv wid S xs" and a: "act S e = Running t \<or> act S e = Skipped t"
    and out: "act S e = Running t \<Longrightarrow> (v = None \<longleftrightarrow> x \<noteq> None) \<and> stop = vis_py_stops_batch x"
      "act S e = Skipped t \<Longrightarrow> v = None \<and> x = None \<and> stop
         \<and> (\<forall>B. batch_at (pool S) (fst t) = Some B \<longrightarrow> b_stopped B)"
  shows "system_inv wid (task_over e t (S\<lparr>pool := task_end t v x stop (pool S)\<rparr>)) xs"
proof -
  obtain b i where t: "t = (b, i)" by (cases t)
  obtain B c where B: "batch_at (pool S) b = Some B" "calls S b = Some c" "batch_ok wid S xs b B c"
    "i < length (b_task B)" "holds (act S) (b, i) = {e}" "(b, i) \<notin> set xs"
    "i < par_submitted c" "\<not> t_finished (b_task B ! i)" "\<not> has_outcome (b_task B ! i)"
    using task_held [OF inv, of e b i] a t by auto
  let ?x = "(b_task B ! i)\<lparr>t_runner := 0, t_value := v, t_error := x, t_finished := True\<rparr>"
  let ?B = "(update_task i (\<lambda>x'. x'\<lparr>t_runner := 0, t_value := v, t_error := x, t_finished := True\<rparr>) B)
    \<lparr>b_stopped := (if stop then True else b_stopped B), b_done := b_done B + 1,
     b_outstanding := b_outstanding B - 1\<rparr>"
  have P: "batch_at (task_end t v x stop (pool S)) = (batch_at (pool S))(b \<mapsto> ?B)"
    using t B(1) by (simp add: task_end_def)
  have Pframe: "tasks (task_end t v x stop (pool S)) = tasks (pool S)"
    "waiting (task_end t v x stop (pool S)) = waiting (pool S)" by (simp_all add: task_end_def)
  have starts: "starts S (b, i) = (if act S e = Running t then 1 else 0)"
    using task_of_batch [OF B(3,4)] runs_if_held [OF B(5)] B(9) t by (simp add: task_inv_def)
  let ?c = "case e of Worker _ \<Rightarrow> c | Caller _ \<Rightarrow> c\<lparr>par_phase := Loop (Suc i)\<rparr>"
  have caller: "k = b \<and> par_phase c = Exec i" if "e = Caller k" for k
    using caller_own [OF inv, of k t] a t that B(2) by auto
  have over: "task_over e t (S\<lparr>pool := task_end t v x stop (pool S)\<rparr>) =
      S\<lparr>pool := task_end t v x stop (pool S), calls := (calls S)(b \<mapsto> ?c), act := (act S)(e := Free)\<rparr>"
    using caller B(2) t
    by (cases e) (auto simp: task_over_def set_phase_def fun_upd_idem)
  note ph = phase_of [OF B(3)]
  show ?thesis
    unfolding over
  proof (rule task_step_inv [OF inv B(1,2,4), where e = e and a' = Free and x' = ?x and B' = ?B and c' = ?c])
    show "counts_inv ?B ?c"
      by (rule finish_counts [OF B(3,4,7,8) _ B(9), where x' = ?x])
         (use out a B(1) t in \<open>auto split: executor.split\<close>)
    show "phase_inv b (\<lambda>i. (b, i) \<in> set xs) (((act S)(e := Free)) (Caller b)) ?B ?c"
    proof (cases e)
      case (Worker w)
      then show ?thesis
        using B(4) by (auto intro!: phase_inv_grow [OF ph] simp: nth_list_update)
    next
      case (Caller k)
      with caller have k: "k = b" "par_phase c = Exec i" by auto
      with ph Caller B(4) show ?thesis
        by (auto simp: phase_inv_def nth_list_update less_Suc_eq)
    qed
    show "unlinked ?c = unlinked c"
      using caller by (auto simp: unlinked_def split: executor.split)
    have sub: "par_submitted ?c = par_submitted c" by (simp split: executor.split)
    then show "j < par_submitted ?c \<longleftrightarrow> j < par_submitted c" for j by simp
    have outcome: "if act S e = Running t then (v = None \<longleftrightarrow> x \<noteq> None) else v = None \<and> x = None \<and> b_stopped B"
      using out a B(1) t by auto
    have "has_outcome ?x \<longleftrightarrow> act S e = Running t"
      using outcome by (auto simp: has_outcome_def split: if_splits)
    then show "task_inv wid ((b, i) \<in> set xs) (task_of Free = Some (b, i))
        (if Free = Running (b, i) then {e} else {})
        (q_next (tasks (pool (S\<lparr>pool := task_end t v x stop (pool S), calls := (calls S)(b \<mapsto> ?c),
           act := (act S)(e := Free)\<rparr>))) (b, i))
        (starts (S\<lparr>pool := task_end t v x stop (pool S), calls := (calls S)(b \<mapsto> ?c),
           act := (act S)(e := Free)\<rparr>) (b, i)) (i < par_submitted ?c) ?B ?x"
      using starts outcome B(6,7) sub by (simp add: task_inv_def)
    show "task_of (act S e) = None \<or> task_of (act S e) = Some (b, i)" using a t by auto
    show "e = Caller k \<Longrightarrow> k = b" for k using caller by blast
  qed (use B(5,6) P Pframe system_invD(1) [OF inv] in simp_all)
qed

section \<open>Steps of the queue\<close>

lemma step_worker_claims:
  assumes inv: "system_inv wid S xs" and a: "act S (Worker w) = Free"
    and call: "worker_claim (pool S) = Some (t, P)"
  shows "system_inv wid (S\<lparr>pool := P, act := (act S)(Worker w := Taken t)\<rparr>) (tl xs)"
proof -
  obtain q where q: "claim_task (tasks (pool S)) = Some (t, q)" "P = (pool S)\<lparr>tasks := q\<rparr>"
    using call by (auto simp: worker_claim_def split: option.splits)
  from wq.claim_law [OF system_invD(1) [OF inv]] q(1)
  have xs: "xs \<noteq> []" "t = hd xs" "represents q (tl xs)" by auto
  obtain b i where t: "t = (b, i)" by (cases t)
  have mem: "(b, i) \<in> set xs" using xs t by (metis hd_in_set)
  obtain B where B: "batch_at (pool S) b = Some B" "i < length (b_task B)" "holds (act S) (b, i) = {}"
    using system_invD(2) [OF inv mem] by (auto simp: live_def)
  obtain c where c: "calls S b = Some c"
    using system_invD(4) [OF inv, of b] B(1) by (cases "calls S b") auto
  note ok = system_invD(8) [OF inv B(1) c]
  have dist: "distinct xs" using wq.reps_distinct [OF system_invD(1) [OF inv]] .
  have tl: "u \<in> set (tl xs) \<longleftrightarrow> u \<in> set xs \<and> u \<noteq> t" for u
    using xs dist by (cases xs) auto
  have runs: "runs_task (act S) (b, i) = {}" using B(3) runs_holds [of "act S" "(b, i)"] by simp
  show ?thesis
  proof (rule task_step_inv [OF inv B(1) c B(2), where e = "Worker w" and a' = "Taken t" and x' = "b_task B ! i"])
    show "phase_inv b (\<lambda>i. (b, i) \<in> set (tl xs)) (((act S)(Worker w := Taken t)) (Caller b)) B c"
      by (rule phase_inv_flags [OF phase_of [OF ok]]) (use tl in auto)
  qed (use B c t a q xs tl mem runs task_of_batch [OF ok B(2)] counts_of [OF ok]
        wq.fresh_claim [OF system_invD(1) [OF inv] _ q(1)] in \<open>auto simp: task_inv_def\<close>)
qed

text \<open>A queued task goes back to the call that owns it.\<close>

lemma take_back:
  assumes inv: "system_inv wid S xs" and c: "calls S b = Some c"
    and call: "par_take_back b i P0 = Some (True, P)" "P0 = pool S"
  shows "\<exists>q B. vis_py_unqueue (b, i) (tasks (pool S)) = Some (True, q) \<and> P = (pool S)\<lparr>tasks := q\<rparr>
    \<and> represents q (removeAll (b, i) xs) \<and> (b, i) \<in> set xs
    \<and> (\<forall>t. t \<notin> set xs \<longrightarrow> q_next (tasks (pool S)) t = None \<longrightarrow> q_next q t = None)
    \<and> batch_at (pool S) b = Some B \<and> i < length (b_task B) \<and> holds (act S) (b, i) = {}
    \<and> batch_ok wid S xs b B c"
proof -
  obtain q where q: "vis_py_unqueue (b, i) (tasks (pool S)) = Some (True, q)" "P = (pool S)\<lparr>tasks := q\<rparr>"
    using call by (auto simp: par_take_back_def)
  have rep: "represents (tasks (pool S)) xs" using system_invD(1) [OF inv] .
  from wq.remove_law [OF rep, of "(b, i)"] q(1)
  have xs: "(b, i) \<in> set xs" "represents q (removeAll (b, i) xs)" by (auto split: if_splits)
  obtain B where B: "batch_at (pool S) b = Some B" "i < length (b_task B)" "holds (act S) (b, i) = {}"
    using system_invD(2) [OF inv xs(1)] by (auto simp: live_def)
  with q xs wq.fresh_remove [OF rep _ _ q(1)] system_invD(8) [OF inv B(1) c] show ?thesis by blast
qed

lemma step_take_back:
  assumes inv: "system_inv wid S xs" and c: "calls S b = Some c" "par_phase c = Wait i"
    and call: "par_take_back b i (pool S) = Some (True, P)"
  shows "system_inv wid
    (S\<lparr>pool := P, act := (act S)(Caller b := Taken (b, i)),
       calls := (calls S)(b \<mapsto> c\<lparr>par_phase := Exec i, par_saturated := sat\<rparr>)\<rparr>) (removeAll (b, i) xs)"
proof -
  obtain q B where q: "vis_py_unqueue (b, i) (tasks (pool S)) = Some (True, q)" "P = (pool S)\<lparr>tasks := q\<rparr>"
    "represents q (removeAll (b, i) xs)" "(b, i) \<in> set xs"
    "\<forall>t. t \<notin> set xs \<longrightarrow> q_next (tasks (pool S)) t = None \<longrightarrow> q_next q t = None"
    and B: "batch_at (pool S) b = Some B" "i < length (b_task B)" "holds (act S) (b, i) = {}"
    "batch_ok wid S xs b B c"
    using take_back [OF inv c(1) call refl] by blast
  have runs: "runs_task (act S) (b, i) = {}" using B(3) runs_holds [of "act S" "(b, i)"] by simp
  note ph = phase_of [OF B(4)]
  have free: "act S (Caller b) = Free" using ph c(2) by (simp add: phase_inv_def)
  show ?thesis
  proof (rule task_step_inv [OF inv B(1) c(1) B(2), where e = "Caller b" and a' = "Taken (b, i)" and x' = "b_task B ! i"])
    show "phase_inv b (\<lambda>j. (b, j) \<in> set (removeAll (b, i) xs)) (((act S)(Caller b := Taken (b, i))) (Caller b)) B
        (c\<lparr>par_phase := Exec i, par_saturated := sat\<rparr>)"
      using ph c(2) B(2) by (auto simp: phase_inv_def)
    show "unlinked (c\<lparr>par_phase := Exec i, par_saturated := sat\<rparr>) = unlinked c"
      using c(2) by (simp add: unlinked_def)
    show "counts_inv B (c\<lparr>par_phase := Exec i, par_saturated := sat\<rparr>)"
      using counts_of [OF B(4)] by (simp add: counts_inv_def)
  qed (use B c q free runs task_of_batch [OF B(4,2)] in \<open>auto simp: task_inv_def\<close>)
qed

lemma step_claim_now:
  assumes inv: "system_inv wid S xs" and c: "calls S b = Some c" "par_phase c = Wait i"
    and call: "par_claims_now (par_saturated c) b i (pool S) = Some (True, P)"
  shows "system_inv wid
    (set_phase b (Exec i) (S\<lparr>pool := P, act := (act S)(Caller b := Taken (b, i))\<rparr>)) (removeAll (b, i) xs)"
proof -
  have "par_take_back b i (pool S) = Some (True, P)"
    using call by (auto simp: par_claims_now_def split: if_splits)
  from step_take_back [OF inv c this, of "par_saturated c"] show ?thesis
    using c(1) by (simp add: set_phase_def)
qed

text \<open>The submission loop, one task at a time and then as a whole.\<close>

lemma submit_one:
  assumes inv: "system_inv wid S xs" and c: "calls S b = Some c" "par_phase c = Loop k"
    and B: "batch_at (pool S) b = Some B"
    and s: "par_submitted c < length (b_task B)" "int (par_submitted c) - int (b_done B) < par_limit c"
  shows "system_inv wid
    (S\<lparr>pool := update_batch b (\<lambda>B. B\<lparr>b_outstanding := b_outstanding B + 1\<rparr>)
                ((pool S)\<lparr>tasks := submit_task (b, par_submitted c) (tasks (pool S))\<rparr>),
       calls := (calls S)(b \<mapsto> c\<lparr>par_submitted := par_submitted c + 1\<rparr>)\<rparr>) (xs @ [(b, par_submitted c)])"
proof -
  let ?i = "par_submitted c"
  note ok = system_invD(8) [OF inv B c(1)]
  note task = task_of_batch [OF ok s(1)]
  have fresh: "(b, ?i) \<notin> set xs" "holds (act S) (b, ?i) = {}" "q_next (tasks (pool S)) (b, ?i) = None"
    "\<not> t_finished (b_task B ! ?i)"
    using task by (auto simp: task_inv_def)
  have runs: "runs_task (act S) (b, ?i) = {}" using fresh(2) runs_holds [of "act S" "(b, ?i)"] by simp
  have rep: "represents (tasks (pool S)) xs" using system_invD(1) [OF inv] .
  have free: "act S (Caller b) = Free" using phase_of [OF ok] c(2) by (simp add: phase_inv_def)
  show ?thesis
  proof (rule task_step_inv [OF inv B c(1) s(1), where e = "Caller b" and a' = Free and x' = "b_task B ! ?i"])
    show "counts_inv (B\<lparr>b_outstanding := b_outstanding B + 1\<rparr>) (c\<lparr>par_submitted := par_submitted c + 1\<rparr>)"
      using counts_of [OF ok] s by (auto simp: counts_inv_def)
    show "phase_inv b (\<lambda>i. (b, i) \<in> set (xs @ [(b, ?i)])) (((act S)(Caller b := Free)) (Caller b))
        (B\<lparr>b_outstanding := b_outstanding B + 1\<rparr>) (c\<lparr>par_submitted := par_submitted c + 1\<rparr>)"
      using phase_of [OF ok] c(2) by (simp add: phase_inv_def)
    show "task_inv wid ((b, ?i) \<in> set (xs @ [(b, ?i)])) (task_of Free = Some (b, ?i))
        (if Free = Running (b, ?i) then {Caller b} else {})
        (q_next (tasks (pool (S\<lparr>pool := update_batch b (\<lambda>B. B\<lparr>b_outstanding := b_outstanding B + 1\<rparr>)
                ((pool S)\<lparr>tasks := submit_task (b, ?i) (tasks (pool S))\<rparr>),
           calls := (calls S)(b \<mapsto> c\<lparr>par_submitted := ?i + 1\<rparr>)\<rparr>))) (b, ?i))
        (starts (S\<lparr>pool := update_batch b (\<lambda>B. B\<lparr>b_outstanding := b_outstanding B + 1\<rparr>)
                ((pool S)\<lparr>tasks := submit_task (b, ?i) (tasks (pool S))\<rparr>),
           calls := (calls S)(b \<mapsto> c\<lparr>par_submitted := ?i + 1\<rparr>)\<rparr>) (b, ?i))
        (?i < par_submitted (c\<lparr>par_submitted := ?i + 1\<rparr>)) (B\<lparr>b_outstanding := b_outstanding B + 1\<rparr>)
        (b_task B ! ?i)"
      using task fresh runs by (simp add: task_inv_def)
    show "represents (tasks (pool (S\<lparr>pool := update_batch b (\<lambda>B. B\<lparr>b_outstanding := b_outstanding B + 1\<rparr>)
                ((pool S)\<lparr>tasks := submit_task (b, ?i) (tasks (pool S))\<rparr>),
           calls := (calls S)(b \<mapsto> c\<lparr>par_submitted := ?i + 1\<rparr>)\<rparr>))) (xs @ [(b, ?i)])"
      using wq.put_law [OF rep fresh(1,3)] by simp
    show "t \<noteq> (b, ?i) \<Longrightarrow> t \<notin> set xs \<Longrightarrow> q_next (tasks (pool S)) t = None \<Longrightarrow>
        q_next (tasks (pool (S\<lparr>pool := update_batch b (\<lambda>B. B\<lparr>b_outstanding := b_outstanding B + 1\<rparr>)
                ((pool S)\<lparr>tasks := submit_task (b, ?i) (tasks (pool S))\<rparr>),
           calls := (calls S)(b \<mapsto> c\<lparr>par_submitted := ?i + 1\<rparr>)\<rparr>))) t = None" for t
      using wq.fresh_put [OF rep] by simp
  qed (use B c fresh free in \<open>auto simp: unlinked_def\<close>)
qed

lemma submit_loop:
  assumes "system_inv wid S xs" "calls S b = Some c" "par_phase c = Loop k" "batch_at (pool S) b = Some B"
    "par_submit (par_limit c) b (par_submitted c) (pool S) = (s, P)"
  shows "\<exists>ys. system_inv wid (S\<lparr>pool := P, calls := (calls S)(b \<mapsto> c\<lparr>par_submitted := s\<rparr>)\<rparr>) ys
    \<and> (s = length (b_task B) \<or> par_limit c \<le> int s - int (b_done B))
    \<and> (\<exists>n. batch_at P b = Some (B\<lparr>b_outstanding := n\<rparr>))"
  using assms
proof (induction "length (b_task B) - par_submitted c" arbitrary: S xs c B)
  case (0 c B S xs)
  from 0(1) counts_of [OF system_invD(8) [OF 0(2,5,3)]] have full: "par_submitted c = length (b_task B)"
    by (simp add: counts_inv_def)
  with 0(5,6) have sP: "s = par_submitted c" "P = pool S" by (simp_all add: par_submit.simps)
  then have same: "S\<lparr>pool := P, calls := (calls S)(b \<mapsto> c\<lparr>par_submitted := s\<rparr>)\<rparr> = S"
    using 0(3) by (simp add: fun_upd_idem)
  show ?case
    unfolding same
    by (intro exI [of _ xs] conjI exI [of _ "b_outstanding B"]) (use 0(2,5) full sP in simp_all)
next
  case (Suc m c B S xs)
  show ?case
  proof (cases "int (par_submitted c) - int (b_done B) < par_limit c")
    case False
    with Suc(6,7) have sP: "s = par_submitted c" "P = pool S" by (simp_all add: par_submit.simps)
    then have same: "S\<lparr>pool := P, calls := (calls S)(b \<mapsto> c\<lparr>par_submitted := s\<rparr>)\<rparr> = S"
      using Suc(4) by (simp add: fun_upd_idem)
    show ?thesis
      unfolding same
      by (intro exI [of _ xs] conjI exI [of _ "b_outstanding B"]) (use Suc(3,6) False sP in simp_all)
  next
    case True
    have lt: "par_submitted c < length (b_task B)" using Suc(2) by simp
    let ?P = "update_batch b (\<lambda>B. B\<lparr>b_outstanding := b_outstanding B + 1\<rparr>)
                ((pool S)\<lparr>tasks := submit_task (b, par_submitted c) (tasks (pool S))\<rparr>)"
    let ?c = "c\<lparr>par_submitted := par_submitted c + 1\<rparr>"
    let ?S = "S\<lparr>pool := ?P, calls := (calls S)(b \<mapsto> ?c)\<rparr>"
    let ?B = "B\<lparr>b_outstanding := b_outstanding B + 1\<rparr>"
    have "par_submit (par_limit ?c) b (par_submitted ?c) (pool ?S) = (s, P)"
      using Suc(6,7) True lt by (subst (asm) par_submit.simps) simp
    moreover have "batch_at (pool ?S) b = Some ?B" using Suc(6) by simp
    ultimately have "\<exists>ys. system_inv wid (?S\<lparr>pool := P, calls := (calls ?S)(b \<mapsto> ?c\<lparr>par_submitted := s\<rparr>)\<rparr>) ys
      \<and> (s = length (b_task ?B) \<or> par_limit ?c \<le> int s - int (b_done ?B))
      \<and> (\<exists>n. batch_at P b = Some (?B\<lparr>b_outstanding := n\<rparr>))"
      using Suc(2,5) submit_one [OF Suc(3-6) lt True] by (intro Suc(1)) auto
    then show ?thesis by simp
  qed
qed

lemma prefix_count:
  "k \<le> length xs \<Longrightarrow> (\<forall>j < k. P (xs ! j)) \<Longrightarrow> k \<le> length (filter P xs)"
proof -
  assume k: "k \<le> length xs" "\<forall>j < k. P (xs ! j)"
  have "filter P (take k xs) = take k xs"
    using k by (auto simp: filter_id_conv in_set_conv_nth)
  then have "length (filter P (take k xs)) = k" using k(1) by simp
  then show ?thesis by (metis append_take_drop_id filter_append le_add1 length_append)
qed

lemma step_submit:
  assumes inv: "system_inv wid S xs" and c: "calls S b = Some c" "par_phase c = Loop i"
    and B: "batch_at (pool S) b = Some B" "i < length (b_task B)" "\<not> b_stopped B"
    and call: "par_submit (par_limit c) b (par_submitted c) (pool S) = (s, P)"
  shows "\<exists>ys. system_inv wid
    (S\<lparr>pool := P, calls := (calls S)(b \<mapsto> c\<lparr>par_phase := Wait i, par_submitted := s\<rparr>)\<rparr>) ys"
proof -
  let ?c = "c\<lparr>par_submitted := s\<rparr>"
  obtain ys n where ys: "system_inv wid (S\<lparr>pool := P, calls := (calls S)(b \<mapsto> ?c)\<rparr>) ys" (is "system_inv wid ?S ys")
    and s: "s = length (b_task B) \<or> par_limit c \<le> int s - int (b_done B)"
    and B': "batch_at P b = Some (B\<lparr>b_outstanding := n\<rparr>)"
    using submit_loop [OF inv c B(1) call] by blast
  note ok = system_invD(8) [OF inv B(1) c(1)]
  have fin: "\<forall>j < i. t_finished (b_task B ! j)" using phase_of [OF ok] c(2) B(3) by (simp add: phase_inv_def)
  then have "i \<le> b_done B"
    using counts_of [OF ok] prefix_count [of i "b_task B" t_finished] B(2) by (simp add: counts_inv_def)
  then have "i < s" using s B(2) counts_of [OF ok] by (auto simp: counts_inv_def)
  have "system_inv wid (set_phase b (Wait i) ?S) ys"
  proof (rule set_phase_inv [OF ys])
    show "calls ?S b = Some ?c" by simp
    show "batch_at (pool ?S) b = Some (B\<lparr>b_outstanding := n\<rparr>)" using B' by simp
    show "phase_inv b (\<lambda>i. (b, i) \<in> set ys) (act ?S (Caller b)) (B\<lparr>b_outstanding := n\<rparr>) (?c\<lparr>par_phase := Wait i\<rparr>)"
      using \<open>i < s\<close> fin B(2) phase_of [OF ok] c(2) by (simp add: phase_inv_def)
    show "unlinked (?c\<lparr>par_phase := Wait i\<rparr>) = unlinked ?c" using c(2) by (simp add: unlinked_def)
  qed
  moreover have "set_phase b (Wait i) ?S =
      S\<lparr>pool := P, calls := (calls S)(b \<mapsto> c\<lparr>par_phase := Wait i, par_submitted := s\<rparr>)\<rparr>"
    by (cases c) (simp add: set_phase_def)
  ultimately show ?thesis by auto
qed

section \<open>Stopping and settling\<close>

lemma drop_one:
  assumes inv: "system_inv wid S xs" and c: "calls S b = Some c" "par_phase c = Settle"
    and B: "batch_at (pool S) b = Some B" "b_stopped B" "\<not> t_finished (b_task B ! i)"
    and call: "vis_py_unqueue (b, i) (tasks (pool S)) = Some (True, q)"
  shows "(b, i) \<in> set xs \<and> system_inv wid
    (S\<lparr>pool := update_batch b
        (\<lambda>B. (update_task i (\<lambda>x. x\<lparr>t_finished := True\<rparr>) B)
               \<lparr>b_done := b_done B + 1, b_outstanding := b_outstanding B - 1\<rparr>)
        ((pool S)\<lparr>tasks := q\<rparr>)\<rparr>) (removeAll (b, i) xs)"
proof -
  let ?P = "update_batch b
        (\<lambda>B. (update_task i (\<lambda>x. x\<lparr>t_finished := True\<rparr>) B)
               \<lparr>b_done := b_done B + 1, b_outstanding := b_outstanding B - 1\<rparr>)
        ((pool S)\<lparr>tasks := q\<rparr>)"
  have "par_take_back b i (pool S) = Some (True, (pool S)\<lparr>tasks := q\<rparr>)"
    using call by (simp add: par_take_back_def)
  from take_back [OF inv c(1) this refl] call B(1)
  have q: "represents q (removeAll (b, i) xs)" "(b, i) \<in> set xs"
    "\<forall>t. t \<notin> set xs \<longrightarrow> q_next (tasks (pool S)) t = None \<longrightarrow> q_next q t = None"
    "i < length (b_task B)" "holds (act S) (b, i) = {}" "batch_ok wid S xs b B c"
    by auto
  note task = task_of_batch [OF q(6,4)]
  have sub: "i < par_submitted c" "\<not> has_outcome (b_task B ! i)" using task q(2) B(3) by (auto simp: task_inv_def)
  have runs: "runs_task (act S) (b, i) = {}" using q(5) runs_holds [of "act S" "(b, i)"] by simp
  have free: "act S (Caller b) = Free" using phase_of [OF q(6)] c(2) by (simp add: phase_inv_def)
  let ?x = "(b_task B ! i)\<lparr>t_finished := True\<rparr>"
  let ?B = "(update_task i (\<lambda>x. x\<lparr>t_finished := True\<rparr>) B)
               \<lparr>b_done := b_done B + 1, b_outstanding := b_outstanding B - 1\<rparr>"
  have "system_inv wid (S\<lparr>pool := ?P\<rparr>) (removeAll (b, i) xs)"
  proof (rule task_step_inv [OF inv B(1) c(1) q(4), where e = "Caller b" and a' = Free and x' = ?x and B' = ?B and c' = c])
    show "counts_inv ?B c"
      by (rule finish_counts [OF q(6,4) sub(1) B(3) _ sub(2), where x' = ?x]) simp_all
    show "phase_inv b (\<lambda>j. (b, j) \<in> set (removeAll (b, i) xs)) (((act S)(Caller b := Free)) (Caller b)) ?B c"
      using c(2) B(2) by (simp add: phase_inv_def)
    show "task_inv wid ((b, i) \<in> set (removeAll (b, i) xs)) (task_of Free = Some (b, i))
        (if Free = Running (b, i) then {Caller b} else {}) (q_next (tasks (pool (S\<lparr>pool := ?P\<rparr>))) (b, i))
        (starts (S\<lparr>pool := ?P\<rparr>) (b, i)) (i < par_submitted c) ?B ?x"
      using task runs sub B(2) by (simp add: task_inv_def has_outcome_def)
  qed (use B c q free in auto)
  with q(2) show ?thesis by blast
qed

lemma finished_not_queued:
  assumes "system_inv wid S xs" "batch_ok wid S xs b B c" "batch_at (pool S) b = Some B"
    "t_finished (b_task B ! i)"
  shows "(b, i) \<notin> set xs"
  using task_of_batch [OF assms(2), of i] queue_of [OF assms(1) _ assms(3), of i] assms(4)
  by (auto simp: task_inv_def)

lemma drop_loop:
  assumes "system_inv wid S xs" "calls S b = Some c" "par_phase c = Settle"
    "batch_at (pool S) b = Some B" "b_stopped B" "par_drop_queued b is (pool S) = Some P"
  shows "\<exists>ys B'. system_inv wid (S\<lparr>pool := P\<rparr>) ys \<and> (\<forall>i \<in> set is. (b, i) \<notin> set ys) \<and> set ys \<subseteq> set xs
    \<and> batch_at P b = Some B' \<and> b_stopped B'"
  using assms
proof (induction "is" arbitrary: S xs B)
  case Nil
  then show ?case by auto
next
  case (Cons i "is")
  note inv = Cons.prems(1)
  note ok = system_invD(8) [OF inv Cons.prems(4,2)]
  have skip: ?case if "(b, i) \<notin> set xs" "par_drop_queued b is (pool S) = Some P"
    using Cons.IH [OF inv Cons.prems(2-5) that(2)] that(1) by auto
  show ?case
  proof (cases "t_finished (b_task B ! i)")
    case True
    with Cons.prems finished_not_queued [OF inv ok] show ?thesis by (intro skip) simp_all
  next
    case False
    with Cons.prems obtain f q where q: "vis_py_unqueue (b, i) (tasks (pool S)) = Some (f, q)"
      by (auto split: option.splits)
    show ?thesis
    proof (cases f)
      case False
      with q wq.remove_law [OF system_invD(1) [OF inv], of "(b, i)"] have "(b, i) \<notin> set xs"
        by (auto split: if_splits)
      with q False \<open>\<not> t_finished (b_task B ! i)\<close> Cons.prems show ?thesis by (intro skip) simp_all
    next
      case True
      let ?P = "update_batch b
        (\<lambda>B. (update_task i (\<lambda>x. x\<lparr>t_finished := True\<rparr>) B)
               \<lparr>b_done := b_done B + 1, b_outstanding := b_outstanding B - 1\<rparr>)
        ((pool S)\<lparr>tasks := q\<rparr>)"
      let ?B = "(update_task i (\<lambda>x. x\<lparr>t_finished := True\<rparr>) B)
               \<lparr>b_done := b_done B + 1, b_outstanding := b_outstanding B - 1\<rparr>"
      note one = drop_one [OF inv Cons.prems(2-5) False q [unfolded eqTrueI [OF True]]]
      have "par_drop_queued b is (pool (S\<lparr>pool := ?P\<rparr>)) = Some P"
        using Cons.prems(4,6) False q True by simp
      with one Cons.prems have "\<exists>ys B'. system_inv wid (S\<lparr>pool := ?P\<rparr>\<lparr>pool := P\<rparr>) ys
          \<and> (\<forall>i \<in> set is. (b, i) \<notin> set ys) \<and> set ys \<subseteq> set (removeAll (b, i) xs)
          \<and> batch_at P b = Some B' \<and> b_stopped B'"
        by (intro Cons.IH [where B = ?B]) auto
      then show ?thesis by auto
    qed
  qed
qed

lemma step_settle_drain:
  assumes inv: "system_inv wid S xs" and c: "calls S b = Some c" "par_phase c = Settle"
    and call: "par_drain b (par_submitted c) (pool S) = Some P"
  shows "\<exists>ys. system_inv wid (set_phase b Drain (S\<lparr>pool := P\<rparr>)) ys"
proof -
  obtain B where B: "batch_at (pool S) b = Some B" "batch_ok wid S xs b B c"
    using call_batch [OF inv c(1)] by blast
  have free: "act S (Caller b) = Free" using phase_of [OF B(2)] c(2) by (simp add: phase_inv_def)
  have "\<exists>ys B'. system_inv wid (S\<lparr>pool := P\<rparr>) ys \<and> batch_at P b = Some B' \<and> (\<forall>i. (b, i) \<notin> set ys)
      \<and> (\<not> b_stopped B' \<longrightarrow> (\<forall>x \<in> set (b_task B'). t_finished x))"
  proof (cases "b_stopped B")
    case True
    then have "par_drop_queued b [0..<par_submitted c] (pool S) = Some P"
      using call B(1) by (simp add: par_drain_def)
    from drop_loop [OF inv c B(1) True this] obtain ys B' where ys:
      "system_inv wid (S\<lparr>pool := P\<rparr>) ys" "\<forall>i < par_submitted c. (b, i) \<notin> set ys" "set ys \<subseteq> set xs"
      "batch_at P b = Some B'" "b_stopped B'"
      by auto
    have "(b, i) \<notin> set ys" for i
    proof
      assume i: "(b, i) \<in> set ys"
      then have "(b, i) \<in> set xs" using ys(3) by blast
      then have "i < par_submitted c"
        using queue_of [OF inv _ B(1)] task_of_batch [OF B(2), of i] by (auto simp: task_inv_def)
      with ys(2) i show False by blast
    qed
    with ys show ?thesis by blast
  next
    case False
    then have "P = pool S" using call B(1) by (simp add: par_drain_def)
    moreover have fin: "\<forall>x \<in> set (b_task B). t_finished x"
      using phase_of [OF B(2)] c(2) False by (simp add: phase_inv_def)
    moreover have "(b, i) \<notin> set xs" for i
      using finished_not_queued [OF inv B(2,1)] queue_of [OF inv _ B(1)] fin nth_mem by blast
    ultimately show ?thesis using inv B(1) by auto
  qed
  then obtain ys B' where ys: "system_inv wid (S\<lparr>pool := P\<rparr>) ys" "batch_at P b = Some B'"
    "\<forall>i. (b, i) \<notin> set ys" "\<not> b_stopped B' \<longrightarrow> (\<forall>x \<in> set (b_task B'). t_finished x)"
    by blast
  have "system_inv wid (set_phase b Drain (S\<lparr>pool := P\<rparr>)) ys"
    by (rule set_phase_inv [OF ys(1)])
       (use c ys free in \<open>auto simp: phase_inv_def unlinked_def\<close>)
  then show ?thesis by blast
qed

text \<open>Steps that change no task.\<close>

lemma system_inv_frame:
  fixes S S' :: "'v pool_system" and f :: "nat \<Rightarrow> 'v vis_py_batch \<Rightarrow> 'v vis_py_batch"
  assumes inv: "system_inv wid S xs"
    and same: "tasks (pool S') = tasks (pool S)" "waiting (pool S') = waiting (pool S)"
      "calls S' = calls S" "starts S' = starts S"
      "\<And>t. holds (act S') t = holds (act S) t" "\<And>t. runs_task (act S') t = runs_task (act S) t"
      "\<And>b. act S' (Caller b) = act S (Caller b)"
    and batches: "\<And>b. batch_at (pool S') b = map_option (f b) (batch_at (pool S) b)"
      "\<And>b B. length (b_task (f b B)) = length (b_task B)"
      "\<And>b B c. batch_at (pool S) b = Some B \<Longrightarrow> calls S b = Some c \<Longrightarrow> batch_ok wid S xs b B c \<Longrightarrow>
         batch_ok wid S xs b (f b B) c"
  shows "system_inv wid S' xs"
proof -
  have live: "live (pool S') t = live (pool S) t" for t
    using batches(1,2) by (auto simp: live_def)
  have ok: "batch_ok wid S' xs b B c = batch_ok wid S xs b B c" for b B c
    by (simp add: batch_ok_def same)
  have "batch_ok wid S' xs b B' c" if at: "batch_at (pool S') b = Some B'" "calls S' b = Some c" for b B' c
  proof -
    obtain B where "batch_at (pool S) b = Some B" "B' = f b B"
      using at(1) unfolding batches(1) by auto
    then show ?thesis using system_invD(8) [OF inv] batches(3) at(2) same(3) ok by metis
  qed
  then show ?thesis
    using system_invD(1-7) [OF inv] batches(1)
    unfolding system_inv_def live same by auto
qed

lemma step_worker_waits:
  "system_inv wid S xs \<Longrightarrow> act S (Worker w) = Free \<Longrightarrow>
     system_inv wid (S\<lparr>pool := worker_wait (pool S), act := (act S)(Worker w := Waiting)\<rparr>) xs"
  by (rule system_inv_frame [where f = "\<lambda>_ B. B"])
     (auto simp: worker_wait_def act_mem option.map_ident)

lemma step_worker_wakes:
  "system_inv wid S xs \<Longrightarrow> act S (Worker w) = Waiting \<Longrightarrow>
     system_inv wid (S\<lparr>pool := worker_wake (pool S), act := (act S)(Worker w := Free)\<rparr>) xs"
  by (rule system_inv_frame [where f = "\<lambda>_ B. B"])
     (auto simp: worker_wake_def act_mem option.map_ident)

lemma step_start:
  "system_inv wid S xs \<Longrightarrow> vis_py_pool_start ok now p (pool S) l = (r, P, l') \<Longrightarrow>
     system_inv wid (S\<lparr>pool := P\<rparr>) xs"
  by (rule system_inv_frame [where f = "\<lambda>_ B. B"])
     (auto simp: vis_py_pool_start_def Let_def option.map_ident split: if_splits)

definition stop_batch :: "nat \<Rightarrow> nat set \<Rightarrow> nat \<Rightarrow> 'v vis_py_batch \<Rightarrow> 'v vis_py_batch" where
  "stop_batch owner bs b B =
     (if b \<in> bs \<and> b_owner B = owner then B\<lparr>b_stopped := True, b_interrupted := True\<rparr> else B)"

lemma stop_owned_simps [simp]:
  "tasks (stop_owned owner bs P) = tasks P" "waiting (stop_owned owner bs P) = waiting P"
  "batch_at (stop_owned owner bs P) b = map_option (stop_batch owner bs b) (batch_at P b)"
  by (simp_all add: stop_owned_def stop_batch_def cong: map_option_cong)

lemma batch_ok_stop:
  assumes "batch_ok wid S xs b B c" "bs = set (waiting (pool S))"
  shows "batch_ok wid S xs b (stop_batch owner bs b B) c"
proof (cases "b \<in> bs \<and> b_owner B = owner")
  case True
  let ?B = "B\<lparr>b_stopped := True, b_interrupted := True\<rparr>"
  have wt: "\<not> unlinked c" using assms True by (simp add: batch_ok_def batch_inv_def)
  have "counts_inv ?B c" using counts_of [OF assms(1)] by (simp add: counts_inv_def)
  moreover have "phase_inv b (\<lambda>i. (b, i) \<in> set xs) (act S (Caller b)) ?B c"
    using phase_of [OF assms(1)] wt by (auto simp: phase_inv_def unlinked_def split: phase.splits)
  moreover have "task_inv wid ((b, i) \<in> set xs) (holds (act S) (b, i) \<noteq> {}) (runs_task (act S) (b, i))
       (q_next (tasks (pool S)) (b, i)) (starts S (b, i)) (i < par_submitted c) ?B (b_task ?B ! i)"
    if "i < length (b_task ?B)" for i
    using task_inv_batch [OF task_of_batch [OF assms(1)], of i ?B] that by simp
  ultimately show ?thesis
    using assms True wt by (simp add: stop_batch_def batch_ok_def batch_inv_def)
next
  case False
  with assms show ?thesis by (auto simp: stop_batch_def)
qed

lemma interrupt_pool:
  assumes "system_inv wid S xs" "vis_py_interrupt_batches owner cap (pool S) = (named, P)"
  shows "P = stop_owned owner (set (waiting (pool S))) (pool S)"
  using interrupt_loop_spec [OF system_invD(6) [OF assms(1)], of "[]" cap owner "pool S"] assms(2)
  by (simp add: vis_py_interrupt_batches_def)

lemma step_interrupt:
  assumes inv: "system_inv wid S xs" and call: "vis_py_interrupt_batches owner cap (pool S) = (named, P)"
  shows "system_inv wid (S\<lparr>pool := P\<rparr>) xs"
proof -
  have P: "P = stop_owned owner (set (waiting (pool S))) (pool S)" by (rule interrupt_pool [OF assms])
  show ?thesis
    by (rule system_inv_frame [OF inv, where f = "stop_batch owner (set (waiting (pool S)))"])
       (auto simp: P batch_ok_stop, simp add: stop_batch_def)
qed

section \<open>Registering, unlinking and answering\<close>

lemma step_unlink:
  assumes inv: "system_inv wid S xs" and c: "calls S b = Some c" "par_phase c = Unlinking"
    and call: "par_unlink b (pool S) = (k, P)"
  shows "system_inv wid (set_phase b (Unlinked k) (S\<lparr>pool := P\<rparr>)) xs"
proof -
  obtain B where B: "batch_at (pool S) b = Some B" "batch_ok wid S xs b B c"
    using call_batch [OF inv c(1)] by blast
  have P: "k = b_interrupted B" "P = (pool S)\<lparr>waiting := remove1 b (waiting (pool S))\<rparr>"
    using call B(1) by (auto simp: par_unlink_def)
  let ?S = "set_phase b (Unlinked k) (S\<lparr>pool := P\<rparr>)" and ?c = "c\<lparr>par_phase := Unlinked k\<rparr>"
  have dist: "distinct (waiting (pool S))" by (rule system_invD(6) [OF inv])
  have "batch_inv wid b (\<lambda>i. (b, i) \<in> set xs) (\<lambda>i. holds (act S) (b, i) \<noteq> {}) (\<lambda>i. runs_task (act S) (b, i))
       (\<lambda>i. q_next (tasks (pool S)) (b, i)) (\<lambda>i. starts S (b, i)) (act S (Caller b)) False B ?c"
    using B(2) c(2) P(1) by (simp add: batch_ok_def batch_inv_def counts_inv_def phase_inv_def unlinked_def)
  then have ok: "batch_ok wid ?S xs b B ?c"
    using P(2) dist by (simp add: batch_ok_def)
  show ?thesis
    by (rule system_inv_update [OF inv _ _ _ _ _ ok])
       (use P B c dist system_invD(1) [OF inv] queue_of [OF inv _ B(1)] held_of [OF inv _ B(1)] in auto)
qed

lemma no_tasks_left:
  assumes inv: "system_inv wid S xs" and B: "batch_at (pool S) b = Some B" "batch_ok wid S xs b B c"
    and zero: "b_outstanding B = 0"
  shows "(b, i) \<notin> set xs \<and> holds (act S) (b, i) = {}"
proof -
  have "\<not> ((b, i) \<in> set xs \<or> holds (act S) (b, i) \<noteq> {})" if i: "i < length (b_task B)"
    using outstanding_positive [OF B(2) i] task_of_batch [OF B(2) i] zero by (auto simp: task_inv_def)
  then show ?thesis using queue_of [OF inv _ B(1), of i] held_of [OF inv _ B(1), of _ i] by blast
qed

lemma step_answer:
  assumes inv: "system_inv wid S xs" and c: "calls S b = Some c" "par_phase c = Unlinked k"
  shows "system_inv wid
    (S\<lparr>pool := snd (vis_py_batch_free b H (pool S)), calls := (calls S)(b := None)\<rparr>) xs"
proof -
  obtain B where B: "batch_at (pool S) b = Some B" "batch_ok wid S xs b B c"
    using call_batch [OF inv c(1)] by blast
  have zero: "b_outstanding B = 0" "act S (Caller b) = Free" "b \<notin> set (waiting (pool S))"
    using B(2) c(2) by (auto simp: batch_ok_def batch_inv_def phase_inv_def unlinked_def)
  note gone = no_tasks_left [OF inv B zero(1)]
  let ?P = "(pool S)\<lparr>batch_at := (batch_at (pool S))(b := None)\<rparr>"
  have P: "snd (vis_py_batch_free b H (pool S)) = ?P" using B(1) by (simp add: vis_py_batch_free_def)
  let ?S = "S\<lparr>pool := ?P, calls := (calls S)(b := None)\<rparr>"
  have live: "live ?P t" if "live (pool S) t" "fst t \<noteq> b" for t
    using that by (simp add: live_def)
  have ok: "batch_ok wid ?S xs b' B' c' = batch_ok wid S xs b' B' c'" for b' B' c'
    by (simp add: batch_ok_def)
  have "live ?P t \<and> holds (act S) t = {}" if "t \<in> set xs" for t
    using system_invD(2) [OF inv that] gone [of "snd t"] that live [of t] by (cases "fst t = b"; cases t) auto
  moreover have "live ?P t \<and> holds (act S) t = {e}" if "e \<in> holds (act S) t" for e t
    using system_invD(3) [OF inv that] gone [of "snd t"] that live [of t] by (cases "fst t = b"; cases t) auto
  ultimately show ?thesis
    unfolding P system_inv_def ok
    using system_invD(1,4-8) [OF inv] zero by (auto simp del: not_None_eq)
qed

lemma linked_links: "linked nxt node xs \<Longrightarrow> (\<And>x. x \<in> set xs \<Longrightarrow> nxt' x = nxt x) \<Longrightarrow> linked nxt' node xs"
  using linked_cong [of xs nxt' nxt node] by simp

lemma step_register:
  assumes inv: "system_inv wid S xs" and new: "batch_at (pool S) b = None" "2 \<le> n"
  shows "system_inv wid
      (S\<lparr>pool := par_register b n session scan owner (pool S),
         calls := (calls S)(b \<mapsto> \<lparr>par_phase = Loop 0, par_submitted = 0, par_limit = par_quota_of p,
                                par_saturated = False\<rparr>),
         starts := (\<lambda>t. if fst t = b then 0 else starts S t)\<rparr>) xs" (is "system_inv wid ?S xs")
proof -
  have none: "calls S b = None" "act S (Caller b) = Free"
    using system_invD(4,5) [OF inv, of b] new(1) by auto
  have gone: "(b, i) \<notin> set xs" "holds (act S) (b, i) = {}" for i
    using system_invD(2) [OF inv, of "(b, i)"] system_invD(3) [OF inv, of _ "(b, i)"] new(1)
    by (auto simp: live_def)
  then have runs: "runs_task (act S) (b, i) = {}" for i
    using runs_holds [of "act S" "(b, i)"] by simp
  have rep: "represents (tasks (pool ?S)) xs"
    using system_invD(1) [OF inv] gone(1)
    by (auto simp: represents_def par_register_def elim!: linked_links)
  have wait: "b \<notin> set (waiting (pool S))" using system_invD(7) [OF inv, of b] none by blast
  define B :: "'a vis_py_batch" where "B = \<lparr>b_task = replicate n task_zero,
          b_session = snprintf_kept VIS_PY_SESSION_NAME (case session of None \<Rightarrow> [] | Some s \<Rightarrow> s),
          b_budget = scan, b_done = 0, b_outstanding = 0, b_stopped = False, b_interrupted = False,
          b_owner = owner\<rparr>"
  let ?c = "\<lparr>par_phase = Loop 0, par_submitted = 0, par_limit = par_quota_of p, par_saturated = False\<rparr>"
  have ok: "batch_ok wid ?S xs b B ?c"
    using gone runs none new(2) wait
    by (simp add: batch_ok_def batch_inv_def counts_inv_def phase_inv_def task_inv_def unlinked_def B_def
        par_register_def has_outcome_def task_zero_def par_quota_of_def)
  show ?thesis
    by (rule system_inv_update [OF inv rep _ _ _ _ ok])
       (use gone system_invD(6) [OF inv] wait in \<open>auto simp: par_register_def B_def\<close>)
qed

section \<open>The invariant of every reachable system\<close>

text \<open>An executor that skips a task does so because the batch is stopped.\<close>

definition skip_inv :: "'v pool_system \<Rightarrow> bool" where
  "skip_inv S \<longleftrightarrow> (\<forall>e t B. act S e = Skipped t \<longrightarrow> batch_at (pool S) (fst t) = Some B \<longrightarrow> b_stopped B)"

text \<open>No step but a new batch at a free address clears the stop flag.\<close>

definition stops_kept :: "'v vis_py_pool \<Rightarrow> 'v vis_py_pool \<Rightarrow> bool" where
  "stops_kept P P' \<longleftrightarrow> (\<forall>b B'. batch_at P' b = Some B' \<longrightarrow>
     (\<exists>B. batch_at P b = Some B \<and> (b_stopped B \<longrightarrow> b_stopped B')))"

lemma stops_kept_refl [simp]: "stops_kept P P"
  by (simp add: stops_kept_def)

lemma stops_kept_trans: "stops_kept P Q \<Longrightarrow> stops_kept Q R \<Longrightarrow> stops_kept P R"
  unfolding stops_kept_def by blast

lemma stops_kept_update [simp]:
  "(\<And>B. b_stopped B \<Longrightarrow> b_stopped (f B)) \<Longrightarrow> stops_kept P (update_batch b f P)"
  by (auto simp: stops_kept_def)

lemma stops_kept_tasks [simp]:
  "batch_at P' = batch_at P \<Longrightarrow> stops_kept P P'"
  by (simp add: stops_kept_def)

lemma stops_kept_submit: "stops_kept P (snd (par_submit limit b s P))"
proof (induction limit b s P rule: par_submit.induct)
  case (1 limit b s P)
  show ?case
  proof (cases "\<exists>B. batch_at P b = Some B \<and> s < length (b_task B) \<and> int s - int (b_done B) < limit")
    case True
    then obtain B where B: "batch_at P b = Some B" "s < length (b_task B) \<and> int s - int (b_done B) < limit" by blast
    let ?P = "update_batch b (\<lambda>B. B\<lparr>b_outstanding := b_outstanding B + 1\<rparr>) (P\<lparr>tasks := submit_task (b, s) (tasks P)\<rparr>)"
    have "stops_kept P ?P" by (auto simp: stops_kept_def)
    from stops_kept_trans [OF this 1 [OF B]] show ?thesis
      using B by (subst par_submit.simps) simp
  next
    case False
    then have "snd (par_submit limit b s P) = P" by (subst par_submit.simps) (auto split: option.split)
    then show ?thesis by simp
  qed
qed

lemma stops_kept_drop: "par_drop_queued b is P = Some P' \<Longrightarrow> stops_kept P P'"
proof (induction "is" arbitrary: P)
  case (Cons i "is")
  obtain B where B: "batch_at P b = Some B" using Cons.prems by (auto split: option.splits)
  show ?case
  proof (cases "t_finished (b_task B ! i) \<or> par_drop_queued b is P = Some P'")
    case True
    with Cons B show ?thesis by auto
  next
    case False
    with Cons.prems B obtain q where "par_drop_queued b is (update_batch b
          (\<lambda>B. (update_task i (\<lambda>x. x\<lparr>t_finished := True\<rparr>) B)
                 \<lparr>b_done := b_done B + 1, b_outstanding := b_outstanding B - 1\<rparr>) (P\<lparr>tasks := q\<rparr>)) = Some P'"
      (is "par_drop_queued b is ?Q = _")
      by (auto split: option.splits bool.splits)
    from Cons.IH [OF this] have "stops_kept ?Q P'" .
    moreover have "stops_kept P ?Q" by (auto simp: stops_kept_def)
    ultimately show ?thesis by (rule stops_kept_trans [rotated])
  qed
qed simp

lemma stops_kept_drain: "par_drain b s P = Some P' \<Longrightarrow> stops_kept P P'"
  by (auto simp: par_drain_def stops_kept_drop split: option.splits if_splits)

lemma stops_kept_interrupt: "stops_kept P (stop_owned owner bs P)"
  by (auto simp: stops_kept_def stop_batch_def)

lemma stops_kept_free: "stops_kept P (snd (vis_py_batch_free b H P))"
  by (auto simp: stops_kept_def vis_py_batch_free_def split: option.splits if_splits)

definition workers_inv :: "'v pool_system \<Rightarrow> bool" where
  "workers_inv S \<longleftrightarrow> int (running (pool S)) \<le> VIS_PY_WORKERS_MAX
     \<and> (\<forall>w. act S (Worker w) \<noteq> Free \<longrightarrow> w < running (pool S)) \<and> (\<not> started (pool S) \<longrightarrow> running (pool S) = 0)"

definition pool_inv :: "(nat \<Rightarrow> nat) \<Rightarrow> 'v pool_system \<Rightarrow> bool" where
  "pool_inv wid S \<longleftrightarrow> (\<exists>xs. system_inv wid S xs) \<and> skip_inv S \<and> workers_inv S"

lemma submit_frame:
  "par_submit limit b s P = (s', P') \<Longrightarrow> running P' = running P \<and> started P' = started P"
proof (induction limit b s P rule: par_submit.induct)
  case (1 limit b s P)
  then show ?case
    by (subst (asm) (2) par_submit.simps) (auto split: option.splits if_splits)
qed

lemma drop_frame:
  "par_drop_queued b is P = Some P' \<Longrightarrow> running P' = running P \<and> started P' = started P"
  by (induction "is" arbitrary: P) (fastforce split: option.splits if_splits bool.splits)+

lemma task_over_simps [simp]:
  "pool (task_over e t S) = pool S" "act (task_over e t S) = (act S)(e := Free)"
  "starts (task_over e t S) = starts S"
  by (auto simp: task_over_def split: executor.split)

lemma pool_inv_initial: "pool_inv wid initial_system"
proof -
  have "system_inv wid initial_system []"
    by (simp add: system_inv_def initial_system_def initial_pool_def represents_empty live_def holds_def)
  then show ?thesis
    by (auto simp: pool_inv_def skip_inv_def workers_inv_def initial_system_def initial_pool_def
        VIS_PY_WORKERS_MAX_def)
qed

lemma system_inv_step:
  assumes "pool_step wid S S'" "system_inv wid S xs" "skip_inv S"
  shows "\<exists>ys. system_inv wid S' ys"
  using assms(1)
proof (cases rule: pool_step.cases)
  case register
  show ?thesis
    unfolding register(1) using step_register [OF assms(2) register(2,3)] by blast
next
  case start
  with step_start [OF assms(2) start(3)] show ?thesis by auto
next
  case submit
  with step_submit [OF assms(2) submit(2-7)] show ?thesis by auto
next
  case submit_stopped
  with step_submit_stopped [OF assms(2) submit_stopped(2-4,6)] show ?thesis by auto
next
  case loop_end
  with step_loop_end [OF assms(2) loop_end(2-5)] show ?thesis by auto
next
  case claim_now
  with step_claim_now [OF assms(2) claim_now(2-4)] show ?thesis by auto
next
  case time_out
  with step_take_back [OF assms(2) time_out(2,3,4), of True] show ?thesis by auto
next
  case wait_over
  with step_wait_over [OF assms(2) wait_over(2-4)] show ?thesis by auto
next
  case run_begin
  with step_run_begin [OF assms(2) run_begin(2,3)] show ?thesis by auto
next
  case run_stopped
  with step_run_stopped [OF assms(2) run_stopped(2,3)] show ?thesis by auto
next
  case (finish_run e t v x)
  with step_finish [OF assms(2), of e t v x "vis_py_stops_batch x"] show ?thesis by auto
next
  case (finish_skip e t)
  from assms(3) finish_skip(2) have "\<forall>B. batch_at (pool S) (fst t) = Some B \<longrightarrow> b_stopped B"
    unfolding skip_inv_def by blast
  with step_finish [OF assms(2), of e t None None True] finish_skip show ?thesis by auto
next
  case worker_waits
  with step_worker_waits [OF assms(2) worker_waits(2)] show ?thesis by auto
next
  case worker_wakes
  with step_worker_wakes [OF assms(2) worker_wakes(2)] show ?thesis by auto
next
  case worker_claims
  with step_worker_claims [OF assms(2) worker_claims(2,4)] show ?thesis by auto
next
  case settle_now
  with step_settled [OF assms(2) settle_now(2) disjI1 [OF settle_now(3)] settle_now(4)] show ?thesis by auto
next
  case settle_drain
  with step_settle_drain [OF assms(2) settle_drain(2-4)] show ?thesis by auto
next
  case drained
  with step_settled [OF assms(2) drained(2) disjI2 [OF drained(3)] drained(4)] show ?thesis by auto
next
  case unlink
  with step_unlink [OF assms(2) unlink(2-4)] show ?thesis by auto
next
  case answer
  with step_answer [OF assms(2) answer(2,3)] show ?thesis by auto
next
  case interrupt
  with step_interrupt [OF assms(2) interrupt(2)] show ?thesis by auto
qed

lemma stops_kept_step:
  assumes "pool_step wid S S'" "system_inv wid S xs" "batch_at (pool S) b \<noteq> None"
    "batch_at (pool S') b = Some B'"
  shows "\<exists>B. batch_at (pool S) b = Some B \<and> (b_stopped B \<longrightarrow> b_stopped B')"
proof -
  have "stops_kept (pool S) (pool S') \<or> (\<exists>b n session scan owner. batch_at (pool S) b = None
      \<and> pool S' = par_register b n session scan owner (pool S))"
    using assms(1)
  proof (cases rule: pool_step.cases)
    case (register b n p session scan owner)
    have "pool S' = par_register b n session scan owner (pool S)" unfolding register(1) by simp
    with register(2) show ?thesis by blast
  next
    case (submit b c i B s P)
    then show ?thesis using stops_kept_submit [of "pool S" "par_limit c" b "par_submitted c"] by auto
  next
    case (interrupt owner cap named P)
    then show ?thesis using interrupt_pool [OF assms(2) interrupt(2)] by (simp add: stops_kept_interrupt)
  qed (auto simp: vis_py_pool_start_def Let_def par_claims_now_def par_take_back_def task_begin_def
      task_end_def worker_wait_def worker_wake_def worker_claim_def stops_kept_drain par_unlink_def
      stops_kept_free split: if_splits option.splits)
  then show ?thesis
    using assms(3,4) by (auto simp: stops_kept_def par_register_def split: if_splits)
qed

lemma skip_inv_step:
  assumes step: "pool_step wid S S'" and inv: "system_inv wid S xs" "skip_inv S"
  shows "skip_inv S'"
proof -
  have "b_stopped B'" if e: "act S' e = Skipped t" and B': "batch_at (pool S') (fst t) = Some B'" for e t B'
  proof -
    have key: "task_of (act S e) = Some t \<and> (\<forall>B. batch_at (pool S) (fst t) = Some B \<longrightarrow> b_stopped B)"
      if "act S e = Skipped t" for e
      using inv(2) that unfolding skip_inv_def by (metis task_of.simps(2))
    have "task_of (act S e) = Some t \<and> (\<forall>B. batch_at (pool S) (fst t) = Some B \<longrightarrow> b_stopped B)"
      using step
    proof (cases rule: pool_step.cases)
      case (run_stopped e' t' me P)
      show ?thesis
      proof (cases "e' = e")
        case True
        with run_stopped e step_run_stopped [OF inv(1) run_stopped(2,3)] show ?thesis by simp
      next
        case False
        with run_stopped e have "act S e = Skipped t" by simp
        then show ?thesis by (rule key)
      qed
    qed (use e key in \<open>auto split: if_splits\<close>)
    moreover from this obtain B where "batch_at (pool S) (fst t) = Some B"
      using system_invD(3) [OF inv(1), of e t] by (auto simp: holds_act live_def)
    ultimately show ?thesis using stops_kept_step [OF step inv(1) _ B'] by auto
  qed
  then show ?thesis by (auto simp: skip_inv_def)
qed

lemma workers_inv_step:
  assumes "pool_step wid S S'" "workers_inv S"
  shows "workers_inv S'"
  using assms(1)
proof (cases rule: pool_step.cases)
  case (start ok now p l r P l')
  have "create_workers ok (nat (vis_py_worker_target p)) 0 \<le> nat (vis_py_worker_target p)"
    using create_workers_bounds [of 0 ok "nat (vis_py_worker_target p)"] by simp
  then have "int (create_workers ok (nat (vis_py_worker_target p)) 0) \<le> VIS_PY_WORKERS_MAX"
    using worker_target_bounds [of p] by linarith
  with start assms(2) show ?thesis
    by (auto simp: workers_inv_def vis_py_pool_start_def Let_def)
next
  case (submit b c i B s P)
  with submit_frame [OF submit(7)] assms(2) show ?thesis by (simp add: workers_inv_def)
next
  case (settle_drain b c P)
  then show ?thesis
    using assms(2) drop_frame [of b "[0..<par_submitted c]" "pool S" P]
    by (auto simp: workers_inv_def par_drain_def split: option.splits if_splits)
next
  case (interrupt owner cap named P)
  have "running P = running (pool S) \<and> started P = started (pool S)" if
    "interrupt_loop owner cap bs Q nm = (named, P)" "running Q = running (pool S)" "started Q = started (pool S)"
    for bs Q nm
    using that by (induction owner cap bs Q nm rule: interrupt_loop.induct) (auto split: option.splits if_splits)
  with interrupt assms(2) show ?thesis by (auto simp: workers_inv_def vis_py_interrupt_batches_def)
qed (use assms(2) in \<open>auto simp: workers_inv_def par_register_def par_claims_now_def par_take_back_def
      task_begin_def task_end_def worker_wait_def worker_wake_def worker_claim_def par_unlink_def
      vis_py_batch_free_def split: if_splits option.splits\<close>)

lemma pool_inv_reachable: "reachable wid S \<Longrightarrow> pool_inv wid S"
proof (induction rule: reachable.induct)
  case init
  then show ?case by (rule pool_inv_initial)
next
  case (step S S')
  then show ?case
    using system_inv_step skip_inv_step workers_inv_step unfolding pool_inv_def by blast
qed

section \<open>What the invariant gives\<close>

definition in_queue :: "'v pool_system \<Rightarrow> task_id \<Rightarrow> bool" where
  "in_queue S t \<longleftrightarrow> (\<exists>xs. represents (tasks (pool S)) xs \<and> t \<in> set xs)"

text \<open>The tasks of batch \<open>b\<close> a worker can still claim or an executor has in its hands.\<close>

definition pending_tasks :: "'v pool_system \<Rightarrow> nat \<Rightarrow> nat set" where
  "pending_tasks S b = {i. in_queue S (b, i) \<or> (\<exists>e. task_of (act S e) = Some (b, i))}"

lemma in_queue_iff: "system_inv wid S xs \<Longrightarrow> in_queue S t \<longleftrightarrow> t \<in> set xs"
  using wq.reps_function [OF system_invD(1), of wid S xs] system_invD(1) [of wid S xs]
  unfolding in_queue_def by blast

lemma pending_iff:
  "system_inv wid S xs \<Longrightarrow> i \<in> pending_tasks S b \<longleftrightarrow> (b, i) \<in> set xs \<or> holds (act S) (b, i) \<noteq> {}"
  by (auto simp: pending_tasks_def in_queue_iff holds_def)

lemma pending_set:
  assumes inv: "system_inv wid S xs" and B: "batch_at (pool S) b = Some B" "batch_ok wid S xs b B c"
  shows "pending_tasks S b = {i. i < par_submitted c} - {i. i < length (b_task B) \<and> t_finished (b_task B ! i)}"
proof -
  have len: "par_submitted c \<le> length (b_task B)" using counts_of [OF B(2)] by (simp add: counts_inv_def)
  have "i \<in> pending_tasks S b \<longleftrightarrow> i < par_submitted c \<and> \<not> t_finished (b_task B ! i)" if "i < length (b_task B)" for i
    using task_of_batch [OF B(2) that] pending_iff [OF inv] by (simp add: task_inv_def)
  moreover have "i < length (b_task B)" if "i \<in> pending_tasks S b" for i
    using that pending_iff [OF inv] queue_of [OF inv _ B(1)] held_of [OF inv _ B(1)] by blast
  ultimately show ?thesis using len by auto
qed

lemma pending_card:
  assumes inv: "system_inv wid S xs" and B: "batch_at (pool S) b = Some B" "batch_ok wid S xs b B c"
  shows "b_outstanding B = card (pending_tasks S b)"
proof -
  let ?F = "{i. i < length (b_task B) \<and> t_finished (b_task B ! i)}"
  have sub: "?F \<subseteq> {i. i < par_submitted c}"
    using task_of_batch [OF B(2)] by (auto simp: task_inv_def)
  have "card (pending_tasks S b) = par_submitted c - card ?F"
    unfolding pending_set [OF assms] by (subst card_Diff_subset) (use sub in \<open>auto intro: finite_subset\<close>)
  moreover have "card ?F = b_done B"
    using counts_of [OF B(2)] by (simp add: counts_inv_def length_filter_conv_card)
  ultimately show ?thesis using counts_of [OF B(2)] by (auto simp: counts_inv_def)
qed

lemma executor_moves:
  assumes "task_of (act S e) = Some t"
  shows "\<exists>S'. pool_step wid S S' \<and> act S' e \<noteq> act S e"
proof (cases "act S e")
  case (Taken u)
  obtain r P where call: "task_begin (thread_name wid (owner_at (pool S) (fst u)) e) u (pool S) = (r, P)"
    by (metis surj_pair)
  show ?thesis
  proof (cases r)
    case True
    with pool_step.run_stopped [where S = S, OF Taken] call Taken show ?thesis by fastforce
  next
    case False
    with pool_step.run_begin [where S = S, OF Taken] call Taken show ?thesis by fastforce
  qed
next
  case (Skipped u)
  from pool_step.finish_skip [where S = S, OF this, of wid] Skipped show ?thesis by fastforce
next
  case (Running u)
  from pool_step.finish_run [where S = S, OF this, of None "Some keyboard_interrupt" wid] Running
  show ?thesis by fastforce
qed (use assms in auto)

lemma drop_total:
  assumes "system_inv wid S xs" "calls S b = Some c" "par_phase c = Settle"
    "batch_at (pool S) b = Some B" "b_stopped B"
  shows "\<exists>P. par_drop_queued b is (pool S) = Some P"
  using assms
proof (induction "is" arbitrary: S xs B)
  case (Cons i "is")
  note inv = Cons.prems(1)
  show ?case
  proof (cases "t_finished (b_task B ! i) \<or> (b, i) \<notin> set xs")
    case True
    with Cons.IH [OF Cons.prems] Cons.prems(4) wq.remove_law [OF system_invD(1) [OF inv], of "(b, i)"]
    show ?thesis by auto
  next
    case False
    then obtain q where q: "vis_py_unqueue (b, i) (tasks (pool S)) = Some (True, q)"
      using wq.remove_law [OF system_invD(1) [OF inv], of "(b, i)"] by auto
    let ?P = "update_batch b
        (\<lambda>B. (update_task i (\<lambda>x. x\<lparr>t_finished := True\<rparr>) B)
               \<lparr>b_done := b_done B + 1, b_outstanding := b_outstanding B - 1\<rparr>)
        ((pool S)\<lparr>tasks := q\<rparr>)"
    let ?B = "(update_task i (\<lambda>x. x\<lparr>t_finished := True\<rparr>) B)
               \<lparr>b_done := b_done B + 1, b_outstanding := b_outstanding B - 1\<rparr>"
    from False have nf: "\<not> t_finished (b_task B ! i)" by blast
    note one = conjunct2 [OF drop_one [OF inv Cons.prems(2-5) nf q]]
    have "\<exists>P. par_drop_queued b is (pool (S\<lparr>pool := ?P\<rparr>)) = Some P"
      using one Cons.prems by (intro Cons.IH [where B = ?B]) auto
    then show ?thesis using q nf Cons.prems(4) by simp
  qed
qed simp

section \<open>Properties\<close>

text \<open>C4: In every reachable state of the pool, whatever workers, callers and the host's interrupt did
  before, the counters of a batch are exact: \<open>done\<close> is the number of finished tasks, \<open>outstanding\<close>
  the number of tasks still queued or in the hands of an executor, together they are the tasks
  submitted so far, and never more than the quota are outstanding.\<close>

theorem batch_counters_exact:
  assumes "reachable wid S" "batch_at (pool S) b = Some B" "calls S b = Some c"
  shows "b_done B = length [x \<leftarrow> b_task B. t_finished x]
    \<and> b_outstanding B = card (pending_tasks S b) \<and> b_done B + b_outstanding B = par_submitted c
    \<and> int (b_outstanding B) \<le> par_limit c"
proof -
  obtain xs where inv: "system_inv wid S xs"
    using pool_inv_reachable [OF assms(1)] by (auto simp: pool_inv_def)
  note ok = system_invD(8) [OF inv assms(2,3)]
  show ?thesis using pending_card [OF inv assms(2) ok] counts_of [OF ok] by (simp add: counts_inv_def)
qed

text \<open>A reachable state used as a witness: a batch of two thunks registered by thread 7.\<close>

definition witness_pool :: "nat pool_system" where
  "witness_pool =
     (let S = initial_system :: nat pool_system
      in S\<lparr>pool := par_register 0 2 None None 7 (pool S),
           calls := (calls S)(0 \<mapsto> \<lparr>par_phase = Loop 0, par_submitted = 0,
             par_limit = par_quota_of initial_thread_policy, par_saturated = False\<rparr>),
           starts := (\<lambda>t. if fst t = 0 then 0 else starts S t)\<rparr>)"

lemma witness_pool_reachable: "reachable wid witness_pool"
  unfolding witness_pool_def Let_def
  by (rule reachable.step [OF reachable.init pool_step.register])
     (simp_all add: initial_system_def initial_pool_def)

lemma witness_pool_batch:
  "batch_at (pool witness_pool) 0 = Some \<lparr>b_task = [task_zero, task_zero], b_session = [], b_budget = None,
     b_done = 0, b_outstanding = 0, b_stopped = False, b_interrupted = False, b_owner = 7\<rparr>"
  "calls witness_pool 0 = Some \<lparr>par_phase = Loop 0, par_submitted = 0, par_limit = 8, par_saturated = False\<rparr>"
  by (simp_all add: witness_pool_def Let_def par_register_def snprintf_kept_def numeral_2_eq_2 par_quota_of_def
      initial_thread_policy_def VIS_PY_PAR_QUOTA_def)

theorem batch_counters_exact_witness: "card (pending_tasks witness_pool 0) = 0"
  using batch_counters_exact [OF witness_pool_reachable witness_pool_batch] by simp

text \<open>C5: Nothing touches a batch once its \<open>par\<close> is about to answer or has answered: when the batch is
  unlinked or freed no task of it is queued and no thread has one, so neither a worker nor the host's
  interrupt can reach freed memory.\<close>

theorem answered_batch_untouched:
  assumes "reachable wid S"
    "batch_at (pool S) b = None \<or> (\<exists>c k. calls S b = Some c \<and> par_phase c = Unlinked k)"
  shows "pending_tasks S b = {} \<and> b \<notin> set (waiting (pool S))"
proof -
  obtain xs where inv: "system_inv wid S xs"
    using pool_inv_reachable [OF assms(1)] by (auto simp: pool_inv_def)
  from assms(2) show ?thesis
  proof
    assume none: "batch_at (pool S) b = None"
    then have "\<not> live (pool S) (b, i)" for i by (simp add: live_def)
    then have "pending_tasks S b = {}"
      using pending_iff [OF inv] system_invD(2,3) [OF inv] by blast
    with none system_invD(4,7) [OF inv] show ?thesis by blast
  next
    assume "\<exists>c k. calls S b = Some c \<and> par_phase c = Unlinked k"
    then obtain c k where c: "calls S b = Some c" "par_phase c = Unlinked k" by blast
    obtain B where B: "batch_at (pool S) b = Some B" "batch_ok wid S xs b B c"
      using call_batch [OF inv c(1)] by blast
    have "b_outstanding B = 0" "b \<notin> set (waiting (pool S))"
      using B(2) c(2) by (auto simp: batch_ok_def batch_inv_def phase_inv_def unlinked_def)
    with no_tasks_left [OF inv B] pending_iff [OF inv] show ?thesis by blast
  qed
qed

theorem answered_batch_untouched_witness: "pending_tasks witness_pool 1 = {}"
proof -
  have "batch_at (pool witness_pool) 1 = None"
    by (simp add: witness_pool_def Let_def par_register_def initial_system_def initial_pool_def)
  from answered_batch_untouched [OF witness_pool_reachable disjI1 [OF this]] show ?thesis by (rule conjunct1)
qed

text \<open>C6: No thunk is called twice, and once its batch is stopped, by a thunk's interrupt or by the
  host's, no thunk of it is started any more, whichever thread holds it.\<close>

theorem thunks_start_once_and_not_after_stop:
  assumes "reachable wid S" "batch_at (pool S) b = Some B" "i < length (b_task B)"
  shows "starts S (b, i) \<le> 1
    \<and> (b_stopped B \<longrightarrow> (\<forall>S'. pool_step wid S S' \<longrightarrow> starts S' (b, i) = starts S (b, i)
         \<and> (\<forall>B'. batch_at (pool S') b = Some B' \<longrightarrow> b_stopped B')))"
proof -
  obtain xs where inv: "system_inv wid S xs"
    using pool_inv_reachable [OF assms(1)] by (auto simp: pool_inv_def)
  obtain c where c: "calls S b = Some c"
    using system_invD(4) [OF inv, of b] assms(2) by (cases "calls S b") auto
  have "starts S (b, i) \<le> 1"
    using task_of_batch [OF system_invD(8) [OF inv assms(2) c] assms(3)] by (simp add: task_inv_def)
  moreover have "starts S' (b, i) = starts S (b, i)" if "b_stopped B" "pool_step wid S S'" for S'
    using that(2)
  proof (cases rule: pool_step.cases)
    case (register b' n p session scan owner)
    with assms(2) have "b' \<noteq> b" by auto
    with register(1) show ?thesis by simp
  next
    case (run_begin e t P)
    then have "t \<noteq> (b, i)" using assms(2) that(1) by (auto simp: task_begin_def)
    with run_begin(1) show ?thesis by simp
  qed (simp_all add: set_phase_def)
  moreover have "b_stopped B'" if "b_stopped B" "pool_step wid S S'" "batch_at (pool S') b = Some B'" for S' B'
    using stops_kept_step [OF that(2) inv _ that(3)] assms(2) that(1) by auto
  ultimately show ?thesis by blast
qed

theorem thunks_start_once_and_not_after_stop_witness: "starts witness_pool (0, 1) \<le> 1"
  using thunks_start_once_and_not_after_stop [OF witness_pool_reachable witness_pool_batch(1), of 1] by simp

lemma finished_outcome:
  assumes ok: "batch_ok wid S xs b B c" and i: "i < length (b_task B)" "t_finished (b_task B ! i)"
      "\<not> b_stopped B"
  shows "has_outcome (b_task B ! i) \<and> starts S (b, i) = 1
    \<and> (t_value (b_task B ! i) = None \<longleftrightarrow> t_error (b_task B ! i) \<noteq> None)"
  using task_of_batch [OF ok i(1)] i(2,3) by (simp add: task_inv_def)

text \<open>The choice between the exceptions of a batch: the first that stops one, else an interrupt by the host, else the
  first failure.\<close>

lemma par_result_spec:
  "par_result ts k =
     (case find vis_py_stops_batch (map t_error ts) of
        Some e \<Rightarrow> Inl (the e)
      | None \<Rightarrow> if k then Inl keyboard_interrupt
          else (case find (\<lambda>e. e \<noteq> None) (map t_error ts) of Some e \<Rightarrow> Inl (the e) | None \<Rightarrow> Inr (map t_value ts)))"
proof -
  let ?es = "map t_error ts"
  note R = par_choose_raises [of ?es]
  have some: "find vis_py_stops_batch ?es = Some e \<Longrightarrow> \<exists>x. e = Some x \<and> vis_py_stops_batch (Some x)" for e
  proof -
    assume "find vis_py_stops_batch ?es = Some e"
    then have "vis_py_stops_batch e" by (auto simp: find_Some_iff)
    then show ?thesis by (cases e) (simp_all add: vis_py_stops_batch_def)
  qed
  have fail: "find (\<lambda>e. e \<noteq> None) ?es = Some e \<Longrightarrow> \<exists>x. e = Some x" for e by (auto simp: find_Some_iff)
  have none: "find vis_py_stops_batch ?es = None \<Longrightarrow> x \<in> set ?es \<Longrightarrow> \<not> vis_py_stops_batch x" for x
    by (auto simp: find_None_iff)
  show ?thesis
  proof (cases "par_choose ?es 0 None")
    case None
    then have "batch_raises ?es = None" using R by simp
    then show ?thesis
      using None some fail by (auto simp: par_result_def batch_raises_def split: option.splits)
  next
    case (Some j)
    then have j: "?es ! j = batch_raises ?es" "j < length ?es" "?es ! j \<noteq> None"
      using R par_choose_error [of None "[]" ?es j] by auto
    show ?thesis
    proof (cases "find vis_py_stops_batch ?es")
      case (Some e)
      with some obtain x where x: "e = Some x" "vis_py_stops_batch (Some x)" by blast
      with Some have "?es ! j = Some x" unfolding j(1) by (simp add: batch_raises_def)
      with \<open>par_choose ?es 0 None = Some j\<close> x Some show ?thesis by (simp add: par_result_def Let_def)
    next
      case free: None
      have "\<not> vis_py_stops_batch (?es ! j)" using none [OF free] j(2) by (metis nth_mem)
      moreover have "(case find (\<lambda>e. e \<noteq> None) ?es of Some e \<Rightarrow> e | None \<Rightarrow> None) = ?es ! j"
        using j(1) free by (simp add: batch_raises_def)
      ultimately show ?thesis
        using Some free j(3) by (auto simp: par_result_def Let_def split: option.splits)
    qed
  qed
qed

text \<open>What stops a batch, and what raises, as positions.\<close>

lemma find_first: "find P es = Some e \<longleftrightarrow> (\<exists>i < length es. es ! i = e \<and> P e \<and> (\<forall>j < i. \<not> P (es ! j)))"
  by (auto simp: find_Some_iff)

lemma par_result_raises:
  assumes "par_result ts k = Inl e"
  shows "(\<exists>i < length ts. t_error (ts ! i) = Some e \<and> vis_py_stops_batch (Some e) \<and> (\<forall>j < i. \<not> vis_py_stops_batch (t_error (ts ! j))))
    \<or> (\<forall>x \<in> set ts. \<not> vis_py_stops_batch (t_error x))
      \<and> (if k then e = keyboard_interrupt
         else \<exists>i < length ts. t_error (ts ! i) = Some e \<and> (\<forall>j < i. t_error (ts ! j) = None))"
proof (cases "find vis_py_stops_batch (map t_error ts)")
  case (Some x)
  with find_stops_Some [of "map t_error ts"] assms have x: "x = Some e" by (auto simp: par_result_spec)
  from Some obtain i where "i < length ts" "t_error (ts ! i) = x" "vis_py_stops_batch x"
    "\<forall>j < i. \<not> vis_py_stops_batch (map t_error ts ! j)" unfolding find_first by auto
  with x have "i < length ts \<and> t_error (ts ! i) = Some e \<and> vis_py_stops_batch (Some e)
      \<and> (\<forall>j < i. \<not> vis_py_stops_batch (t_error (ts ! j)))" by auto
  then show ?thesis by blast
next
  case None
  then have free: "\<forall>x \<in> set ts. \<not> vis_py_stops_batch (t_error x)" by (simp add: find_None_iff)
  show ?thesis
  proof (cases k)
    case True
    with assms None free show ?thesis by (simp add: par_result_spec)
  next
    case False
    with assms None obtain x where x: "find (\<lambda>e. e \<noteq> None) (map t_error ts) = Some x" "the x = e"
      by (auto simp: par_result_spec split: option.splits)
    then obtain i where "i < length ts" "t_error (ts ! i) = Some e" "\<forall>j < i. t_error (ts ! j) = None"
      unfolding find_first by auto
    with free False show ?thesis by auto
  qed
qed

text \<open>C7: What \<open>par\<close> answers, when it answers: a list only if the host did not interrupt it, and then one
  value per thunk, in order, every thunk having been called exactly once.  Otherwise it raises: the exception of the
  first thunk, in the order of the list, that ended by one that stops a batch (an interrupt or an exit); when there is
  none, a fresh \<open>KeyboardInterrupt\<close> if the host interrupted the batch, and the failure of the first thunk that
  failed if not.  It never answers a list with a hole for a thunk that did not run.\<close>

theorem par_answers_every_value_or_raises:
  assumes "reachable wid S" "calls S b = Some c" "par_phase c = Unlinked k" "batch_at (pool S) b = Some B"
  shows "case par_result (b_task B) k of
      Inr vs \<Rightarrow> \<not> k \<and> length vs = length (b_task B)
        \<and> (\<forall>i < length (b_task B). vs ! i \<noteq> None \<and> vs ! i = t_value (b_task B ! i) \<and> starts S (b, i) = 1)
    | Inl e \<Rightarrow>
        (\<exists>i < length (b_task B). t_error (b_task B ! i) = Some e \<and> vis_py_stops_batch (Some e)
          \<and> (\<forall>j < i. \<not> vis_py_stops_batch (t_error (b_task B ! j))))
        \<or> (\<forall>x \<in> set (b_task B). \<not> vis_py_stops_batch (t_error x))
          \<and> (if k then e = keyboard_interrupt
             else \<exists>i < length (b_task B). t_error (b_task B ! i) = Some e \<and> (\<forall>j < i. t_error (b_task B ! j) = None))"
proof (cases "par_result (b_task B) k")
  case (Inl e)
  then show ?thesis using par_result_raises [OF Inl] by simp
next
  case (Inr vs)
  obtain xs where inv: "system_inv wid S xs"
    using pool_inv_reachable [OF assms(1)] by (auto simp: pool_inv_def)
  note ok = system_invD(8) [OF inv assms(4,2)]
  have ph: "k = b_interrupted B" "\<not> b_stopped B \<longrightarrow> (\<forall>x \<in> set (b_task B). t_finished x)"
    using phase_of [OF ok] assms(3) by (auto simp: phase_inv_def)
  have free: "\<forall>x \<in> set (b_task B). t_error x = None" and k: "\<not> k" and vs: "vs = map t_value (b_task B)"
    using Inr by (auto simp: par_result_spec find_None_iff split: option.splits if_splits)
  have "\<not> b_stopped B"
  proof
    assume "b_stopped B"
    then obtain x where "x \<in> set (b_task B)" "vis_py_stops_batch (t_error x)"
      using counts_of [OF ok] ph(1) k by (auto simp: counts_inv_def)
    with free have "vis_py_stops_batch None" by metis
    then show False using find_stops_Some [of "[None]"] by simp
  qed
  then have "starts S (b, i) = 1 \<and> t_value (b_task B ! i) \<noteq> None" if "i < length (b_task B)" for i
    using finished_outcome [OF ok that] ph(2) free that by simp
  then show ?thesis using Inr k by (simp add: vs)
qed

text \<open>The witness: the batch above, interrupted by the host before it submitted anything.\<close>

definition witness_stopped :: "nat pool_system" where
  "witness_stopped = witness_pool\<lparr>pool := snd (vis_py_interrupt_batches 7 64 (pool witness_pool))\<rparr>"

definition witness_unlinked :: "nat pool_system" where
  "witness_unlinked =
     (let S = set_phase 0 Unlinking (set_phase 0 Settle witness_stopped)
      in set_phase 0 (Unlinked True) (S\<lparr>pool := snd (par_unlink 0 (pool S))\<rparr>))"

lemma witness_stopped_batch:
  "batch_at (pool witness_stopped) 0 = Some \<lparr>b_task = [task_zero, task_zero], b_session = [], b_budget = None,
     b_done = 0, b_outstanding = 0, b_stopped = True, b_interrupted = True, b_owner = 7\<rparr>"
  "calls witness_stopped 0 = Some \<lparr>par_phase = Loop 0, par_submitted = 0, par_limit = 8, par_saturated = False\<rparr>"
  using witness_pool_batch
  by (simp_all add: witness_stopped_def vis_py_interrupt_batches_def)
     (simp add: witness_pool_def Let_def par_register_def initial_system_def initial_pool_def)

lemma witness_unlinked_reachable: "reachable wid witness_unlinked"
proof -
  have r1: "reachable wid witness_stopped"
    unfolding witness_stopped_def
    by (rule reachable.step [OF witness_pool_reachable pool_step.interrupt [where named = "fst (vis_py_interrupt_batches 7 64 (pool witness_pool))"]])
       simp
  have r2: "reachable wid (set_phase 0 Settle witness_stopped)"
    by (rule reachable.step [OF r1 pool_step.submit_stopped [OF witness_stopped_batch(2) _ witness_stopped_batch(1)]])
       auto
  have r3: "reachable wid (set_phase 0 Unlinking (set_phase 0 Settle witness_stopped))"
    by (rule reachable.step [OF r2 pool_step.settle_now])
       (use witness_stopped_batch in \<open>auto simp: par_settled_def\<close>)
  show ?thesis
    unfolding witness_unlinked_def Let_def
    by (rule reachable.step [OF r3 pool_step.unlink])
       (use witness_stopped_batch in \<open>auto simp: par_unlink_def\<close>)
qed

theorem par_answers_every_value_or_raises_witness:
  "par_result [task_zero, task_zero :: nat vis_py_task] True = Inl keyboard_interrupt"
proof -
  have S: "calls witness_unlinked 0 = Some \<lparr>par_phase = Unlinked True, par_submitted = 0, par_limit = 8, par_saturated = False\<rparr>"
    "batch_at (pool witness_unlinked) 0 = Some \<lparr>b_task = [task_zero, task_zero], b_session = [], b_budget = None,
     b_done = 0, b_outstanding = 0, b_stopped = True, b_interrupted = True, b_owner = 7\<rparr>"
    using witness_stopped_batch by (simp_all add: witness_unlinked_def Let_def par_unlink_def)
  from par_answers_every_value_or_raises [OF witness_unlinked_reachable S(1) _ S(2), of True]
  show ?thesis by (auto simp: task_zero_def nth_Cons' split: sum.splits if_splits)
qed

text \<open>Naming the runners: how long the list of runners gets.\<close>

lemma runner_task:
  assumes inv: "system_inv wid S xs" and B: "batch_at (pool S) b = Some B" "i < length (b_task B)"
    and r: "t_runner (b_task B ! i) \<noteq> 0"
  shows "\<exists>e. act S e = Running (b, i) \<and> t_runner (b_task B ! i) = thread_name wid (b_owner B) e"
proof -
  obtain c where c: "calls S b = Some c"
    using system_invD(4) [OF inv, of b] B(1) by (cases "calls S b") auto
  from task_of_batch [OF system_invD(8) [OF inv B(1) c] B(2)] r
  show ?thesis by (auto simp: task_inv_def runs_task_def)
qed

definition runner_slots :: "nat \<Rightarrow> 'v vis_py_pool \<Rightarrow> nat \<Rightarrow> nat set" where
  "runner_slots owner P b =
     (case batch_at P b of None \<Rightarrow> {}
      | Some B \<Rightarrow> {i. i < length (b_task B) \<and> b_owner B = owner \<and> t_runner (b_task B ! i) \<noteq> 0
                     \<and> t_runner (b_task B ! i) \<noteq> owner})"

lemma length_runners_of: "length (runners_of owner P b) = card (runner_slots owner P b)"
  by (auto simp: runners_of_def runner_slots_def length_filter_conv_card filter_map comp_def
      cong: conj_cong split: option.split)

lemma runners_bounded:
  assumes inv: "system_inv wid S xs" and w: "workers_inv S"
  shows "length (concat (map (runners_of owner (pool S)) (waiting (pool S)))) \<le> running (pool S)"
proof -
  let ?T = "Sigma (set (waiting (pool S))) (runner_slots owner (pool S))"
  have "length (concat (map (runners_of owner (pool S)) (waiting (pool S))))
      = (\<Sum>b \<leftarrow> waiting (pool S). card (runner_slots owner (pool S) b))"
    by (simp add: length_concat comp_def length_runners_of)
  also have "\<dots> = (\<Sum>b \<in> set (waiting (pool S)). card (runner_slots owner (pool S) b))"
    using system_invD(6) [OF inv] by (rule sum_list_distinct_conv_sum_set)
  also have "\<dots> = card ?T"
    by (rule card_SigmaI [symmetric]) (auto simp: runner_slots_def split: option.split)
  also have "\<dots> \<le> card {..<running (pool S)}"
  proof -
    define worker where "worker t = (SOME w. act S (Worker w) = Running t)" for t
    have has: "\<exists>w. act S (Worker w) = Running t" if t: "t \<in> ?T" for t
    proof -
      obtain b i B where b: "t = (b, i)" "batch_at (pool S) b = Some B" "i < length (b_task B)"
        "b_owner B = owner" "t_runner (b_task B ! i) \<noteq> 0" "t_runner (b_task B ! i) \<noteq> owner"
        using t by (auto simp: runner_slots_def split: option.splits)
      obtain e where e: "act S e = Running (b, i)" "t_runner (b_task B ! i) = thread_name wid owner e"
        using runner_task [OF inv b(2,3,5)] b(4) by blast
      with b(6) show ?thesis unfolding b(1) by (cases e) (auto simp: thread_name_def)
    qed
    have run: "act S (Worker (worker t)) = Running t" if "t \<in> ?T" for t
      unfolding worker_def using has [OF that] by (rule someI_ex)
    have "inj_on worker ?T"
      by (rule inj_onI) (metis run activity.inject(3))
    moreover have "worker ` ?T \<subseteq> {..<running (pool S)}"
    proof
      fix w' assume "w' \<in> worker ` ?T"
      then obtain t where "t \<in> ?T" "w' = worker t" by blast
      then have "act S (Worker w') \<noteq> Free" using run [of t] by simp
      with w show "w' \<in> {..<running (pool S)}" by (auto simp: workers_inv_def)
    qed
    ultimately show ?thesis by (intro card_inj_on_le [where f = worker]) auto
  qed
  finally show ?thesis by simp
qed

text \<open>The host's interrupt reaches every thunk of the interrupted thread: each other thread that runs
  a thunk of a batch that thread waits on is in the list of threads to raise in, which at its 64
  places is never too short, and every batch that thread waits on is stopped afterwards.\<close>

theorem interrupt_reaches_every_running_thunk:
  assumes "reachable wid S" "b \<in> set (waiting (pool S))" "batch_at (pool S) b = Some B" "b_owner B = owner"
    "vis_py_interrupt_batches owner (nat VIS_PY_WORKERS_MAX) (pool S) = (named, P)"
  shows "(\<forall>w i. act S (Worker w) = Running (b, i) \<longrightarrow> wid w \<noteq> 0 \<longrightarrow> wid w \<noteq> owner \<longrightarrow> wid w \<in> set named)
    \<and> (\<exists>B'. batch_at P b = Some B' \<and> b_stopped B' \<and> b_interrupted B')"
proof -
  obtain xs where inv: "system_inv wid S xs" and w: "workers_inv S"
    using pool_inv_reachable [OF assms(1)] by (auto simp: pool_inv_def)
  let ?L = "concat (map (runners_of owner (pool S)) (waiting (pool S)))"
  have "length ?L \<le> nat VIS_PY_WORKERS_MAX"
    using runners_bounded [OF inv w, of owner] w by (simp add: workers_inv_def VIS_PY_WORKERS_MAX_def)
  then have named: "named = ?L"
    using interrupt_loop_spec [OF system_invD(6) [OF inv], of "[]" "nat VIS_PY_WORKERS_MAX" owner "pool S"] assms(5)
    by (simp add: vis_py_interrupt_batches_def)
  have "wid v \<in> set named" if v: "act S (Worker v) = Running (b, i)" "wid v \<noteq> 0" "wid v \<noteq> owner" for v i
  proof -
    obtain c where c: "batch_ok wid S xs b B c" "i < length (b_task B)"
      using task_held [OF inv, of "Worker v" b i] v(1) assms(3) by auto
    have "t_runner (b_task B ! i) = wid v"
      using task_of_batch [OF c] v(1) by (auto simp: task_inv_def runs_task_def thread_name_def)
    then have "wid v \<in> set (map t_runner (b_task B))" using c(2) by (auto intro!: image_eqI [of _ _ "b_task B ! i"])
    with v assms(3,4) have "wid v \<in> set (runners_of owner (pool S) b)" by (auto simp: runners_of_def)
    with named assms(2) show ?thesis by auto
  qed
  moreover have "P = stop_owned owner (set (waiting (pool S))) (pool S)"
    by (rule interrupt_pool [OF inv assms(5)])
  ultimately show ?thesis using assms(2-4) by (auto simp: stop_batch_def)
qed

theorem interrupt_reaches_every_running_thunk_witness:
  "\<exists>B'. batch_at (snd (vis_py_interrupt_batches 7 (nat VIS_PY_WORKERS_MAX) (pool witness_pool))) 0 = Some B' \<and> b_stopped B'"
proof -
  have "0 \<in> set (waiting (pool witness_pool))" by (simp add: witness_pool_def Let_def par_register_def)
  from interrupt_reaches_every_running_thunk [OF witness_pool_reachable this witness_pool_batch(1), of 7
      "fst (vis_py_interrupt_batches 7 (nat VIS_PY_WORKERS_MAX) (pool witness_pool))"
      "snd (vis_py_interrupt_batches 7 (nat VIS_PY_WORKERS_MAX) (pool witness_pool))" id]
  show ?thesis by auto
qed

text \<open>A step of the call itself, or of a thread that has one of its tasks.\<close>

definition can_move :: "(nat \<Rightarrow> nat) \<Rightarrow> 'v pool_system \<Rightarrow> nat \<Rightarrow> bool" where
  "can_move wid S b \<longleftrightarrow> (\<exists>S'. pool_step wid S S'
    \<and> (calls S' b \<noteq> calls S b \<or> (\<exists>e i. task_of (act S e) = Some (b, i) \<and> act S' e \<noteq> act S e)))"

lemma call_moves: "pool_step wid S S' \<Longrightarrow> calls S' b \<noteq> calls S b \<Longrightarrow> can_move wid S b"
  by (auto simp: can_move_def)

lemma phase_moves:
  assumes "calls S b = Some c" "pool_step wid S (set_phase b p T)" "calls T b = calls S b" "p \<noteq> par_phase c"
  shows "can_move wid S b"
proof -
  have "c\<lparr>par_phase := p\<rparr> \<noteq> c" using assms(4) by (auto dest: arg_cong [of _ _ par_phase])
  with assms show ?thesis by (intro call_moves [OF assms(2)]) auto
qed

lemma holder_moves: "e \<in> holds (act S) (b, i) \<Longrightarrow> can_move wid S b"
  using executor_moves [of S e "(b, i)" wid] by (auto simp: holds_act can_move_def)

lemma loop_moves:
  assumes c: "calls S b = Some c" "par_phase c = Loop i" and B: "batch_at (pool S) b = Some B"
  shows "can_move wid S b"
proof -
  consider "length (b_task B) \<le> i" | "i < length (b_task B)" "b_stopped B"
    | "i < length (b_task B)" "\<not> b_stopped B" by linarith
  then show ?thesis
  proof cases
    case 1
    from phase_moves [OF c(1) pool_step.loop_end [OF c B 1]] c(2) show ?thesis by simp
  next
    case 2
    from phase_moves [OF c(1) pool_step.submit_stopped [OF c B 2]] c(2) show ?thesis by simp
  next
    case 3
    obtain s P where "par_submit (par_limit c) b (par_submitted c) (pool S) = (s, P)" by (metis surj_pair)
    from pool_step.submit [OF c B 3 this, of wid] c show ?thesis
      by (elim call_moves) (auto dest: arg_cong [of _ _ par_phase])
  qed
qed

lemma wait_moves:
  assumes inv: "system_inv wid S xs" and c: "calls S b = Some c" "par_phase c = Wait i"
    and B: "batch_at (pool S) b = Some B" "batch_ok wid S xs b B c"
  shows "can_move wid S b"
proof (cases "par_wait_over b i (pool S)")
  case True
  from phase_moves [OF c(1) pool_step.wait_over [OF c True]] c(2) show ?thesis by simp
next
  case False
  note ph = phase_of [OF B(2)]
  have i: "i < length (b_task B)" using ph c(2) by (simp add: phase_inv_def)
  have "i < par_submitted c" "\<not> t_finished (b_task B ! i)"
    using False ph c(2) B(1) by (auto simp: phase_inv_def par_wait_over_def)
  with task_of_batch [OF B(2) i] consider "(b, i) \<in> set xs" | e where "e \<in> holds (act S) (b, i)"
    by (auto simp: task_inv_def)
  then show ?thesis
  proof cases
    case 1
    with wq.remove_law [OF system_invD(1) [OF inv], of "(b, i)"] obtain P where
      "par_take_back b i (pool S) = Some (True, P)" by (auto simp: par_take_back_def)
    from pool_step.time_out [OF c this, of wid] c show ?thesis
      by (elim call_moves) (auto dest: arg_cong [of _ _ par_phase])
  qed (rule holder_moves)
qed

lemma settle_moves:
  assumes inv: "system_inv wid S xs" and c: "calls S b = Some c" "par_phase c = Settle" and B: "batch_at (pool S) b = Some B"
  shows "can_move wid S b"
proof (cases "par_settled b (pool S)")
  case True
  from phase_moves [OF c(1) pool_step.settle_now [OF c True]] c(2) show ?thesis by simp
next
  case False
  have "\<exists>P. par_drain b (par_submitted c) (pool S) = Some P"
    using drop_total [OF inv c B] B by (auto simp: par_drain_def)
  then obtain P where "par_drain b (par_submitted c) (pool S) = Some P" by blast
  from phase_moves [OF c(1) pool_step.settle_drain [OF c this]] c(2) show ?thesis by simp
qed

lemma drain_moves:
  assumes inv: "system_inv wid S xs" and c: "calls S b = Some c" "par_phase c = Drain"
    and B: "batch_at (pool S) b = Some B" "batch_ok wid S xs b B c"
  shows "can_move wid S b"
proof (cases "par_settled b (pool S)")
  case True
  from phase_moves [OF c(1) pool_step.drained [OF c True]] c(2) show ?thesis by simp
next
  case False
  then have "card (pending_tasks S b) \<noteq> 0"
    using pending_card [OF inv B] B(1) by (simp add: par_settled_def)
  then obtain i where "i \<in> pending_tasks S b" by (metis card.empty equals0I)
  then obtain e where "e \<in> holds (act S) (b, i)"
    using pending_iff [OF inv] phase_of [OF B(2)] c(2) by (auto simp: phase_inv_def)
  then show ?thesis by (rule holder_moves)
qed

text \<open>C8: No \<open>par\<close> call is ever stuck: in every reachable state with a call in progress, whether or not the
  pool has a worker, the call itself can take its next step or a thread that has one of its tasks
  can take one. The caller's own thread runs what no worker takes, so a busy or empty pool never
  blocks a call (a thunk is assumed to return).\<close>

theorem par_is_never_stuck:
  assumes "reachable wid S" "calls S b = Some c"
  shows "\<exists>S'. pool_step wid S S'
    \<and> (calls S' b \<noteq> calls S b \<or> (\<exists>e i. task_of (act S e) = Some (b, i) \<and> act S' e \<noteq> act S e))"
proof -
  obtain xs where inv: "system_inv wid S xs"
    using pool_inv_reachable [OF assms(1)] by (auto simp: pool_inv_def)
  obtain B where B: "batch_at (pool S) b = Some B" "batch_ok wid S xs b B c"
    using call_batch [OF inv assms(2)] by blast
  have "can_move wid S b"
  proof (cases "par_phase c")
    case (Loop i)
    with loop_moves [OF assms(2)] B(1) show ?thesis by blast
  next
    case (Wait i)
    with wait_moves [OF inv assms(2)] B show ?thesis by blast
  next
    case (Exec i)
    then show ?thesis
      using phase_of [OF B(2)] holder_moves [of "Caller b" S b i wid] by (simp add: phase_inv_def holds_act)
  next
    case Settle
    with settle_moves [OF inv assms(2)] B(1) show ?thesis by blast
  next
    case Drain
    with drain_moves [OF inv assms(2)] B show ?thesis by blast
  next
    case Unlinking
    obtain k P where "par_unlink b (pool S) = (k, P)" by (metis surj_pair)
    from phase_moves [OF assms(2) pool_step.unlink [OF assms(2) Unlinking this]] Unlinking show ?thesis by simp
  next
    case (Unlinked k)
    from pool_step.answer [OF assms(2) Unlinked, of wid "\<lambda>_. undefined"] assms(2) show ?thesis
      by (elim call_moves) auto
  qed
  then show ?thesis by (simp add: can_move_def)
qed

theorem par_is_never_stuck_witness:
  "\<exists>S'. pool_step (\<lambda>w. 100 + w) witness_pool S'
    \<and> (calls S' 0 \<noteq> calls witness_pool 0 \<or> (\<exists>e i. task_of (act witness_pool e) = Some (0, i) \<and> act S' e \<noteq> act witness_pool e))"
  by (rule par_is_never_stuck [OF witness_pool_reachable witness_pool_batch(2)])

end
