(* ===== verification/TrustedFs.thy ===== *)
theory TrustedFs
  imports Sessions
begin

text \<open>
  The doors of \<open>_vis_fs\<close> in \<^verbatim>\<open>native/vispython/vispython.c\<close>: file operations in C for sessions the host
  trusts.  The C library's file functions are a parameter over a world \<open>'w\<close>; the loops that read until
  the end of a file answer only if the file ends.
\<close>

section \<open>The file functions\<close>

definition EEXIST :: nat where "EEXIST = 17"

definition EXDEV :: nat where "EXDEV = 18"

datatype file_kind = Directory | RegularFile | OtherFile

record file_info =
  st_kind :: file_kind
  st_perm :: nat
  st_size :: int
  st_mtime :: int

text \<open>A failing function answers the \<open>errno\<close> it sets; \<open>None\<close> is success where there is no other answer.
  \<open>fclose\<close> and \<open>fwrite\<close> also tell the \<open>errno\<close> afterwards.\<close>

record ('w, 'h) stdio =
  fopen :: "bytes \<Rightarrow> bytes \<Rightarrow> 'w \<Rightarrow> (nat + 'h) \<times> 'w"
  fread :: "'h \<Rightarrow> nat \<Rightarrow> 'w \<Rightarrow> bytes \<times> 'w"
  ferror :: "'h \<Rightarrow> 'w \<Rightarrow> bool"
  fwrite :: "'h \<Rightarrow> bytes \<Rightarrow> 'w \<Rightarrow> nat \<times> 'w"
  fclose :: "'h \<Rightarrow> 'w \<Rightarrow> bool \<times> 'w"
  errno :: "'w \<Rightarrow> nat"
  readdir_all :: "bytes \<Rightarrow> 'w \<Rightarrow> (nat + bytes list) \<times> 'w"
  rename_file :: "bytes \<Rightarrow> bytes \<Rightarrow> 'w \<Rightarrow> nat option \<times> 'w"
  unlink_file :: "bytes \<Rightarrow> 'w \<Rightarrow> nat option \<times> 'w"
  rmdir_path :: "bytes \<Rightarrow> 'w \<Rightarrow> nat option \<times> 'w"
  mkdir_path :: "bytes \<Rightarrow> 'w \<Rightarrow> nat option \<times> 'w"
  stat_path :: "bytes \<Rightarrow> 'w \<Rightarrow> (nat + file_info)"
  chmod_path :: "bytes \<Rightarrow> nat \<Rightarrow> 'w \<Rightarrow> 'w"

text \<open>What a door raises.\<close>

datatype fs_error = NotTrusted | OsErr nat bytes | PathTooLong | NotBytes | FsNoMemory | FsRaised raised

section \<open>The guard\<close>

definition vis_py_fs_allowed :: "thread_runs \<Rightarrow> trusted \<Rightarrow> bool" where
  "vis_py_fs_allowed t T = vis_py_session_trusted (vis_py_current_session t) T"

section \<open>Reading\<close>

text \<open>The buffer starts at 64 KiB and doubles; \<open>acc\<close> is what was read, \<open>room\<close> the buffer's size.  The answer
  is \<open>None\<close> in the inner option when memory ran out.\<close>

partial_function (option) read_loop ::
  "('w, 'h) stdio \<Rightarrow> allocator \<Rightarrow> 'h \<Rightarrow> nat \<Rightarrow> bytes \<Rightarrow> 'w \<Rightarrow> (bytes option \<times> 'w) option" where
  "read_loop P E h room acc w =
     (if length acc = room \<and> \<not> malloc_ok E (room * 2) then Some (None, w)
      else
        let room1 = (if length acc = room then room * 2 else room);
            (got, w1) = fread P h (room1 - length acc) w
        in if got = [] then Some (Some acc, w1) else read_loop P E h room1 (acc @ got) w1)"

definition vis_py_fs_read ::
  "('w, 'h) stdio \<Rightarrow> allocator \<Rightarrow> thread_runs \<Rightarrow> trusted \<Rightarrow> raised + bytes \<Rightarrow> 'w \<Rightarrow> ((fs_error + bytes) \<times> 'w) option" where
  "vis_py_fs_read P E t T arg w =
     (if \<not> vis_py_fs_allowed t T then Some (Inl NotTrusted, w)
      else
        (case arg of
           Inl e \<Rightarrow> Some (Inl (FsRaised e), w)
         | Inr path \<Rightarrow>
             (case fopen P path ''rb'' w of
                (Inl e, w1) \<Rightarrow> Some (Inl (OsErr e path), w1)
              | (Inr h, w1) \<Rightarrow>
                  if \<not> malloc_ok E 65536 then Some (Inl FsNoMemory, snd (fclose P h w1))
                  else
                    (case read_loop P E h 65536 [] w1 of
                       None \<Rightarrow> None
                     | Some (None, w2) \<Rightarrow> Some (Inl FsNoMemory, snd (fclose P h w2))
                     | Some (Some text, w2) \<Rightarrow>
                         if ferror P h w2
                         then (let w3 = snd (fclose P h w2) in Some (Inl (OsErr (errno P w3) path), w3))
                         else Some (Inr text, snd (fclose P h w2))))))"

section \<open>Writing\<close>

datatype write_data = BytesData bytes | StrData pystr | OtherData

definition vis_py_fs_write ::
  "('w, 'h) stdio \<Rightarrow> raised \<Rightarrow> thread_runs \<Rightarrow> trusted \<Rightarrow> raised + (bytes \<times> write_data \<times> bool) \<Rightarrow> 'w \<Rightarrow>
     (fs_error + nat) \<times> 'w" where
  "vis_py_fs_write P unencodable t T args w =
     (if \<not> vis_py_fs_allowed t T then (Inl NotTrusted, w)
      else
        (case args of
           Inl e \<Rightarrow> (Inl (FsRaised e), w)
         | Inr (path, data, app) \<Rightarrow>
             (case (case data of
                      BytesData b \<Rightarrow> Inr b
                    | StrData (Some u) \<Rightarrow> Inr u
                    | StrData None \<Rightarrow> Inl (FsRaised unencodable)
                    | OtherData \<Rightarrow> Inl NotBytes) of
                Inl e \<Rightarrow> (Inl e, w)
              | Inr bs \<Rightarrow>
                  (case fopen P path (if app then ''ab'' else ''wb'') w of
                     (Inl e, w1) \<Rightarrow> (Inl (OsErr e path), w1)
                   | (Inr h, w1) \<Rightarrow>
                       let (wrote, w2) = fwrite P h bs w1; (ok, w3) = fclose P h w2
                       in if \<not> ok \<or> wrote \<noteq> length bs then (Inl (OsErr (errno P w3) path), w3)
                          else (Inr wrote, w3)))))"

section \<open>Listing\<close>

text \<open>\<open>decode\<close> is \<open>PyUnicode_DecodeFSDefault\<close>; a failure ends the listing.\<close>

fun list_names :: "(bytes \<Rightarrow> raised + bytes) \<Rightarrow> bytes list \<Rightarrow> bytes list \<Rightarrow> raised + bytes list" where
  "list_names decode [] names = Inr names"
| "list_names decode (d # ds) names =
     (if d = ''.'' \<or> d = ''..'' then list_names decode ds names
      else (case decode d of
              Inl e \<Rightarrow> Inl e
            | Inr n \<Rightarrow> list_names decode ds (names @ [n])))"

definition vis_py_fs_list ::
  "('w, 'h) stdio \<Rightarrow> (bytes \<Rightarrow> raised + bytes) \<Rightarrow> thread_runs \<Rightarrow> trusted \<Rightarrow> raised + bytes \<Rightarrow> 'w \<Rightarrow>
     (fs_error + bytes list) \<times> 'w" where
  "vis_py_fs_list P decode t T arg w =
     (if \<not> vis_py_fs_allowed t T then (Inl NotTrusted, w)
      else
        (case arg of
           Inl e \<Rightarrow> (Inl (FsRaised e), w)
         | Inr path \<Rightarrow>
             (case readdir_all P path w of
                (Inl e, w1) \<Rightarrow> (Inl (OsErr e path), w1)
              | (Inr ds, w1) \<Rightarrow>
                  (case list_names decode ds [] of
                     Inl e \<Rightarrow> (Inl (FsRaised e), w1)
                   | Inr ns \<Rightarrow> (Inr ns, w1)))))"

section \<open>Copying and moving\<close>

text \<open>The chunk loop: \<open>Inl\<close> the side that failed (\<open>True\<close> the output), \<open>Inr\<close> the number of bytes copied.\<close>

partial_function (option) copy_loop ::
  "('w, 'h) stdio \<Rightarrow> 'h \<Rightarrow> 'h \<Rightarrow> nat \<Rightarrow> 'w \<Rightarrow> ((bool + nat) \<times> 'w) option" where
  "copy_loop P i out copied w =
     (let (got, w1) = fread P i 65536 w in
      if got = [] then Some (if ferror P i w1 then Inl False else Inr copied, w1)
      else
        let (n, w2) = fwrite P out got w1 in
        if n \<noteq> length got then Some (Inl True, w2)
        else copy_loop P i out (copied + length got) w2)"

definition vis_py_fs_copy_bytes ::
  "('w, 'h) stdio \<Rightarrow> bytes \<Rightarrow> bytes \<Rightarrow> 'w \<Rightarrow> ((fs_error + nat) \<times> 'w) option" where
  "vis_py_fs_copy_bytes P from to w =
     (case fopen P from ''rb'' w of
        (Inl e, w1) \<Rightarrow> Some (Inl (OsErr e from), w1)
      | (Inr i, w1) \<Rightarrow>
          (case fopen P to ''wb'' w1 of
             (Inl e, w2) \<Rightarrow> Some (Inl (OsErr e to), snd (fclose P i w2))
           | (Inr out, w2) \<Rightarrow>
               (case copy_loop P i out 0 w2 of
                  None \<Rightarrow> None
                | Some (Inl output_side, w3) \<Rightarrow>
                    let w4 = snd (fclose P out (snd (fclose P i w3)))
                    in Some (Inl (OsErr (errno P w4) (if output_side then to else from)), w4)
                | Some (Inr copied, w3) \<Rightarrow>
                    let w4 = snd (fclose P i w3); (ok, w5) = fclose P out w4
                    in if \<not> ok then Some (Inl (OsErr (errno P w5) to), w5)
                       else
                         (case stat_path P from w5 of
                            Inl _ \<Rightarrow> Some (Inr copied, w5)
                          | Inr info \<Rightarrow> Some (Inr copied, chmod_path P to (st_perm info mod 4096) w5)))))"

definition vis_py_fs_copy ::
  "('w, 'h) stdio \<Rightarrow> thread_runs \<Rightarrow> trusted \<Rightarrow> raised + (bytes \<times> bytes) \<Rightarrow> 'w \<Rightarrow> ((fs_error + nat) \<times> 'w) option" where
  "vis_py_fs_copy P t T args w =
     (if \<not> vis_py_fs_allowed t T then Some (Inl NotTrusted, w)
      else
        (case args of
           Inl e \<Rightarrow> Some (Inl (FsRaised e), w)
         | Inr (from, to) \<Rightarrow> vis_py_fs_copy_bytes P from to w))"

definition vis_py_fs_move ::
  "('w, 'h) stdio \<Rightarrow> thread_runs \<Rightarrow> trusted \<Rightarrow> raised + (bytes \<times> bytes) \<Rightarrow> 'w \<Rightarrow> ((fs_error + unit) \<times> 'w) option" where
  "vis_py_fs_move P t T args w =
     (if \<not> vis_py_fs_allowed t T then Some (Inl NotTrusted, w)
      else
        (case args of
           Inl e \<Rightarrow> Some (Inl (FsRaised e), w)
         | Inr (from, to) \<Rightarrow>
             (case rename_file P from to w of
                (None, w1) \<Rightarrow> Some (Inr (), w1)
              | (Some e, w1) \<Rightarrow>
                  if e \<noteq> EXDEV then Some (Inl (OsErr e from), w1)
                  else
                    (case vis_py_fs_copy_bytes P from to w1 of
                       None \<Rightarrow> None
                     | Some (Inl e2, w2) \<Rightarrow> Some (Inl e2, w2)
                     | Some (Inr _, w2) \<Rightarrow>
                         (case unlink_file P from w2 of
                            (Some e3, w3) \<Rightarrow> Some (Inl (OsErr e3 from), w3)
                          | (None, w3) \<Rightarrow> Some (Inr (), w3))))))"

section \<open>Removing, making directories, asking\<close>

definition vis_py_fs_remove ::
  "('w, 'h) stdio \<Rightarrow> thread_runs \<Rightarrow> trusted \<Rightarrow> raised + bytes \<Rightarrow> 'w \<Rightarrow> (fs_error + bool) \<times> 'w" where
  "vis_py_fs_remove P t T arg w =
     (if \<not> vis_py_fs_allowed t T then (Inl NotTrusted, w)
      else
        (case arg of
           Inl e \<Rightarrow> (Inl (FsRaised e), w)
         | Inr path \<Rightarrow>
             (case stat_path P path w of
                Inl _ \<Rightarrow> (Inr False, w)
              | Inr info \<Rightarrow>
                  (case (if st_kind info = Directory then rmdir_path P path w else unlink_file P path w) of
                     (Some e, w1) \<Rightarrow> (Inl (OsErr e path), w1)
                   | (None, w1) \<Rightarrow> (Inr True, w1)))))"

text \<open>One \<open>mkdir\<close> of the walk; an existing path is fine.\<close>

definition mkdir_one :: "('w, 'h) stdio \<Rightarrow> bytes \<Rightarrow> bool \<Rightarrow> 'w \<Rightarrow> (fs_error + bool) \<times> 'w" where
  "mkdir_one P work made w =
     (case mkdir_path P work w of
        (None, w1) \<Rightarrow> (Inr True, w1)
      | (Some e, w1) \<Rightarrow> if e \<noteq> EEXIST then (Inl (OsErr e work), w1) else (Inr made, w1))"

text \<open>The walk over the slashes at index 1 and later.\<close>

function mkdir_loop :: "('w, 'h) stdio \<Rightarrow> bytes \<Rightarrow> nat \<Rightarrow> bool \<Rightarrow> 'w \<Rightarrow> (fs_error + bool) \<times> 'w" where
  "mkdir_loop P work i made w =
     (if i \<ge> length work then mkdir_one P work made w
      else if work ! i \<noteq> SLASH then mkdir_loop P work (i + 1) made w
      else
        (case mkdir_one P (take i work) made w of
           (Inl e, w1) \<Rightarrow> (Inl e, w1)
         | (Inr made1, w1) \<Rightarrow> mkdir_loop P work (i + 1) made1 w1))"
  by pat_completeness auto
termination
  by (relation "measure (\<lambda>(P, work, i, made, w). length work - i)") auto

declare mkdir_loop.simps [simp del]

definition vis_py_fs_mkdir ::
  "('w, 'h) stdio \<Rightarrow> thread_runs \<Rightarrow> trusted \<Rightarrow> raised + bytes \<Rightarrow> 'w \<Rightarrow> (fs_error + bool) \<times> 'w" where
  "vis_py_fs_mkdir P t T arg w =
     (if \<not> vis_py_fs_allowed t T then (Inl NotTrusted, w)
      else
        (case arg of
           Inl e \<Rightarrow> (Inl (FsRaised e), w)
         | Inr path \<Rightarrow> if length path \<ge> PATH_MAX then (Inl PathTooLong, w)
                       else mkdir_loop P path 1 False w))"

definition vis_py_fs_stat ::
  "('w, 'h) stdio \<Rightarrow> thread_runs \<Rightarrow> trusted \<Rightarrow> raised + bytes \<Rightarrow> 'w \<Rightarrow> (fs_error + (bytes \<times> int \<times> int) option) \<times> 'w" where
  "vis_py_fs_stat P t T arg w =
     (if \<not> vis_py_fs_allowed t T then (Inl NotTrusted, w)
      else
        (case arg of
           Inl e \<Rightarrow> (Inl (FsRaised e), w)
         | Inr path \<Rightarrow>
             (case stat_path P path w of
                Inl _ \<Rightarrow> (Inr None, w)
              | Inr info \<Rightarrow>
                  (Inr (Some ((case st_kind info of Directory \<Rightarrow> ''directory'' | RegularFile \<Rightarrow> ''file''
                                 | OtherFile \<Rightarrow> ''other''), st_size info, st_mtime info)), w))))"

section \<open>Lemmas\<close>

text \<open>
  Documented behaviour of a file opened for reading: \<open>rest h w\<close> is what is still to be read; \<open>fread\<close>
  hands over a nonempty first part of it, at most as long as asked, and nothing only at the end.
\<close>

definition reads_stream :: "('w, 'h) stdio \<Rightarrow> ('h \<Rightarrow> 'w \<Rightarrow> bytes) \<Rightarrow> bool" where
  "reads_stream P rest \<longleftrightarrow> (\<forall>h n w. 0 < n \<longrightarrow>
     fst (fread P h n w) @ rest h (snd (fread P h n w)) = rest h w
     \<and> length (fst (fread P h n w)) \<le> n \<and> (fst (fread P h n w) = [] \<longrightarrow> rest h w = []))"

lemma read_loop_whole:
  assumes "reads_stream P rest" "\<forall>n. malloc_ok E n" "0 < room" "length acc \<le> room"
  shows "\<exists>w2. read_loop P E h room acc w = Some (Some (acc @ rest h w), w2)"
  using assms(3,4)
proof (induction "length (rest h w)" arbitrary: room acc w rule: less_induct)
  case less
  let ?room = "if length acc = room then room * 2 else room"
  have pos: "0 < ?room - length acc" using less.prems by auto
  obtain got w1 where got: "fread P h (?room - length acc) w = (got, w1)" by fastforce
  from assms(1) [unfolded reads_stream_def, rule_format, OF pos, of h w] got
  have law: "got @ rest h w1 = rest h w" "length got \<le> ?room - length acc" "got = [] \<Longrightarrow> rest h w = []"
    by auto
  have step: "read_loop P E h room acc w =
      (if got = [] then Some (Some acc, w1) else read_loop P E h ?room (acc @ got) w1)"
    using got assms(2) by (subst read_loop.simps) (simp add: Let_def)
  show ?case
  proof (cases "got = []")
    case True
    with step law show ?thesis by simp
  next
    case False
    have "length (rest h w1) < length (rest h w)" using law(1) False by (metis length_append less_add_same_cancel2 length_greater_0_conv)
    moreover have "0 < ?room" "length (acc @ got) \<le> ?room" using law(2) pos less.prems by auto
    ultimately obtain w2 where "read_loop P E h ?room (acc @ got) w1 = Some (Some ((acc @ got) @ rest h w1), w2)"
      using less.hyps [of w1] by blast
    with step False law(1) show ?thesis by auto
  qed
qed

text \<open>Two open files: reading one leaves what was written to the other alone, and the reverse.\<close>

definition writes_stream ::
  "('w, 'h) stdio \<Rightarrow> ('h \<Rightarrow> 'w \<Rightarrow> bytes) \<Rightarrow> ('h \<Rightarrow> 'w \<Rightarrow> bytes) \<Rightarrow> 'h \<Rightarrow> 'h \<Rightarrow> bool" where
  "writes_stream P rest written i out \<longleftrightarrow>
     (\<forall>bs w. fst (fwrite P out bs w) = length bs
        \<and> written out (snd (fwrite P out bs w)) = written out w @ bs
        \<and> rest i (snd (fwrite P out bs w)) = rest i w)
     \<and> (\<forall>n w. written out (snd (fread P i n w)) = written out w) \<and> (\<forall>w. \<not> ferror P i w)"

lemma copy_loop_whole:
  assumes "reads_stream P rest" "writes_stream P rest written i out"
  shows "\<exists>w2. copy_loop P i out copied w = Some (Inr (copied + length (rest i w)), w2)
    \<and> written out w2 = written out w @ rest i w"
proof (induction "length (rest i w)" arbitrary: copied w rule: less_induct)
  case less
  obtain got w1 where got: "fread P i 65536 w = (got, w1)" by fastforce
  obtain n w2 where wr: "fwrite P out got w1 = (n, w2)" by fastforce
  have law: "got @ rest i w1 = rest i w" "got = [] \<Longrightarrow> rest i w = []"
    using assms(1) [unfolded reads_stream_def, rule_format, of 65536 i w] got by auto
  note ws = assms(2) [unfolded writes_stream_def]
  have "fst (fwrite P out got w1) = length got
        \<and> written out (snd (fwrite P out got w1)) = written out w1 @ got
        \<and> rest i (snd (fwrite P out got w1)) = rest i w1"
    "written out (snd (fread P i 65536 w)) = written out w" using ws by blast+
  then have out: "n = length got" "written out w2 = written out w @ got" "rest i w2 = rest i w1"
    using got wr by auto
  have step: "copy_loop P i out copied w =
      (if got = [] then Some (Inr copied, w1) else copy_loop P i out (copied + length got) w2)"
    using got wr out(1) ws by (subst copy_loop.simps) simp
  show ?case
  proof (cases "got = []")
    case True
    with step law out(2) ws got show ?thesis by (metis add.right_neutral append.right_neutral list.size(3) snd_conv)
  next
    case False
    have "length (rest i w2) < length (rest i w)" using law(1) False out(3)
      by (metis length_append less_add_same_cancel2 length_greater_0_conv)
    from less [OF this, of "copied + length got"] step False law(1) out show ?thesis
      by (metis (no_types, lifting) add.assoc append.assoc length_append)
  qed
qed

text \<open>The walk of \<open>mkdir\<close> asks for every leading directory and the whole path.\<close>

definition mkdir_law :: "('w, 'h) stdio \<Rightarrow> (bytes \<Rightarrow> 'w \<Rightarrow> bool) \<Rightarrow> bool" where
  "mkdir_law P there \<longleftrightarrow> (\<forall>p w. (fst (mkdir_path P p w) = None \<or> fst (mkdir_path P p w) = Some EEXIST
        \<longrightarrow> there p (snd (mkdir_path P p w)))
     \<and> (\<forall>q. there q w \<longrightarrow> there q (snd (mkdir_path P p w))))"

lemma mkdir_one_there:
  assumes "mkdir_law P there" "mkdir_one P p made w = (Inr made', w')"
  shows "there p w' \<and> (\<forall>q. there q w \<longrightarrow> there q w')"
proof -
  have "snd (mkdir_path P p w) = w'" "fst (mkdir_path P p w) = None \<or> fst (mkdir_path P p w) = Some EEXIST"
    using assms(2) by (auto simp: mkdir_one_def split: prod.splits option.splits if_splits)
  with assms(1) show ?thesis unfolding mkdir_law_def by blast
qed

lemma mkdir_loop_there:
  assumes "mkdir_law P there" "mkdir_loop P work i made w = (Inr made', w')"
  shows "(\<forall>q. there q w \<longrightarrow> there q w') \<and> there work w'
    \<and> (\<forall>k. i \<le> k \<and> k < length work \<and> work ! k = SLASH \<longrightarrow> there (take k work) w')"
  using assms
proof (induction P work i made w rule: mkdir_loop.induct)
  case (1 P work i made w)
  show ?case
  proof (cases "length work \<le> i")
    case True
    with 1(4) have "mkdir_one P work made w = (Inr made', w')" by (simp add: mkdir_loop.simps)
    from mkdir_one_there [OF 1(3) this] True show ?thesis by auto
  next
    case i: False
    show ?thesis
    proof (cases "work ! i = SLASH")
      case False
      with i 1(4) have "mkdir_loop P work (i + 1) made w = (Inr made', w')" by (simp add: mkdir_loop.simps)
      from 1(1) [OF i False 1(3) this] False
      show ?thesis by (metis Suc_eq_plus1 Suc_leI le_neq_implies_less)
    next
      case True
      with i 1(4) obtain made1 w1 where one: "mkdir_one P (take i work) made w = (Inr made1, w1)"
        and rest: "mkdir_loop P work (i + 1) made1 w1 = (Inr made', w')"
        by (subst (asm) mkdir_loop.simps) (auto split: prod.splits sum.splits)
      have "\<not> work ! i \<noteq> SLASH" using True by simp
      from 1(2) [OF i this one [symmetric] refl 1(3) rest] mkdir_one_there [OF 1(3) one]
      show ?thesis by (metis Suc_eq_plus1 Suc_leI le_neq_implies_less)
    qed
  qed
qed

lemma session_trusted_None: "\<not> vis_py_session_trusted None T"
  by (simp add: vis_py_session_trusted_def)

section \<open>Properties\<close>

text \<open>The doors of \<open>_vis_fs\<close> are closed to every session the host did not mark as trusted: whatever
  the call and its arguments, the file system is not asked and \<open>PermissionError\<close> is raised. The
  session that counts is the innermost one the runtime runs on the thread.\<close>

theorem untrusted_session_reaches_no_file:
  assumes "runs_as t enclosing" "owner_of enclosing = None \<or> the (owner_of enclosing) \<notin> trusted_set T"
  shows "vis_py_fs_read P E t T a1 w = Some (Inl NotTrusted, w)
    \<and> vis_py_fs_write P u t T a2 w = (Inl NotTrusted, w)
    \<and> vis_py_fs_list P decode t T a1 w = (Inl NotTrusted, w)
    \<and> vis_py_fs_copy P t T a3 w = Some (Inl NotTrusted, w)
    \<and> vis_py_fs_move P t T a3 w = Some (Inl NotTrusted, w)
    \<and> vis_py_fs_remove P t T a1 w = (Inl NotTrusted, w)
    \<and> vis_py_fs_mkdir P t T a1 w = (Inl NotTrusted, w)
    \<and> vis_py_fs_stat P t T a1 w = (Inl NotTrusted, w)"
proof -
  have "\<not> vis_py_fs_allowed t T"
    using assms current_session_owner [OF assms(1)]
    by (cases "owner_of enclosing") (auto simp: vis_py_fs_allowed_def session_trusted_iff session_trusted_None)
  then show ?thesis
    by (simp add: vis_py_fs_read_def vis_py_fs_write_def vis_py_fs_list_def vis_py_fs_copy_def
        vis_py_fs_move_def vis_py_fs_remove_def vis_py_fs_mkdir_def vis_py_fs_stat_def)
qed

text \<open>A file system for the witnesses: the world is the text still to be read and the text written.\<close>

definition witness_stdio :: "(bytes \<times> bytes, nat) stdio" where
  "witness_stdio = \<lparr>fopen = (\<lambda>_ m w. (Inr (if m = ''rb'' then 0 else 1), w)), fread = (\<lambda>_ n w. (take n (fst w), (drop n (fst w), snd w))),
     ferror = (\<lambda>_ _. False), fwrite = (\<lambda>_ bs w. (length bs, (fst w, snd w @ bs))),
     fclose = (\<lambda>_ w. (True, w)), errno = (\<lambda>_. 0), readdir_all = (\<lambda>_ w. (Inr [], w)),
     rename_file = (\<lambda>_ _ w. (None, w)), unlink_file = (\<lambda>_ w. (None, w)), rmdir_path = (\<lambda>_ w. (None, w)),
     mkdir_path = (\<lambda>_ w. (None, w)), stat_path = (\<lambda>_ _. Inl 2), chmod_path = (\<lambda>_ _ w. w)\<rparr>"

definition ext_runs :: thread_runs where
  "ext_runs = vis_py_run_push (Some ''ext'') initial_runs"

definition ext_trusted :: trusted where
  "ext_trusted = initial_trusted[0 := ''ext'']"

lemma ext_runs_as: "runs_as ext_runs [''ext'']"
  using runs_as_push [OF runs_as_initial, of "Some ''ext''"] by (simp add: ext_runs_def)

lemma ext_allowed: "vis_py_fs_allowed ext_runs ext_trusted"
proof -
  have "''ext'' \<in> set ext_trusted"
    unfolding ext_trusted_def by (rule set_update_memI) (simp add: initial_trusted_def VIS_PY_TRUSTED_MAX_def)
  then show ?thesis
    by (simp add: vis_py_fs_allowed_def current_session_owner [OF ext_runs_as] owner_of_def
        VIS_PY_RUN_DEPTH_def session_trusted_iff trusted_set_def)
qed

theorem untrusted_session_reaches_no_file_witness:
  "vis_py_fs_stat witness_stdio ext_runs initial_trusted (Inr ''/etc'') (''a'', ''b'') = (Inl NotTrusted, (''a'', ''b''))"
  using untrusted_session_reaches_no_file [OF ext_runs_as, of initial_trusted witness_stdio _ _ "(''a'', ''b'')"]
  by (simp add: trusted_set_def initial_trusted_def)

text \<open>A trusted read returns the whole file, whatever its size and however the C library cuts its
  reads: the buffer grows until the file ends and no byte is lost or read twice; and it does return.\<close>

theorem trusted_read_returns_whole_file:
  assumes "vis_py_fs_allowed t T" "fopen P path ''rb'' w = (Inr h, w1)" "reads_stream P rest"
    "\<forall>n. malloc_ok E n" "\<forall>w. \<not> ferror P h w"
  shows "\<exists>w2. vis_py_fs_read P E t T (Inr path) w = Some (Inr (rest h w1), w2)"
proof -
  obtain w2 where "read_loop P E h 65536 [] w1 = Some (Some (rest h w1), w2)"
    using read_loop_whole [OF assms(3,4), of 65536 "[]" h w1] by auto
  with assms show ?thesis by (simp add: vis_py_fs_read_def)
qed

theorem trusted_read_returns_whole_file_witness:
  "\<exists>w2. vis_py_fs_read witness_stdio \<lparr>malloc_ok = \<lambda>_. True, pyalloc_ok = \<lambda>_. True\<rparr> ext_runs ext_trusted
     (Inr ''f'') (replicate 200000 NUL, []) = Some (Inr (replicate 200000 NUL), w2)"
proof -
  have "reads_stream witness_stdio (\<lambda>_ w. fst w)" by (auto simp: reads_stream_def witness_stdio_def)
  moreover have "fopen witness_stdio ''f'' ''rb'' (replicate 200000 NUL, []) = (Inr 0, (replicate 200000 NUL, []))"
    "\<forall>w. \<not> ferror witness_stdio 0 w" by (simp_all add: witness_stdio_def)
  ultimately show ?thesis
    using trusted_read_returns_whole_file [OF ext_allowed, of witness_stdio "''f''" "(replicate 200000 NUL, [])" 0
        "(replicate 200000 NUL, [])" "\<lambda>_ w. fst w" "\<lparr>malloc_ok = \<lambda>_. True, pyalloc_ok = \<lambda>_. True\<rparr>"]
    by simp
qed

text \<open>A copy whose reads and writes succeed writes exactly the bytes of the source behind what the
  target file held when it was opened, and answers how many there were.\<close>

theorem copy_writes_the_source:
  assumes "fopen P from ''rb'' w = (Inr i, w1)" "fopen P to ''wb'' w1 = (Inr out, w2)"
    "reads_stream P rest" "writes_stream P rest written i out"
    "\<forall>h w. fst (fclose P h w) \<and> written out (snd (fclose P h w)) = written out w"
    "\<forall>p m w. written out (chmod_path P p m w) = written out w"
  shows "\<exists>w3. vis_py_fs_copy_bytes P from to w = Some (Inr (length (rest i w2)), w3)
    \<and> written out w3 = written out w2 @ rest i w2"
proof -
  obtain w3 where w3: "copy_loop P i out 0 w2 = Some (Inr (length (rest i w2)), w3)"
    "written out w3 = written out w2 @ rest i w2"
    using copy_loop_whole [OF assms(3,4), of 0 w2] by auto
  let ?w4 = "snd (fclose P i w3)"
  have ok: "fclose P out ?w4 = (True, snd (fclose P out ?w4))" using assms(5) by (metis prod.collapse)
  have "written out (snd (fclose P out ?w4)) = written out w3" using assms(5) by simp
  then show ?thesis
    using w3 ok assms(1,2,6)
    by (cases "stat_path P from (snd (fclose P out ?w4))")
       (auto simp: vis_py_fs_copy_bytes_def Let_def split: prod.split)
qed

theorem copy_writes_the_source_witness:
  "\<exists>w3. vis_py_fs_copy_bytes witness_stdio ''a'' ''b'' (''hello'', []) = Some (Inr (length ''hello''), w3) \<and> snd w3 = ''hello''"
proof -
  have "reads_stream witness_stdio (\<lambda>_ w. fst w)" by (auto simp: reads_stream_def witness_stdio_def)
  moreover have "writes_stream witness_stdio (\<lambda>_ w. fst w) (\<lambda>_ w. snd w) 0 1"
    by (simp add: writes_stream_def witness_stdio_def)
  ultimately show ?thesis
    using copy_writes_the_source [of witness_stdio "''a''" "(''hello'', [])" 0 "(''hello'', [])" "''b''" 1
        "(''hello'', [])" "\<lambda>_ w. fst w" "\<lambda>_ w. snd w"]
    by (simp add: witness_stdio_def)
qed

text \<open>When \<open>mkdir\<close> answers without an error every leading directory of the path and the path itself
  are there.\<close>

theorem mkdir_makes_every_parent:
  assumes "vis_py_fs_mkdir P t T (Inr path) w = (Inr made, w')" "mkdir_law P there"
    "0 < k" "k < length path" "path ! k = SLASH"
  shows "there (take k path) w' \<and> there path w'"
proof -
  have "mkdir_loop P path 1 False w = (Inr made, w')"
    using assms(1) by (auto simp: vis_py_fs_mkdir_def split: if_splits)
  from mkdir_loop_there [OF assms(2) this] assms(3-5) show ?thesis by auto
qed

text \<open>The witness: a world that is the list of directories made.\<close>

definition mkdir_stdio :: "(bytes list, nat) stdio" where
  "mkdir_stdio = \<lparr>fopen = (\<lambda>_ _ w. (Inl 2, w)), fread = (\<lambda>_ _ w. ([], w)), ferror = (\<lambda>_ _. False),
     fwrite = (\<lambda>_ _ w. (0, w)), fclose = (\<lambda>_ w. (True, w)), errno = (\<lambda>_. 0),
     readdir_all = (\<lambda>_ w. (Inl 2, w)), rename_file = (\<lambda>_ _ w. (None, w)), unlink_file = (\<lambda>_ w. (None, w)),
     rmdir_path = (\<lambda>_ w. (None, w)),
     mkdir_path = (\<lambda>p w. if p \<in> set w then (Some EEXIST, w) else (None, p # w)),
     stat_path = (\<lambda>_ _. Inl 2), chmod_path = (\<lambda>_ _ w. w)\<rparr>"

theorem mkdir_makes_every_parent_witness:
  "let r = vis_py_fs_mkdir mkdir_stdio ext_runs ext_trusted (Inr ''/a/b'') [''/a'']
   in fst r = Inr True \<and> ''/a'' \<in> set (snd r)"
proof -
  have r: "vis_py_fs_mkdir mkdir_stdio ext_runs ext_trusted (Inr ''/a/b'') [''/a''] = (Inr True, [''/a/b'', ''/a''])"
    by (simp add: vis_py_fs_mkdir_def ext_allowed mkdir_loop.simps mkdir_one_def mkdir_stdio_def SLASH_def
        PATH_MAX_def EEXIST_def)
  have "mkdir_law mkdir_stdio (\<lambda>p w. p \<in> set w)" by (auto simp: mkdir_law_def mkdir_stdio_def)
  from mkdir_makes_every_parent [OF r this, of 2] r show ?thesis by (simp add: SLASH_def)
qed

end
