(* ===== verification/EntryPoints.thy ===== *)
theory EntryPoints
  imports WorkerPool
begin

text \<open>
  The calls by which the host runs Python (\<^verbatim>\<open>native/vispython/vispython.c\<close>): \<open>vispython_eval\<close>, \<open>exec\<close>, \<open>run\<close>
  and \<open>run_block\<close> with their bodies under the interpreter lock, and \<open>vispython_interrupt\<close>.  CPython is a
  parameter: its functions act on the whole state, because the code they run may call back into the
  library on the same thread.
\<close>

section \<open>State\<close>

text \<open>
  The state as one thread sees it: the globals, its own thread-local variables (\<open>thread\<close>, \<open>kept\<close> the
  stash), how often it holds the interpreter lock, its pending exception, and what belongs to CPython.
\<close>

record ('w, 'v) process =
  vis_py_started :: bool
  thread :: thread_local
  kept :: "bytes option"
  gil :: nat
  pending_exc :: "exc option"
  scans :: budgets
  running_thread :: nat
  event_log :: log_state
  pool :: "'v vis_py_pool"
  world :: 'w

text \<open>The CPython functions; \<open>Inl\<close> is a null answer with the exception it raised.\<close>

record ('w, 'v, 'o) python =
  add_module :: "bytes \<Rightarrow> ('w, 'v) process \<Rightarrow> (exc + 'o) \<times> ('w, 'v) process"
  has_builtins :: "'o \<Rightarrow> ('w, 'v) process \<Rightarrow> bool"
  set_builtins :: "'o \<Rightarrow> ('w, 'v) process \<Rightarrow> exc option \<times> ('w, 'v) process"
  eval_input :: "bytes option \<Rightarrow> 'o \<Rightarrow> ('w, 'v) process \<Rightarrow> (exc + 'o) \<times> ('w, 'v) process"
  file_input :: "bytes option \<Rightarrow> 'o \<Rightarrow> ('w, 'v) process \<Rightarrow> (exc + 'o) \<times> ('w, 'v) process"
  import_module :: "bytes \<Rightarrow> ('w, 'v) process \<Rightarrow> (exc + 'o) \<times> ('w, 'v) process"
  call_method :: "'o \<Rightarrow> bytes \<Rightarrow> bytes option \<Rightarrow> 'o \<Rightarrow> ('w, 'v) process \<Rightarrow> (exc + 'o) \<times> ('w, 'v) process"
  object_str :: "'o \<Rightarrow> ('w, 'v) process \<Rightarrow> (exc + pystr) \<times> ('w, 'v) process"
  encode_error :: exc
  set_async_exc :: "nat \<Rightarrow> ('w, 'v) process \<Rightarrow> int \<times> ('w, 'v) process"
  clock_now :: "('w, 'v) process \<Rightarrow> int \<times> int"
  calloc_budget :: "('w, 'v) process \<Rightarrow> nat option"

section \<open>Answers\<close>

definition answer ::
  "allocator \<Rightarrow> bytes \<Rightarrow> int \<Rightarrow> bytes option \<Rightarrow> ('w, 'v) process \<Rightarrow> int \<times> bytes option \<times> ('w, 'v) process" where
  "answer E s cap buf p =
     (let (r, c) = vis_py_copy_out E s cap \<lparr>out_buf = buf, stash = kept p\<rparr>
      in (r, out_buf c, p\<lparr>kept := stash c\<rparr>))"

text \<open>\<open>vis_py_take_error\<close> with the exception just raised pending, and the status it is paired with.\<close>

definition answer_error ::
  "allocator \<Rightarrow> exc \<Rightarrow> int \<Rightarrow> bytes option \<Rightarrow> ('w, 'v) process \<Rightarrow> int \<times> bytes option \<times> ('w, 'v) process" where
  "answer_error E x cap buf p =
     (let (_, pend, c) = vis_py_take_error E (Some x) cap \<lparr>out_buf = buf, stash = kept p\<rparr>
      in (VIS_PY_ERR_PYTHON, out_buf c, p\<lparr>pending_exc := pend, kept := stash c\<rparr>))"

text \<open>\<open>PyObject_Str\<close> and \<open>PyUnicode_AsUTF8\<close> of a result: the text copied out, \<open>''\<close> when there is none; a
  failure of either leaves its exception pending.\<close>

definition str_utf8 ::
  "('w, 'v, 'o) python \<Rightarrow> 'o \<Rightarrow> ('w, 'v) process \<Rightarrow> bytes \<times> ('w, 'v) process" where
  "str_utf8 P obj p =
     (case object_str P obj p of
        (Inl x, p1) \<Rightarrow> ([], p1\<lparr>pending_exc := Some x\<rparr>)
      | (Inr None, p1) \<Rightarrow> ([], p1\<lparr>pending_exc := Some (encode_error P)\<rparr>)
      | (Inr (Some u), p1) \<Rightarrow> (cstr_of u, p1))"

section \<open>Running code under the interpreter lock\<close>

definition vis_py_namespace ::
  "('w, 'v, 'o) python \<Rightarrow> bytes option \<Rightarrow> ('w, 'v) process \<Rightarrow> (exc + 'o) \<times> ('w, 'v) process" where
  "vis_py_namespace P module_name p =
     (let name = (case module_name of None \<Rightarrow> ''__main__'' | Some n \<Rightarrow> if n = [] then ''__main__'' else n) in
      case add_module P name p of
        (Inl x, p1) \<Rightarrow> (Inl x, p1)
      | (Inr globals, p1) \<Rightarrow>
          if has_builtins P globals p1 then (Inr globals, p1)
          else
            (case set_builtins P globals p1 of
               (Some x, p2) \<Rightarrow> (Inl x, p2)
             | (None, p2) \<Rightarrow> (Inr globals, p2)))"

definition vis_py_eval_locked ::
  "('w, 'v, 'o) python \<Rightarrow> allocator \<Rightarrow> bytes option \<Rightarrow> bytes option \<Rightarrow> int \<Rightarrow> bytes option \<Rightarrow>
     ('w, 'v) process \<Rightarrow> int \<times> bytes option \<times> ('w, 'v) process" where
  "vis_py_eval_locked P E module_name code cap buf p =
     (case vis_py_namespace P module_name p of
        (Inl x, p1) \<Rightarrow> answer_error E x cap buf p1
      | (Inr globals, p1) \<Rightarrow>
          (case eval_input P code globals p1 of
             (Inl x, p2) \<Rightarrow> answer_error E x cap buf p2
           | (Inr result, p2) \<Rightarrow>
               let (text, p3) = str_utf8 P result p2 in answer E text cap buf p3))"

definition vis_py_exec_locked ::
  "('w, 'v, 'o) python \<Rightarrow> allocator \<Rightarrow> bytes option \<Rightarrow> bytes option \<Rightarrow> int \<Rightarrow> bytes option \<Rightarrow>
     ('w, 'v) process \<Rightarrow> int \<times> bytes option \<times> ('w, 'v) process" where
  "vis_py_exec_locked P E module_name code cap buf p =
     (case vis_py_namespace P module_name p of
        (Inl x, p1) \<Rightarrow> answer_error E x cap buf p1
      | (Inr globals, p1) \<Rightarrow>
          (case file_input P code globals p1 of
             (Inl x, p2) \<Rightarrow> answer_error E x cap buf p2
           | (Inr _, p2) \<Rightarrow> (0, buf, p2)))"

definition log_event ::
  "('w, 'v, 'o) python \<Rightarrow> nat \<Rightarrow> bytes \<Rightarrow> bytes \<Rightarrow> ('w, 'v) process \<Rightarrow> ('w, 'v) process" where
  "log_event P lvl event body p =
     p\<lparr>event_log := vis_py_record (clock_now P p) lvl event (Some body) (event_log p)\<rparr>"

definition session_ms :: "('w, 'v, 'o) python \<Rightarrow> bytes option \<Rightarrow> int \<Rightarrow> ('w, 'v) process \<Rightarrow> bytes" where
  "session_ms P module_name began p =
     quoted ''session'' @ '':'' @ quoted (vis_py_session_name module_name)
     @ '','' @ quoted ''ms'' @ '':'' @ show_int (vis_py_now_ms (clock_now P p) - began)"

definition code_bytes :: "bytes option \<Rightarrow> bytes" where
  "code_bytes code = '','' @ quoted ''bytes'' @ '':'' @ show_int (case code of None \<Rightarrow> 0 | Some s \<Rightarrow> int (length s))"

text \<open>
  \<open>vis_py_run_locked\<close> and \<open>vis_py_run_block_locked\<close> are one routine over the runtime's function they call
  and the records they log; the calling thread is \<open>me\<close>.
\<close>

definition runtime_locked ::
  "bytes \<Rightarrow> bytes \<Rightarrow> nat \<Rightarrow> bytes \<Rightarrow> bytes \<Rightarrow>
     nat \<Rightarrow> ('w, 'v, 'o) python \<Rightarrow> allocator \<Rightarrow> bytes option \<Rightarrow> bytes option \<Rightarrow> int \<Rightarrow> bytes option \<Rightarrow>
     ('w, 'v) process \<Rightarrow> int \<times> bytes option \<times> ('w, 'v) process" where
  "runtime_locked method failed lvl finish extra me P E module_name code cap buf p =
     (let began = vis_py_now_ms (clock_now P p) in
      case vis_py_namespace P module_name p of
        (Inl x, p1) \<Rightarrow> answer_error E x cap buf p1
      | (Inr globals, p1) \<Rightarrow>
          (case import_module P ''vis_runtime'' p1 of
             (Inl x, p2) \<Rightarrow> answer_error E x cap buf p2
           | (Inr runtime, p2) \<Rightarrow>
               let (result, p3) = call_method P runtime method code globals (p2\<lparr>running_thread := me\<rparr>);
                   p4 = p3\<lparr>running_thread := 0\<rparr>
               in case result of
                    Inl x \<Rightarrow>
                      let (status, buf5, p5) = answer_error E x cap buf p4
                      in (status, buf5, log_event P VIS_PY_LOG_WARN failed (session_ms P module_name began p5) p5)
                  | Inr obj \<Rightarrow>
                      let (text, p5) = str_utf8 P obj p4; (written, buf6, p6) = answer E text cap buf p5
                      in (written, buf6, log_event P lvl finish (session_ms P module_name began p6 @ extra) p6)))"

definition vis_py_run_locked ::
  "nat \<Rightarrow> ('w, 'v, 'o) python \<Rightarrow> allocator \<Rightarrow> bytes option \<Rightarrow> bytes option \<Rightarrow> int \<Rightarrow> bytes option \<Rightarrow>
     ('w, 'v) process \<Rightarrow> int \<times> bytes option \<times> ('w, 'v) process" where
  "vis_py_run_locked = runtime_locked ''run_json'' ''run_failed'' VIS_PY_LOG_DEBUG ''run'' []"

definition vis_py_run_block_locked ::
  "nat \<Rightarrow> ('w, 'v, 'o) python \<Rightarrow> allocator \<Rightarrow> bytes option \<Rightarrow> bytes option \<Rightarrow> int \<Rightarrow> bytes option \<Rightarrow>
     ('w, 'v) process \<Rightarrow> int \<times> bytes option \<times> ('w, 'v) process" where
  "vis_py_run_block_locked me P E module_name code =
     runtime_locked ''run_block_json'' ''block_failed'' VIS_PY_LOG_INFO ''block'' (code_bytes code)
       me P E module_name code"

section \<open>The exported calls\<close>

definition PyGILState_Ensure :: "('w, 'v) process \<Rightarrow> ('w, 'v) process" where
  "PyGILState_Ensure p = p\<lparr>gil := gil p + 1\<rparr>"

definition PyGILState_Release :: "('w, 'v) process \<Rightarrow> ('w, 'v) process" where
  "PyGILState_Release p = p\<lparr>gil := gil p - 1\<rparr>"

definition push_run :: "bytes option \<Rightarrow> ('w, 'v) process \<Rightarrow> ('w, 'v) process" where
  "push_run s p = p\<lparr>thread := (thread p)\<lparr>runs := vis_py_run_push s (runs (thread p))\<rparr>\<rparr>"

definition pop_run :: "('w, 'v) process \<Rightarrow> ('w, 'v) process" where
  "pop_run p = p\<lparr>thread := (thread p)\<lparr>runs := vis_py_run_pop (runs (thread p))\<rparr>\<rparr>"

definition set_scan :: "nat option \<Rightarrow> ('w, 'v) process \<Rightarrow> ('w, 'v) process" where
  "set_scan a p = p\<lparr>thread := (thread p)\<lparr>scan_current := a\<rparr>\<rparr>"

definition vispython_eval ::
  "('w, 'v, 'o) python \<Rightarrow> allocator \<Rightarrow> bytes option \<Rightarrow> bytes option \<Rightarrow> int \<Rightarrow> bytes option \<Rightarrow>
     ('w, 'v) process \<Rightarrow> int \<times> bytes option \<times> ('w, 'v) process" where
  "vispython_eval P E module_name code cap buf p =
     (if \<not> vis_py_started p then (VIS_PY_ERR_INIT, buf, p)
      else
        let (status, buf1, p1) =
              vis_py_eval_locked P E module_name code cap buf (push_run module_name (PyGILState_Ensure p))
        in (status, buf1, PyGILState_Release (pop_run p1)))"

definition vispython_exec ::
  "('w, 'v, 'o) python \<Rightarrow> allocator \<Rightarrow> bytes option \<Rightarrow> bytes option \<Rightarrow> int \<Rightarrow> bytes option \<Rightarrow>
     ('w, 'v) process \<Rightarrow> int \<times> bytes option \<times> ('w, 'v) process" where
  "vispython_exec P E module_name code cap buf p =
     (if \<not> vis_py_started p then (VIS_PY_ERR_INIT, buf, p)
      else
        let (status, buf1, p1) =
              vis_py_exec_locked P E module_name code cap buf (push_run module_name (PyGILState_Ensure p))
        in (status, buf1, PyGILState_Release (pop_run p1)))"

definition vispython_run ::
  "nat \<Rightarrow> ('w, 'v, 'o) python \<Rightarrow> allocator \<Rightarrow> bytes option \<Rightarrow> bytes option \<Rightarrow> int \<Rightarrow> bytes option \<Rightarrow>
     ('w, 'v) process \<Rightarrow> int \<times> bytes option \<times> ('w, 'v) process" where
  "vispython_run me P E module_name code cap buf p =
     (if \<not> vis_py_started p then (VIS_PY_ERR_INIT, buf, p)
      else
        let (status, buf1, p1) =
              vis_py_run_locked me P E module_name code cap buf (push_run module_name (PyGILState_Ensure p))
        in (status, buf1, PyGILState_Release (pop_run p1)))"

definition no_memory :: exc where
  "no_memory = \<lparr>tp_name = ''MemoryError'', exc_str = Some (Some []), is_exception = True\<rparr>"

text \<open>A block that no block of its thread encloses owns a budget; \<open>None\<close> when there is no memory for it.\<close>

definition open_block :: "('w, 'v, 'o) python \<Rightarrow> ('w, 'v) process \<Rightarrow> ('w, 'v) process option" where
  "open_block P p =
     (case scan_current (thread p) of
        Some _ \<Rightarrow> Some p
      | None \<Rightarrow>
          (case calloc_budget P p of
             None \<Rightarrow> None
           | Some b \<Rightarrow> Some (set_scan (Some b) (p\<lparr>scans := scan_budget_new b (scans p)\<rparr>))))"

definition vispython_run_block ::
  "nat \<Rightarrow> ('w, 'v, 'o) python \<Rightarrow> allocator \<Rightarrow> bytes option \<Rightarrow> bytes option \<Rightarrow> int \<Rightarrow> bytes option \<Rightarrow>
     ('w, 'v) process \<Rightarrow> int \<times> bytes option \<times> ('w, 'v) process" where
  "vispython_run_block me P E module_name code cap buf p =
     (if \<not> vis_py_started p then (VIS_PY_ERR_INIT, buf, p)
      else
        let p1 = PyGILState_Ensure p; previous = scan_current (thread p1) in
        case open_block P p1 of
          None \<Rightarrow>
            (let (status, buf2, p2) = answer_error E no_memory cap buf p1
             in (status, buf2, PyGILState_Release p2))
        | Some p2 \<Rightarrow>
            let (status, buf3, p3) = vis_py_run_block_locked me P E module_name code cap buf (push_run module_name p2);
                p4 = pop_run p3;
                p5 = (if previous = None
                      then p4\<lparr>scans := vis_py_scan_release (scan_current (thread p4)) (scans p4)\<rparr> else p4)
            in (status, buf3, PyGILState_Release (set_scan previous p5)))"

text \<open>Raising in every thread the batches named, one after the other.\<close>

definition raise_in_all :: "('w, 'v, 'o) python \<Rightarrow> nat list \<Rightarrow> ('w, 'v) process \<Rightarrow> ('w, 'v) process" where
  "raise_in_all P runners p = fold (\<lambda>r p. snd (set_async_exc P r p)) runners p"

definition vispython_interrupt ::
  "('w, 'v, 'o) python \<Rightarrow> allocator \<Rightarrow> int \<Rightarrow> bytes option \<Rightarrow> ('w, 'v) process \<Rightarrow>
     int \<times> bytes option \<times> ('w, 'v) process" where
  "vispython_interrupt P E cap buf p =
     (if \<not> vis_py_started p then (VIS_PY_ERR_INIT, buf, p)
      else
        let target = running_thread p in
        if target = 0 then answer E ''0'' cap buf p
        else
          let (landed, p1) = set_async_exc P target (PyGILState_Ensure p);
              (runners, pool1) = vis_py_interrupt_batches target (nat VIS_PY_WORKERS_MAX) (pool p1);
              p2 = PyGILState_Release (raise_in_all P runners (p1\<lparr>pool := pool1\<rparr>));
              p3 = log_event P VIS_PY_LOG_WARN ''interrupt''
                     (quoted ''threads'' @ '':'' @ show_int landed @ '','' @ quoted ''thunks'' @ '':''
                      @ show_int (int (length runners))) p2
          in answer E (if landed > 0 then ''1'' else ''0'') cap buf p3)"

definition vispython_version ::
  "bytes \<Rightarrow> allocator \<Rightarrow> int \<Rightarrow> bytes option \<Rightarrow> ('w, 'v) process \<Rightarrow> int \<times> bytes option \<times> ('w, 'v) process" where
  "vispython_version Py_GetVersion E cap buf p =
     (if \<not> vis_py_started p then (VIS_PY_ERR_INIT, buf, p) else answer E Py_GetVersion cap buf p)"

section \<open>What a call leaves as it was\<close>

text \<open>
  What code running on the thread leaves behind: the same blocks running, the same scan budget in force,
  the interpreter lock held as often, the interpreter started.
\<close>

definition steady :: "('w, 'v) process \<Rightarrow> ('w, 'v) process \<Rightarrow> bool" where
  "steady p p' \<longleftrightarrow> (\<forall>e. runs_as (runs (thread p)) e \<longrightarrow> runs_as (runs (thread p')) e)
     \<and> scan_current (thread p') = scan_current (thread p) \<and> gil p' = gil p
     \<and> vis_py_started p' = vis_py_started p"

text \<open>CPython runs such code only: every call of it that can run Python keeps these.\<close>

definition well_nested :: "('w, 'v, 'o) python \<Rightarrow> bool" where
  "well_nested P \<longleftrightarrow>
     (\<forall>n p. steady p (snd (add_module P n p))) \<and> (\<forall>g p. steady p (snd (set_builtins P g p)))
     \<and> (\<forall>c g p. steady p (snd (eval_input P c g p))) \<and> (\<forall>c g p. steady p (snd (file_input P c g p)))
     \<and> (\<forall>n p. steady p (snd (import_module P n p))) \<and> (\<forall>r m c g p. steady p (snd (call_method P r m c g p)))
     \<and> (\<forall>x p. steady p (snd (object_str P x p))) \<and> (\<forall>r p. steady p (snd (set_async_exc P r p)))"

lemma steady_refl [simp, intro]: "steady p p"
  by (simp add: steady_def)

lemma steady_trans [trans]: "steady p q \<Longrightarrow> steady q r \<Longrightarrow> steady p r"
  by (simp add: steady_def)

lemma steady_updates [simp]:
  "steady p (q\<lparr>kept := s\<rparr>) \<longleftrightarrow> steady p q"
  "steady p (q\<lparr>pending_exc := x\<rparr>) \<longleftrightarrow> steady p q"
  "steady p (q\<lparr>scans := h\<rparr>) \<longleftrightarrow> steady p q"
  "steady p (q\<lparr>running_thread := t\<rparr>) \<longleftrightarrow> steady p q"
  "steady p (q\<lparr>event_log := l\<rparr>) \<longleftrightarrow> steady p q"
  "steady p (q\<lparr>pool := u\<rparr>) \<longleftrightarrow> steady p q"
  "steady (q\<lparr>running_thread := t\<rparr>) p \<longleftrightarrow> steady q p"
  "steady (q\<lparr>pool := u\<rparr>) p \<longleftrightarrow> steady q p"
  by (simp_all add: steady_def)

lemma steady_log_event [simp]: "steady p (log_event P lvl ev b q) \<longleftrightarrow> steady p q"
  by (simp add: log_event_def)

lemma steady_answer: "answer E s cap buf p = (r, buf', p') \<Longrightarrow> steady p p'"
  by (auto simp: answer_def split: prod.splits)

lemma steady_answer_error: "answer_error E x cap buf p = (r, buf', p') \<Longrightarrow> steady p p'"
  by (auto simp: answer_error_def split: prod.splits)

lemma well_nestedD:
  assumes "well_nested P"
  shows "add_module P n p = (ro, p') \<Longrightarrow> steady p p'"
    "set_builtins P g p = (rx, p') \<Longrightarrow> steady p p'"
    "eval_input P c g p = (ro, p') \<Longrightarrow> steady p p'"
    "file_input P c g p = (ro, p') \<Longrightarrow> steady p p'"
    "import_module P n p = (ro, p') \<Longrightarrow> steady p p'"
    "call_method P g m c g2 p = (ro, p') \<Longrightarrow> steady p p'"
    "object_str P g p = (rs, p') \<Longrightarrow> steady p p'"
    "set_async_exc P r p = (ri, p') \<Longrightarrow> steady p p'"
  using assms unfolding well_nested_def by (metis snd_conv)+

lemma steady_str_utf8: "well_nested P \<Longrightarrow> str_utf8 P x p = (t, p') \<Longrightarrow> steady p p'"
  by (auto simp: str_utf8_def split: prod.splits sum.splits option.splits dest: well_nestedD(7))

lemma steady_namespace: "well_nested P \<Longrightarrow> vis_py_namespace P m p = (r, p') \<Longrightarrow> steady p p'"
  by (auto simp: vis_py_namespace_def Let_def split: prod.splits sum.splits option.splits if_splits
      dest: well_nestedD(1,2) intro: steady_trans)

lemma steady_eval_locked:
  assumes "well_nested P" "vis_py_eval_locked P E m code cap buf p = (r, buf', p')"
  shows "steady p p'"
  using assms(2) unfolding vis_py_eval_locked_def
  by (auto split: prod.splits sum.splits
      dest!: steady_namespace [OF assms(1)] well_nestedD(3) [OF assms(1)] steady_str_utf8 [OF assms(1)]
        steady_answer steady_answer_error intro: steady_trans)

lemma steady_exec_locked:
  assumes "well_nested P" "vis_py_exec_locked P E m code cap buf p = (r, buf', p')"
  shows "steady p p'"
  using assms(2) unfolding vis_py_exec_locked_def
  by (auto split: prod.splits sum.splits
      dest!: steady_namespace [OF assms(1)] well_nestedD(4) [OF assms(1)] steady_answer_error
      intro: steady_trans)

lemma steady_runtime_locked:
  assumes "well_nested P" "runtime_locked method failed lvl finish extra me P E m code cap buf p = (r, buf', p')"
  shows "steady p p'"
  using assms(2) unfolding runtime_locked_def Let_def
  by (auto split: prod.splits sum.splits
      dest!: steady_namespace [OF assms(1)] well_nestedD(5,6) [OF assms(1)] steady_str_utf8 [OF assms(1)]
        steady_answer steady_answer_error intro: steady_trans)
     (meson steady_trans)+

text \<open>A push, a steady run and the pop put the thread back.\<close>

lemma steady_bracket:
  assumes "steady (push_run s (PyGILState_Ensure p)) q"
  shows "steady p (PyGILState_Release (pop_run q))"
  using assms runs_as_push runs_as_pop
  by (fastforce simp: steady_def push_run_def pop_run_def PyGILState_Ensure_def PyGILState_Release_def)

lemma steady_eval: "well_nested P \<Longrightarrow> vispython_eval P E m code cap buf p = (r, buf', p') \<Longrightarrow> steady p p'"
  by (auto simp: vispython_eval_def split: if_splits prod.splits intro: steady_bracket dest: steady_eval_locked)

lemma steady_exec: "well_nested P \<Longrightarrow> vispython_exec P E m code cap buf p = (r, buf', p') \<Longrightarrow> steady p p'"
  by (auto simp: vispython_exec_def split: if_splits prod.splits intro: steady_bracket dest: steady_exec_locked)

lemma steady_run: "well_nested P \<Longrightarrow> vispython_run me P E m code cap buf p = (r, buf', p') \<Longrightarrow> steady p p'"
  by (auto simp: vispython_run_def vis_py_run_locked_def split: if_splits prod.splits
      intro: steady_bracket dest: steady_runtime_locked)

text \<open>The block's bracket: the budget in force is put back whatever the code did.\<close>

lemma steady_block_bracket:
  assumes "steady (push_run s q0) q" "runs (thread q0) = runs (thread p)" "gil q0 = gil p + 1"
    "vis_py_started q0 = vis_py_started p"
  shows "steady p (PyGILState_Release (set_scan (scan_current (thread p)) (pop_run q)))"
  using assms runs_as_push runs_as_pop
  by (fastforce simp: steady_def push_run_def pop_run_def set_scan_def PyGILState_Release_def)

lemma steady_release: "steady (PyGILState_Ensure p) q \<Longrightarrow> steady p (PyGILState_Release q)"
  by (simp add: steady_def PyGILState_Ensure_def PyGILState_Release_def)

lemma pop_run_scans [simp]:
  "PyGILState_Release (set_scan a ((pop_run q)\<lparr>scans := h\<rparr>)) = (PyGILState_Release (set_scan a (pop_run q)))\<lparr>scans := h\<rparr>"
  by (simp add: PyGILState_Release_def set_scan_def)

lemma ensure_simps [simp]:
  "thread (PyGILState_Ensure p) = thread p" "scans (PyGILState_Ensure p) = scans p"
  "vis_py_started (PyGILState_Ensure p) = vis_py_started p" "gil (PyGILState_Ensure p) = gil p + 1"
  "running_thread (PyGILState_Ensure p) = running_thread p" "pool (PyGILState_Ensure p) = pool p"
  "world (PyGILState_Ensure p) = world p"
  by (simp_all add: PyGILState_Ensure_def)

lemma set_scan_simps [simp]:
  "runs (thread (set_scan a p)) = runs (thread p)" "scan_current (thread (set_scan a p)) = a"
  "gil (set_scan a p) = gil p" "vis_py_started (set_scan a p) = vis_py_started p"
  "scans (set_scan a p) = scans p"
  by (simp_all add: set_scan_def)

lemma open_block_frame:
  "open_block P p = Some q \<Longrightarrow> runs (thread q) = runs (thread p) \<and> gil q = gil p
     \<and> vis_py_started q = vis_py_started p"
  by (auto simp: open_block_def split: option.splits)

lemma steady_run_block:
  assumes "well_nested P" "vispython_run_block me P E m code cap buf p = (r, buf', p')"
  shows "steady p p'"
proof (cases "vis_py_started p")
  case False
  with assms(2) show ?thesis by (simp add: vispython_run_block_def)
next
  case started: True
  let ?p1 = "PyGILState_Ensure p"
  show ?thesis
  proof (cases "open_block P ?p1")
    case None
    obtain q where "answer_error E no_memory cap buf ?p1 = (r, buf', q)" "p' = PyGILState_Release q"
      using assms(2) started None by (auto simp: vispython_run_block_def Let_def split: prod.splits)
    then show ?thesis by (auto intro: steady_release dest: steady_answer_error)
  next
    case (Some q0)
    obtain q where q: "vis_py_run_block_locked me P E m code cap buf (push_run m q0) = (r, buf', q)"
      "p' = PyGILState_Release (set_scan (scan_current (thread p))
         (if scan_current (thread p) = None
          then (pop_run q)\<lparr>scans := vis_py_scan_release (scan_current (thread (pop_run q))) (scans (pop_run q))\<rparr>
          else pop_run q))"
      using assms(2) started Some by (simp add: vispython_run_block_def Let_def split: prod.splits)
    have "steady (push_run m q0) q"
      using q(1) steady_runtime_locked [OF assms(1)] by (simp add: vis_py_run_block_locked_def)
    then have "steady p (PyGILState_Release (set_scan (scan_current (thread p)) (pop_run q)))"
      by (rule steady_block_bracket) (use open_block_frame [OF Some] in simp_all)
    then show ?thesis using q(2) by (cases "scan_current (thread p)") simp_all
  qed
qed

lemma steady_raise_in_all: "well_nested P \<Longrightarrow> steady p (raise_in_all P rs p)"
proof (induction rs arbitrary: p)
  case (Cons r rs)
  obtain i q where one: "set_async_exc P r p = (i, q)" by fastforce
  have "raise_in_all P (r # rs) p = raise_in_all P rs q" by (simp add: raise_in_all_def one)
  with Cons.IH [OF Cons.prems, of q] well_nestedD(8) [OF Cons.prems one] show ?case
    by (metis steady_trans)
qed (simp add: raise_in_all_def)

lemma steady_interrupt:
  assumes "well_nested P" "vispython_interrupt P E cap buf p = (r, buf', p')"
  shows "steady p p'"
proof (cases "vis_py_started p \<and> running_thread p \<noteq> 0")
  case False
  with assms(2) show ?thesis by (auto simp: vispython_interrupt_def split: if_splits dest: steady_answer)
next
  case True
  obtain landed p1 where one: "set_async_exc P (running_thread p) (PyGILState_Ensure p) = (landed, p1)" by fastforce
  obtain rs pool1 where two: "vis_py_interrupt_batches (running_thread p) (nat VIS_PY_WORKERS_MAX) (pool p1) = (rs, pool1)"
    by fastforce
  have "steady (PyGILState_Ensure p) (raise_in_all P rs (p1\<lparr>pool := pool1\<rparr>))"
    using well_nestedD(8) [OF assms(1) one] steady_raise_in_all [OF assms(1), of "p1\<lparr>pool := pool1\<rparr>" rs]
    by (simp add: steady_trans)
  then have rel: "steady p (PyGILState_Release (raise_in_all P rs (p1\<lparr>pool := pool1\<rparr>)))"
    by (rule steady_release)
  obtain t lvl ev b where ans: "answer E t cap buf
      (log_event P lvl ev b (PyGILState_Release (raise_in_all P rs (p1\<lparr>pool := pool1\<rparr>)))) = (r, buf', p')"
    using True assms(2) one two by (simp add: vispython_interrupt_def Let_def)
  from steady_trans [OF _ steady_answer [OF ans], of p] rel show ?thesis by simp
qed

section \<open>Lemmas on answers\<close>

text \<open>A text reached the host: whole in the buffer, or whole in the stash for one further call.\<close>

definition delivered :: "int \<Rightarrow> bytes \<Rightarrow> bytes option \<Rightarrow> bytes option \<Rightarrow> bool" where
  "delivered cap text buf k \<longleftrightarrow>
     (if int (length text) < cap then (\<exists>b. buf = Some b \<and> cstr_of b = text \<and> k = None)
      else k = Some text)"

lemma kept_frame [simp]:
  "kept (log_event P lvl ev b p) = kept p" "kept (PyGILState_Release p) = kept p" "kept (pop_run p) = kept p"
  by (simp_all add: log_event_def PyGILState_Release_def pop_run_def)

lemma copy_out_delivers:
  assumes "0 < cap" "\<forall>n. malloc_ok E n" "is_cstring s" "int (length s) < INT_MAX"
  shows "\<exists>c. vis_py_copy_out E s cap \<lparr>out_buf = Some b, stash = k\<rparr> = (int (length s), c)
    \<and> delivered cap s (out_buf c) (stash c)"
  using copy_out_fits [of "\<lparr>out_buf = Some b, stash = k\<rparr>" b s cap E]
    copy_out_truncates [of "\<lparr>out_buf = Some b, stash = k\<rparr>" b cap s E] assms
  by (cases "int (length s) < cap") (auto simp: delivered_def stash_vis_py_stash)

lemma answer_delivers:
  assumes "0 < cap" "\<forall>n. malloc_ok E n" "is_cstring s" "int (length s) < INT_MAX"
  shows "\<exists>buf' p'. answer E s cap (Some b) p = (int (length s), buf', p') \<and> delivered cap s buf' (kept p')"
  using copy_out_delivers [OF assms, of b "kept p"] by (fastforce simp: answer_def)

definition raised_text :: "allocator \<Rightarrow> exc \<Rightarrow> bytes" where
  "raised_text E x = utf8_or ''unprintable Python exception'' (vis_py_error_text E x)"

lemma is_cstring_raised_text [simp]: "is_cstring (raised_text E x)"
  by (auto simp: raised_text_def utf8_or_def NUL_def split: option.split)

lemma answer_error_delivers:
  assumes "0 < cap" "\<forall>n. malloc_ok E n" "int (length (raised_text E x)) < INT_MAX"
  shows "\<exists>buf' p'. answer_error E x cap (Some b) p = (VIS_PY_ERR_PYTHON, buf', p')
    \<and> delivered cap (raised_text E x) buf' (kept p') \<and> pending_exc p' = None"
  using copy_out_delivers [OF assms(1,2) is_cstring_raised_text assms(3), of b "kept p"]
  by (fastforce simp: answer_error_def vis_py_take_error_def raised_text_def [symmetric])

lemma is_cstring_str_utf8 [simp]: "is_cstring (fst (str_utf8 P obj p))"
  by (auto simp: str_utf8_def split: prod.split sum.split option.split)

lemma running_thread_frame [simp]:
  "running_thread (PyGILState_Release p) = running_thread p"
  "running_thread (pop_run p) = running_thread p"
  "running_thread (log_event P lvl ev b p) = running_thread p"
  by (simp_all add: PyGILState_Release_def pop_run_def log_event_def)

lemma running_thread_answer: "answer E s cap buf p = (r, buf', p') \<Longrightarrow> running_thread p' = running_thread p"
  by (auto simp: answer_def split: prod.splits)

lemma running_thread_answer_error:
  "answer_error E x cap buf p = (r, buf', p') \<Longrightarrow> running_thread p' = running_thread p"
  by (auto simp: answer_error_def split: prod.splits)

section \<open>Reentrancy\<close>

text \<open>The calls Python code can reach through the host, and an interpreter whose code makes them.\<close>

datatype entry = Eval "bytes option" bytes | Exec "bytes option" bytes | Run "bytes option" bytes
  | RunBlock "bytes option" bytes | Interrupt

definition enter ::
  "nat \<Rightarrow> allocator \<Rightarrow> int \<Rightarrow> bytes option \<Rightarrow> ('w, 'v, 'o) python \<Rightarrow> entry \<Rightarrow> ('w, 'v) process \<Rightarrow> ('w, 'v) process" where
  "enter me E cap buf P e p =
     (case e of
        Eval m code \<Rightarrow> snd (snd (vispython_eval P E m (Some code) cap buf p))
      | Exec m code \<Rightarrow> snd (snd (vispython_exec P E m (Some code) cap buf p))
      | Run m code \<Rightarrow> snd (snd (vispython_run me P E m (Some code) cap buf p))
      | RunBlock m code \<Rightarrow> snd (snd (vispython_run_block me P E m (Some code) cap buf p))
      | Interrupt \<Rightarrow> snd (snd (vispython_interrupt P E cap buf p)))"

text \<open>\<open>reentrant n\<close>: code that calls back, whose code calls back, and so on \<open>n\<close> deep; \<open>script\<close> is what a code does.\<close>

primrec reentrant ::
  "nat \<Rightarrow> allocator \<Rightarrow> int \<Rightarrow> bytes option \<Rightarrow> (bytes option \<Rightarrow> entry list) \<Rightarrow> ('w, 'v, 'o) python \<Rightarrow> nat \<Rightarrow>
     ('w, 'v, 'o) python" where
  "reentrant me E cap buf script P 0 = P"
| "reentrant me E cap buf script P (Suc n) =
     (let Q = reentrant me E cap buf script P n
      in Q\<lparr>call_method := (\<lambda>r m code g p.
             let (res, p1) = call_method Q r m code g p
             in (res, fold (enter me E cap buf Q) (script code) p1))\<rparr>)"

lemma steady_enter: "well_nested P \<Longrightarrow> steady p (enter me E cap buf P e p)"
  unfolding enter_def
  by (cases e; simp; metis prod.collapse steady_eval steady_exec steady_run steady_run_block steady_interrupt)

lemma steady_entries: "well_nested P \<Longrightarrow> steady p (fold (enter me E cap buf P) es p)"
  by (induction es arbitrary: p) (auto intro: steady_trans steady_enter)

lemma well_nested_reentrant: "well_nested P \<Longrightarrow> well_nested (reentrant me E cap buf script P n)"
proof (induction n)
  case (Suc n)
  let ?Q = "reentrant me E cap buf script P n"
  have Q: "well_nested ?Q" using Suc by simp
  have "steady p (snd (call_method (reentrant me E cap buf script P (Suc n)) r m c g p))" for r m c g p
    using well_nestedD(6) [OF Q, of r m c g p] steady_entries [OF Q]
    by (auto simp: Let_def split: prod.split intro: steady_trans)
  with Q show ?case by (simp add: well_nested_def Let_def)
qed simp

section \<open>Properties\<close>

text \<open>An interpreter for the witnesses: modules and objects are numbers, every code succeeds with the text
  \<open>hi\<close>, and an exception set for a thread is added to the world.\<close>

definition quiet_python :: "(nat list, nat, nat) python" where
  "quiet_python = \<lparr>add_module = (\<lambda>_ p. (Inr 1, p)), has_builtins = (\<lambda>_ _. False), set_builtins = (\<lambda>_ p. (None, p)),
     eval_input = (\<lambda>_ _ p. (Inr 2, p)), file_input = (\<lambda>_ _ p. (Inr 2, p)), import_module = (\<lambda>_ p. (Inr 3, p)),
     call_method = (\<lambda>_ _ _ _ p. (Inr 4, p)), object_str = (\<lambda>_ p. (Inr (Some ''hi''), p)),
     encode_error = \<lparr>tp_name = ''UnicodeEncodeError'', exc_str = None, is_exception = True\<rparr>,
     set_async_exc = (\<lambda>r p. (1, p\<lparr>world := world p @ [r]\<rparr>)), clock_now = (\<lambda>_. (0, 0)),
     calloc_budget = (\<lambda>_. Some 0)\<rparr>"

lemma quiet_well_nested: "well_nested quiet_python"
  by (simp add: well_nested_def quiet_python_def steady_def)

definition idle_process :: "(nat list, nat) process" where
  "idle_process = \<lparr>vis_py_started = True, thread = \<lparr>runs = initial_runs, scan_current = None\<rparr>, kept = None, gil = 0,
     pending_exc = None, scans = (\<lambda>_. \<lparr>remaining = 0, references = 0\<rparr>), running_thread = 0,
     event_log = vis_py_log_init, pool = initial_pool, world = []\<rparr>"

definition all_memory :: allocator where
  "all_memory = \<lparr>malloc_ok = \<lambda>_. True, pyalloc_ok = \<lambda>_. True\<rparr>"

text \<open>C31: Every call into the interpreter leaves its thread as it found it, whatever the code did and on
  every path out, errors included: the same stack of running sessions, the same scan budget in force, the
  interpreter lock held as often as before.  This holds for code that calls back into the library on the
  same thread, whose code calls back, to any depth, and for any sequence of such calls.\<close>

theorem entry_points_restore_thread:
  assumes "well_nested P" "runs_as (runs (thread p)) enclosing"
  shows "let p' = fold (enter me E cap buf (reentrant me E cap buf script P depth)) calls p
    in runs_as (runs (thread p')) enclosing \<and> vis_py_current_session (runs (thread p')) = owner_of enclosing
       \<and> scan_current (thread p') = scan_current (thread p) \<and> gil p' = gil p"
proof -
  have "steady p (fold (enter me E cap buf (reentrant me E cap buf script P depth)) calls p)"
    by (rule steady_entries) (rule well_nested_reentrant [OF assms(1)])
  with assms(2) show ?thesis by (simp add: steady_def Let_def current_session_owner)
qed

theorem entry_points_restore_thread_witness:
  "gil (fold (enter 1 all_memory 8 (Some ''xxxxxxxx'')
     (reentrant 1 all_memory 8 (Some ''xxxxxxxx'') (\<lambda>_. [Run (Some ''b'') ''y'', Interrupt]) quiet_python 3))
     [RunBlock (Some ''a'') ''x'', Eval None ''1''] idle_process) = 0"
proof -
  have "runs_as (runs (thread idle_process)) []" by (simp add: idle_process_def runs_as_initial)
  from entry_points_restore_thread [OF quiet_well_nested this, of 1 all_memory 8 "Some ''xxxxxxxx''"
      "\<lambda>_. [Run (Some ''b'') ''y'', Interrupt]" 3 "[RunBlock (Some ''a'') ''x'', Eval None ''1'']"]
  show ?thesis by (simp add: Let_def) (simp add: idle_process_def)
qed

text \<open>What comes of a run: the first exception raised on the way to the runtime's function or in it, or its object.\<close>

definition run_outcome ::
  "nat \<Rightarrow> ('w, 'v, 'o) python \<Rightarrow> bytes option \<Rightarrow> bytes option \<Rightarrow> ('w, 'v) process \<Rightarrow> (exc + 'o) \<times> ('w, 'v) process" where
  "run_outcome me P m code p =
     (case vis_py_namespace P m p of
        (Inl x, p1) \<Rightarrow> (Inl x, p1)
      | (Inr g, p1) \<Rightarrow>
          (case import_module P ''vis_runtime'' p1 of
             (Inl x, p2) \<Rightarrow> (Inl x, p2)
           | (Inr rt, p2) \<Rightarrow>
               (case call_method P rt ''run_json'' code g (p2\<lparr>running_thread := me\<rparr>) of
                  (r, p3) \<Rightarrow> (r, p3\<lparr>running_thread := 0\<rparr>))))"

lemma pending_frame [simp]:
  "pending_exc (log_event P lvl ev b p) = pending_exc p" "pending_exc (PyGILState_Release p) = pending_exc p"
  "pending_exc (pop_run p) = pending_exc p"
  by (simp_all add: log_event_def PyGILState_Release_def pop_run_def)

lemma pending_answer: "answer E s cap buf p = (r, buf', p') \<Longrightarrow> pending_exc p' = pending_exc p"
  by (auto simp: answer_def split: prod.splits)

lemma run_of_exception:
  assumes "vis_py_started p" "run_outcome me P m code (push_run m (PyGILState_Ensure p)) = (Inl x, q)"
    "answer_error E x cap buf q = (r, buf', q1)"
  shows "\<exists>p'. vispython_run me P E m code cap buf p = (r, buf', p') \<and> kept p' = kept q1 \<and> pending_exc p' = pending_exc q1"
  using assms
  by (auto simp: run_outcome_def vispython_run_def vis_py_run_locked_def runtime_locked_def Let_def split: prod.splits sum.splits)

lemma run_of_object:
  assumes "vis_py_started p" "run_outcome me P m code (push_run m (PyGILState_Ensure p)) = (Inr obj, q)"
    "str_utf8 P obj q = (t, q1)" "answer E t cap buf q1 = (r, buf', q2)"
  shows "\<exists>p'. vispython_run me P E m code cap buf p = (r, buf', p') \<and> kept p' = kept q2 \<and> pending_exc p' = pending_exc q2"
  using assms
  by (auto simp: run_outcome_def vispython_run_def vis_py_run_locked_def runtime_locked_def Let_def split: prod.splits sum.splits)

text \<open>C34: \<open>vispython_run\<close> delivers what comes of the run, in the buffer when it fits and in the stash otherwise.
  Where the namespace, the import of the runtime or its function raises an exception, that is the status of a
  Python error with the whole text of the exception, and no exception is left pending.  Otherwise it is the
  length of the whole text of the object the function returned, and nothing more is pending.  Where the text of
  that object cannot be had, the answer is the empty text with the status of a success, and the exception of the
  failure is left pending.\<close>

theorem run_answers_value_or_error:
  assumes "vis_py_started p" "0 < cap" "\<forall>n. malloc_ok E n"
    "run_outcome me P m code (push_run m (PyGILState_Ensure p)) = (outcome, q)"
    "int (length (case outcome of Inl x \<Rightarrow> raised_text E x | Inr obj \<Rightarrow> fst (str_utf8 P obj q))) < INT_MAX"
  shows "\<exists>status buf' p'. vispython_run me P E m code cap (Some b) p = (status, buf', p') \<and>
    (case outcome of
       Inl x \<Rightarrow> status = VIS_PY_ERR_PYTHON \<and> delivered cap (raised_text E x) buf' (kept p') \<and> pending_exc p' = None
     | Inr obj \<Rightarrow>
         (case object_str P obj q of
            (Inr (Some u), q1) \<Rightarrow>
              status = int (length (cstr_of u)) \<and> delivered cap (cstr_of u) buf' (kept p') \<and> pending_exc p' = pending_exc q1
          | (Inr None, _) \<Rightarrow> status = 0 \<and> delivered cap [] buf' (kept p') \<and> pending_exc p' = Some (encode_error P)
          | (Inl x, _) \<Rightarrow> status = 0 \<and> delivered cap [] buf' (kept p') \<and> pending_exc p' = Some x))"
proof (cases outcome)
  case (Inl x)
  obtain buf' q1 where "answer_error E x cap (Some b) q = (VIS_PY_ERR_PYTHON, buf', q1)"
    "delivered cap (raised_text E x) buf' (kept q1)" "pending_exc q1 = None"
    using answer_error_delivers [OF assms(2,3), of x b q] assms(5) Inl by auto
  with run_of_exception [OF assms(1) assms(4) [unfolded Inl] this(1)] Inl show ?thesis by auto
next
  case (Inr obj)
  obtain t q1 where t: "str_utf8 P obj q = (t, q1)" by (metis surj_pair)
  have "is_cstring t" using is_cstring_str_utf8 [of P obj q] t by simp
  moreover have "int (length t) < INT_MAX" using assms(5) t Inr by simp
  ultimately obtain buf' q2 where a: "answer E t cap (Some b) q1 = (int (length t), buf', q2)" "delivered cap t buf' (kept q2)"
    using answer_delivers [OF assms(2,3), of t b q1] by blast
  with run_of_object [OF assms(1) assms(4) [unfolded Inr] t a(1)] pending_answer [OF a(1)]
  obtain p' where "vispython_run me P E m code cap (Some b) p = (int (length t), buf', p')"
    "delivered cap t buf' (kept p')" "pending_exc p' = pending_exc q1" by auto
  with t Inr show ?thesis by (auto simp: str_utf8_def split: prod.splits sum.splits option.splits)
qed

theorem run_answers_value_or_error_witness:
  "\<exists>buf' p'. vispython_run 1 quiet_python all_memory (Some ''a'') (Some ''x'') 8 (Some ''xxxxxxxx'') idle_process
     = (2, buf', p') \<and> delivered 8 ''hi'' buf' (kept p') \<and> pending_exc p' = None"
proof -
  let ?p = "push_run (Some ''a'') (PyGILState_Ensure idle_process)"
  have o: "run_outcome 1 quiet_python (Some ''a'') (Some ''x'') ?p = (Inr 4, ?p\<lparr>running_thread := 0\<rparr>)"
    by (simp add: run_outcome_def vis_py_namespace_def quiet_python_def)
  have str: "str_utf8 quiet_python 4 q = (''hi'', q)" "object_str quiet_python 4 q = (Inr (Some ''hi''), q)" "cstr_of ''hi'' = ''hi''" for q
    by (simp_all add: str_utf8_def quiet_python_def NUL_def cstr_of_def)
  have st: "vis_py_started idle_process" "pending_exc ?p = None" and mem: "\<forall>n. malloc_ok all_memory n"
    by (simp_all add: idle_process_def all_memory_def push_run_def PyGILState_Ensure_def)
  from run_answers_value_or_error [OF st(1) _ mem o, of 8 "''xxxxxxxx''"] show ?thesis
    by (simp add: str st(2) INT_MAX_def)
qed

text \<open>A block no block of its thread encloses runs under a fresh budget of 10000 directory entries;
  when it is over the budget is no longer in force, and it is freed if the batches of the block have given
  back their references.\<close>

theorem block_owns_its_budget:
  assumes "well_nested P" "vis_py_started p" "scan_current (thread p) = None"
    "open_block P (PyGILState_Ensure p) = Some q0"
    "vis_py_run_block_locked me P E m code cap buf (push_run m q0) = (r, buf', q)"
  shows "\<exists>b p'. scan_current (thread q0) = Some b \<and> scans q0 b = \<lparr>remaining = VIS_PY_SCAN_ENTRIES, references = 1\<rparr>
    \<and> vispython_run_block me P E m code cap buf p = (r, buf', p') \<and> scan_current (thread p') = None
    \<and> scans p' = (scans q)(b := (scans q b)\<lparr>references := references (scans q b) - 1\<rparr>)"
proof -
  obtain b where b: "q0 = set_scan (Some b) ((PyGILState_Ensure p)\<lparr>scans := scan_budget_new b (scans p)\<rparr>)"
    using assms(3,4) by (auto simp: open_block_def split: option.splits)
  have "steady (push_run m q0) q"
    using assms(5) steady_runtime_locked [OF assms(1)] by (simp add: vis_py_run_block_locked_def)
  then have "scan_current (thread q) = Some b"
    using b by (simp add: steady_def push_run_def set_scan_def)
  then have "vispython_run_block me P E m code cap buf p = (r, buf', PyGILState_Release (set_scan None
      ((pop_run q)\<lparr>scans := vis_py_scan_release (Some b) (scans q)\<rparr>)))"
    using assms(2-5) by (simp add: vispython_run_block_def Let_def pop_run_def)
  then show ?thesis using b
    by (simp add: scan_budget_new_def PyGILState_Release_def vis_py_scan_release_def)
qed

theorem block_owns_its_budget_witness:
  "\<exists>r buf' p'. vispython_run_block 1 quiet_python all_memory (Some ''a'') (Some ''x'') 8 (Some ''xxxxxxxx'')
     idle_process = (r, buf', p') \<and> scan_current (thread p') = None"
proof -
  obtain q0 where q0: "open_block quiet_python (PyGILState_Ensure idle_process) = Some q0"
    by (simp add: open_block_def quiet_python_def idle_process_def split: option.split)
  obtain r buf' q where run: "vis_py_run_block_locked 1 quiet_python all_memory (Some ''a'') (Some ''x'') 8
      (Some ''xxxxxxxx'') (push_run (Some ''a'') q0) = (r, buf', q)" by (metis surj_pair)
  from block_owns_its_budget [OF quiet_well_nested _ _ q0 run] show ?thesis
    by (auto simp: idle_process_def)
qed

text \<open>A block that another block of its thread encloses spends the enclosing block's budget: it allocates
  none, its code runs under the same one, and the budget neither changes hands nor is given back when it ends.\<close>

theorem nested_block_spends_outer_budget:
  assumes "vis_py_started p" "scan_current (thread p) = Some a"
    "vis_py_run_block_locked me P E m code cap buf (push_run m (PyGILState_Ensure p)) = (r, buf', q)"
  shows "\<exists>p'. vispython_run_block me P E m code cap buf p = (r, buf', p') \<and> scans p' = scans q
    \<and> scan_current (thread p') = Some a"
  using assms
  by (simp add: vispython_run_block_def open_block_def Let_def) (simp add: PyGILState_Release_def pop_run_def set_scan_def)

theorem nested_block_spends_outer_budget_witness:
  "scan_current (thread (snd (snd (vispython_run_block 1 quiet_python all_memory None None 4 (Some ''abcd'')
     (set_scan (Some 5) idle_process))))) = Some 5"
proof -
  let ?p = "set_scan (Some 5) idle_process"
  have st: "vis_py_started ?p" "scan_current (thread ?p) = Some 5" by (simp_all add: idle_process_def)
  obtain r buf' q where run: "vis_py_run_block_locked 1 quiet_python all_memory None None 4 (Some ''abcd'')
      (push_run None (PyGILState_Ensure ?p)) = (r, buf', q)" by (metis surj_pair)
  from nested_block_spends_outer_budget [OF st run] show ?thesis by auto
qed

text \<open>Before the interpreter is started every call answers the status of a missing interpreter and changes
  nothing: not the buffer, not the stash, not the thread.\<close>

theorem calls_before_start_do_nothing:
  assumes "\<not> vis_py_started p"
  shows "vispython_eval P E m code cap buf p = (VIS_PY_ERR_INIT, buf, p)
    \<and> vispython_exec P E m code cap buf p = (VIS_PY_ERR_INIT, buf, p)
    \<and> vispython_run me P E m code cap buf p = (VIS_PY_ERR_INIT, buf, p)
    \<and> vispython_run_block me P E m code cap buf p = (VIS_PY_ERR_INIT, buf, p)
    \<and> vispython_interrupt P E cap buf p = (VIS_PY_ERR_INIT, buf, p)
    \<and> vispython_version v E cap buf p = (VIS_PY_ERR_INIT, buf, p)"
  using assms by (simp add: vispython_eval_def vispython_exec_def vispython_run_def vispython_run_block_def
      vispython_interrupt_def vispython_version_def)

theorem calls_before_start_do_nothing_witness:
  "fst (vispython_eval quiet_python all_memory None (Some ''1'') 4 None (idle_process\<lparr>vis_py_started := False\<rparr>)) = - 2"
  using calls_before_start_do_nothing [of "idle_process\<lparr>vis_py_started := False\<rparr>" quiet_python all_memory None
      "Some ''1''" 4 None]
  by (simp add: VIS_PY_ERR_INIT_def)

text \<open>C35: An interrupt while a block runs raises in the block's thread and then in the threads running the
  thunks of every batch that block waits on, at most 64 of them, and stops those batches and no other.\<close>

theorem interrupt_raises_in_block_and_thunks:
  assumes "vis_py_started p" "running_thread p \<noteq> 0" "distinct (waiting (pool p))"
    "\<forall>t q. set_async_exc P t q = (landed t, q\<lparr>world := raise t (world q)\<rparr>)"
    "vispython_interrupt P E cap buf p = (r, buf', p')"
  shows "world p' = fold raise (running_thread p #
        take 64 (concat (map (runners_of (running_thread p) (pool p)) (waiting (pool p))))) (world p)
    \<and> pool p' = stop_owned (running_thread p) (set (waiting (pool p))) (pool p)
    \<and> running_thread p' = running_thread p"
proof -
  let ?t = "running_thread p"
  have batches: "vis_py_interrupt_batches ?t 64 (pool p) =
      (take 64 (concat (map (runners_of ?t (pool p)) (waiting (pool p)))), stop_owned ?t (set (waiting (pool p))) (pool p))"
    (is "_ = (?rs, ?stopped)")
    using interrupt_loop_spec [OF assms(3), of "[]" 64 ?t "pool p"] by (simp add: vis_py_interrupt_batches_def)
  have raised: "raise_in_all P rs q = q\<lparr>world := fold raise rs (world q)\<rparr>" for rs q
    unfolding raise_in_all_def by (induction rs arbitrary: q) (simp_all add: assms(4))
  obtain s lvl ev b where "answer E s cap buf (log_event P lvl ev b (PyGILState_Release
      (raise_in_all P ?rs ((PyGILState_Ensure p)\<lparr>world := raise ?t (world p), pool := ?stopped\<rparr>)))) = (r, buf', p')"
    using assms(1,2,5) batches by (simp add: vispython_interrupt_def Let_def assms(4) VIS_PY_WORKERS_MAX_def)
  then show ?thesis
    by (auto simp: raised answer_def log_event_def PyGILState_Release_def split: prod.splits)
qed

theorem interrupt_raises_in_block_and_thunks_witness:
  "world (snd (snd (vispython_interrupt quiet_python all_memory 4 (Some ''abcd'') (idle_process\<lparr>running_thread := 7\<rparr>)))) = [7]"
proof -
  let ?p = "idle_process\<lparr>running_thread := 7\<rparr>"
  have 1: "vis_py_started ?p" "running_thread ?p \<noteq> 0" "distinct (waiting (pool ?p))"
    by (simp_all add: idle_process_def initial_pool_def)
  have 2: "\<forall>t q. set_async_exc quiet_python t q = (1, q\<lparr>world := world q @ [t]\<rparr>)" by (simp add: quiet_python_def)
  obtain r buf' p' where 3: "vispython_interrupt quiet_python all_memory 4 (Some ''abcd'') ?p = (r, buf', p')"
    by (metis surj_pair)
  from interrupt_raises_in_block_and_thunks [OF 1, where landed = "\<lambda>_. 1" and raise = "\<lambda>t w. w @ [t]", OF 2 3] 3
  show ?thesis by (simp add: idle_process_def initial_pool_def)
qed

text \<open>There is one running thread for the whole process, and a run that ends clears it: after a call of
  \<open>vispython_run\<close> made from inside a block, or next to one on another thread, \<open>vispython_interrupt\<close> answers \<open>0\<close>
  and raises nowhere, although the block is still running.\<close>

theorem nested_run_hides_outer_block:
  assumes "vis_py_started p"
    "vis_py_namespace P m (push_run m (PyGILState_Ensure p)) = (Inr g, p1)"
    "import_module P ''vis_runtime'' p1 = (Inr rt, p2)"
    "\<forall>x q. running_thread (snd (object_str P x q)) = running_thread q"
    "vispython_run me P E m code cap buf p = (r, buf', p')"
  shows "running_thread p' = 0 \<and> vispython_interrupt P E cap2 buf2 p' =
    (if vis_py_started p' then answer E ''0'' cap2 buf2 p' else (VIS_PY_ERR_INIT, buf2, p'))"
proof -
  have "running_thread (snd (str_utf8 P x q)) = running_thread q" for x q
    using assms(4) by (auto simp: str_utf8_def split: prod.split sum.split option.split) (metis snd_conv)+
  then have str: "str_utf8 P x q = (t, q') \<Longrightarrow> running_thread q' = running_thread q" for x q t q' by (metis snd_conv)
  obtain q where "vis_py_run_locked me P E m code cap buf (push_run m (PyGILState_Ensure p)) = (r, buf', q)"
    "p' = PyGILState_Release (pop_run q)"
    using assms(1,5) by (auto simp: vispython_run_def split: prod.splits)
  then have "running_thread p' = 0"
    using assms(2,3)
    by (auto simp: vis_py_run_locked_def runtime_locked_def Let_def split: prod.splits sum.splits
        dest!: running_thread_answer running_thread_answer_error str)
  then show ?thesis by (simp add: vispython_interrupt_def)
qed

theorem nested_run_hides_outer_block_witness:
  "running_thread (snd (snd (vispython_run 1 quiet_python all_memory (Some ''b'') (Some ''x'') 8 (Some ''xxxxxxxx'')
     (idle_process\<lparr>running_thread := 7\<rparr>)))) = 0"
proof -
  let ?p = "idle_process\<lparr>running_thread := 7\<rparr>" let ?p1 = "push_run (Some ''b'') (PyGILState_Ensure ?p)"
  have 1: "vis_py_started ?p" by (simp add: idle_process_def)
  have 2: "vis_py_namespace quiet_python (Some ''b'') ?p1 = (Inr 1, ?p1)"
    and 3: "import_module quiet_python ''vis_runtime'' ?p1 = (Inr 3, ?p1)"
    and 4: "\<forall>x q. running_thread (snd (object_str quiet_python x q)) = running_thread q"
    by (simp_all add: vis_py_namespace_def quiet_python_def)
  obtain r buf' p' where 5: "vispython_run 1 quiet_python all_memory (Some ''b'') (Some ''x'') 8 (Some ''xxxxxxxx'') ?p = (r, buf', p')"
    by (metis surj_pair)
  from nested_run_hides_outer_block [OF 1 2 3 4 5] 5 show ?thesis by simp
qed

text \<open>When \<open>str\<close> of the value raises, or the text has no UTF-8 form, \<open>vispython_eval\<close> answers success with an
  empty text and leaves the exception pending on the thread state.\<close>

theorem unprintable_value_answers_empty:
  assumes "vis_py_started p" "0 < cap" "vis_py_namespace P m (push_run m (PyGILState_Ensure p)) = (Inr g, p1)"
    "eval_input P code g p1 = (Inr obj, p2)" "object_str P obj p2 = (Inl x, p3) \<or> object_str P obj p2 = (Inr None, p3)"
  shows "\<exists>buf' p'. vispython_eval P E m code cap (Some b) p = (0, buf', p') \<and> delivered cap [] buf' (kept p')
    \<and> pending_exc p' \<noteq> None"
proof -
  obtain y where str: "str_utf8 P obj p2 = ([], p3\<lparr>pending_exc := Some y\<rparr>)"
    using assms(5) by (auto simp: str_utf8_def)
  have "vis_py_copy_out E [] cap \<lparr>out_buf = Some b, stash = kept p3\<rparr> =
      (0, \<lparr>out_buf = Some (overlay [NUL] b), stash = None\<rparr>)"
    using copy_out_fits [of "\<lparr>out_buf = Some b, stash = kept p3\<rparr>" b "[]" cap E] assms(2) by (simp add: INT_MAX_def)
  moreover have "delivered cap [] (Some (overlay [NUL] b)) None"
    using assms(2) cstr_of_overlay [of "[]" b] by (simp add: delivered_def)
  ultimately show ?thesis
    using assms(1,3,4) str
    by (auto simp: vispython_eval_def vis_py_eval_locked_def answer_def PyGILState_Release_def pop_run_def)
qed

theorem unprintable_value_answers_empty_witness:
  "\<exists>buf' p'. vispython_eval (quiet_python\<lparr>object_str := (\<lambda>_ p. (Inr None, p))\<rparr>) all_memory None (Some ''x'') 4
     (Some ''abcd'') idle_process = (0, buf', p') \<and> delivered 4 [] buf' (kept p') \<and> pending_exc p' \<noteq> None"
proof -
  let ?P = "quiet_python\<lparr>object_str := (\<lambda>_ p. (Inr None, p))\<rparr>" let ?p1 = "push_run None (PyGILState_Ensure idle_process)"
  have 1: "vis_py_started idle_process" by (simp add: idle_process_def)
  have 2: "vis_py_namespace ?P None ?p1 = (Inr 1, ?p1)" and 3: "eval_input ?P (Some ''x'') 1 ?p1 = (Inr 2, ?p1)"
    and 4: "object_str ?P 2 ?p1 = (Inl no_memory, ?p1) \<or> object_str ?P 2 ?p1 = (Inr None, ?p1)"
    by (simp_all add: vis_py_namespace_def quiet_python_def)
  from unprintable_value_answers_empty [OF 1 _ 2 3 4] show ?thesis by simp
qed

end
