(* ===== verification/Startup.thy ===== *)
theory Startup
  imports EntryPoints
begin

text \<open>
  \<open>vispython_initialize\<close> of \<^verbatim>\<open>native/vispython/vispython.c\<close>, the build for Linux: the steps that turn the
  loaded library into a running, audited interpreter, with every early return.  CPython and the
  loader are a parameter; the invariant says what holds after any number of attempts.
\<close>

section \<open>State\<close>

record py_config =
  cfg_home :: "bytes option"
  cfg_executable :: "bytes option"
  cfg_base_executable :: "bytes option"
  cfg_pycache_prefix :: "bytes option"
  install_signal_handlers :: bool

text \<open>
  The globals of the start and what CPython keeps of it: the modules appended to its table, the number of
  audit hooks, the configuration it runs under (\<open>None\<close> while it is down), whether the calling thread holds
  the lock, and for each attempt to install the scan guard whether it was made under the lock.
\<close>

record boot_state =
  boot_started :: bool
  global_libpython :: bool
  vis_py_inittab :: bool
  inittab :: "bytes list"
  audit_hooks :: nat
  boot_policy :: policy
  interpreter :: "py_config option"
  gil_held :: bool
  guard_installed :: bool
  guard_attempts :: "bool list"
  boot_log :: log_state

definition unbooted :: boot_state where
  "unbooted = \<lparr>boot_started = False, global_libpython = False, vis_py_inittab = False, inittab = [], audit_hooks = 0,
     boot_policy = initial_policy, interpreter = None, gil_held = False, guard_installed = False,
     guard_attempts = [], boot_log = vis_py_log_init\<rparr>"

text \<open>
  What the loader and CPython answer in one attempt; \<open>Some\<close> is a failure with its message.  A status without
  a message is \<open>Some None\<close>.
\<close>

record boot_python =
  dlopen_error :: "bytes option"
  append_inittab :: "bytes \<Rightarrow> bool"
  add_audit_hook :: bool
  set_bytes_string :: "bytes \<Rightarrow> bytes \<Rightarrow> bytes option option"
  config_status :: "py_config \<Rightarrow> bytes option option"
  starts_up :: "py_config \<Rightarrow> bool"
  guard_answers :: guard_view

section \<open>The configuration\<close>

definition default_config :: py_config where
  "default_config = \<lparr>cfg_home = None, cfg_executable = None, cfg_base_executable = None, cfg_pycache_prefix = None,
     install_signal_handlers = False\<rparr>"

text \<open>One \<open>PyConfig_SetBytesString\<close>, made when no earlier one failed.\<close>

definition config_set ::
  "boot_python \<Rightarrow> bytes \<Rightarrow> bytes option \<Rightarrow> (bytes \<Rightarrow> py_config \<Rightarrow> py_config) \<Rightarrow>
     bytes option option \<times> py_config \<Rightarrow> bytes option option \<times> py_config" where
  "config_set B name v upd sc =
     (case v of
        None \<Rightarrow> sc
      | Some t \<Rightarrow>
          if fst sc \<noteq> None \<or> t = [] then sc
          else (case set_bytes_string B name t of
                  None \<Rightarrow> (None, upd t (snd sc))
                | Some e \<Rightarrow> (Some e, snd sc)))"

definition boot_config ::
  "boot_python \<Rightarrow> bytes option \<Rightarrow> bytes option \<Rightarrow> bytes \<Rightarrow> bytes option option \<times> py_config" where
  "boot_config B home executable pyc =
     (let s0 = (None, default_config);
          s1 = config_set B ''home'' home (\<lambda>t c. c\<lparr>cfg_home := Some t\<rparr>) s0;
          s2 = config_set B ''executable'' executable (\<lambda>t c. c\<lparr>cfg_executable := Some t\<rparr>) s1;
          s3 = config_set B ''base_executable'' executable (\<lambda>t c. c\<lparr>cfg_base_executable := Some t\<rparr>) s2
      in config_set B ''pycache_prefix'' (Some pyc) (\<lambda>t c. c\<lparr>cfg_pycache_prefix := Some t\<rparr>) s3)"

text \<open>Starting CPython: nothing happens when it is up already; otherwise the caller then holds the lock.\<close>

definition start_interpreter :: "boot_python \<Rightarrow> py_config \<Rightarrow> boot_state \<Rightarrow> boot_state" where
  "start_interpreter B cfg s =
     (if interpreter s \<noteq> None then s
      else if starts_up B cfg then s\<lparr>interpreter := Some cfg, gil_held := True\<rparr> else s)"

definition PyEval_SaveThread :: "boot_state \<Rightarrow> boot_state" where
  "PyEval_SaveThread s = s\<lparr>gil_held := False\<rparr>"

text \<open>The exceptions the library raises, as the objects \<open>vis_py_take_error\<close> prints.\<close>

definition class_name :: "exc_class \<Rightarrow> bytes" where
  "class_name k = (case k of PermissionError \<Rightarrow> ''PermissionError'' | RuntimeError \<Rightarrow> ''RuntimeError''
     | OSError \<Rightarrow> ''OSError'' | TypeError \<Rightarrow> ''TypeError'' | ValueError \<Rightarrow> ''ValueError''
     | MemoryError \<Rightarrow> ''MemoryError'' | KeyboardInterrupt \<Rightarrow> ''KeyboardInterrupt'')"

definition exc_of :: "raised \<Rightarrow> exc" where
  "exc_of e = \<lparr>tp_name = class_name (fst e), exc_str = Some (Some (snd e)), is_exception = (fst e \<noteq> KeyboardInterrupt)\<rparr>"

section \<open>The start\<close>

text \<open>An early return: the reason copied out.\<close>

definition refuse_start :: "allocator \<Rightarrow> bytes \<Rightarrow> int \<Rightarrow> caller \<Rightarrow> boot_state \<Rightarrow> int \<times> caller \<times> boot_state" where
  "refuse_start E reason cap c s = (VIS_PY_ERR_INIT, snd (vis_py_copy_out E reason cap c), s)"

text \<open>The two module registrations; \<open>Inl\<close> is the refusal.\<close>

definition register_modules :: "boot_python \<Rightarrow> boot_state \<Rightarrow> (bytes + unit) \<times> boot_state" where
  "register_modules B s =
     (if vis_py_inittab s then (Inr (), s)
      else if \<not> append_inittab B ''_vis_fs'' then (Inl ''PyImport_AppendInittab refused _vis_fs'', s)
      else
        let s1 = s\<lparr>inittab := inittab s @ [''_vis_fs'']\<rparr> in
        if \<not> append_inittab B ''_vis_host'' then (Inl ''PyImport_AppendInittab refused _vis_host'', s1)
        else (Inr (), s1\<lparr>inittab := inittab s1 @ [''_vis_host'']\<rparr>))"

text \<open>From the started interpreter on: the guard, the record, the lock given back.\<close>

definition finish_start ::
  "boot_python \<Rightarrow> allocator \<Rightarrow> thread_policy \<Rightarrow> int \<times> int \<Rightarrow> bytes option \<Rightarrow> int \<Rightarrow> caller \<Rightarrow> boot_state \<Rightarrow>
     int \<times> caller \<times> boot_state" where
  "finish_start B E T now home cap c s =
     (if interpreter s = None then refuse_start E ''the interpreter did not start'' cap c s
      else
        let (status, err, ok) = vis_py_install_scan_guard (guard_answers B) home;
            s1 = s\<lparr>guard_attempts := guard_attempts s @ [gil_held s], guard_installed := guard_installed s \<or> ok\<rparr>
        in if status \<noteq> 0
           then (VIS_PY_ERR_INIT, snd (snd (vis_py_take_error E (map_option exc_of err) cap c)), PyEval_SaveThread s1)
           else
             let s2 = s1\<lparr>boot_started := True,
                    boot_log := vis_py_record now VIS_PY_LOG_INFO ''init''
                      (Some (quoted ''cap'' @ '':'' @ show_int (thread_cap T) @ '','' @ quoted ''workers'' @ '':''
                             @ show_int (vis_py_worker_target T))) (boot_log s1)\<rparr>
             in (0, c, PyEval_SaveThread s2))"

definition vispython_initialize ::
  "boot_python \<Rightarrow> allocator \<Rightarrow> thread_policy \<Rightarrow> int \<times> int \<Rightarrow> bytes option \<Rightarrow> bytes option \<Rightarrow> bytes option \<Rightarrow>
     int \<Rightarrow> caller \<Rightarrow> boot_state \<Rightarrow> int \<times> caller \<times> boot_state" where
  "vispython_initialize B E T now home executable pycache cap c s =
     (if boot_started s then (0, c, s)
      else if \<not> global_libpython s \<and> dlopen_error B \<noteq> None
      then refuse_start E (the (dlopen_error B)) cap c s
      else
        let (registered, s1) = register_modules B (s\<lparr>global_libpython := True\<rparr>) in
        case registered of
          Inl reason \<Rightarrow> refuse_start E reason cap c s1
        | Inr _ \<Rightarrow>
            let s2 = s1\<lparr>vis_py_inittab := True\<rparr> in
            if \<not> add_audit_hook B then refuse_start E ''PySys_AddAuditHook was refused'' cap c s2
            else
              let pyc = snprintf_kept PATH_MAX (case pycache of None \<Rightarrow> [] | Some t \<Rightarrow> t);
                  s3 = s2\<lparr>audit_hooks := audit_hooks s2 + 1,
                          boot_policy := (boot_policy s2)\<lparr>pycache_prefix := pyc\<rparr>\<rparr>
              in if \<not> given home \<and> \<not> given executable \<and> pyc = []
                 then finish_start B E T now home cap c (start_interpreter B default_config s3)
                 else
                   let (status0, cfg) = boot_config B home executable pyc;
                       status = (if status0 \<noteq> None \<or> interpreter s3 \<noteq> None then status0 else config_status B cfg)
                   in case status of
                        Some msg \<Rightarrow>
                          refuse_start E (case msg of None \<Rightarrow> ''Py_InitializeFromConfig failed'' | Some t \<Rightarrow> t) cap c s3
                      | None \<Rightarrow> finish_start B E T now home cap c (start_interpreter B cfg s3))"

section \<open>Lemmas\<close>

text \<open>
  What holds between attempts: no lock is left held, the modules are registered once the flag is set, CPython
  only ever came up under the audit hook and without its signal handlers, and started means all of it
  together with the scan guard.
\<close>

definition boot_inv :: "boot_state \<Rightarrow> bool" where
  "boot_inv s \<longleftrightarrow> \<not> gil_held s
     \<and> (vis_py_inittab s \<longrightarrow> {''_vis_fs'', ''_vis_host''} \<subseteq> set (inittab s))
     \<and> (\<forall>cfg. interpreter s = Some cfg \<longrightarrow> \<not> install_signal_handlers cfg \<and> 0 < audit_hooks s \<and> vis_py_inittab s)
     \<and> (boot_started s \<longrightarrow> interpreter s \<noteq> None \<and> guard_installed s)"

text \<open>The same while the calling thread may hold the lock, before the interpreter is handed over.\<close>

definition boot_ready :: "boot_state \<Rightarrow> bool" where
  "boot_ready s \<longleftrightarrow> boot_inv (s\<lparr>gil_held := False\<rparr>) \<and> \<not> boot_started s \<and> 0 < audit_hooks s \<and> vis_py_inittab s
     \<and> (gil_held s \<longrightarrow> interpreter s \<noteq> None)"

lemma boot_inv_unbooted: "boot_inv unbooted"
  by (simp add: boot_inv_def unbooted_def)

lemma guard_status: "vis_py_install_scan_guard V home = (st, e, ok) \<Longrightarrow> st = 0 \<longleftrightarrow> ok"
  by (auto simp: vis_py_install_scan_guard_def Let_def split: option.splits if_splits)

lemma config_set_handlers:
  assumes "\<And>t c. install_signal_handlers (upd t c) = install_signal_handlers c"
  shows "install_signal_handlers (snd (config_set B n v upd sc)) = install_signal_handlers (snd sc)"
  using assms by (auto simp: config_set_def split: option.split)

lemma boot_config_handlers: "boot_config B home ex pyc = (st, cfg) \<Longrightarrow> \<not> install_signal_handlers cfg"
proof -
  assume "boot_config B home ex pyc = (st, cfg)"
  then have "cfg = snd (boot_config B home ex pyc)" by simp
  then show ?thesis by (simp add: boot_config_def Let_def config_set_handlers) (simp add: default_config_def)
qed

lemma start_interpreter_ready:
  assumes "boot_ready s" "\<not> gil_held s" "\<not> install_signal_handlers cfg"
  shows "boot_ready (start_interpreter B cfg s)"
  using assms by (auto simp: start_interpreter_def boot_ready_def boot_inv_def)

lemma finish_start_keeps [keeps]:
  assumes "boot_ready s" "finish_start B E T now home cap c s = (r, c', s')"
  shows "boot_inv s' \<and> (r = 0 \<longleftrightarrow> boot_started s') \<and> (r \<noteq> 0 \<longrightarrow> r = VIS_PY_ERR_INIT)"
proof (cases "interpreter s")
  case None
  with assms have "\<not> gil_held s" by (auto simp: boot_ready_def)
  with None assms show ?thesis
    by (auto simp: finish_start_def refuse_start_def boot_ready_def VIS_PY_ERR_INIT_def boot_inv_def)
next
  case (Some cfg)
  obtain st e ok where g: "vis_py_install_scan_guard (guard_answers B) home = (st, e, ok)" by (metis surj_pair)
  with Some assms guard_status [OF g] show ?thesis
    by (auto simp: finish_start_def Let_def PyEval_SaveThread_def boot_ready_def boot_inv_def VIS_PY_ERR_INIT_def
        split: if_splits)
qed

lemma register_modules_keeps:
  assumes "register_modules B s = (res, s')" "boot_inv s"
  shows "boot_inv s' \<and> (\<forall>u. res = Inr u \<longrightarrow> {''_vis_fs'', ''_vis_host''} \<subseteq> set (inittab s'))
    \<and> boot_started s' = boot_started s \<and> interpreter s' = interpreter s \<and> audit_hooks s' = audit_hooks s
    \<and> gil_held s' = gil_held s"
  using assms by (auto simp: register_modules_def Let_def boot_inv_def split: if_splits)

lemma initialize_keeps [keeps]:
  assumes "boot_inv s" "vispython_initialize B E T now home ex pyc cap c s = (r, c', s')"
  shows "boot_inv s' \<and> (r = 0 \<longleftrightarrow> boot_started s') \<and> (r \<noteq> 0 \<longrightarrow> r = VIS_PY_ERR_INIT)"
proof (cases "boot_started s \<or> (\<not> global_libpython s \<and> dlopen_error B \<noteq> None)")
  case True
  show ?thesis
  proof (cases "boot_started s")
    case True
    with assms show ?thesis by (simp add: vispython_initialize_def)
  next
    case False
    then have "vispython_initialize B E T now home ex pyc cap c s = refuse_start E (the (dlopen_error B)) cap c s"
      using \<open>boot_started s \<or> _\<close> by (simp only: vispython_initialize_def) simp
    with assms False show ?thesis by (simp add: refuse_start_def VIS_PY_ERR_INIT_def)
  qed
next
  case start: False
  obtain res s1 where reg: "register_modules B (s\<lparr>global_libpython := True\<rparr>) = (res, s1)" by fastforce
  have "boot_inv (s\<lparr>global_libpython := True\<rparr>)" using assms(1) by (simp add: boot_inv_def)
  from register_modules_keeps [OF reg this]
  have s1: "boot_inv s1" "\<And>u. res = Inr u \<Longrightarrow> {''_vis_fs'', ''_vis_host''} \<subseteq> set (inittab s1)"
    and eqs: "boot_started s1 = boot_started s" "gil_held s1 = gil_held s" by simp_all
  have off: "\<not> boot_started s1" "\<not> gil_held s1" using eqs start assms(1) by (simp_all add: boot_inv_def)
  show ?thesis
  proof (cases res)
    case (Inl reason)
    have "vispython_initialize B E T now home ex pyc cap c s = refuse_start E reason cap c s1"
      using start reg Inl by (auto simp: vispython_initialize_def)
    with assms(2) s1 off show ?thesis by (simp add: refuse_start_def VIS_PY_ERR_INIT_def)
  next
    case (Inr u)
    let ?s2 = "s1\<lparr>vis_py_inittab := True\<rparr>"
    define pre where "pre = snprintf_kept PATH_MAX (case pyc of None \<Rightarrow> [] | Some t \<Rightarrow> t)"
    let ?s3 = "?s2\<lparr>audit_hooks := audit_hooks ?s2 + 1, boot_policy := (boot_policy ?s2)\<lparr>pycache_prefix := pre\<rparr>\<rparr>"
    have mods: "{''_vis_fs'', ''_vis_host''} \<subseteq> set (inittab s1)" using s1(2) Inr by simp
    have inv2: "boot_inv ?s2" using s1(1) mods by (simp add: boot_inv_def)
    have inv3: "boot_inv ?s3" using s1(1) mods by (simp add: boot_inv_def)
    have ready: "boot_ready ?s3" "\<not> gil_held ?s3" using s1(1) mods off by (simp_all add: boot_ready_def boot_inv_def)
    obtain st cfg where cfg: "boot_config B home ex pre = (st, cfg)" by fastforce
    note r1 = finish_start_keeps [OF start_interpreter_ready [OF ready, of default_config B]]
    note r2 = finish_start_keeps [OF start_interpreter_ready [OF ready boot_config_handlers [OF cfg], of B]]
    have eq: "vispython_initialize B E T now home ex pyc cap c s =
       (if \<not> add_audit_hook B then refuse_start E ''PySys_AddAuditHook was refused'' cap c ?s2
        else if \<not> given home \<and> \<not> given ex \<and> pre = [] then finish_start B E T now home cap c (start_interpreter B default_config ?s3)
        else case (if st \<noteq> None \<or> interpreter ?s3 \<noteq> None then st else config_status B cfg) of
            Some msg \<Rightarrow> refuse_start E (case msg of None \<Rightarrow> ''Py_InitializeFromConfig failed'' | Some t \<Rightarrow> t) cap c ?s3
          | None \<Rightarrow> finish_start B E T now home cap c (start_interpreter B cfg ?s3))"
      using start reg Inr cfg by (cases "global_libpython s") (simp_all add: vispython_initialize_def Let_def pre_def cong: option.case_cong)
    show ?thesis
      using assms(2) r1 r2 inv2 inv3 off unfolding eq
      by (auto simp: refuse_start_def VIS_PY_ERR_INIT_def default_config_def split: if_splits option.splits)
  qed
qed

section \<open>Properties\<close>

text \<open>One attempt of the host, with everything it passes and everything the loader and CPython answer it.\<close>

record attempt =
  at_python :: boot_python
  at_memory :: allocator
  at_threads :: thread_policy
  at_clock :: "int \<times> int"
  at_home :: "bytes option"
  at_executable :: "bytes option"
  at_pycache :: "bytes option"
  at_cap :: int
  at_caller :: caller

definition try_start :: "attempt \<Rightarrow> boot_state \<Rightarrow> int \<times> boot_state" where
  "try_start a s =
     (let (r, _, s') = vispython_initialize (at_python a) (at_memory a) (at_threads a) (at_clock a) (at_home a)
            (at_executable a) (at_pycache a) (at_cap a) (at_caller a) s in (r, s'))"

lemma try_start_keeps: "boot_inv s \<Longrightarrow> try_start a s = (r, s') \<Longrightarrow>
    boot_inv s' \<and> (r = 0 \<longleftrightarrow> boot_started s') \<and> (r \<noteq> 0 \<longrightarrow> r = VIS_PY_ERR_INIT)"
  using initialize_keeps [of s "at_python a" "at_memory a" "at_threads a" "at_clock a" "at_home a" "at_executable a"
      "at_pycache a" "at_cap a" "at_caller a"]
  by (simp add: try_start_def split: prod.splits)

lemma try_starts_keep: "boot_inv s \<Longrightarrow> boot_inv (fold (\<lambda>a s. snd (try_start a s)) as s)"
proof (induction as arbitrary: s)
  case (Cons a as)
  obtain r s' where "try_start a s = (r, s')" by fastforce
  with Cons try_start_keeps [of s a r s'] show ?case by simp
qed simp

lemma try_start_again: "boot_started s \<Longrightarrow> try_start a s = (0, s)"
  by (simp add: try_start_def vispython_initialize_def)

text \<open>C36: However often and with whatever answers the host tries to start the interpreter, the next attempt
  answers 0 exactly when the interpreter is then started, and the status of a missing interpreter otherwise;
  a started interpreter came up with the audit hook in place, both modules registered, the scan guard
  installed and no signal handlers of its own; no attempt keeps the interpreter lock; and once started,
  every further attempt answers 0 and changes nothing.\<close>

theorem start_is_all_or_nothing:
  "let (r, s) = try_start a (fold (\<lambda>a s. snd (try_start a s)) attempts unbooted)
   in (if boot_started s
       then r = 0 \<and> guard_installed s \<and> 0 < audit_hooks s \<and> ''_vis_fs'' \<in> set (inittab s)
            \<and> ''_vis_host'' \<in> set (inittab s) \<and> map_option install_signal_handlers (interpreter s) = Some False
            \<and> (\<forall>b. try_start b s = (0, s))
       else r = VIS_PY_ERR_INIT)
      \<and> \<not> gil_held s"
proof -
  obtain r s where s: "try_start a (fold (\<lambda>a s. snd (try_start a s)) attempts unbooted) = (r, s)" by fastforce
  from try_start_keeps [OF try_starts_keep [OF boot_inv_unbooted] this]
  have "boot_inv s" "r = 0 \<longleftrightarrow> boot_started s" "r \<noteq> 0 \<longrightarrow> r = VIS_PY_ERR_INIT" by simp_all
  then show ?thesis
    by (auto simp: s boot_inv_def try_start_again)
qed

text \<open>An interpreter that comes up, and one whose scan guard is refused.\<close>

definition good_guard :: guard_view where
  "good_guard = \<lparr>posix_module = None, has_functions = None, functions_fastcall = True, decode_home = (\<lambda>_. None),
     call_scandir = (\<lambda>_. None), iterator_slot_ok = True, close_iterator = None\<rparr>"

definition good_boot :: boot_python where
  "good_boot = \<lparr>dlopen_error = None, append_inittab = (\<lambda>_. True), add_audit_hook = True,
     set_bytes_string = (\<lambda>_ _. None), config_status = (\<lambda>_. None), starts_up = (\<lambda>_. True), guard_answers = good_guard\<rparr>"

definition bad_guard_boot :: boot_python where
  "bad_guard_boot = good_boot\<lparr>guard_answers := good_guard\<lparr>functions_fastcall := False\<rparr>\<rparr>"

definition plain_attempt :: "boot_python \<Rightarrow> attempt" where
  "plain_attempt B = \<lparr>at_python = B, at_memory = all_memory, at_threads = initial_thread_policy, at_clock = (0, 0),
     at_home = None, at_executable = None, at_pycache = None, at_cap = 0, at_caller = \<lparr>out_buf = None, stash = None\<rparr>\<rparr>"

text \<open>A start that failed while the scan guard was installed cannot be repeated soundly: CPython stays up and
  the lock was given back, so the second attempt finds nothing to start, installs the guard without holding
  the interpreter lock, and adds the audit hook a second time.\<close>

theorem second_start_runs_without_lock:
  "let s = snd (try_start (plain_attempt good_boot) (snd (try_start (plain_attempt bad_guard_boot) unbooted)))
   in boot_started s \<and> guard_attempts s = [True, False] \<and> audit_hooks s = 2"
  by (simp add: try_start_def plain_attempt_def vispython_initialize_def unbooted_def register_modules_def
      bad_guard_boot_def good_boot_def good_guard_def finish_start_def start_interpreter_def given_def
      default_config_def vis_py_install_scan_guard_def PyEval_SaveThread_def snprintf_kept_def Let_def
      vis_py_take_error_def split: prod.split)

end
