(* ===== verification/JailSpawn.thy ===== *)
theory JailSpawn
  imports Boundary
begin

text \<open>
  The process jail of \<^verbatim>\<open>native/visjail/visjail.c\<close>: decoding the argument and environment blobs the
  host packs, spawning a child on pipes or a pseudo terminal, and the calls on its descriptors.  The
  kernel is a parameter; the descriptor table is modelled, so that leaks and double closes show.
\<close>

section \<open>Flags\<close>

definition VISJAIL_PTY :: nat where "VISJAIL_PTY = 1"

definition VISJAIL_MERGE_STDERR :: nat where "VISJAIL_MERGE_STDERR = 2"

definition VISJAIL_CONFINED :: nat where "VISJAIL_CONFINED = 4"

section \<open>Blobs\<close>

definition answer_error :: "bytes option \<Rightarrow> int \<Rightarrow> bytes \<Rightarrow> int \<times> bytes option" where
  "answer_error out cap text =
     (- 1, (case out of
              None \<Rightarrow> None
            | Some b \<Rightarrow>
                if cap \<le> 0 then Some b
                else Some ((overlay (snprintf_kept (nat cap) text @ [NUL]) b)[nat (cap - 1) := NUL])))"

text \<open>The copying loop: \<open>n\<close> strings from the front of \<open>rest\<close>; \<open>None\<close> when an allocation fails.\<close>

fun decode_items :: "allocator \<Rightarrow> nat \<Rightarrow> bytes \<Rightarrow> bytes list option" where
  "decode_items E 0 rest = Some []"
| "decode_items E (Suc n) rest =
     (let item = cstr_of rest in
      if \<not> malloc_ok E (length item + 1) then None
      else (case decode_items E n (drop (length item + 1) rest) of
              None \<Rightarrow> None
            | Some items \<Rightarrow> Some (item # items)))"

text \<open>\<open>blob\<close> is the buffer of \<open>len\<close> bytes.\<close>

definition decode_blob :: "allocator \<Rightarrow> bytes option \<Rightarrow> int \<Rightarrow> bytes list option" where
  "decode_blob E blob len =
     (case blob of
        None \<Rightarrow> None
      | Some b \<Rightarrow>
          if len \<le> 0 \<or> b ! nat (len - 1) \<noteq> NUL then None
          else if len = 1 then (if malloc_ok E 8 then Some [] else None)
          else
            let n = length (filter (\<lambda>c. c = NUL) (take (nat len) b)) in
            if \<not> malloc_ok E (8 * (n + 1)) then None else decode_items E n b)"

text \<open>How the host packs a list of strings (\<^verbatim>\<open>Jail.java\<close>): \<open>None\<close> for a string it refuses.\<close>

definition blob :: "bytes list \<Rightarrow> bytes option" where
  "blob values =
     (if list_ex (\<lambda>v. NUL \<in> set v) values then None
      else Some (if values = [] then [NUL] else concat (map (\<lambda>v. v @ [NUL]) values)))"

section \<open>Descriptors\<close>

text \<open>What a descriptor refers to, and whether it is closed on \<open>exec\<close>.\<close>

datatype fd_object = PipeRead nat | PipeWrite nat | PtyMaster | PtySlave | OtherFile nat

type_synonym fds = "int \<Rightarrow> (fd_object \<times> bool) option"

definition close_fd :: "int \<Rightarrow> fds \<Rightarrow> fds" where
  "close_fd fd t = t(fd := None)"

definition dup2 :: "int \<Rightarrow> int \<Rightarrow> fds \<Rightarrow> fds" where
  "dup2 old new t = (if old = new then t else t(new := map_option (\<lambda>(f, _). (f, False)) (t old)))"

definition exec_fds :: "fds \<Rightarrow> fds" where
  "exec_fds t = (\<lambda>fd. case t fd of Some (f, False) \<Rightarrow> Some (f, False) | _ \<Rightarrow> None)"

definition close_pair :: "int \<times> int \<Rightarrow> fds \<Rightarrow> fds" where
  "close_pair pr t =
     (let t1 = (if fst pr \<ge> 0 then close_fd (fst pr) t else t)
      in if snd pr \<ge> 0 then close_fd (snd pr) t1 else t1)"

text \<open>What the kernel answers during a spawn; descriptors may depend on the table.\<close>

record jail_kernel =
  sys_pipe2 :: "fds \<Rightarrow> (int \<times> int) sys"
  sys_openpty :: "nat \<times> nat \<Rightarrow> fds \<Rightarrow> (int \<times> int) sys"
  set_cloexec :: "int \<Rightarrow> nat option"
  sys_fork :: "int sys"
  ready_reads :: "nat sys list"
  strerror :: "nat \<Rightarrow> bytes"

definition make_pipe :: "jail_kernel \<Rightarrow> nat \<Rightarrow> fds \<Rightarrow> (int \<times> int) sys \<times> fds" where
  "make_pipe K name t =
     (case sys_pipe2 K t of
        Failed e \<Rightarrow> (Failed e, t)
      | Done (r, w) \<Rightarrow> (Done (r, w), t(r \<mapsto> (PipeRead name, True), w \<mapsto> (PipeWrite name, True))))"

definition close_from_three :: "bool \<Rightarrow> int \<Rightarrow> fds \<Rightarrow> fds" where
  "close_from_three close_range_ok open_max t =
     (if close_range_ok then (\<lambda>fd. if fd \<ge> 3 \<and> fd \<le> 4294967295 then None else t fd)
      else
        let m = (if open_max < 0 \<or> open_max > 1048576 then 1048576 else open_max)
        in fold close_fd [3..m - 1] t)"

section \<open>Spawning\<close>

text \<open>The variables of \<open>visjail_spawn\<close> that hold descriptors; \<open>-1\<close> is none.\<close>

record spawn_vars =
  v_input :: "int \<times> int"
  v_output :: "int \<times> int"
  v_errors :: "int \<times> int"
  v_ready :: "int \<times> int"
  v_master :: int
  v_slave :: int

definition no_vars :: spawn_vars where
  "no_vars = \<lparr>v_input = (- 1, - 1), v_output = (- 1, - 1), v_errors = (- 1, - 1), v_ready = (- 1, - 1),
     v_master = - 1, v_slave = - 1\<rparr>"

text \<open>The pseudo terminal, both ends closed on \<open>exec\<close>; \<open>Some\<close> is the \<open>errno\<close> that sends the code to its
  cleanup.\<close>

definition open_pty :: "jail_kernel \<Rightarrow> int \<Rightarrow> int \<Rightarrow> fds \<Rightarrow> nat option \<times> spawn_vars \<times> fds" where
  "open_pty K rows cols t =
     (case sys_openpty K (nat (rows mod 65536), nat (cols mod 65536)) t of
        Failed e \<Rightarrow> (Some e, no_vars, t)
      | Done (m, s) \<Rightarrow>
          let v = no_vars\<lparr>v_master := m, v_slave := s\<rparr>;
              t1 = t(m \<mapsto> (PtyMaster, False), s \<mapsto> (PtySlave, False))
          in (case set_cloexec K m of
                Some e \<Rightarrow> (Some e, v, t1)
              | None \<Rightarrow>
                  let t2 = t1(m \<mapsto> (PtyMaster, True)) in
                  (case set_cloexec K s of
                     Some e \<Rightarrow> (Some e, v, t2)
                   | None \<Rightarrow> (None, v, t2(s \<mapsto> (PtySlave, True))))))"

definition open_pipes :: "jail_kernel \<Rightarrow> bool \<Rightarrow> fds \<Rightarrow> nat option \<times> spawn_vars \<times> fds" where
  "open_pipes K merge_error t =
     (case make_pipe K 0 t of
        (Failed e, t1) \<Rightarrow> (Some e, no_vars, t1)
      | (Done i, t1) \<Rightarrow>
     (case make_pipe K 1 t1 of
        (Failed e, t2) \<Rightarrow> (Some e, no_vars\<lparr>v_input := i\<rparr>, t2)
      | (Done ou, t2) \<Rightarrow>
          if merge_error then (None, no_vars\<lparr>v_input := i, v_output := ou\<rparr>, t2)
          else
            (case make_pipe K 2 t2 of
               (Failed e, t3) \<Rightarrow> (Some e, no_vars\<lparr>v_input := i, v_output := ou\<rparr>, t3)
             | (Done er, t3) \<Rightarrow> (None, no_vars\<lparr>v_input := i, v_output := ou, v_errors := er\<rparr>, t3))))"

text \<open>The label \<open>system_error\<close>: every descriptor the variables hold is closed.\<close>

definition release_vars :: "spawn_vars \<Rightarrow> fds \<Rightarrow> fds" where
  "release_vars v t =
     (let t1 = close_pair (v_ready v) (close_pair (v_errors v) (close_pair (v_output v) (close_pair (v_input v) t)));
          t2 = (if v_master v \<ge> 0 then close_fd (v_master v) t1 else t1)
      in if v_slave v \<ge> 0 then close_fd (v_slave v) t2 else t2)"

text \<open>The parent's end of a good start: the child's ends closed, the four results.\<close>

definition hand_over :: "bool \<Rightarrow> bool \<Rightarrow> int \<Rightarrow> spawn_vars \<Rightarrow> fds \<Rightarrow> int list \<times> fds" where
  "hand_over use_pty merge_error pid v t =
     (let t1 = close_pair (v_ready v) t in
      if use_pty then ([pid, v_master v, v_master v, v_master v], close_fd (v_slave v) t1)
      else
        let t2 = close_fd (snd (v_output v)) (close_fd (fst (v_input v)) t1);
            t3 = (if merge_error then t2 else close_fd (snd (v_errors v)) t2)
        in ([pid, snd (v_input v), fst (v_output v), if merge_error then - 1 else fst (v_errors v)], t3))"

text \<open>The answer of a spawn: the status, the result array, the caller's error buffer, the descriptor table,
  and the child that was forked and what it starts from.\<close>

record spawn_answer =
  s_status :: int
  s_result :: "int list option"
  s_error :: "bytes option"
  s_fds :: fds
  s_killed :: "int option"
  s_child :: "(spawn_vars \<times> fds) option"

definition spawn_refused :: "bytes option \<Rightarrow> int \<Rightarrow> bytes \<Rightarrow> int list option \<Rightarrow> fds \<Rightarrow> spawn_answer" where
  "spawn_refused error cap text res t =
     \<lparr>s_status = fst (answer_error error cap text), s_result = res, s_error = snd (answer_error error cap text),
      s_fds = t, s_killed = None, s_child = None\<rparr>"

definition no_results :: "int list" where
  "no_results = [- 1, - 1, - 1, - 1]"

text \<open>From the fork on.\<close>

definition start_child ::
  "jail_kernel \<Rightarrow> bool \<Rightarrow> bool \<Rightarrow> bytes option \<Rightarrow> int \<Rightarrow> spawn_vars \<Rightarrow> fds \<Rightarrow> spawn_answer option" where
  "start_child K use_pty merge_error error cap v t =
     (case sys_fork K of
        Failed e \<Rightarrow> Some (spawn_refused error cap (strerror K e) (Some no_results) (release_vars v t))
      | Done pid \<Rightarrow>
          let t1 = close_fd (snd (v_ready v)) t; v1 = v\<lparr>v_ready := (fst (v_ready v), - 1)\<rparr> in
          (case uninterrupted (ready_reads K) of
             None \<Rightarrow> None
           | Some (Failed e) \<Rightarrow>
               Some ((spawn_refused error cap (strerror K e) (Some no_results) (release_vars v1 t1))
                     \<lparr>s_killed := Some pid, s_child := Some (v, t)\<rparr>)
           | Some (Done _) \<Rightarrow>
               let (res, t2) = hand_over use_pty merge_error pid v1 t1
               in Some \<lparr>s_status = 0, s_result = Some res, s_error = error, s_fds = t2, s_killed = None,
                        s_child = Some (v, t)\<rparr>))"

text \<open>The parent's code; \<open>None\<close> only when its read of the ready byte is interrupted without end.\<close>

definition visjail_spawn ::
  "jail_kernel \<Rightarrow> allocator \<Rightarrow> bytes option \<Rightarrow> int \<Rightarrow> bytes option \<Rightarrow> int \<Rightarrow> nat \<Rightarrow> int \<Rightarrow> int \<Rightarrow> int \<Rightarrow> int \<Rightarrow>
     bool \<Rightarrow> bytes option \<Rightarrow> int \<Rightarrow> fds \<Rightarrow> spawn_answer option" where
  "visjail_spawn K E argv_blob argv_len env_blob env_len flags rows cols proxy_port inbound_port
       has_result error cap t =
     (let use_pty = (flags div 1 mod 2 = 1); merge_error = (flags div 2 mod 2 = 1) in
      if \<not> has_result then Some (spawn_refused error cap ''result buffer is required'' None t)
      else
        let argv = decode_blob E argv_blob argv_len; env = decode_blob E env_blob env_len in
        if argv = None \<or> argv = Some []
        then Some (spawn_refused error cap ''argv must contain at least one string'' (Some no_results) t)
        else if env = None then Some (spawn_refused error cap ''environment blob is invalid'' (Some no_results) t)
        else if proxy_port < 0 \<or> proxy_port > 65535 \<or> inbound_port < 0 \<or> inbound_port > 65535
        then Some (spawn_refused error cap ''network bridge ports must be between 0 and 65535'' (Some no_results) t)
        else
          let (failed, v, t1) = (if use_pty then open_pty K rows cols t else open_pipes K merge_error t) in
          (case failed of
             Some e \<Rightarrow> Some (spawn_refused error cap (strerror K e) (Some no_results) (release_vars v t1))
           | None \<Rightarrow>
               (case make_pipe K 3 t1 of
                  (Failed e, t2) \<Rightarrow> Some (spawn_refused error cap (strerror K e) (Some no_results) (release_vars v t2))
                | (Done rd, t2) \<Rightarrow>
                    start_child K use_pty merge_error error cap (v\<lparr>v_ready := rd\<rparr>) t2)))"

section \<open>The child\<close>

text \<open>What the kernel answers the child.\<close>

record child_kernel =
  setsid_error :: "nat option"
  ready_writes :: "nat sys list"
  ctty_error :: "nat option"
  dup2_error :: "int \<Rightarrow> int \<Rightarrow> nat option"
  chdir_error :: "bytes \<Rightarrow> nat option"
  exec_error :: "nat option"
  close_range_ok :: bool
  open_max :: int

text \<open>How the child's code ends: with status 125 and a message, running the program, or in the bridge of a
  confined child (with its descriptors); \<open>Stuck\<close> when its write is interrupted without end.\<close>

datatype child_end = ChildFail bytes | Runs "bytes list" "bytes list" fds | Bridge "bytes list" fds | Stuck

text \<open>The three \<open>dup2\<close>, in order; a failing one ends the child.\<close>

definition dup_stdio :: "child_kernel \<Rightarrow> int \<Rightarrow> int \<Rightarrow> int \<Rightarrow> fds \<Rightarrow> fds option" where
  "dup_stdio C a b c t =
     (if dup2_error C a 0 \<noteq> None \<or> dup2_error C b 1 \<noteq> None \<or> dup2_error C c 2 \<noteq> None then None
      else Some (dup2 c 2 (dup2 b 1 (dup2 a 0 t))))"

definition child_main ::
  "child_kernel \<Rightarrow> bool \<Rightarrow> bool \<Rightarrow> bool \<Rightarrow> bytes list \<Rightarrow> bytes list \<Rightarrow> bytes option \<Rightarrow> spawn_vars \<Rightarrow> fds \<Rightarrow> child_end" where
  "child_main C use_pty merge_error confined argv env cwd v t =
     (let t1 = close_fd (fst (v_ready v)) t in
      if setsid_error C \<noteq> None then ChildFail ''setsid''
      else
        (case uninterrupted (ready_writes C) of
           None \<Rightarrow> Stuck
         | Some w \<Rightarrow>
             if w \<noteq> Done 1 then ChildFail ''process group ready''
             else
               let t2 = close_fd (snd (v_ready v)) t1 in
               if use_pty \<and> ctty_error C \<noteq> None then ChildFail ''TIOCSCTTY''
               else
                 (case (if use_pty then dup_stdio C (v_slave v) (v_slave v) (v_slave v) t2
                        else dup_stdio C (fst (v_input v)) (snd (v_output v))
                               (if merge_error then snd (v_output v) else snd (v_errors v)) t2) of
                    None \<Rightarrow> ChildFail (if use_pty then ''dup2 pty'' else ''dup2 pipe'')
                  | Some t3 \<Rightarrow>
                      if (case cwd of None \<Rightarrow> False | Some d \<Rightarrow> d \<noteq> [] \<and> chdir_error C d \<noteq> None)
                      then ChildFail ''chdir''
                      else if confined then Bridge argv t3
                      else
                        let t4 = close_from_three (close_range_ok C) (open_max C) t3 in
                        if exec_error C \<noteq> None then ChildFail ''execvp'' else Runs argv env (exec_fds t4))))"

section \<open>The calls on a child\<close>

definition visjail_read :: "int sys list \<Rightarrow> int option" where
  "visjail_read answers =
     map_option (\<lambda>a. case a of Failed e \<Rightarrow> if e = EIO then 0 else - int e | Done n \<Rightarrow> to_int32 n) (uninterrupted answers)"

definition visjail_write :: "int sys list \<Rightarrow> int option" where
  "visjail_write answers =
     map_option (\<lambda>a. case a of Failed e \<Rightarrow> - int e | Done n \<Rightarrow> to_int32 n) (uninterrupted answers)"

definition visjail_close :: "nat option \<Rightarrow> int" where
  "visjail_close error = (case error of None \<Rightarrow> 0 | Some e \<Rightarrow> - int e)"

definition visjail_poll :: "int sys list \<Rightarrow> int option" where
  "visjail_poll answers =
     map_option (\<lambda>a. case a of Failed e \<Rightarrow> - int e | Done n \<Rightarrow> if n = 0 then 0 else 1) (uninterrupted answers)"

text \<open>What \<open>waitpid\<close> tells of a child.\<close>

datatype wait_status = Exited nat | Signaled nat | OtherStatus

definition decode_status :: "wait_status \<Rightarrow> int" where
  "decode_status s = (case s of Exited n \<Rightarrow> int n | Signaled n \<Rightarrow> 128 + int n | OtherStatus \<Rightarrow> 255)"

text \<open>\<open>Done None\<close> is a child still running; the second answer is what \<open>exit_code\<close> was set to.\<close>

definition visjail_wait :: "wait_status option sys list \<Rightarrow> (int \<times> int option) option" where
  "visjail_wait answers =
     map_option (\<lambda>a. case a of
         Failed e \<Rightarrow> (- int e, None)
       | Done None \<Rightarrow> (0, None)
       | Done (Some s) \<Rightarrow> (1, Some (decode_status s))) (uninterrupted answers)"

text \<open>The process or group \<open>kill\<close> is called for, and the answer.\<close>

definition visjail_kill :: "(int \<Rightarrow> nat option) \<Rightarrow> int \<Rightarrow> int \<times> int" where
  "visjail_kill kill_error pid =
     (- pid, case kill_error (- pid) of None \<Rightarrow> 0 | Some e \<Rightarrow> - int e)"

section \<open>Lemmas on blobs\<close>

definition packed :: "bytes list \<Rightarrow> bytes" where
  "packed values = concat (map (\<lambda>v. v @ [NUL]) values)"

lemma packed_simps [simp]: "packed [] = []" "packed (v # vs) = v @ NUL # packed vs"
  by (simp_all add: packed_def)

lemma count_NUL_packed: "\<forall>v \<in> set vs. is_cstring v \<Longrightarrow> length (filter (\<lambda>c. c = NUL) (packed vs)) = length vs"
  by (induction vs) (auto simp: is_cstring_def filter_empty_conv)

lemma cstr_of_item: "is_cstring v \<Longrightarrow> cstr_of (v @ NUL # rest) = v"
  by (simp add: is_cstring_def cstr_of_def takeWhile_NUL)

lemma decode_items_packed:
  "\<forall>v \<in> set vs. is_cstring v \<Longrightarrow> \<forall>n. malloc_ok E n \<Longrightarrow> decode_items E (length vs) (packed vs) = Some vs"
  by (induction vs) (simp_all add: cstr_of_item)

lemma last_packed: "vs \<noteq> [] \<Longrightarrow> packed vs ! (length (packed vs) - 1) = NUL"
  by (induction vs rule: rev_induct) (simp_all add: packed_def)

lemma length_packed_1: "length (packed vs) = 1 \<longleftrightarrow> vs = [[]]"
  by (cases vs) (auto simp: length_0_conv, case_tac list, auto)

section \<open>Lemmas on descriptors\<close>

text \<open>Documented behaviour of the kernel: new descriptors are not in use, not negative and distinct.\<close>

definition fresh_pair :: "fds \<Rightarrow> int \<times> int \<Rightarrow> bool" where
  "fresh_pair t pr \<longleftrightarrow> fst pr \<noteq> snd pr \<and> 0 \<le> fst pr \<and> 0 \<le> snd pr \<and> t (fst pr) = None \<and> t (snd pr) = None"

definition gives_fresh :: "jail_kernel \<Rightarrow> bool" where
  "gives_fresh K \<longleftrightarrow> (\<forall>t pr. sys_pipe2 K t = Done pr \<longrightarrow> fresh_pair t pr)
     \<and> (\<forall>s t pr. sys_openpty K s t = Done pr \<longrightarrow> fresh_pair t pr)"

text \<open>The descriptors the variables hold, and what it means that those are all a spawn added to a table.\<close>

definition pair_fds :: "int \<times> int \<Rightarrow> int set" where
  "pair_fds pr = {fd. (fd = fst pr \<or> fd = snd pr) \<and> 0 \<le> fd}"

definition held :: "spawn_vars \<Rightarrow> int set" where
  "held v = pair_fds (v_input v) \<union> pair_fds (v_output v) \<union> pair_fds (v_errors v) \<union> pair_fds (v_ready v)
     \<union> pair_fds (v_master v, v_slave v)"

definition added :: "fds \<Rightarrow> spawn_vars \<Rightarrow> fds \<Rightarrow> bool" where
  "added t v t1 \<longleftrightarrow> (\<forall>fd \<in> held v. t fd = None) \<and> (\<forall>fd. fd \<notin> held v \<longrightarrow> t1 fd = t fd)"

lemma close_pair_apply: "close_pair pr t fd = (if fd \<in> pair_fds pr then None else t fd)"
  by (auto simp: close_pair_def close_fd_def pair_fds_def Let_def)

lemma release_apply: "release_vars v t fd = (if fd \<in> held v then None else t fd)"
proof -
  have "release_vars v t = close_pair (v_master v, v_slave v) (close_pair (v_ready v) (close_pair (v_errors v)
      (close_pair (v_output v) (close_pair (v_input v) t))))"
    by (simp add: release_vars_def close_pair_def [of "(v_master v, v_slave v)"] Let_def)
  then show ?thesis by (simp add: close_pair_apply held_def)
qed

lemma release_added: "added t v t1 \<Longrightarrow> release_vars v t1 = t"
  by (rule ext) (simp add: added_def release_apply)

lemma held_no_vars [simp]: "held no_vars = {}"
  by (auto simp: held_def pair_fds_def no_vars_def)

lemma added_refl [simp]: "added t no_vars t"
  by (simp add: added_def)

text \<open>A new pair kept in variables that held none before.\<close>

lemma added_pair:
  assumes "added t v t1" "fresh_pair t1 (a, b)" "held w = held v \<union> {a, b}"
  shows "added t w (t1(a \<mapsto> x, b \<mapsto> y))"
proof -
  from assms(2) have ab: "t1 a = None" "t1 b = None" by (simp_all add: fresh_pair_def)
  have "t fd = None" if "fd = a \<or> fd = b" for fd
    using assms(1) ab that by (cases "fd \<in> held v") (auto simp: added_def)
  with assms(1,3) show ?thesis by (auto simp: added_def)
qed

lemma make_pipe_fresh:
  assumes "gives_fresh K" "make_pipe K k t = (Done (a, b), t1)"
  shows "fresh_pair t (a, b) \<and> t1 = t(a \<mapsto> (PipeRead k, True), b \<mapsto> (PipeWrite k, True))"
  using assms by (auto simp: make_pipe_def gives_fresh_def split: sys.splits prod.splits)

lemma make_pipe_failed: "make_pipe K k t = (Failed e, t1) \<Longrightarrow> t1 = t"
  by (auto simp: make_pipe_def split: sys.splits prod.splits)

lemma make_pipe_added:
  assumes "gives_fresh K" "added t v t1" "make_pipe K k t1 = (Done pr, t2)" "held w = held v \<union> pair_fds pr"
  shows "added t w t2"
proof -
  obtain a b where pr: "pr = (a, b)" by fastforce
  from make_pipe_fresh [OF assms(1), of k t1 a b t2] assms(3) pr
  have f: "fresh_pair t1 (a, b)" "t2 = t1(a \<mapsto> (PipeRead k, True), b \<mapsto> (PipeWrite k, True))" by simp_all
  have "held w = held v \<union> {a, b}" using assms(4) f(1) pr by (auto simp: pair_fds_def fresh_pair_def)
  from added_pair [OF assms(2) f(1) this] f(2) show ?thesis by simp
qed

lemma held_vars [simp]:
  "held (no_vars\<lparr>v_input := i\<rparr>) = pair_fds i"
  "held (no_vars\<lparr>v_input := i, v_output := ou\<rparr>) = pair_fds i \<union> pair_fds ou"
  "held (no_vars\<lparr>v_input := i, v_output := ou, v_errors := er\<rparr>) = pair_fds i \<union> pair_fds ou \<union> pair_fds er"
  "held (no_vars\<lparr>v_master := m, v_slave := s\<rparr>) = pair_fds (m, s)"
  by (auto simp: held_def pair_fds_def no_vars_def)

lemma held_ready: "v_ready v = (- 1, - 1) \<Longrightarrow> held (v\<lparr>v_ready := pr\<rparr>) = held v \<union> pair_fds pr"
  by (auto simp: held_def pair_fds_def)

lemma no_vars_ready [simp]: "v_ready no_vars = (- 1, - 1)"
  by (simp add: no_vars_def)

lemma open_pipes_added:
  assumes "gives_fresh K" "open_pipes K me t = (f, v, t1)"
  shows "added t v t1 \<and> v_ready v = (- 1, - 1)"
proof -
  have 1: "added t (no_vars\<lparr>v_input := i\<rparr>) u" if "make_pipe K 0 t = (Done i, u)" for i u
    by (rule make_pipe_added [OF assms(1) added_refl that]) simp
  have 2: "added t (no_vars\<lparr>v_input := i, v_output := ou\<rparr>) u'"
    if "make_pipe K 0 t = (Done i, u)" "make_pipe K 1 u = (Done ou, u')" for i u ou u'
    by (rule make_pipe_added [OF assms(1) 1 [OF that(1)] that(2)]) simp
  have 3: "added t (no_vars\<lparr>v_input := i, v_output := ou, v_errors := er\<rparr>) u''"
    if "make_pipe K 0 t = (Done i, u)" "make_pipe K 1 u = (Done ou, u')" "make_pipe K 2 u' = (Done er, u'')"
    for i u ou u' er u''
    by (rule make_pipe_added [OF assms(1) 2 [OF that(1,2)] that(3)]) simp
  show ?thesis
    using assms(2) 1 2 3 make_pipe_failed [of K]
    by (auto simp: open_pipes_def split: prod.splits sys.splits if_splits) (metis added_refl)+
qed

lemma open_pty_added:
  assumes "gives_fresh K" "open_pty K rows cols t = (f, v, t1)"
  shows "added t v t1 \<and> v_ready v = (- 1, - 1)"
proof (cases "sys_openpty K (nat (rows mod 65536), nat (cols mod 65536)) t")
  case (Failed e)
  with assms(2) show ?thesis by (simp add: open_pty_def)
next
  case (Done pr)
  obtain m s where pr: "pr = (m, s)" by fastforce
  with Done assms(1) have fr: "fresh_pair t (m, s)" by (auto simp: gives_fresh_def)
  have "\<exists>x y. t1 = t(m \<mapsto> x, s \<mapsto> y)" and v: "v = no_vars\<lparr>v_master := m, v_slave := s\<rparr>"
    using assms(2) Done pr fr
    by (auto simp: open_pty_def Let_def fresh_pair_def fun_upd_twist split: option.splits)
  moreover have "held v = held no_vars \<union> {m, s}"
    using fr v by (auto simp: pair_fds_def fresh_pair_def)
  ultimately show ?thesis using added_pair [OF added_refl fr, of v] v by auto
qed

text \<open>What a good start opened, in full.\<close>

lemma open_pipes_done:
  assumes "gives_fresh K" "open_pipes K me t = (None, v, t1)"
  shows "\<exists>a b c d. fresh_pair t (a, b) \<and> fresh_pair (t(a \<mapsto> (PipeRead 0, True), b \<mapsto> (PipeWrite 0, True))) (c, d)
    \<and> v_input v = (a, b) \<and> v_output v = (c, d) \<and> v_master v = - 1 \<and> v_slave v = - 1
    \<and> (let t2 = t(a \<mapsto> (PipeRead 0, True), b \<mapsto> (PipeWrite 0, True), c \<mapsto> (PipeRead 1, True), d \<mapsto> (PipeWrite 1, True))
       in if me then t1 = t2 \<and> v_errors v = (- 1, - 1)
          else \<exists>e g. fresh_pair t2 (e, g) \<and> v_errors v = (e, g) \<and> t1 = t2(e \<mapsto> (PipeRead 2, True), g \<mapsto> (PipeWrite 2, True)))"
proof -
  obtain a b u0 c d u1 where
    p: "make_pipe K 0 t = (Done (a, b), u0)" "make_pipe K 1 u0 = (Done (c, d), u1)"
    using assms(2) by (auto simp: open_pipes_def split: prod.splits sys.splits)
  note m = make_pipe_fresh [OF assms(1) p(1)] make_pipe_fresh [OF assms(1) p(2)]
  show ?thesis
  proof (cases me)
    case True
    with assms(2) p m show ?thesis by (auto simp: open_pipes_def no_vars_def)
  next
    case False
    obtain e g u2 where q: "make_pipe K 2 u1 = (Done (e, g), u2)"
      using assms(2) p False by (auto simp: open_pipes_def split: prod.splits sys.splits)
    with assms(2) p m False make_pipe_fresh [OF assms(1) q] show ?thesis
      by (auto simp: open_pipes_def no_vars_def)
  qed
qed

lemma fresh_updD:
  assumes "fresh_pair (t(x \<mapsto> v)) pr"
  shows "fresh_pair t pr" "fst pr \<noteq> x" "snd pr \<noteq> x"
  using assms by (auto simp: fresh_pair_def split: if_splits)

lemma fresh_updsD:
  assumes "fresh_pair (t(x \<mapsto> v, y \<mapsto> w)) pr"
  shows "fresh_pair t pr" "fst pr \<noteq> x" "snd pr \<noteq> x" "fst pr \<noteq> y" "snd pr \<noteq> y"
  using fresh_updD [OF assms] fresh_updD [OF fresh_updD(1) [OF assms]] by simp_all

lemma hand_over_pty_eq:
  assumes "v_master v = m" "v_slave v = s" "v_ready v = (r, - 1)"
  shows "0 \<le> r \<Longrightarrow> hand_over True me pid v (close_fd w T) = ([pid, m, m, m], T(w := None, r := None, s := None))"
  using assms by (simp add: hand_over_def close_pair_def close_fd_def)

lemma hand_over_pty:
  assumes "fresh_pair (t(m \<mapsto> x, s \<mapsto> y)) (r, w)" "v_master v = m" "v_slave v = s" "v_ready v = (r, - 1)"
    "fresh_pair t (m, s)"
    "hand_over True me pid v (close_fd w (t(m \<mapsto> x, s \<mapsto> y, r \<mapsto> p, w \<mapsto> q))) = (res, t2)"
  shows "res = [pid, m, m, m] \<and> t2 = t(m \<mapsto> x)"
proof -
  note ne = fresh_updsD [OF assms(1)]
  have "t2 = (t(m \<mapsto> x, s \<mapsto> y, r \<mapsto> p, w \<mapsto> q))(w := None, r := None, s := None)" and res: "res = [pid, m, m, m]"
    using assms(6) hand_over_pty_eq [OF assms(2-4), of me pid] assms(1) by (simp_all add: fresh_pair_def)
  then have "t2 fd = (t(m \<mapsto> x)) fd" for fd
    using ne assms(5) by (simp add: fresh_pair_def)
  with res show ?thesis by blast
qed

lemma hand_over_merged_eq:
  assumes "v_input v = (a, b)" "v_output v = (c, d)" "v_ready v = (r, - 1)"
  shows "0 \<le> r \<Longrightarrow> hand_over False True pid v (close_fd w T) = ([pid, b, c, - 1], T(w := None, r := None, a := None, d := None))"
  using assms by (simp add: hand_over_def close_pair_def close_fd_def)

lemma hand_over_split_eq:
  assumes "v_input v = (a, b)" "v_output v = (c, d)" "v_errors v = (e, g)" "v_ready v = (r, - 1)"
  shows "0 \<le> r \<Longrightarrow> hand_over False False pid v (close_fd w T)
    = ([pid, b, c, e], T(w := None, r := None, a := None, d := None, g := None))"
  using assms by (simp add: hand_over_def close_pair_def close_fd_def)

lemma hand_over_merged:
  assumes "v_input v = (a, b)" "v_output v = (c, d)" "v_ready v = (r, - 1)"
    "fresh_pair t (a, b)" "fresh_pair (t(a \<mapsto> x, b \<mapsto> y)) (c, d)"
    "fresh_pair (t(a \<mapsto> x, b \<mapsto> y, c \<mapsto> z, d \<mapsto> z')) (r, w)"
    "hand_over False True pid v (close_fd w (t(a \<mapsto> x, b \<mapsto> y, c \<mapsto> z, d \<mapsto> z', r \<mapsto> p, w \<mapsto> q))) = (res, t2)"
  shows "res = [pid, b, c, - 1] \<and> t2 = t(b \<mapsto> y, c \<mapsto> z)"
proof -
  note ne = fresh_updsD [OF assms(5)] fresh_updsD [OF assms(6)] fresh_updsD [OF fresh_updsD(1) [OF assms(6)]]
  have "t2 = (t(a \<mapsto> x, b \<mapsto> y, c \<mapsto> z, d \<mapsto> z', r \<mapsto> p, w \<mapsto> q))(w := None, r := None, a := None, d := None)"
    and res: "res = [pid, b, c, - 1]"
    using assms(7) hand_over_merged_eq [OF assms(1-3), of pid] assms(6) by (simp_all add: fresh_pair_def)
  then have "t2 fd = (t(b \<mapsto> y, c \<mapsto> z)) fd" for fd
    using ne assms(4) by (auto simp: fresh_pair_def)
  with res show ?thesis by blast
qed

lemma hand_over_split:
  assumes "v_input v = (a, b)" "v_output v = (c, d)" "v_errors v = (e, g)" "v_ready v = (r, - 1)"
    "fresh_pair t (a, b)" "fresh_pair (t(a \<mapsto> x, b \<mapsto> y)) (c, d)"
    "fresh_pair (t(a \<mapsto> x, b \<mapsto> y, c \<mapsto> z, d \<mapsto> z')) (e, g)"
    "fresh_pair (t(a \<mapsto> x, b \<mapsto> y, c \<mapsto> z, d \<mapsto> z', e \<mapsto> u, g \<mapsto> u')) (r, w)"
    "hand_over False False pid v (close_fd w (t(a \<mapsto> x, b \<mapsto> y, c \<mapsto> z, d \<mapsto> z', e \<mapsto> u, g \<mapsto> u', r \<mapsto> p, w \<mapsto> q)))
       = (res, t2)"
  shows "res = [pid, b, c, e] \<and> t2 = t(b \<mapsto> y, c \<mapsto> z, e \<mapsto> u)"
proof -
  note f7 = fresh_updsD [OF assms(7)] note f8 = fresh_updsD [OF assms(8)] note f8' = fresh_updsD [OF f8(1)]
  note ne = fresh_updsD [OF assms(6)] f7 fresh_updsD [OF f7(1)] f8 f8' fresh_updsD [OF f8'(1)]
  have "t2 = (t(a \<mapsto> x, b \<mapsto> y, c \<mapsto> z, d \<mapsto> z', e \<mapsto> u, g \<mapsto> u', r \<mapsto> p, w \<mapsto> q))
      (w := None, r := None, a := None, d := None, g := None)"
    and res: "res = [pid, b, c, e]"
    using assms(9) hand_over_split_eq [OF assms(1-4), of pid] assms(8) by (simp_all add: fresh_pair_def)
  then have "t2 fd = (t(b \<mapsto> y, c \<mapsto> z, e \<mapsto> u)) fd" for fd
    using ne assms(5) by (auto simp: fresh_pair_def)
  with res show ?thesis by blast
qed

text \<open>What a spawn may leave behind: nothing when it failed, the result descriptors when it did not.\<close>

definition spawn_left :: "bool \<Rightarrow> bool \<Rightarrow> fds \<Rightarrow> spawn_answer \<Rightarrow> bool" where
  "spawn_left use_pty merge_error t a \<longleftrightarrow>
     (if s_status a = 0
      then (\<exists>pid i ou er. s_result a = Some [pid, i, ou, er] \<and> t i = None \<and> t ou = None \<and>
             (if use_pty then i = ou \<and> ou = er \<and> s_fds a = t(i \<mapsto> (PtyMaster, True))
              else if merge_error
              then i \<noteq> ou \<and> er = - 1 \<and> s_fds a = t(i \<mapsto> (PipeWrite 0, True), ou \<mapsto> (PipeRead 1, True))
              else distinct [i, ou, er] \<and> t er = None
                   \<and> s_fds a = t(i \<mapsto> (PipeWrite 0, True), ou \<mapsto> (PipeRead 1, True), er \<mapsto> (PipeRead 2, True))))
      else s_status a = - 1 \<and> s_fds a = t)"

lemma refused_left [simp]: "spawn_left p me t (spawn_refused error cap text res t)"
  "spawn_left p me t (spawn_refused error cap text res t\<lparr>s_killed := k, s_child := c\<rparr>)"
  by (simp_all add: spawn_left_def spawn_refused_def answer_error_def)

lemma open_pty_done:
  assumes "gives_fresh K" "open_pty K rows cols t = (None, v, t1)"
  shows "\<exists>m s. fresh_pair t (m, s) \<and> v = no_vars\<lparr>v_master := m, v_slave := s\<rparr>
    \<and> t1 = t(m \<mapsto> (PtyMaster, True), s \<mapsto> (PtySlave, True))"
proof (cases "sys_openpty K (nat (rows mod 65536), nat (cols mod 65536)) t")
  case (Failed e)
  with assms(2) show ?thesis by (simp add: open_pty_def)
next
  case (Done pr)
  obtain m s where pr: "pr = (m, s)" by fastforce
  with Done assms(1) have fr: "fresh_pair t (m, s)" by (auto simp: gives_fresh_def)
  with assms(2) Done pr show ?thesis
    by (intro exI [of _ m] exI [of _ s])
       (auto simp: open_pty_def Let_def fresh_pair_def fun_upd_twist split: option.splits)
qed

lemma handed_over_left:
  assumes "gives_fresh K" "(if p then open_pty K rows cols t else open_pipes K me t) = (None, v, t1)"
    "fresh_pair t1 (r, w)" "v' = v\<lparr>v_ready := (r, - 1)\<rparr>"
    "hand_over p me pid v' (close_fd w (t1(r \<mapsto> x, w \<mapsto> y))) = (res, t2)"
    "s_status a = 0" "s_result a = Some res" "s_fds a = t2"
  shows "spawn_left p me t a"
proof (cases p)
  case True
  obtain m s where o: "fresh_pair t (m, s)" "v = no_vars\<lparr>v_master := m, v_slave := s\<rparr>"
    "t1 = t(m \<mapsto> (PtyMaster, True), s \<mapsto> (PtySlave, True))"
    using open_pty_done [OF assms(1), of rows cols t v t1] assms(2) True by auto
  have "res = [pid, m, m, m] \<and> t2 = t(m \<mapsto> (PtyMaster, True))"
    using assms(3-5) o True hand_over_pty [of t m _ s _ r w v' me pid x y res t2] by simp
  with True assms(6-8) o(1) show ?thesis by (simp add: spawn_left_def fresh_pair_def)
next
  case pipes: False
  obtain a' b c d where o: "fresh_pair t (a', b)"
    "fresh_pair (t(a' \<mapsto> (PipeRead 0, True), b \<mapsto> (PipeWrite 0, True))) (c, d)" "v_input v = (a', b)" "v_output v = (c, d)"
    "let t2 = t(a' \<mapsto> (PipeRead 0, True), b \<mapsto> (PipeWrite 0, True), c \<mapsto> (PipeRead 1, True), d \<mapsto> (PipeWrite 1, True))
       in if me then t1 = t2 \<and> v_errors v = (- 1, - 1)
          else \<exists>e g. fresh_pair t2 (e, g) \<and> v_errors v = (e, g) \<and> t1 = t2(e \<mapsto> (PipeRead 2, True), g \<mapsto> (PipeWrite 2, True))"
    using open_pipes_done [OF assms(1), of me t v t1] assms(2) pipes by auto
  have ne: "c \<noteq> b" "t c = None" using fresh_updsD [OF o(2)] by (simp_all add: fresh_pair_def)
  have v: "v_input v' = (a', b)" "v_output v' = (c, d)" "v_ready v' = (r, - 1)" "v_errors v' = v_errors v"
    using o(3,4) assms(4) by simp_all
  show ?thesis
  proof (cases me)
    case True
    with o(5) have t1: "t1 = t(a' \<mapsto> (PipeRead 0, True), b \<mapsto> (PipeWrite 0, True), c \<mapsto> (PipeRead 1, True), d \<mapsto> (PipeWrite 1, True))"
      by (simp add: Let_def)
    from hand_over_merged [OF v(1-3) o(1,2) assms(3) [unfolded t1]] assms(5) pipes True t1
    have "res = [pid, b, c, - 1] \<and> t2 = t(b \<mapsto> (PipeWrite 0, True), c \<mapsto> (PipeRead 1, True))" by simp
    with pipes True assms(6-8) o(1) ne show ?thesis by (auto simp: spawn_left_def fresh_pair_def)
  next
    case False
    with o(5) obtain e g where e: "v_errors v' = (e, g)"
      "fresh_pair (t(a' \<mapsto> (PipeRead 0, True), b \<mapsto> (PipeWrite 0, True), c \<mapsto> (PipeRead 1, True), d \<mapsto> (PipeWrite 1, True))) (e, g)"
      "t1 = t(a' \<mapsto> (PipeRead 0, True), b \<mapsto> (PipeWrite 0, True), c \<mapsto> (PipeRead 1, True), d \<mapsto> (PipeWrite 1, True),
              e \<mapsto> (PipeRead 2, True), g \<mapsto> (PipeWrite 2, True))"
      using v(4) by (auto simp: Let_def)
    note ne2 = fresh_updsD [OF e(2)] fresh_updsD [OF fresh_updsD(1) [OF e(2)]]
    from hand_over_split [OF v(1,2) e(1) v(3) o(1,2) e(2) assms(3) [unfolded e(3)]] assms(5) pipes False e(3)
    have "res = [pid, b, c, e] \<and> t2 = t(b \<mapsto> (PipeWrite 0, True), c \<mapsto> (PipeRead 1, True), e \<mapsto> (PipeRead 2, True))" by simp
    with pipes False assms(6-8) o(1) ne ne2 show ?thesis by (auto simp: spawn_left_def fresh_pair_def)
  qed
qed

lemma start_child_left:
  assumes "gives_fresh K" "(if p then open_pty K rows cols t else open_pipes K me t) = (None, v, t1)"
    "make_pipe K 3 t1 = (Done (r, w), t2)" "start_child K p me error cap (v\<lparr>v_ready := (r, w)\<rparr>) t2 = Some a"
  shows "spawn_left p me t a"
proof -
  from make_pipe_fresh [OF assms(1,3)] have f: "fresh_pair t1 (r, w)"
    "t2 = t1(r \<mapsto> (PipeRead 3, True), w \<mapsto> (PipeWrite 3, True))" by simp_all
  have add: "added t v t1" "v_ready v = (- 1, - 1)"
    using assms(2) open_pty_added [OF assms(1)] open_pipes_added [OF assms(1)] by (auto split: if_splits)
  have add2: "added t (v\<lparr>v_ready := (r, w)\<rparr>) t2"
    by (rule make_pipe_added [OF assms(1) add(1) assms(3)]) (simp add: held_ready add(2))
  have rel: "release_vars (v\<lparr>v_ready := (r, w)\<rparr>) t2 = t" by (rule release_added [OF add2])
  have rel1: "release_vars (v\<lparr>v_ready := (r, - 1)\<rparr>) (close_fd w t2) = t"
    using f(1) add2 held_ready [OF add(2)]
    by (intro ext) (auto simp: release_apply close_fd_def added_def pair_fds_def fresh_pair_def)
  show ?thesis
  proof (cases "sys_fork K")
    case (Failed e)
    with assms(4) rel show ?thesis by (auto simp: start_child_def)
  next
    case (Done pid)
    obtain res t3 where h: "hand_over p me pid (v\<lparr>v_ready := (r, - 1)\<rparr>) (close_fd w t2) = (res, t3)" by fastforce
    have left: "spawn_left p me t \<lparr>s_status = 0, s_result = Some res, s_error = error, s_fds = t3, s_killed = None, s_child = c\<rparr>" for c
      by (rule handed_over_left [OF assms(1,2) f(1) refl, of pid "(PipeRead 3, True)" "(PipeWrite 3, True)" res t3])
         (use h f(2) in simp_all)
    have "start_child K p me error cap (v\<lparr>v_ready := (r, w)\<rparr>) t2 =
      (case uninterrupted (ready_reads K) of
         None \<Rightarrow> None
       | Some (Failed e) \<Rightarrow> Some ((spawn_refused error cap (strerror K e) (Some no_results) t)
               \<lparr>s_killed := Some pid, s_child := Some (v\<lparr>v_ready := (r, w)\<rparr>, t2)\<rparr>)
       | Some (Done _) \<Rightarrow> Some \<lparr>s_status = 0, s_result = Some res, s_error = error, s_fds = t3, s_killed = None,
               s_child = Some (v\<lparr>v_ready := (r, w)\<rparr>, t2)\<rparr>)"
      using Done rel1 h by (simp add: start_child_def Let_def cong: option.case_cong sys.case_cong)
    with assms(4) show ?thesis using left by (auto split: option.splits sys.splits)
  qed
qed

section \<open>Properties\<close>

text \<open>What the host packs the jail unpacks: a list of strings without NUL comes back from its blob as it
  was, empty strings in it included; only the list of one empty string comes back empty.\<close>

theorem blob_roundtrip:
  assumes "blob values = Some b" "\<forall>n. malloc_ok E n"
  shows "decode_blob E (Some b) (int (length b)) = Some (if values = [[]] then [] else values)"
proof (cases "values = []")
  case True
  with assms show ?thesis by (auto simp: blob_def decode_blob_def NUL_def)
next
  case False
  have b: "b = packed values" "\<forall>v \<in> set values. is_cstring v"
    using assms(1) False by (auto simp: blob_def packed_def list_ex_iff is_cstring_def split: if_splits)
  have nonempty: "length b \<noteq> 0" using b(1) False by (cases "values") auto
  have lastb: "b ! (length b - 1) = NUL" using last_packed [OF False] b(1) by simp
  have "nat (int (length b) - 1) = length b - 1" by simp
  then show ?thesis
    using assms(2) nonempty lastb count_NUL_packed [OF b(2)] decode_items_packed [OF b(2) assms(2)] length_packed_1 [of "values"] b(1)
    by (simp add: decode_blob_def Let_def)
qed

theorem blob_roundtrip_witness:
  "\<exists>b. blob [''ls'', [], ''-l''] = Some b
     \<and> decode_blob \<lparr>malloc_ok = \<lambda>_. True, pyalloc_ok = \<lambda>_. True\<rparr> (Some b) (int (length b)) = Some [''ls'', [], ''-l'']"
proof -
  obtain b where b: "blob [''ls'', [], ''-l''] = Some b" by (simp add: blob_def NUL_def)
  from blob_roundtrip [OF this, of "\<lparr>malloc_ok = \<lambda>_. True, pyalloc_ok = \<lambda>_. True\<rparr>"] b show ?thesis by auto
qed

text \<open>C10: A spawn accounts for every descriptor. When it fails, wherever it fails, the descriptor table is what
  it was; when it succeeds the table gained the descriptors it answers and no other, all of them closed on
  \<open>exec\<close>: the two ends of the child's input and output pipes the host needs, and of its error pipe unless
  that is merged, or the master of the pseudo terminal.\<close>

theorem spawn_accounts_for_descriptors:
  assumes "gives_fresh K"
    "visjail_spawn K E argv_blob argv_len env_blob env_len flags rows cols proxy_port inbound_port has_result error cap t = Some a"
  shows "spawn_left (flags div 1 mod 2 = 1) (flags div 2 mod 2 = 1) t a"
proof -
  let ?p = "flags div 1 mod 2 = 1" and ?me = "flags div 2 mod 2 = 1"
  obtain f v t1 where o: "(if ?p then open_pty K rows cols t else open_pipes K ?me t) = (f, v, t1)" by (metis surj_pair)
  have add: "added t v t1" "v_ready v = (- 1, - 1)"
    using o open_pty_added [OF assms(1)] open_pipes_added [OF assms(1)] by (auto split: if_splits)
  obtain x t2 where mp: "make_pipe K 3 t1 = (x, t2)" by fastforce
  have rest: "spawn_left ?p ?me t a" if "(case f of
       Some e \<Rightarrow> Some (spawn_refused error cap (strerror K e) (Some no_results) (release_vars v t1))
     | None \<Rightarrow> (case make_pipe K 3 t1 of
          (Failed e, t2) \<Rightarrow> Some (spawn_refused error cap (strerror K e) (Some no_results) (release_vars v t2))
        | (Done rd, t2) \<Rightarrow> start_child K ?p ?me error cap (v\<lparr>v_ready := rd\<rparr>) t2)) = Some a"
  proof (cases f)
    case (Some e)
    with that release_added [OF add(1)] show ?thesis by auto
  next
    case None
    show ?thesis
    proof (cases x)
      case (Failed e)
      with None that mp make_pipe_failed [of K 3 t1 e t2] release_added [OF add(1)] show ?thesis by auto
    next
      case (Done rd)
      with None that mp o start_child_left [OF assms(1), of ?p rows cols t ?me v t1 "fst rd" "snd rd" t2 error cap a]
      show ?thesis by simp
    qed
  qed
  show ?thesis
    using assms(2) rest o unfolding visjail_spawn_def Let_def by (simp split: if_splits) (use refused_left(1) in blast)+
qed

text \<open>A kernel for the witness: descriptors from 3 on while they are free.\<close>

definition small_kernel :: jail_kernel where
  "small_kernel = \<lparr>sys_pipe2 = (\<lambda>t. if t 5 = None \<and> t 6 = None then Done (5, 6) else Failed 24),
     sys_openpty = (\<lambda>_ t. if t 3 = None \<and> t 4 = None then Done (3, 4) else Failed 24), set_cloexec = (\<lambda>_. None),
     sys_fork = Done 77, ready_reads = [Failed EINTR, Done 1], strerror = (\<lambda>_. ''error'')\<rparr>"

definition roomy :: allocator where
  "roomy = \<lparr>malloc_ok = \<lambda>_. True, pyalloc_ok = \<lambda>_. True\<rparr>"

lemma small_kernel_fresh: "gives_fresh small_kernel"
  by (auto simp: gives_fresh_def small_kernel_def fresh_pair_def)

theorem spawn_accounts_for_descriptors_witness:
  "\<exists>a. visjail_spawn small_kernel roomy (Some [CHR ''l'', NUL]) 2 (Some [NUL]) 1 1 24 80 0 0 True None 0 Map.empty = Some a
     \<and> s_status a = 0 \<and> s_fds a = [3 \<mapsto> (PtyMaster, True)]"
proof -
  let ?run = "visjail_spawn small_kernel roomy (Some [CHR ''l'', NUL]) 2 (Some [NUL]) 1 1 24 80 0 0 True None 0 Map.empty"
  have "decode_blob roomy (Some [CHR ''l'', NUL]) 2 = Some [''l'']" "decode_blob roomy (Some [NUL]) 1 = Some []"
    by (simp_all add: decode_blob_def roomy_def Let_def cstr_of_def NUL_def)
  then obtain a where a: "?run = Some a" "s_status a = 0" "s_result a = Some [77, 3, 3, 3]"
    by (simp add: visjail_spawn_def Let_def open_pty_def small_kernel_def make_pipe_def start_child_def hand_over_def EINTR_def
        no_vars_def)
  from spawn_accounts_for_descriptors [OF small_kernel_fresh a(1)] a show ?thesis
    by (auto simp: spawn_left_def)
qed

section \<open>The streams of a child\<close>

text \<open>What the program of a child is to find open: its end of the terminal, or of its pipes, on 0, 1 and 2.\<close>

definition standard_streams :: "bool \<Rightarrow> bool \<Rightarrow> fds" where
  "standard_streams use_pty merge_error =
     (if use_pty then [0 \<mapsto> (PtySlave, False), 1 \<mapsto> (PtySlave, False), 2 \<mapsto> (PtySlave, False)]
      else [0 \<mapsto> (PipeRead 0, False), 1 \<mapsto> (PipeWrite 1, False), 2 \<mapsto> (PipeWrite (if merge_error then 1 else 2), False)])"

text \<open>The three descriptors the child copies there.\<close>

definition stream_sources :: "bool \<Rightarrow> bool \<Rightarrow> spawn_vars \<Rightarrow> int \<times> int \<times> int" where
  "stream_sources use_pty merge_error v =
     (if use_pty then (v_slave v, v_slave v, v_slave v)
      else (fst (v_input v), snd (v_output v), if merge_error then snd (v_output v) else snd (v_errors v)))"

text \<open>Below this the child closes every descriptor from 3 on.\<close>

definition child_bound :: "child_kernel \<Rightarrow> int" where
  "child_bound C =
     (if close_range_ok C then 4294967296
      else if open_max C < 0 \<or> open_max C > 1048576 then 1048576 else open_max C)"

lemma fold_close: "fold close_fd fds t fd = (if fd \<in> set fds then None else t fd)"
  by (induction fds arbitrary: t) (auto simp: close_fd_def)

lemma close_from_three_apply:
  assumes "\<forall>fd. t fd \<noteq> None \<longrightarrow> fd < child_bound C"
  shows "close_from_three (close_range_ok C) (open_max C) t fd = (if 3 \<le> fd then None else t fd)"
  using assms [rule_format, of fd]
  by (cases "t fd") (auto simp: close_from_three_def child_bound_def fold_close Let_def split: if_splits)

lemma child_main_streams:
  assumes src: "stream_sources p me v = (a, b, c)" "3 \<le> a" "3 \<le> b" "3 \<le> c"
    and open': "t a = Some (f, x)" "t b = Some (g, y)" "t c = Some (h, z)"
    and ready: "{fst (v_ready v), snd (v_ready v)} \<inter> {a, b, c} = {}"
    and bound: "\<forall>fd. t fd \<noteq> None \<longrightarrow> 0 \<le> fd \<and> fd < child_bound C" "3 \<le> child_bound C"
  shows "case child_main C p me confined argv env cwd v t of
      Runs av ev t' \<Rightarrow> \<not> confined \<and> av = argv \<and> ev = env \<and> t' = [0 \<mapsto> (f, False), 1 \<mapsto> (g, False), 2 \<mapsto> (h, False)]
    | Bridge av t' \<Rightarrow> confined \<and> av = argv \<and> t' 0 = Some (f, False) \<and> t' 1 = Some (g, False) \<and> t' 2 = Some (h, False)
    | _ \<Rightarrow> True"
proof -
  let ?t2 = "close_fd (snd (v_ready v)) (close_fd (fst (v_ready v)) t)"
  let ?t3 = "dup2 c 2 (dup2 b 1 (dup2 a 0 ?t2))"
  have dups: "(if p then dup_stdio C (v_slave v) (v_slave v) (v_slave v) ?t2
      else dup_stdio C (fst (v_input v)) (snd (v_output v)) (if me then snd (v_output v) else snd (v_errors v)) ?t2)
    \<in> {None, Some ?t3}"
    using src(1) by (auto simp: stream_sources_def dup_stdio_def split: if_splits)
  have "?t2 a = Some (f, x)" "?t2 b = Some (g, y)" "?t2 c = Some (h, z)"
    using open' ready by (auto simp: close_fd_def)
  then have three: "?t3 0 = Some (f, False)" "?t3 1 = Some (g, False)" "?t3 2 = Some (h, False)"
    using src(2-4) by (auto simp: dup2_def)
  have in_bound: "\<forall>fd. ?t3 fd \<noteq> None \<longrightarrow> 0 \<le> fd \<and> fd < child_bound C"
  proof (intro allI impI)
    fix fd assume fd: "?t3 fd \<noteq> None"
    show "0 \<le> fd \<and> fd < child_bound C"
    proof (cases "fd \<in> {0, 1, 2}")
      case True
      then show ?thesis using bound(2) by auto
    next
      case False
      then have "?t3 fd = ?t2 fd" by (simp add: dup2_def)
      with fd have "?t2 fd \<noteq> None" by simp
      then have "t fd \<noteq> None" by (simp add: close_fd_def split: if_splits)
      then show ?thesis using bound(1) by blast
    qed
  qed
  then have "exec_fds (close_from_three (close_range_ok C) (open_max C) ?t3) fd
      = [0 \<mapsto> (f, False), 1 \<mapsto> (g, False), 2 \<mapsto> (h, False)] fd" for fd
  proof -
    have closed: "close_from_three (close_range_ok C) (open_max C) ?t3 fd = (if 3 \<le> fd then None else ?t3 fd)"
      using in_bound by (intro close_from_three_apply) blast
    consider "fd < 0" | "fd = 0" | "fd = 1" | "fd = 2" | "3 \<le> fd" by linarith
    then show ?thesis
    proof cases
      case 1
      have "?t3 fd = None"
      proof (rule ccontr)
        assume "?t3 fd \<noteq> None"
        with in_bound have "0 \<le> fd" by blast
        with 1 show False by simp
      qed
      with 1 closed show ?thesis by (simp add: exec_fds_def)
    qed (use three closed in \<open>simp_all add: exec_fds_def\<close>)
  qed
  then have "exec_fds (close_from_three (close_range_ok C) (open_max C) ?t3) = [0 \<mapsto> (f, False), 1 \<mapsto> (g, False), 2 \<mapsto> (h, False)]"
    by blast
  note run = this
  obtain D where D: "(if p then dup_stdio C (v_slave v) (v_slave v) (v_slave v) ?t2
      else dup_stdio C (fst (v_input v)) (snd (v_output v)) (if me then snd (v_output v) else snd (v_errors v)) ?t2) = D"
    by blast
  obtain t3 where t3: "t3 = ?t3" by blast
  have "D = None \<or> D = Some t3" using dups D t3 by simp
  then have "(\<exists>m. child_main C p me confined argv env cwd v t = ChildFail m) \<or> child_main C p me confined argv env cwd v t = Stuck
      \<or> child_main C p me confined argv env cwd v t
        = (if confined then Bridge argv t3 else Runs argv env (exec_fds (close_from_three (close_range_ok C) (open_max C) t3)))"
    unfolding child_main_def Let_def D by (elim disjE) (simp_all split: option.split)
  moreover have "t3 0 = Some (f, False)" "t3 1 = Some (g, False)" "t3 2 = Some (h, False)"
    "exec_fds (close_from_three (close_range_ok C) (open_max C) t3) = [0 \<mapsto> (f, False), 1 \<mapsto> (g, False), 2 \<mapsto> (h, False)]"
    using three run by (simp_all only: t3)
  ultimately show ?thesis by (elim disjE exE) (simp_all split: if_split)
qed

text \<open>What the forked child starts from.\<close>

lemma fresh_above:
  "fresh_pair t (a, b) \<Longrightarrow> t 0 \<noteq> None \<Longrightarrow> t 1 \<noteq> None \<Longrightarrow> t 2 \<noteq> None \<Longrightarrow> 3 \<le> a \<and> 3 \<le> b"
proof -
  assume "fresh_pair t (a, b)" "t 0 \<noteq> None" "t 1 \<noteq> None" "t 2 \<noteq> None"
  then have "a \<notin> {0, 1, 2}" "b \<notin> {0, 1, 2}" "0 \<le> a" "0 \<le> b" by (auto simp: fresh_pair_def)
  then show ?thesis by auto
qed

lemma spawned_child:
  assumes "visjail_spawn K E argv_blob argv_len env_blob env_len flags rows cols proxy_port inbound_port has_result error cap t = Some a"
    and "s_child a = Some (v, tc)"
  shows "\<exists>v0 t1 rd. (if flags div 1 mod 2 = 1 then open_pty K rows cols t else open_pipes K (flags div 2 mod 2 = 1) t) = (None, v0, t1)
    \<and> make_pipe K 3 t1 = (Done rd, tc) \<and> v = v0\<lparr>v_ready := rd\<rparr>"
proof -
  let ?p = "flags div 1 mod 2 = 1" and ?me = "flags div 2 mod 2 = 1"
  obtain f v0 t1 where o: "(if ?p then open_pty K rows cols t else open_pipes K ?me t) = (f, v0, t1)" by (metis surj_pair)
  obtain x t2 where mp: "make_pipe K 3 t1 = (x, t2)" by fastforce
  have refused: "s_child (spawn_refused error cap msg res T) = None" for msg res T by (simp add: spawn_refused_def)
  have child: "s_child a = Some (w, T) \<Longrightarrow> w = v' \<and> T = t'" if "start_child K ?p ?me error cap v' t' = Some a" for v' t' w T
    using that refused by (auto simp: start_child_def Let_def split: sys.splits option.splits prod.splits)
  have rest: "s_child a = None \<or> (case f of None \<Rightarrow> (case x of Done rd \<Rightarrow> start_child K ?p ?me error cap (v0\<lparr>v_ready := rd\<rparr>) t2 = Some a
      | Failed e \<Rightarrow> False) | Some e \<Rightarrow> False)"
    using assms(1) o mp refused unfolding visjail_spawn_def Let_def
    by (simp split: if_splits option.splits sys.splits) (auto split: option.splits sys.splits)
  with assms(2) obtain rd where "f = None" "x = Done rd" "start_child K ?p ?me error cap (v0\<lparr>v_ready := rd\<rparr>) t2 = Some a"
    by (auto split: option.splits sys.splits)
  moreover from child [OF this(3) assms(2)] have "v = v0\<lparr>v_ready := rd\<rparr>" "tc = t2" by simp_all
  ultimately show ?thesis using o mp by blast
qed

lemma spawned_sources:
  assumes "gives_fresh K" "t 0 \<noteq> None" "t 1 \<noteq> None" "t 2 \<noteq> None"
    and "(if p then open_pty K rows cols t else open_pipes K me t) = (None, v0, t1)"
    and "make_pipe K 3 t1 = (Done rd, tc)" "v = v0\<lparr>v_ready := rd\<rparr>"
  shows "\<exists>a b c f g h x y z. stream_sources p me v = (a, b, c) \<and> 3 \<le> a \<and> 3 \<le> b \<and> 3 \<le> c
    \<and> tc a = Some (f, x) \<and> tc b = Some (g, y) \<and> tc c = Some (h, z)
    \<and> {fst (v_ready v), snd (v_ready v)} \<inter> {a, b, c} = {}
    \<and> [0 \<mapsto> (f, False), 1 \<mapsto> (g, False), 2 \<mapsto> (h, False)] = standard_streams p me"
proof -
  obtain r w where rd: "rd = (r, w)" by fastforce
  from make_pipe_fresh [OF assms(1), of 3 t1 r w tc] assms(6) rd
  have f: "fresh_pair t1 (r, w)" "tc = t1(r \<mapsto> (PipeRead 3, True), w \<mapsto> (PipeWrite 3, True))" by simp_all
  show ?thesis
  proof (cases p)
    case True
    obtain m s where o: "fresh_pair t (m, s)" "v0 = no_vars\<lparr>v_master := m, v_slave := s\<rparr>"
      "t1 = t(m \<mapsto> (PtyMaster, True), s \<mapsto> (PtySlave, True))"
      using open_pty_done [OF assms(1), of rows cols t v0 t1] assms(5) True by auto
    have s: "tc s = Some (PtySlave, True)" "r \<noteq> s" "w \<noteq> s" "3 \<le> s"
      using f o(1,3) fresh_updsD [OF f(1) [unfolded o(3)]] fresh_above [OF o(1) assms(2-4)] by (auto simp: fresh_pair_def)
    have "stream_sources p me v = (s, s, s)" using True o(2) assms(7) by (simp add: stream_sources_def)
    moreover have "{fst (v_ready v), snd (v_ready v)} \<inter> {s, s, s} = {}" using assms(7) rd s by simp
    moreover have "[0 \<mapsto> (PtySlave, False), 1 \<mapsto> (PtySlave, False), 2 \<mapsto> (PtySlave, False)] = standard_streams p me"
      using True by (simp add: standard_streams_def)
    ultimately show ?thesis using s(1,4) by blast
  next
    case False
    obtain i j k l where o: "fresh_pair t (i, j)"
      "fresh_pair (t(i \<mapsto> (PipeRead 0, True), j \<mapsto> (PipeWrite 0, True))) (k, l)" "v_input v0 = (i, j)" "v_output v0 = (k, l)"
      "let t2 = t(i \<mapsto> (PipeRead 0, True), j \<mapsto> (PipeWrite 0, True), k \<mapsto> (PipeRead 1, True), l \<mapsto> (PipeWrite 1, True))
         in if me then t1 = t2 \<and> v_errors v0 = (- 1, - 1)
            else \<exists>e g. fresh_pair t2 (e, g) \<and> v_errors v0 = (e, g) \<and> t1 = t2(e \<mapsto> (PipeRead 2, True), g \<mapsto> (PipeWrite 2, True))"
      using open_pipes_done [OF assms(1), of me t v0 t1] assms(5) False by auto
    have above: "3 \<le> i" "3 \<le> l" using fresh_above [OF o(1) assms(2-4)] fresh_above [OF fresh_updsD(1) [OF o(2)] assms(2-4)] by simp_all
    have ne: "k \<noteq> i" "l \<noteq> i" "k \<noteq> j" "l \<noteq> j" "i \<noteq> j" "k \<noteq> l"
      using fresh_updsD [OF o(2)] o(1,2) by (auto simp: fresh_pair_def)
    have v: "v_input v = (i, j)" "v_output v = (k, l)" "v_errors v = v_errors v0" "v_ready v = (r, w)"
      using o(3,4) assms(7) rd by simp_all
    show ?thesis
    proof (cases me)
      case True
      with o(5) have t1: "t1 = t(i \<mapsto> (PipeRead 0, True), j \<mapsto> (PipeWrite 0, True), k \<mapsto> (PipeRead 1, True), l \<mapsto> (PipeWrite 1, True))"
        by (simp add: Let_def)
      note r = fresh_updsD [OF f(1) [unfolded t1]] fresh_updsD [OF fresh_updsD(1) [OF f(1) [unfolded t1]]]
      have "tc i = Some (PipeRead 0, True)" "tc l = Some (PipeWrite 1, True)" "{r, w} \<inter> {i, l, l} = {}"
        using f(2) t1 ne r by auto
      moreover have "stream_sources p me v = (i, l, l)" "{fst (v_ready v), snd (v_ready v)} = {r, w}"
        using True False by (simp_all add: stream_sources_def v)
      moreover have "[0 \<mapsto> (PipeRead 0, False), 1 \<mapsto> (PipeWrite 1, False), 2 \<mapsto> (PipeWrite 1, False)] = standard_streams p me"
        using True False by (simp add: standard_streams_def)
      ultimately show ?thesis using above by metis
    next
      case no: False
      with o(5) obtain e g where e: "v_errors v = (e, g)"
        "fresh_pair (t(i \<mapsto> (PipeRead 0, True), j \<mapsto> (PipeWrite 0, True), k \<mapsto> (PipeRead 1, True), l \<mapsto> (PipeWrite 1, True))) (e, g)"
        "t1 = t(i \<mapsto> (PipeRead 0, True), j \<mapsto> (PipeWrite 0, True), k \<mapsto> (PipeRead 1, True), l \<mapsto> (PipeWrite 1, True),
                e \<mapsto> (PipeRead 2, True), g \<mapsto> (PipeWrite 2, True))"
        using v(3) by (auto simp: Let_def)
      note e1 = fresh_updsD [OF e(2)] note e2 = fresh_updsD [OF e1(1)]
      note r1 = fresh_updsD [OF f(1) [unfolded e(3)]] note r2 = fresh_updsD [OF r1(1)] note r3 = fresh_updsD [OF r2(1)]
      have "e \<noteq> g" using e(2) by (simp add: fresh_pair_def)
      then have "tc i = Some (PipeRead 0, True)" "tc l = Some (PipeWrite 1, True)" "tc g = Some (PipeWrite 2, True)"
        "{r, w} \<inter> {i, l, g} = {}"
        using f(2) e(3) ne e1 e2 r1 r2 r3 by auto
      moreover have "3 \<le> g" using fresh_above [OF e2(1) assms(2-4)] by simp
      moreover have "stream_sources p me v = (i, l, g)" "{fst (v_ready v), snd (v_ready v)} = {r, w}"
        using no False by (simp_all add: stream_sources_def v(1,2,4) e(1))
      moreover have "[0 \<mapsto> (PipeRead 0, False), 1 \<mapsto> (PipeWrite 1, False), 2 \<mapsto> (PipeWrite 2, False)] = standard_streams p me"
        using no False by (simp add: standard_streams_def)
      ultimately show ?thesis using above by metis
    qed
  qed
qed

lemma spawned_child_streams:
  assumes "gives_fresh K" "t 0 \<noteq> None" "t 1 \<noteq> None" "t 2 \<noteq> None"
    and "visjail_spawn K E argv_blob argv_len env_blob env_len flags rows cols proxy_port inbound_port has_result error cap t = Some a"
    and "s_child a = Some (v, tc)" "p = (flags div 1 mod 2 = 1)" "me = (flags div 2 mod 2 = 1)"
    and "\<forall>fd. tc fd \<noteq> None \<longrightarrow> 0 \<le> fd \<and> fd < child_bound C" "3 \<le> child_bound C"
  shows "case child_main C p me confined argv env cwd v tc of
      Runs av ev t' \<Rightarrow> \<not> confined \<and> av = argv \<and> ev = env \<and> t' = standard_streams p me
    | Bridge av t' \<Rightarrow> confined \<and> av = argv \<and> (\<forall>fd \<in> {0, 1, 2}. t' fd = standard_streams p me fd)
    | _ \<Rightarrow> True"
proof -
  obtain v0 t1 rd where sp: "(if p then open_pty K rows cols t else open_pipes K me t) = (None, v0, t1)"
    "make_pipe K 3 t1 = (Done rd, tc)" "v = v0\<lparr>v_ready := rd\<rparr>"
    using spawned_child [OF assms(5,6)] assms(7,8) by auto
  obtain i j k f g h x y z where S: "stream_sources p me v = (i, j, k)" "3 \<le> i" "3 \<le> j" "3 \<le> k"
    "tc i = Some (f, x)" "tc j = Some (g, y)" "tc k = Some (h, z)" "{fst (v_ready v), snd (v_ready v)} \<inter> {i, j, k} = {}"
    and st: "[0 \<mapsto> (f, False), 1 \<mapsto> (g, False), 2 \<mapsto> (h, False)] = standard_streams p me"
    using spawned_sources [OF assms(1-4) sp] by (elim exE conjE) (rule that)
  have "standard_streams p me 0 = Some (f, False)" "standard_streams p me 1 = Some (g, False)" "standard_streams p me 2 = Some (h, False)"
    unfolding st [symmetric] by simp_all
  note at = this
  obtain out where out: "child_main C p me confined argv env cwd v tc = out" by blast
  show ?thesis
    using child_main_streams [OF S assms(9,10), of confined argv env cwd] unfolding out
    by (cases out) (simp_all only: child_end.case at st [symmetric] ball_simps insert_iff simp_thms, simp_all)
qed

definition willing :: child_kernel where
  "willing = \<lparr>setsid_error = None, ready_writes = [Done 1], ctty_error = None, dup2_error = (\<lambda>_ _. None),
     chdir_error = (\<lambda>_. None), exec_error = None, close_range_ok = True, open_max = 1024\<rparr>"

definition child_vars :: spawn_vars where
  "child_vars = no_vars\<lparr>v_input := (3, 4), v_output := (5, 6), v_errors := (7, 8), v_ready := (9, 10)\<rparr>"

text \<open>A host whose own standard input is closed gets 0 for the child's input pipe; then \<open>dup2\<close> has nothing to
  do, the descriptor keeps its flag, and \<open>exec\<close> closes it: the program starts without standard input.\<close>

lemma low_descriptor_lost_at_exec:
  "child_main willing False True False [''ls''] [] None (child_vars\<lparr>v_input := (0, 3)\<rparr>)
      [0 \<mapsto> (PipeRead 0, True), 6 \<mapsto> (PipeWrite 1, True)]
   = Runs [''ls''] [] [1 \<mapsto> (PipeWrite 1, False), 2 \<mapsto> (PipeWrite 1, False)]"
  by (auto simp: child_main_def willing_def child_vars_def no_vars_def dup_stdio_def dup2_def close_fd_def
      exec_fds_def close_from_three_def fun_eq_iff Let_def)

end
