(* ===== verification/NetBridge.thy ===== *)
theory NetBridge
  imports JailSpawn
begin

text \<open>
  The network bridge of \<^verbatim>\<open>native/visjail/network_bridge.c\<close>: the relay that copies bytes both ways
  between two sockets, the closing of every descriptor but the kept ones, and the two processes that
  pass connections across the border of a private network namespace.  What the kernel answers is a
  parameter, one answer per call.
\<close>

section \<open>One direction of a relay\<close>

definition BUFFER_SIZE :: nat where "BUFFER_SIZE = 16384"

definition EAGAIN :: nat where "EAGAIN = 11"

definition EWOULDBLOCK :: nat where "EWOULDBLOCK = 11"

text \<open>The buffer holds \<open>d_length\<close> bytes to be sent from \<open>d_offset\<close> on.\<close>

record direction =
  d_buffer :: bytes
  d_offset :: nat
  d_length :: nat
  d_eof :: bool
  shutdown_sent :: bool

definition new_direction :: direction where
  "new_direction = \<lparr>d_buffer = replicate BUFFER_SIZE NUL, d_offset = 0, d_length = 0, d_eof = False, shutdown_sent = False\<rparr>"

definition retry_later :: "nat \<Rightarrow> bool" where
  "retry_later e \<longleftrightarrow> e = EINTR \<or> e = EAGAIN \<or> e = EWOULDBLOCK"

text \<open>What the kernel reports of a polled socket, and what \<open>recv\<close> and \<open>send\<close> answer if they are called now.\<close>

record revents =
  pollin :: bool
  pollout :: bool
  pollhup :: bool
  pollerr :: bool
  pollnval :: bool

record socket_answers =
  recv_answer :: "bytes sys"
  send_answer :: "bytes \<Rightarrow> nat sys"

text \<open>The pending bytes, as \<open>send\<close> is given them.\<close>

definition d_pending :: "direction \<Rightarrow> bytes" where
  "d_pending d = take (d_length d) (drop (d_offset d) (d_buffer d))"

definition receive_step :: "bool \<Rightarrow> bytes sys \<Rightarrow> direction \<Rightarrow> (bool \<times> bytes) \<times> direction" where
  "receive_step ready ans d =
     (if \<not> d_eof d \<and> d_length d = 0 \<and> ready then
        (case ans of
           Done got \<Rightarrow>
             if got = [] then ((True, []), d\<lparr>d_eof := True\<rparr>)
             else ((True, got), d\<lparr>d_buffer := overlay got (d_buffer d), d_offset := 0, d_length := length got\<rparr>)
         | Failed e \<Rightarrow> ((retry_later e, []), d))
      else ((True, []), d))"

definition send_step :: "bool \<Rightarrow> (bytes \<Rightarrow> nat sys) \<Rightarrow> direction \<Rightarrow> (bool \<times> bytes) \<times> direction" where
  "send_step ready ans d =
     (if d_length d > 0 \<and> ready then
        (case ans (d_pending d) of
           Done n \<Rightarrow> ((True, take n (d_pending d)), d\<lparr>d_offset := d_offset d + n, d_length := d_length d - n\<rparr>)
         | Failed e \<Rightarrow> ((retry_later e, []), d))
      else ((True, []), d))"

text \<open>What one call did: whether it went well, the bytes received and sent, whether it shut the
  destination down.\<close>

record moved =
  m_ok :: bool
  m_received :: bytes
  m_sent :: bytes
  m_shutdown :: bool

definition move_direction ::
  "revents \<Rightarrow> revents \<Rightarrow> bytes sys \<Rightarrow> (bytes \<Rightarrow> nat sys) \<Rightarrow> direction \<Rightarrow> moved \<times> direction" where
  "move_direction source_events destination_events r s d =
     (let ((ok1, got), d1) = receive_step (pollin source_events \<or> pollhup source_events) r d in
      if \<not> ok1 then (\<lparr>m_ok = False, m_received = [], m_sent = [], m_shutdown = False\<rparr>, d1)
      else
        let ((ok2, sent), d2) = send_step (pollout destination_events) s d1 in
        if \<not> ok2 then (\<lparr>m_ok = False, m_received = got, m_sent = [], m_shutdown = False\<rparr>, d2)
        else if d_eof d2 \<and> d_length d2 = 0 \<and> \<not> shutdown_sent d2
        then (\<lparr>m_ok = True, m_received = got, m_sent = sent, m_shutdown = True\<rparr>, d2\<lparr>shutdown_sent := True\<rparr>)
        else (\<lparr>m_ok = True, m_received = got, m_sent = sent, m_shutdown = False\<rparr>, d2))"

section \<open>The relay\<close>

text \<open>One turn of the loop as the kernel answers it: the failure of \<open>poll\<close>, or the events of the two sockets
  and the answers of the calls that follow.\<close>

datatype turn = PollFailed nat | Turn revents revents socket_answers socket_answers

text \<open>The state: both directions and, for each, what was received, what was sent, and how often the
  destination was shut down.\<close>

record relay_state =
  forward :: direction
  backward :: direction
  f_received :: bytes
  f_sent :: bytes
  f_shutdowns :: nat
  b_received :: bytes
  b_sent :: bytes
  b_shutdowns :: nat

definition relay_start :: relay_state where
  "relay_start = \<lparr>forward = new_direction, backward = new_direction, f_received = [], f_sent = [], f_shutdowns = 0,
     b_received = [], b_sent = [], b_shutdowns = 0\<rparr>"

definition relay_over :: "relay_state \<Rightarrow> bool" where
  "relay_over s \<longleftrightarrow> d_eof (forward s) \<and> d_length (forward s) = 0 \<and> d_eof (backward s) \<and> d_length (backward s) = 0"

text \<open>The events the loop asks for: of the first socket and of the second, each to read and to write.\<close>

definition interests :: "relay_state \<Rightarrow> (bool \<times> bool) \<times> (bool \<times> bool)" where
  "interests s =
     ((\<not> d_eof (forward s) \<and> d_length (forward s) = 0, d_length (backward s) > 0),
      (\<not> d_eof (backward s) \<and> d_length (backward s) = 0, d_length (forward s) > 0))"

definition record_forward :: "moved \<Rightarrow> direction \<Rightarrow> relay_state \<Rightarrow> relay_state" where
  "record_forward m d s = s\<lparr>forward := d, f_received := f_received s @ m_received m, f_sent := f_sent s @ m_sent m,
     f_shutdowns := f_shutdowns s + (if m_shutdown m then 1 else 0)\<rparr>"

definition record_backward :: "moved \<Rightarrow> direction \<Rightarrow> relay_state \<Rightarrow> relay_state" where
  "record_backward m d s = s\<lparr>backward := d, b_received := b_received s @ m_received m, b_sent := b_sent s @ m_sent m,
     b_shutdowns := b_shutdowns s + (if m_shutdown m then 1 else 0)\<rparr>"

text \<open>One turn: \<open>Inl\<close> when the relay gives up with status 1.\<close>

definition relay_turn :: "turn \<Rightarrow> relay_state \<Rightarrow> relay_state + relay_state" where
  "relay_turn k s =
     (case k of
        PollFailed e \<Rightarrow> if e = EINTR then Inr s else Inl s
      | Turn e0 e1 a0 a1 \<Rightarrow>
          if pollerr e0 \<or> pollerr e1 \<or> pollnval e0 \<or> pollnval e1 then Inl s
          else
            let (m, d) = move_direction e0 e1 (recv_answer a0) (send_answer a1) (forward s);
                s1 = record_forward m d s
            in if \<not> m_ok m then Inl s1
               else
                 let (m', d') = move_direction e1 e0 (recv_answer a1) (send_answer a0) (backward s1);
                     s2 = record_backward m' d' s1
                 in if \<not> m_ok m' then Inl s2 else Inr s2)"

text \<open>The whole loop over the turns the kernel gives; \<open>None\<close> while it still runs when they are used up.\<close>

fun relay_loop :: "turn list \<Rightarrow> relay_state \<Rightarrow> (nat \<times> relay_state) option" where
  "relay_loop ks s =
     (if relay_over s then Some (0, s)
      else (case ks of
              [] \<Rightarrow> None
            | k # ks' \<Rightarrow> (case relay_turn k s of Inl s' \<Rightarrow> Some (1, s') | Inr s' \<Rightarrow> relay_loop ks' s')))"

declare relay_loop.simps [simp del]

definition relay :: "bool \<Rightarrow> turn list \<Rightarrow> (nat \<times> relay_state) option" where
  "relay nonblocking_ok ks = (if \<not> nonblocking_ok then Some (1, relay_start) else relay_loop ks relay_start)"

section \<open>Closing everything else\<close>

text \<open>Descriptors as the set of open ones; \<open>range_ok\<close> says whether \<open>close_range\<close> works for a range.\<close>

definition UINT_MAX :: int where "UINT_MAX = 4294967295"

definition close_range_part :: "(int \<Rightarrow> int \<Rightarrow> bool) \<Rightarrow> int \<Rightarrow> int \<Rightarrow> int set \<Rightarrow> bool \<times> int set" where
  "close_range_part range_ok first final fds =
     (if first > final then (True, fds)
      else if range_ok first final then (True, fds - {first..final}) else (False, fds))"

text \<open>The loop over the kept descriptors, in ascending order, then the rest.\<close>

fun close_parts :: "(int \<Rightarrow> int \<Rightarrow> bool) \<Rightarrow> int list \<Rightarrow> int \<Rightarrow> bool \<Rightarrow> int set \<Rightarrow> bool \<times> int set" where
  "close_parts range_ok [] nxt good fds =
     (let (ok, fds1) = close_range_part range_ok nxt UINT_MAX fds in (good \<and> ok, fds1))"
| "close_parts range_ok (k # ks) nxt good fds =
     (let (ok, fds1) = close_range_part range_ok nxt (k - 1) fds
      in close_parts range_ok ks (k + 1) (good \<and> ok) fds1)"

definition keepers :: "int \<Rightarrow> int \<Rightarrow> int list" where
  "keepers first second =
     (let keep = (if first \<ge> 3 then [first] else []) @ (if second \<ge> 3 \<and> second \<noteq> first then [second] else [])
      in if length keep = 2 \<and> keep ! 0 > keep ! 1 then [keep ! 1, keep ! 0] else keep)"

definition close_except :: "(int \<Rightarrow> int \<Rightarrow> bool) \<Rightarrow> int \<Rightarrow> int \<Rightarrow> int \<Rightarrow> int set \<Rightarrow> int set" where
  "close_except range_ok sysconf_max first second fds =
     (let (good, fds1) = close_parts range_ok (keepers first second) 3 True fds in
      if good then fds1
      else
        let maximum = (if sysconf_max < 0 \<or> sysconf_max > 1048576 then 1048576 else sysconf_max)
        in fds1 - {fd. 3 \<le> fd \<and> fd < maximum \<and> fd \<noteq> first \<and> fd \<noteq> second})"

text \<open>What the relay's process does, with the descriptors it relays under, and the descriptors the payload of
  the namespace starts with.\<close>

definition relay_child ::
  "(int \<Rightarrow> int \<Rightarrow> bool) \<Rightarrow> int \<Rightarrow> bool \<Rightarrow> bool \<Rightarrow> int \<Rightarrow> int \<Rightarrow> bool \<Rightarrow> turn list \<Rightarrow> int set \<Rightarrow> (nat \<times> int set) option" where
  "relay_child range_ok sysconf_max pdeathsig_set same_parent first second nonblocking_ok ks fds =
     (if \<not> pdeathsig_set \<or> \<not> same_parent then Some (125, fds)
      else map_option (\<lambda>(status, s). (status, close_except range_ok sysconf_max first second fds)) (relay nonblocking_ok ks))"

definition payload_fds :: "(int \<Rightarrow> int \<Rightarrow> bool) \<Rightarrow> int \<Rightarrow> int set \<Rightarrow> int set" where
  "payload_fds range_ok sysconf_max fds = close_except range_ok sysconf_max (- 1) (- 1) fds"

section \<open>Namespaces\<close>

text \<open>Writing a text to a control file: the answers of \<open>write\<close> in turn; \<open>stale\<close> is the \<open>errno\<close> from before.\<close>

fun write_loop :: "nat sys list \<Rightarrow> nat \<Rightarrow> bytes \<Rightarrow> bytes \<Rightarrow> (nat option \<times> bytes) option" where
  "write_loop answers stale [] written = Some (None, written)"
| "write_loop [] stale (c # cs) written = None"
| "write_loop (Failed e # as) stale (c # cs) written =
     (if e = EINTR then write_loop as EINTR (c # cs) written else Some (Some (if e = 0 then EIO else e), written))"
| "write_loop (Done n # as) stale (c # cs) written =
     (if n = 0 then Some (Some (if stale = 0 then EIO else stale), written)
      else write_loop as stale (drop n (c # cs)) (written @ take n (c # cs)))"

record control_file =
  cf_errno :: nat
  cf_open :: "nat option"
  cf_writes :: "nat sys list"
  cf_close :: "nat option"

text \<open>The error it returns with, if any, and what the file received.\<close>

definition write_text :: "control_file \<Rightarrow> bytes \<Rightarrow> (nat option \<times> bytes) option" where
  "write_text F text =
     (case cf_open F of
        Some e \<Rightarrow> Some (Some e, [])
      | None \<Rightarrow> map_option (\<lambda>(err, written). (case err of Some e \<Rightarrow> Some e | None \<Rightarrow> cf_close F, written))
                  (write_loop (cf_writes F) (cf_errno F) text []))"

definition ENOENT :: nat where "ENOENT = 2"

text \<open>What the kernel answers the process that enters a namespace of its own.\<close>

record ns_kernel =
  unshare_user :: "nat option"
  control :: "bytes \<Rightarrow> control_file"
  unshare_net :: "nat option"
  ns_socket :: "nat option"
  get_flags :: "nat option"
  set_flags :: "nat option"

definition id_mapping :: "nat \<Rightarrow> bytes" where
  "id_mapping uid = snprintf_kept 96 (''0 '' @ show_nat uid @ '' 1'' @ [NEWLINE])"

text \<open>What happened, in order.\<close>

datatype ns_event = NewUser | Wrote bytes bytes | NewNet | LoopbackUp

fun ns_writes :: "ns_kernel \<Rightarrow> (bytes \<times> bytes \<times> bool) list \<Rightarrow> ns_event list \<Rightarrow> (bool \<times> ns_event list) option" where
  "ns_writes K [] ev = Some (True, ev)"
| "ns_writes K ((path, text, may_miss) # rest) ev =
     (case write_text (control K path) text of
        None \<Rightarrow> None
      | Some (err, written) \<Rightarrow>
          if err \<noteq> None \<and> \<not> (may_miss \<and> err = Some ENOENT) then Some (False, ev @ [Wrote path written])
          else ns_writes K rest (ev @ [Wrote path written]))"

definition enter_network_namespace :: "ns_kernel \<Rightarrow> nat \<Rightarrow> nat \<Rightarrow> (bool \<times> ns_event list) option" where
  "enter_network_namespace K uid gid =
     (if unshare_user K \<noteq> None then Some (False, [])
      else
        (case ns_writes K [(''/proc/self/setgroups'', ''deny'', True), (''/proc/self/uid_map'', id_mapping uid, False),
               (''/proc/self/gid_map'', id_mapping gid, False)] [NewUser] of
           None \<Rightarrow> None
         | Some (False, ev) \<Rightarrow> Some (False, ev)
         | Some (True, ev) \<Rightarrow>
             if unshare_net K \<noteq> None then Some (False, ev)
             else if ns_socket K \<noteq> None \<or> get_flags K \<noteq> None \<or> set_flags K \<noteq> None then Some (False, ev @ [NewNet])
             else Some (True, ev @ [NewNet, LoopbackUp])))"

section \<open>Passing connections\<close>

datatype bridge_kind = BRIDGE_OUTBOUND | BRIDGE_INBOUND | OtherKind int

text \<open>Attempts to connect to a loopback port: \<open>Some\<close> is an \<open>errno\<close>.  The answer is whether a socket is
  connected; the open descriptors change by it alone.\<close>

datatype attempt_answer = NoSocket | ConnectFailed nat | Connected

definition ECONNREFUSED :: nat where "ECONNREFUSED = 111"

text \<open>A port as \<open>htons((unsigned short) port)\<close> puts it into an address.\<close>

definition address_port :: "int \<Rightarrow> int" where
  "address_port port = port mod 65536"

text \<open>\<open>loopback_listener\<close>: what \<open>socket\<close>, \<open>bind\<close> and \<open>listen\<close> answer; a socket that cannot listen is closed.\<close>

record listener_answers =
  la_socket :: "int option"
  la_bind :: "int \<Rightarrow> bool"
  la_listen :: bool

definition loopback_listener :: "listener_answers \<Rightarrow> int \<Rightarrow> int set \<Rightarrow> int option \<times> int set" where
  "loopback_listener L port fds =
     (case la_socket L of
        None \<Rightarrow> (None, fds)
      | Some fd \<Rightarrow>
          if \<not> la_bind L (address_port port) \<or> \<not> la_listen L then (None, insert fd fds - {fd})
          else (Some fd, insert fd fds))"

fun loopback_connect :: "nat \<Rightarrow> attempt_answer list \<Rightarrow> bool" where
  "loopback_connect 0 as = False"
| "loopback_connect (Suc n) [] = False"
| "loopback_connect (Suc n) (NoSocket # as) = False"
| "loopback_connect (Suc n) (Connected # as) = True"
| "loopback_connect (Suc n) (ConnectFailed e # as) =
     (if e \<noteq> ECONNREFUSED \<and> e \<noteq> EINTR then False else loopback_connect n as)"

text \<open>A control message: the headers \<open>recvmsg\<close> delivers, each with whether it carries rights and its bytes
  hold a descriptor; the first of those counts.\<close>

datatype cmsg = Rights int | OtherHeader

fun first_rights :: "cmsg list \<Rightarrow> int option" where
  "first_rights [] = None"
| "first_rights (Rights fd # hs) = Some fd"
| "first_rights (OtherHeader # hs) = first_rights hs"

datatype message = NoMessage | Message bridge_kind "cmsg list"

definition receive_descriptor :: "message \<Rightarrow> (bridge_kind \<times> int) option" where
  "receive_descriptor m =
     (case m of
        NoMessage \<Rightarrow> None
      | Message kind headers \<Rightarrow>
          (case first_rights headers of
             Some fd \<Rightarrow> if fd < 0 then None else Some (kind, fd)
           | None \<Rightarrow> None))"

text \<open>\<open>CMSG\<close> carries the descriptor with the kind; it is sent whole or not at all.\<close>

definition send_descriptor :: "bool \<Rightarrow> bridge_kind \<Rightarrow> int \<Rightarrow> message option" where
  "send_descriptor sendmsg_ok kind fd = (if sendmsg_ok then Some (Message kind [Rights fd]) else None)"

text \<open>The descriptors of a bridge process, the relays it forked, and the messages it sent.\<close>

record bridge =
  open_now :: "int set"
  relays :: "(int \<times> int) list"
  sent_messages :: "message list"

text \<open>What one turn of the loop meets: a message on the control socket, the socket the connection gets and
  whether it connects, whether the relay's fork works, an accepted connection, and whether the handoff works.\<close>

record bridge_turn =
  on_control :: "message option"
  dial :: "int \<Rightarrow> attempt_answer list"
  dial_fd :: int
  fork_ok :: bool
  on_listener :: "int option"
  handoff_ok :: bool

text \<open>\<open>spawn_relay\<close>: the relay's process has both; the parent closes its own, but only when the fork worked.\<close>

definition spawn_relay :: "bool \<Rightarrow> int \<Rightarrow> int \<Rightarrow> bridge \<Rightarrow> bool \<times> bridge" where
  "spawn_relay ok first second b =
     (if \<not> ok then (False, b)
      else (True, b\<lparr>relays := relays b @ [(first, second)], open_now := open_now b - {first, second}\<rparr>))"

definition control_part ::
  "bridge_kind \<Rightarrow> int \<Rightarrow> nat \<Rightarrow> bridge_turn \<Rightarrow> bridge \<Rightarrow> bridge" where
  "control_part expected port attempts k b =
     (case Option.bind (on_control k) receive_descriptor of
        None \<Rightarrow> b
      | Some (kind, fd) \<Rightarrow>
          let b1 = b\<lparr>open_now := insert fd (open_now b)\<rparr> in
          if kind = expected \<and> port > 0 then
            if loopback_connect attempts (dial k (address_port port)) then
              let b2 = b1\<lparr>open_now := insert (dial_fd k) (open_now b1)\<rparr>;
                  (ok, b3) = spawn_relay (fork_ok k) fd (dial_fd k) b2
              in if ok then b3 else b3\<lparr>open_now := open_now b3 - {fd} - {dial_fd k}\<rparr>
            else b1\<lparr>open_now := open_now b1 - {fd}\<rparr>
          else b1\<lparr>open_now := open_now b1 - {fd}\<rparr>)"

definition listener_part :: "bridge_kind \<Rightarrow> bool \<Rightarrow> bridge_turn \<Rightarrow> bridge \<Rightarrow> bridge" where
  "listener_part kind listening k b =
     (case (if listening then on_listener k else None) of
        None \<Rightarrow> b
      | Some fd \<Rightarrow>
          let b1 = b\<lparr>open_now := insert fd (open_now b)\<rparr>;
              b2 = (case send_descriptor (handoff_ok k) kind fd of
                      None \<Rightarrow> b1
                    | Some m \<Rightarrow> b1\<lparr>sent_messages := sent_messages b1 @ [m]\<rparr>)
          in b2\<lparr>open_now := open_now b2 - {fd}\<rparr>)"

text \<open>\<open>reap_relays\<close>: the children that ended, with their statuses; the principal among them is remembered.\<close>

fun reap_relays :: "int \<Rightarrow> (int \<times> wait_status) list \<Rightarrow> wait_status \<Rightarrow> bool \<Rightarrow> wait_status \<times> bool" where
  "reap_relays main_pid [] st fin = (st, fin)"
| "reap_relays main_pid ((pid, s) # rest) st fin =
     (if pid = main_pid then reap_relays main_pid rest s True else reap_relays main_pid rest st fin)"

text \<open>The loop of \<open>run_inside\<close> and \<open>run_outside\<close>: each turn \<open>None\<close> when \<open>poll\<close> fails, otherwise what it meets
  and the children that ended.  At its end the listener and the control socket are closed, and a principal
  still running is killed and waited for.\<close>

definition bridge_turns ::
  "bridge_kind \<Rightarrow> bridge_kind \<Rightarrow> nat \<Rightarrow> int \<Rightarrow> bool \<Rightarrow> bridge_turn \<Rightarrow> bridge \<Rightarrow> bridge" where
  "bridge_turns expected kind attempts port listening k b =
     listener_part kind listening k (control_part expected port attempts k b)"

fun bridge_loop ::
  "(bridge_turn \<Rightarrow> bridge \<Rightarrow> bridge) \<Rightarrow> int \<Rightarrow> (bridge_turn \<times> (int \<times> wait_status) list) option list \<Rightarrow>
     wait_status \<Rightarrow> bool \<Rightarrow> bridge \<Rightarrow> (wait_status \<times> bool \<times> bridge) option" where
  "bridge_loop step main_pid ks st True b = Some (st, True, b)"
| "bridge_loop step main_pid [] st False b = None"
| "bridge_loop step main_pid (None # ks) st False b = Some (st, False, b)"
| "bridge_loop step main_pid (Some (k, ended) # ks) st False b =
     (let (st1, fin1) = reap_relays main_pid ended st False
      in bridge_loop step main_pid ks st1 fin1 (step k b))"

text \<open>The listener is \<open>None\<close> when there is none; \<open>killed\<close> is the status a killed principal ends with.\<close>

definition finish_bridge ::
  "int \<Rightarrow> int option \<Rightarrow> wait_status \<Rightarrow> (wait_status \<times> bool \<times> bridge) \<Rightarrow> int \<times> bool \<times> bridge" where
  "finish_bridge control_fd listener killed r =
     (let (st, fin, b) = r;
          b1 = b\<lparr>open_now := open_now b - set_option listener - {control_fd}\<rparr>
      in (decode_status (if fin then st else killed), \<not> fin, b1))"

definition run_outside ::
  "int \<Rightarrow> int option \<Rightarrow> int \<Rightarrow> int \<Rightarrow> wait_status \<Rightarrow> (bridge_turn \<times> (int \<times> wait_status) list) option list \<Rightarrow> bridge \<Rightarrow>
     (int \<times> bool \<times> bridge) option" where
  "run_outside control_fd inbound_listener proxy_port inside killed ks b =
     map_option (finish_bridge control_fd inbound_listener killed)
       (bridge_loop (bridge_turns BRIDGE_OUTBOUND BRIDGE_INBOUND 100 proxy_port (inbound_listener \<noteq> None)) inside ks
          (Exited 0) False b)"

text \<open>What the process inside meets before its loop.\<close>

record inside_start =
  pdeathsig_ok :: bool
  orphaned :: bool
  namespace :: "(bool \<times> ns_event list) option"
  listener_made :: listener_answers
  payload_pid :: "int option"

definition run_inside ::
  "inside_start \<Rightarrow> int \<Rightarrow> int \<Rightarrow> int \<Rightarrow> wait_status \<Rightarrow> (bridge_turn \<times> (int \<times> wait_status) list) option list \<Rightarrow> bridge \<Rightarrow>
     (int \<times> bool \<times> bridge) option" where
  "run_inside I control_fd proxy_port inbound_port killed ks b =
     (if \<not> pdeathsig_ok I \<or> orphaned I then Some (125, False, b)
      else
        (case namespace I of
           None \<Rightarrow> None
         | Some (False, _) \<Rightarrow> Some (125, False, b)
         | Some (True, _) \<Rightarrow>
             let (outbound, fds) =
                   (if proxy_port > 0 then loopback_listener (listener_made I) proxy_port (open_now b) else (None, open_now b));
                 b1 = b\<lparr>open_now := fds\<rparr>
             in if proxy_port > 0 \<and> outbound = None then Some (125, False, b1)
               else (case payload_pid I of
                     None \<Rightarrow> Some (125, False, b1)
                   | Some payload \<Rightarrow>
                       map_option (finish_bridge control_fd outbound killed)
                         (bridge_loop (bridge_turns BRIDGE_INBOUND BRIDGE_OUTBOUND 1500 inbound_port (outbound \<noteq> None))
                            payload ks (Exited 0) False b1))))"

section \<open>The bridge\<close>

text \<open>What the start of the bridge meets: the control pair, the listener of the inbound port, the process
  inside.\<close>

record bridge_start =
  control_pair :: "(int \<times> int) option"
  inbound_made :: listener_answers
  inside_pid :: "int option"

text \<open>How it ends: bubblewrap run in this process with these descriptors, a failed start, or the bridge's
  answer.\<close>

datatype bridge_end = Bubblewrap "int set" | StartFailed "int set" | Bridged "(int \<times> bool \<times> bridge) option"

definition fd_or :: "int option \<Rightarrow> int" where
  "fd_or x = (case x of None \<Rightarrow> - 1 | Some fd \<Rightarrow> fd)"

definition visjail_linux_bridge_run ::
  "(int \<Rightarrow> int \<Rightarrow> bool) \<Rightarrow> int \<Rightarrow> bridge_start \<Rightarrow> int \<Rightarrow> int \<Rightarrow> wait_status \<Rightarrow>
     (bridge_turn \<times> (int \<times> wait_status) list) option list \<Rightarrow> int set \<Rightarrow> bridge_end" where
  "visjail_linux_bridge_run range_ok sysconf_max B proxy_port inbound_port killed ks fds =
     (if proxy_port \<le> 0 \<and> inbound_port \<le> 0 then Bubblewrap (payload_fds range_ok sysconf_max fds)
      else
        (case control_pair B of
           None \<Rightarrow> StartFailed fds
         | Some (c0, c1) \<Rightarrow>
             let (listener, fds1) =
                   (if inbound_port > 0 then loopback_listener (inbound_made B) inbound_port (fds \<union> {c0, c1})
                    else (None, fds \<union> {c0, c1}))
             in if inbound_port > 0 \<and> listener = None then StartFailed (fds1 - {c0} - {c1})
               else (case inside_pid B of
                     None \<Rightarrow> StartFailed (fds1 - set_option listener - {c0} - {c1})
                   | Some inside \<Rightarrow>
                       Bridged (run_outside c0 listener proxy_port inside killed ks
                         \<lparr>open_now = close_except range_ok sysconf_max c0 (fd_or listener) (fds1 - {c1}),
                          relays = [], sent_messages = []\<rparr>))))"

text \<open>The descriptors the process inside starts its own part with.\<close>

definition inside_fds :: "(int \<Rightarrow> int \<Rightarrow> bool) \<Rightarrow> int \<Rightarrow> int \<times> int \<Rightarrow> int option \<Rightarrow> int set \<Rightarrow> int set" where
  "inside_fds range_ok sysconf_max control_fds listener fds =
     close_except range_ok sysconf_max (snd control_fds) (- 1) (fds - {fst control_fds} - set_option listener)"

section \<open>Lemmas on the relay\<close>

definition dir_inv :: "direction \<Rightarrow> bool" where
  "dir_inv d \<longleftrightarrow> length (d_buffer d) = BUFFER_SIZE \<and> d_offset d + d_length d \<le> BUFFER_SIZE"

text \<open>The destination of a direction that is done was told so.\<close>

definition dir_settled :: "direction \<Rightarrow> bool" where
  "dir_settled d \<longleftrightarrow> (shutdown_sent d \<longleftrightarrow> d_eof d \<and> d_length d = 0)"

text \<open>Documented behaviour: \<open>recv\<close> hands over at most what it was asked for, \<open>send\<close> takes at most what it
  was given.\<close>

definition honest :: "bytes sys \<Rightarrow> (bytes \<Rightarrow> nat sys) \<Rightarrow> bool" where
  "honest r s \<longleftrightarrow> (\<forall>got. r = Done got \<longrightarrow> length got \<le> BUFFER_SIZE) \<and> (\<forall>b n. s b = Done n \<longrightarrow> n \<le> length b)"

definition honest_turn :: "turn \<Rightarrow> bool" where
  "honest_turn k = (case k of PollFailed _ \<Rightarrow> True
     | Turn _ _ a0 a1 \<Rightarrow> honest (recv_answer a0) (send_answer a1) \<and> honest (recv_answer a1) (send_answer a0))"

lemma length_d_pending: "dir_inv d \<Longrightarrow> length (d_pending d) = d_length d"
  by (auto simp: dir_inv_def d_pending_def min_def)

lemma receive_step_keeps:
  assumes "dir_inv d" "\<forall>got. ans = Done got \<longrightarrow> length got \<le> BUFFER_SIZE" "receive_step ready ans d = ((ok, got), d1)"
  shows "dir_inv d1 \<and> d_pending d1 = d_pending d @ got \<and> (\<not> ok \<longrightarrow> got = []) \<and> shutdown_sent d1 = shutdown_sent d
    \<and> (shutdown_sent d \<longrightarrow> dir_settled d \<longrightarrow> d1 = d) \<and> (d_eof d \<longrightarrow> d_eof d1)"
  using assms
  by (auto simp: receive_step_def dir_inv_def d_pending_def dir_settled_def overlay_def split: if_splits sys.splits)

lemma send_step_keeps:
  assumes "dir_inv d" "\<forall>b n. ans b = Done n \<longrightarrow> n \<le> length b" "send_step ready ans d = ((ok, sent), d1)"
  shows "dir_inv d1 \<and> d_pending d = sent @ d_pending d1 \<and> shutdown_sent d1 = shutdown_sent d
    \<and> (d_length d = 0 \<longrightarrow> d1 = d) \<and> d_eof d1 = d_eof d"
proof (cases "d_length d > 0 \<and> ready")
  case False
  with assms show ?thesis by (auto simp: send_step_def split: if_splits)
next
  case True
  show ?thesis
  proof (cases "ans (d_pending d)")
    case (Failed e)
    with True assms show ?thesis by (auto simp: send_step_def)
  next
    case (Done n)
    then have n: "n \<le> d_length d" using assms(1,2) length_d_pending [OF assms(1)] by metis
    have "sent = take n (d_pending d)" "d1 = d\<lparr>d_offset := d_offset d + n, d_length := d_length d - n\<rparr>"
      using assms(3) True Done by (auto simp: send_step_def)
    moreover have "d_pending (d\<lparr>d_offset := d_offset d + n, d_length := d_length d - n\<rparr>) = drop n (d_pending d)"
      by (simp add: d_pending_def drop_take add.commute)
    ultimately show ?thesis using n assms(1) True by (simp add: dir_inv_def)
  qed
qed

lemma move_direction_keeps:
  assumes "dir_inv d" "dir_settled d" "honest r s" "move_direction es ed r s d = (m, d')"
  shows "dir_inv d' \<and> d_pending d @ m_received m = m_sent m @ d_pending d' \<and> (m_ok m \<longrightarrow> dir_settled d')
    \<and> (if m_shutdown m then \<not> shutdown_sent d \<and> shutdown_sent d' else shutdown_sent d' = shutdown_sent d)"
proof -
  obtain ok1 got d1 where r1: "receive_step (pollin es \<or> pollhup es) r d = ((ok1, got), d1)" by (metis surj_pair)
  obtain ok2 sent d2 where r2: "send_step (pollout ed) s d1 = ((ok2, sent), d2)" by (metis surj_pair)
  have 1: "dir_inv d1 \<and> d_pending d1 = d_pending d @ got \<and> (\<not> ok1 \<longrightarrow> got = []) \<and> shutdown_sent d1 = shutdown_sent d
    \<and> (shutdown_sent d \<longrightarrow> dir_settled d \<longrightarrow> d1 = d) \<and> (d_eof d \<longrightarrow> d_eof d1)"
    using receive_step_keeps [OF assms(1) _ r1] assms(3) by (simp add: honest_def)
  have 2: "dir_inv d2 \<and> d_pending d1 = sent @ d_pending d2 \<and> shutdown_sent d2 = shutdown_sent d1
    \<and> (d_length d1 = 0 \<longrightarrow> d2 = d1) \<and> d_eof d2 = d_eof d1"
    using send_step_keeps [OF _ _ r2] 1 assms(3) by (simp add: honest_def)
  have 3: "ok2 \<or> sent = []"
    using r2 by (auto simp: send_step_def split: if_splits sys.splits)
  show ?thesis
  proof (cases "ok1 \<and> ok2")
    case False
    show ?thesis
    proof (cases ok1)
      case True
      with False have "m = \<lparr>m_ok = False, m_received = got, m_sent = [], m_shutdown = False\<rparr>" "d' = d2"
        using assms(4) by (simp_all add: move_direction_def r1 r2)
      with True False 1 2 3 show ?thesis by simp
    next
      case no: False
      then have "m = \<lparr>m_ok = False, m_received = [], m_sent = [], m_shutdown = False\<rparr>" "d' = d1"
        using assms(4) by (simp_all add: move_direction_def r1)
      with no 1 show ?thesis by simp
    qed
  next
    case True
    show ?thesis
    proof (cases "d_eof d2 \<and> d_length d2 = 0 \<and> \<not> shutdown_sent d2")
      case True
      with \<open>ok1 \<and> ok2\<close> have "m = \<lparr>m_ok = True, m_received = got, m_sent = sent, m_shutdown = True\<rparr>"
        "d' = d2\<lparr>shutdown_sent := True\<rparr>" using assms(4) by (simp_all add: move_direction_def r1 r2)
      with True 1 2 show ?thesis by (simp add: dir_settled_def dir_inv_def d_pending_def)
    next
      case False
      with \<open>ok1 \<and> ok2\<close> have "m = \<lparr>m_ok = True, m_received = got, m_sent = sent, m_shutdown = False\<rparr>" "d' = d2"
        using assms(4) by (auto simp: move_direction_def r1 r2)
      moreover have "dir_settled d2"
      proof (cases "shutdown_sent d")
        case True
        with 1 2 assms(2) have "d1 = d" by blast
        with True 2 assms(2) have "d2 = d" by (simp add: dir_settled_def)
        with assms(2) show ?thesis by simp
      next
        case no: False
        with 1 2 False show ?thesis by (simp add: dir_settled_def)
      qed
      ultimately show ?thesis using 1 2 by simp
    qed
  qed
qed

definition relay_inv :: "relay_state \<Rightarrow> bool" where
  "relay_inv s \<longleftrightarrow> dir_inv (forward s) \<and> dir_inv (backward s)
     \<and> f_received s = f_sent s @ d_pending (forward s) \<and> b_received s = b_sent s @ d_pending (backward s)
     \<and> f_shutdowns s = (if shutdown_sent (forward s) then 1 else 0)
     \<and> b_shutdowns s = (if shutdown_sent (backward s) then 1 else 0)"

definition relay_settled :: "relay_state \<Rightarrow> bool" where
  "relay_settled s \<longleftrightarrow> dir_settled (forward s) \<and> dir_settled (backward s)"

lemma relay_start_inv: "relay_inv relay_start \<and> relay_settled relay_start"
  by (simp add: relay_inv_def relay_start_def new_direction_def dir_inv_def d_pending_def relay_settled_def dir_settled_def)

lemma record_forward_inv:
  assumes "relay_inv s" "relay_settled s" "honest r x" "move_direction es ed r x (forward s) = (m, d)"
  shows "relay_inv (record_forward m d s) \<and> (m_ok m \<longrightarrow> relay_settled (record_forward m d s))
    \<and> backward (record_forward m d s) = backward s"
  using assms move_direction_keeps [OF _ _ assms(3,4)]
  by (auto simp: relay_inv_def relay_settled_def record_forward_def)

lemma record_backward_inv:
  assumes "relay_inv s" "dir_settled (backward s)" "honest r x" "move_direction es ed r x (backward s) = (m, d)"
  shows "relay_inv (record_backward m d s) \<and> (m_ok m \<longrightarrow> dir_settled (backward (record_backward m d s)))
    \<and> forward (record_backward m d s) = forward s"
  using assms move_direction_keeps [OF _ _ assms(3,4)]
  by (auto simp: relay_inv_def record_backward_def)

lemma relay_turn_inv:
  assumes "relay_inv s" "relay_settled s" "honest_turn k"
  shows "case relay_turn k s of Inl s' \<Rightarrow> relay_inv s' | Inr s' \<Rightarrow> relay_inv s' \<and> relay_settled s'"
proof (cases k)
  case (PollFailed e)
  with assms show ?thesis by (simp add: relay_turn_def)
next
  case (Turn e0 e1 a0 a1)
  obtain m d where f: "move_direction e0 e1 (recv_answer a0) (send_answer a1) (forward s) = (m, d)" by fastforce
  obtain m' d' where b: "move_direction e1 e0 (recv_answer a1) (send_answer a0) (backward s) = (m', d')" by fastforce
  have h: "honest (recv_answer a0) (send_answer a1)" "honest (recv_answer a1) (send_answer a0)"
    using assms(3) Turn by (simp_all add: honest_turn_def)
  note F = record_forward_inv [OF assms(1,2) h(1) f]
  have B: "relay_inv (record_backward m' d' (record_forward m d s))
      \<and> (m_ok m' \<longrightarrow> dir_settled (backward (record_backward m' d' (record_forward m d s))))
      \<and> forward (record_backward m' d' (record_forward m d s)) = forward (record_forward m d s)"
    using record_backward_inv [OF _ _ h(2), of "record_forward m d s" e1 e0 m' d'] F assms(2) b
    by (simp add: relay_settled_def)
  show ?thesis
    using assms Turn F B by (simp add: relay_turn_def f b Let_def) (simp add: relay_settled_def)
qed

lemma relay_loop_inv:
  "relay_inv s \<Longrightarrow> relay_settled s \<Longrightarrow> \<forall>k \<in> set ks. honest_turn k \<Longrightarrow> relay_loop ks s = Some (status, s') \<Longrightarrow>
     relay_inv s' \<and> (status = 0 \<longrightarrow> relay_over s' \<and> relay_settled s') \<and> status \<le> 1"
proof (induction ks arbitrary: s)
  case Nil
  then show ?case by (simp add: relay_loop.simps split: if_splits)
next
  case (Cons k ks)
  show ?case
  proof (cases "relay_over s")
    case True
    with Cons.prems show ?thesis by (simp add: relay_loop.simps)
  next
    case False
    with Cons relay_turn_inv [of s k] show ?thesis
      by (cases "relay_turn k s") (auto simp: relay_loop.simps [of "k # ks"])
  qed
qed
section \<open>What the relay does\<close>

lemma over_settled:
  assumes "relay_inv s" "relay_over s" "relay_settled s"
  shows "f_sent s = f_received s \<and> b_sent s = b_received s \<and> f_shutdowns s = 1 \<and> b_shutdowns s = 1"
  using assms by (simp add: relay_inv_def relay_over_def relay_settled_def dir_settled_def d_pending_def)

lemma pending_bounded: "dir_inv d \<Longrightarrow> length (d_pending d) \<le> BUFFER_SIZE"
  by (simp add: length_d_pending) (simp add: dir_inv_def)

text \<open>C11: A relay never invents, drops, reorders or repeats a byte.  Whenever it returns, what each side was sent
  is a prefix of what was received for it, the rest is at most one buffer; when it returns 0, every byte
  received was sent on and each side was shut down exactly once.
\<close>

theorem relay_conserves_bytes:
  assumes "\<forall>k \<in> set ks. honest_turn k" "relay ok ks = Some (status, s)"
  shows "(\<exists>r. f_received s = f_sent s @ r \<and> length r \<le> BUFFER_SIZE)
    \<and> (\<exists>r. b_received s = b_sent s @ r \<and> length r \<le> BUFFER_SIZE)
    \<and> f_shutdowns s \<le> 1 \<and> b_shutdowns s \<le> 1 \<and> status \<le> 1
    \<and> (status = 0 \<longrightarrow> f_sent s = f_received s \<and> b_sent s = b_received s \<and> f_shutdowns s = 1 \<and> b_shutdowns s = 1)"
proof -
  note I = conjunct1 [OF relay_start_inv] conjunct2 [OF relay_start_inv]
  have *: "relay_inv s \<and> (status = 0 \<longrightarrow> relay_over s \<and> relay_settled s) \<and> status \<le> 1"
  proof (cases ok)
    case True
    with assms(2) have "relay_loop ks relay_start = Some (status, s)" by (simp add: relay_def)
    then show ?thesis by (rule relay_loop_inv [OF I assms(1)])
  next
    case False
    with assms(2) I show ?thesis by (auto simp: relay_def)
  qed
  note inv = conjunct1 [OF this, unfolded relay_inv_def]
  have "\<exists>r. f_received s = f_sent s @ r \<and> length r \<le> BUFFER_SIZE" "\<exists>r. b_received s = b_sent s @ r \<and> length r \<le> BUFFER_SIZE"
    using inv pending_bounded by blast+
  moreover have "f_shutdowns s \<le> 1 \<and> b_shutdowns s \<le> 1" using inv by simp
  moreover have "status = 0 \<longrightarrow> f_sent s = f_received s \<and> b_sent s = b_received s \<and> f_shutdowns s = 1 \<and> b_shutdowns s = 1"
    using * over_settled [of s] by blast
  ultimately show ?thesis using * by blast
qed

definition all_ready :: revents where
  "all_ready = \<lparr>pollin = True, pollout = True, pollhup = False, pollerr = False, pollnval = False\<rparr>"

text \<open>A request and its answer: the first side sends two bytes and closes, the second one byte and closes.\<close>

definition taking :: "bytes \<Rightarrow> socket_answers" where
  "taking got = \<lparr>recv_answer = Done got, send_answer = (\<lambda>b. Done (length b))\<rparr>"

definition sample_turns :: "turn list" where
  "sample_turns =
     [Turn all_ready all_ready (taking ''ab'') (taking ''z''), PollFailed EINTR,
      Turn all_ready all_ready (taking []) (taking [])]"

lemma relay_loop_over: "relay_over s \<Longrightarrow> relay_loop ks s = Some (0, s)"
  by (simp add: relay_loop.simps)

lemma relay_loop_Cons:
  "\<not> relay_over s \<Longrightarrow> relay_loop (k # ks) s =
     (case relay_turn k s of Inl s' \<Rightarrow> Some (1, s') | Inr s' \<Rightarrow> relay_loop ks s')"
  by (simp add: relay_loop.simps)

text \<open>One turn of a direction whose two ends are ready: bytes go through, the end of the stream is passed on.\<close>

lemma move_bytes:
  "\<not> d_eof d \<Longrightarrow> d_length d = 0 \<Longrightarrow> got \<noteq> [] \<Longrightarrow>
     move_direction all_ready all_ready (Done got) (\<lambda>b. Done (length b)) d =
       (\<lparr>m_ok = True, m_received = got, m_sent = got, m_shutdown = False\<rparr>,
        d\<lparr>d_buffer := overlay got (d_buffer d), d_offset := length got, d_length := 0\<rparr>)"
  by (simp add: move_direction_def receive_step_def send_step_def d_pending_def overlay_def all_ready_def)

lemma move_eof:
  "\<not> d_eof d \<Longrightarrow> d_length d = 0 \<Longrightarrow> \<not> shutdown_sent d \<Longrightarrow>
     move_direction all_ready all_ready (Done []) s d =
       (\<lparr>m_ok = True, m_received = [], m_sent = [], m_shutdown = True\<rparr>, d\<lparr>d_eof := True, shutdown_sent := True\<rparr>)"
  by (simp add: move_direction_def receive_step_def send_step_def all_ready_def)

lemma all_ready_simps [simp]: "pollerr all_ready = False" "pollnval all_ready = False"
  by (simp_all add: all_ready_def)

lemma sample_relay:
  "\<exists>s. relay True sample_turns = Some (0, s) \<and> f_sent s = ''ab'' \<and> b_sent s = ''z''"
  by (simp add: relay_def sample_turns_def relay_start_def new_direction_def relay_loop_Cons relay_loop_over
      relay_over_def relay_turn_def taking_def move_bytes move_eof record_forward_def record_backward_def)

lemma sample_turns_honest: "\<forall>k \<in> set sample_turns. honest_turn k"
  by (simp add: sample_turns_def taking_def honest_turn_def honest_def BUFFER_SIZE_def)

theorem relay_conserves_bytes_witness:
  "\<exists>s. relay True sample_turns = Some (0, s) \<and> f_sent s = ''ab'' \<and> f_received s = ''ab'' \<and> f_shutdowns s = 1 \<and> b_shutdowns s = 1"
proof -
  obtain s where s: "relay True sample_turns = Some (0, s)" "f_sent s = ''ab''" using sample_relay by blast
  with relay_conserves_bytes [OF sample_turns_honest s(1)] show ?thesis by metis
qed
section \<open>The relay ends\<close>

text \<open>Both peers have closed, and both take at least a byte whenever they are given some.\<close>

definition takes_some :: "(bytes \<Rightarrow> nat sys) \<Rightarrow> bool" where
  "takes_some s \<longleftrightarrow> (\<forall>b. b \<noteq> [] \<longrightarrow> (\<exists>n. s b = Done n \<and> 0 < n \<and> n \<le> length b))"

definition closing_turn :: "turn \<Rightarrow> bool" where
  "closing_turn k \<longleftrightarrow> (\<exists>a0 a1. k = Turn all_ready all_ready a0 a1 \<and> recv_answer a0 = Done [] \<and> recv_answer a1 = Done []
     \<and> takes_some (send_answer a0) \<and> takes_some (send_answer a1))"

text \<open>The turns a direction still needs then.\<close>

definition work :: "direction \<Rightarrow> nat" where
  "work d = (if d_eof d then d_length d else Suc (d_length d))"

lemma move_closing:
  assumes "dir_inv d" "dir_settled d" "takes_some s" "move_direction all_ready all_ready (Done []) s d = (m, d')"
  shows "m_ok m \<and> dir_inv d' \<and> dir_settled d' \<and> work d' \<le> work d - 1"
proof (cases "d_length d = 0")
  case True
  show ?thesis
  proof (cases "d_eof d")
    case eof: True
    with True assms(2) have "shutdown_sent d" by (simp add: dir_settled_def)
    with eof True have "m_ok m \<and> d' = d"
      using assms(4) by (auto simp: move_direction_def receive_step_def send_step_def)
    with eof True assms(1,2) show ?thesis by (simp add: work_def)
  next
    case False
    with True assms(2) have "\<not> shutdown_sent d" by (simp add: dir_settled_def)
    with False True have "m_ok m \<and> d' = d\<lparr>d_eof := True, shutdown_sent := True\<rparr>" using assms(4) by (auto simp: move_eof)
    with True assms(1) show ?thesis by (simp add: work_def dir_settled_def dir_inv_def)
  qed
next
  case False
  with assms(1) have "d_pending d \<noteq> []" by (metis length_d_pending list.size(3))
  with assms(3) obtain n where n: "s (d_pending d) = Done n" "0 < n" "n \<le> d_length d"
    using length_d_pending [OF assms(1)] unfolding takes_some_def by metis
  let ?d = "d\<lparr>d_offset := d_offset d + n, d_length := d_length d - n\<rparr>"
  have "\<not> shutdown_sent d" using False assms(2) by (simp add: dir_settled_def)
  then have "m_ok m \<and> d' = (if d_eof d \<and> n = d_length d then ?d\<lparr>shutdown_sent := True\<rparr> else ?d)"
    using assms(4) n False by (auto simp: move_direction_def receive_step_def send_step_def all_ready_def split: if_splits)
  with n assms(1) \<open>\<not> shutdown_sent d\<close> show ?thesis
    by (cases "d_eof d \<and> n = d_length d") (auto simp: work_def dir_settled_def dir_inv_def)
qed

definition relay_sound :: "relay_state \<Rightarrow> bool" where
  "relay_sound s \<longleftrightarrow> dir_inv (forward s) \<and> dir_settled (forward s) \<and> dir_inv (backward s) \<and> dir_settled (backward s)"

lemma turn_closing:
  assumes "relay_sound s" "closing_turn k"
  shows "\<exists>s'. relay_turn k s = Inr s' \<and> relay_sound s'
    \<and> work (forward s') \<le> work (forward s) - 1 \<and> work (backward s') \<le> work (backward s) - 1"
proof -
  obtain a0 a1 where k: "k = Turn all_ready all_ready a0 a1" "recv_answer a0 = Done []" "recv_answer a1 = Done []"
      "takes_some (send_answer a0)" "takes_some (send_answer a1)"
    using assms(2) by (auto simp: closing_turn_def)
  obtain m d where f: "move_direction all_ready all_ready (Done []) (send_answer a1) (forward s) = (m, d)" by fastforce
  obtain m' d' where b: "move_direction all_ready all_ready (Done []) (send_answer a0) (backward s) = (m', d')" by fastforce
  have F: "m_ok m \<and> dir_inv d \<and> dir_settled d \<and> work d \<le> work (forward s) - 1"
    using assms(1) by (intro move_closing [OF _ _ k(5) f]) (simp_all add: relay_sound_def)
  have B: "m_ok m' \<and> dir_inv d' \<and> dir_settled d' \<and> work d' \<le> work (backward s) - 1"
    using assms(1) by (intro move_closing [OF _ _ k(4) b]) (simp_all add: relay_sound_def)
  show ?thesis
    using F B by (simp add: relay_turn_def k(1-3) f b Let_def record_forward_def record_backward_def relay_sound_def)
qed

lemma over_iff_no_work: "relay_over s \<longleftrightarrow> work (forward s) = 0 \<and> work (backward s) = 0"
  by (auto simp: relay_over_def work_def)

lemma loop_closing:
  "relay_sound s \<Longrightarrow> \<forall>k \<in> set ks. closing_turn k \<Longrightarrow> work (forward s) \<le> length ks \<Longrightarrow> work (backward s) \<le> length ks \<Longrightarrow>
     \<exists>s'. relay_loop ks s = Some (0, s')"
proof (induction ks arbitrary: s)
  case Nil
  then show ?case by (simp add: relay_loop_over over_iff_no_work)
next
  case (Cons k ks)
  from turn_closing [of s k] Cons.prems obtain s' where s': "relay_turn k s = Inr s'" "relay_sound s'"
      "work (forward s') \<le> length ks" "work (backward s') \<le> length ks" by fastforce
  with Cons.IH [of s'] Cons.prems show ?case
    by (cases "relay_over s") (simp_all add: relay_loop_over relay_loop_Cons)
qed

lemma relay_loop_append:
  "relay_inv s \<Longrightarrow> relay_settled s \<Longrightarrow> \<forall>k \<in> set ks. honest_turn k \<Longrightarrow> relay_loop ks s = None \<Longrightarrow>
     \<exists>s1. (\<forall>ks'. relay_loop (ks @ ks') s = relay_loop ks' s1) \<and> relay_inv s1 \<and> relay_settled s1"
proof (induction ks arbitrary: s)
  case Nil
  then show ?case by auto
next
  case (Cons k ks)
  then have over: "\<not> relay_over s" by (auto simp: relay_loop_over)
  with Cons.prems obtain s' where s': "relay_turn k s = Inr s'" "relay_loop ks s' = None"
    by (auto simp: relay_loop_Cons split: sum.splits)
  with relay_turn_inv [of s k] Cons.prems have "relay_inv s' \<and> relay_settled s'" by simp
  with Cons.IH [of s'] Cons.prems s' obtain s1 where
    "\<forall>ks'. relay_loop (ks @ ks') s' = relay_loop ks' s1" "relay_inv s1" "relay_settled s1" by auto
  with s' over show ?case by (auto simp: relay_loop_Cons)
qed

text \<open>A relay that is not over asks for something: it never sleeps on events it did not ask for.\<close>

lemma relay_asks_for_something:
  "\<not> relay_over s \<Longrightarrow> \<exists>a b c d. interests s = ((a, b), (c, d)) \<and> (a \<or> b \<or> c \<or> d)"
  by (auto simp: interests_def relay_over_def)

text \<open>A relay does not outlive its connections.  Whatever happened before, once both peers have closed and
  both take at least a byte at a time, the relay returns 0 within one turn per byte of its buffer and one more.
\<close>

theorem relay_ends:
  assumes "\<forall>k \<in> set ks. honest_turn k" "relay True ks = None"
    and "\<forall>k \<in> set ks'. closing_turn k" "length ks' > BUFFER_SIZE"
  shows "\<exists>s. relay True (ks @ ks') = Some (0, s)"
proof -
  obtain s1 where s1: "\<forall>ks'. relay_loop (ks @ ks') relay_start = relay_loop ks' s1" "relay_inv s1" "relay_settled s1"
    using relay_loop_append [OF _ _ assms(1)] relay_start_inv assms(2) by (auto simp: relay_def)
  then have "relay_sound s1" by (simp add: relay_sound_def relay_inv_def relay_settled_def)
  moreover from this assms(4) have "work (forward s1) \<le> length ks'" "work (backward s1) \<le> length ks'"
    by (auto simp: relay_sound_def dir_inv_def work_def)
  ultimately show ?thesis using loop_closing [OF _ assms(3)] s1(1) by (simp add: relay_def)
qed

theorem relay_ends_witness:
  "\<exists>s. relay True ([] @ replicate 16385 (Turn all_ready all_ready (taking []) (taking []))) = Some (0, s)"
  by (rule relay_ends)
    (simp_all add: relay_def relay_loop.simps relay_over_def relay_start_def new_direction_def closing_turn_def taking_def
      takes_some_def BUFFER_SIZE_def)
section \<open>What closing everything leaves open\<close>

text \<open>Kept descriptors in ascending order, from \<open>nxt\<close> on.\<close>

fun ascending_from :: "int \<Rightarrow> int list \<Rightarrow> bool" where
  "ascending_from nxt [] = True"
| "ascending_from nxt (k # ks) = (nxt \<le> k \<and> ascending_from (k + 1) ks)"

lemma ascending_from_le: "ascending_from nxt ks \<Longrightarrow> k \<in> set ks \<Longrightarrow> nxt \<le> k"
  by (induction nxt ks rule: ascending_from.induct) auto

lemma close_range_part_bounds:
  "close_range_part range_ok a b fds = (ok, r) \<Longrightarrow> fds - {a..b} \<subseteq> r \<and> r \<subseteq> fds \<and> (ok \<longrightarrow> r = fds - {a..b})"
  by (auto simp: close_range_part_def split: if_splits)

text \<open>The loop closes only what lies between the kept ones, and all of it when every call works.\<close>

lemma close_parts_bounds:
  "ascending_from nxt ks \<Longrightarrow> close_parts range_ok ks nxt good fds = (ok, r) \<Longrightarrow>
     {fd \<in> fds. fd < nxt \<or> fd \<in> set ks} \<subseteq> r \<and> r \<subseteq> fds
     \<and> (ok \<longrightarrow> good \<and> (\<forall>fd \<in> r. fd < nxt \<or> fd > UINT_MAX \<or> fd \<in> set ks))"
proof (induction range_ok ks nxt good fds arbitrary: ok r rule: close_parts.induct)
  case (1 range_ok nxt good fds)
  obtain ok1 r1 where r1: "close_range_part range_ok nxt UINT_MAX fds = (ok1, r1)" by fastforce
  have "{fd \<in> fds. fd < nxt} \<subseteq> fds - {nxt..UINT_MAX}" by auto
  with close_range_part_bounds [OF r1] 1 r1 show ?case by auto
next
  case (2 range_ok k ks nxt good fds)
  obtain ok1 r1 where r1: "close_range_part range_ok nxt (k - 1) fds = (ok1, r1)" by fastforce
  note B = close_range_part_bounds [OF r1]
  have I: "{fd \<in> r1. fd < k + 1 \<or> fd \<in> set ks} \<subseteq> r \<and> r \<subseteq> r1
      \<and> (ok \<longrightarrow> (good \<and> ok1) \<and> (\<forall>fd \<in> r. fd < k + 1 \<or> fd > UINT_MAX \<or> fd \<in> set ks))"
    using "2.IH" [OF r1 [symmetric] refl, of ok r] "2.prems" r1 by simp
  have k: "nxt \<le> k" "\<forall>fd \<in> set ks. k < fd" using "2.prems" ascending_from_le [of "k + 1" ks] by fastforce+
  let ?kept = "{fd \<in> fds. fd < nxt \<or> fd \<in> set (k # ks)}"
  have "?kept \<subseteq> fds - {nxt..k - 1}" using k by auto
  from subset_trans [OF this conjunct1 [OF B]] have "?kept \<subseteq> {fd \<in> r1. fd < k + 1 \<or> fd \<in> set ks}" using k by auto
  from subset_trans [OF this conjunct1 [OF I]] have "?kept \<subseteq> r" .
  moreover have "ok \<longrightarrow> good \<and> (\<forall>fd \<in> r. fd < nxt \<or> fd > UINT_MAX \<or> fd \<in> set (k # ks))"
  proof (intro impI conjI ballI)
    assume ok
    with I show good by blast
    fix fd assume "fd \<in> r"
    with I B \<open>ok\<close> have "fd \<in> fds - {nxt..k - 1}" "fd < k + 1 \<or> fd > UINT_MAX \<or> fd \<in> set ks" by blast+
    then show "fd < nxt \<or> fd > UINT_MAX \<or> fd \<in> set (k # ks)" by auto
  qed
  ultimately show ?case using I B by blast
qed

lemma keepers_sorted: "ascending_from 3 (keepers first second)"
  by (auto simp: keepers_def Let_def)

lemma set_keepers: "set (keepers first second) = {fd \<in> {first, second}. 3 \<le> fd}"
  by (auto simp: keepers_def Let_def)

text \<open>The bound up to which descriptors are closed one by one.\<close>

definition close_bound :: "int \<Rightarrow> int" where
  "close_bound sysconf_max = (if sysconf_max < 0 \<or> sysconf_max > 1048576 then 1048576 else sysconf_max)"

lemma close_except_bounds:
  assumes "fds \<subseteq> {0..<close_bound sysconf_max}"
  shows "close_except range_ok sysconf_max first second fds = {fd \<in> fds. fd < 3 \<or> fd = first \<or> fd = second}"
proof -
  obtain good r where r: "close_parts range_ok (keepers first second) 3 True fds = (good, r)" by fastforce
  have B: "{fd \<in> fds. fd < 3 \<or> fd \<in> set (keepers first second)} \<subseteq> r \<and> r \<subseteq> fds
     \<and> (good \<longrightarrow> True \<and> (\<forall>fd \<in> r. fd < 3 \<or> fd > UINT_MAX \<or> fd \<in> set (keepers first second)))"
    by (rule close_parts_bounds [OF keepers_sorted r])
  have "close_bound sysconf_max \<le> 1048576" by (simp add: close_bound_def)
  then have small: "\<forall>fd \<in> fds. fd \<le> UINT_MAX" using assms by (fastforce simp: UINT_MAX_def)
  show ?thesis
  proof (cases good)
    case True
    then have C: "close_except range_ok sysconf_max first second fds = r" by (simp add: close_except_def r)
    have "\<forall>fd \<in> r. \<not> UINT_MAX < fd" using B small by fastforce
    with True B have "r = {fd \<in> fds. fd < 3 \<or> fd \<in> set (keepers first second)}" by blast
    also have "\<dots> = {fd \<in> fds. fd < 3 \<or> fd = first \<or> fd = second}" by (auto simp: set_keepers)
    finally show ?thesis by (simp only: C)
  next
    case False
    then have "close_except range_ok sysconf_max first second fds =
        r - {fd. 3 \<le> fd \<and> fd < close_bound sysconf_max \<and> fd \<noteq> first \<and> fd \<noteq> second}"
      by (simp add: close_except_def r close_bound_def)
    moreover have "{fd \<in> fds. fd < 3 \<or> fd = first \<or> fd = second} \<subseteq> r" using B by (auto simp: set_keepers)
    moreover have "\<forall>fd \<in> r. fd < close_bound sysconf_max" using B assms by fastforce
    ultimately show ?thesis using B by auto
  qed
qed

text \<open>Nothing of the caller leaks into a jailed process.  Whether or not the kernel can close ranges, the
  payload starts with the standard streams alone, the process inside the namespace with them and its end of
  the control pair, and a relay with them and the two sockets it relays, as far as they were open.
\<close>

theorem jailed_processes_inherit_nothing:
  assumes "fds \<subseteq> {0..<close_bound sysconf_max}"
  shows "payload_fds range_ok sysconf_max fds = {fd \<in> fds. fd < 3}
    \<and> inside_fds range_ok sysconf_max (c0, c1) listener fds
        = {fd \<in> fds. (fd < 3 \<or> fd = c1) \<and> fd \<noteq> c0 \<and> Some fd \<noteq> listener}
    \<and> (relay_child range_ok sysconf_max True True first second ok ks fds = Some (status, fds')
         \<longrightarrow> fds' = {fd \<in> fds. fd < 3 \<or> fd = first \<or> fd = second})"
proof -
  have m: "\<forall>fd \<in> fds. fd \<noteq> - 1" using assms by auto
  have "payload_fds range_ok sysconf_max fds = {fd \<in> fds. fd < 3}"
    using m by (auto simp: payload_fds_def close_except_bounds [OF assms])
  moreover have "fds - {c0} - set_option listener \<subseteq> {0..<close_bound sysconf_max}" using assms by blast
  then have "inside_fds range_ok sysconf_max (c0, c1) listener fds
      = {fd \<in> fds. (fd < 3 \<or> fd = c1) \<and> fd \<noteq> c0 \<and> Some fd \<noteq> listener}"
    using m by (cases listener) (auto simp: inside_fds_def close_except_bounds)
  moreover have "relay_child range_ok sysconf_max True True first second ok ks fds = Some (status, fds')
      \<longrightarrow> fds' = {fd \<in> fds. fd < 3 \<or> fd = first \<or> fd = second}"
    by (auto simp: relay_child_def close_except_bounds [OF assms])
  ultimately show ?thesis by blast
qed

theorem jailed_processes_inherit_nothing_witness:
  "payload_fds (\<lambda>a b. False) (- 1) {0, 4, 5, 7} = {0} \<and> inside_fds (\<lambda>a b. True) (- 1) (4, 5) (Some 7) {0, 4, 5, 7} = {0, 5}"
proof -
  have sub: "{0, 4, 5, 7} \<subseteq> {0..<close_bound (- 1)}" by (simp add: close_bound_def)
  have "{fd \<in> {0, 4, 5, 7::int}. fd < 3} = {0}"
    "{fd \<in> {0, 4, 5, 7::int}. (fd < 3 \<or> fd = 5) \<and> fd \<noteq> 4 \<and> Some fd \<noteq> Some 7} = {0, 5}" by auto
  with jailed_processes_inherit_nothing [OF sub, of "\<lambda>a b. False" 4 5 "Some 7"]
    jailed_processes_inherit_nothing [OF sub, of "\<lambda>a b. True" 4 5 "Some 7"] show ?thesis by simp
qed

section \<open>The streams of a jailed program\<close>

text \<open>C9: The program of a spawned child sees its streams and nothing else of the host.  Whatever else is open in a
  host that has its own standard streams open, whether the child has a terminal or pipes, merged or not, and
  whether or not the kernel closes ranges: an unconfined child that gets as far as its program runs it with the
  terminal, or its ends of the pipes, on 0, 1 and 2 and no other descriptor; a confined child reaches the bridge
  with them there, and whatever the bridge itself has opened by then, the payload keeps 0, 1 and 2 alone.  The bound is
  where descriptors end: the range the kernel closes, or the limit of open files, where the code cuts it at 2 to the 20.\<close>

theorem child_sees_only_its_streams:
  assumes "gives_fresh K" "t 0 \<noteq> None" "t 1 \<noteq> None" "t 2 \<noteq> None"
    and "visjail_spawn K E argv_blob argv_len env_blob env_len flags rows cols proxy_port inbound_port has_result error cap t = Some a"
    and "s_child a = Some (v, tc)"
    and "\<forall>fd. tc fd \<noteq> None \<longrightarrow> 0 \<le> fd \<and> fd < child_bound C" "3 \<le> child_bound C"
  shows "case child_main C (flags div 1 mod 2 = 1) (flags div 2 mod 2 = 1) (flags div 4 mod 2 = 1) argv env cwd v tc of
      Runs av ev t' \<Rightarrow> \<not> flags div 4 mod 2 = 1 \<and> av = argv \<and> ev = env
        \<and> t' = standard_streams (flags div 1 mod 2 = 1) (flags div 2 mod 2 = 1)
    | Bridge av t' \<Rightarrow> flags div 4 mod 2 = 1 \<and> av = argv
        \<and> (\<forall>fd \<in> {0, 1, 2}. t' fd = standard_streams (flags div 1 mod 2 = 1) (flags div 2 mod 2 = 1) fd)
        \<and> (\<forall>range_ok sysconf_max opened. dom t' \<union> opened \<subseteq> {0..<close_bound sysconf_max} \<and> (\<forall>fd \<in> opened. 3 \<le> fd) \<longrightarrow>
            payload_fds range_ok sysconf_max (dom t' \<union> opened) = {0, 1, 2})
    | ChildFail message \<Rightarrow> True
    | Stuck \<Rightarrow> True"
proof -
  let ?p = "flags div 1 mod 2 = 1" and ?me = "flags div 2 mod 2 = 1" and ?c = "flags div 4 mod 2 = 1"
  obtain e where e: "child_main C ?p ?me ?c argv env cwd v tc = e" by blast
  note S = spawned_child_streams [OF assms(1-6) refl refl assms(7,8), of ?c argv env cwd, unfolded e]
  have pay: "payload_fds range_ok m (dom t' \<union> opened) = {0, 1, 2}"
    if "\<forall>fd \<in> {0, 1, 2}. t' fd = standard_streams ?p ?me fd" "dom t' \<union> opened \<subseteq> {0..<close_bound m}" "\<forall>fd \<in> opened. 3 \<le> fd"
    for t' range_ok m opened
  proof -
    have "{0, 1, 2} \<subseteq> dom t'" using that(1) by (auto simp: standard_streams_def)
    then have "{fd \<in> dom t' \<union> opened. fd < 3} = {0, 1, 2}" using that(2,3) by force
    moreover have "- 1 \<notin> dom t' \<union> opened" using that(2) by auto
    ultimately show ?thesis using close_except_bounds [OF that(2)] by (auto simp: payload_fds_def)
  qed
  show ?thesis
    unfolding e using S pay by (cases e) simp_all
qed

theorem child_sees_only_its_streams_witness:
  "\<exists>a v tc t'. visjail_spawn small_kernel roomy (Some [CHR ''l'', NUL]) 2 (Some [NUL]) 1 1 24 80 0 0 True None 0
        [0 \<mapsto> (OtherFile 0, False), 1 \<mapsto> (OtherFile 1, False), 2 \<mapsto> (OtherFile 1, False), 20 \<mapsto> (OtherFile 2, False)] = Some a
     \<and> s_child a = Some (v, tc) \<and> tc 20 \<noteq> None
     \<and> child_main willing True False False [''l''] [] None v tc = Runs [''l''] [] t' \<and> t' 20 = None \<and> t' 1 = Some (PtySlave, False)"
proof -
  let ?t = "[0 \<mapsto> (OtherFile 0, False), 1 \<mapsto> (OtherFile 1, False), 2 \<mapsto> (OtherFile 1, False), 20 \<mapsto> (OtherFile 2, False)] :: fds"
  let ?run = "visjail_spawn small_kernel roomy (Some [CHR ''l'', NUL]) 2 (Some [NUL]) 1 1 24 80 0 0 True None 0 ?t"
  let ?v = "no_vars\<lparr>v_master := 3, v_slave := 4, v_ready := (5, 6)\<rparr>"
  let ?tc = "?t(3 \<mapsto> (PtyMaster, True), 4 \<mapsto> (PtySlave, True), 5 \<mapsto> (PipeRead 3, True), 6 \<mapsto> (PipeWrite 3, True))"
  have d: "decode_blob roomy (Some [CHR ''l'', NUL]) 2 = Some [''l'']" "decode_blob roomy (Some [NUL]) 1 = Some []"
    by (simp_all add: decode_blob_def roomy_def Let_def cstr_of_def NUL_def)
  have std: "?t 0 \<noteq> None" "?t 1 \<noteq> None" "?t 2 \<noteq> None" by simp_all
  obtain a where a: "?run = Some a" "s_child a = Some (?v, ?tc)"
    using d by (simp add: visjail_spawn_def Let_def open_pty_def small_kernel_def make_pipe_def start_child_def hand_over_def EINTR_def
        no_vars_def fun_upd_twist)
  have bound: "\<forall>fd. ?tc fd \<noteq> None \<longrightarrow> 0 \<le> fd \<and> fd < child_bound willing" "3 \<le> child_bound willing"
    by (auto simp: child_bound_def willing_def)
  obtain av ev t' where run: "child_main willing True False False [''l''] [] None ?v ?tc = Runs av ev t'"
    by (simp add: child_main_def willing_def dup_stdio_def Let_def)
  have f: "((1::nat) div 1 mod 2 = 1) = True" "((1::nat) div 2 mod 2 = 1) = False" "((1::nat) div 4 mod 2 = 1) = False" by simp_all
  from child_sees_only_its_streams [OF small_kernel_fresh std a bound, of "[''l'']" "[]" None, unfolded f run]
  have "av = [''l''] \<and> ev = [] \<and> t' = standard_streams True False" by simp
  with a run show ?thesis by (intro exI [of _ a] exI [of _ ?v] exI [of _ ?tc] exI [of _ t']) (simp add: standard_streams_def)
qed

section \<open>A private network\<close>

lemma write_loop_writes_all:
  "write_loop ans st bs w = Some (None, w') \<Longrightarrow> w' = w @ bs"
  by (induction ans st bs w rule: write_loop.induct) (auto split: if_splits)

lemma write_text_writes_all: "write_text F bs = Some (None, w) \<Longrightarrow> w = bs"
  by (auto simp: write_text_def split: option.splits dest: write_loop_writes_all)

lemma id_mapping_whole: "uid < 2 ^ 32 \<Longrightarrow> id_mapping uid = ''0 '' @ show_nat uid @ '' 1'' @ [NEWLINE]"
  using length_show_nat [of uid 9] by (simp add: id_mapping_def)

text \<open>C13: A process enters a network of its own or fails.  On success the order was: a new user namespace, the
  answer on supplementary groups, the whole map of the one user and the one group to the caller's, and only
  then a new network namespace and its loopback; every call before had worked.
\<close>

theorem namespace_is_private:
  assumes "enter_network_namespace K uid gid = Some (True, ev)" "uid < 2 ^ 32" "gid < 2 ^ 32"
  shows "unshare_user K = None \<and> unshare_net K = None \<and>
    (\<exists>w. ev = [NewUser, Wrote ''/proc/self/setgroups'' w,
       Wrote ''/proc/self/uid_map'' (''0 '' @ show_nat uid @ '' 1'' @ [NEWLINE]),
       Wrote ''/proc/self/gid_map'' (''0 '' @ show_nat gid @ '' 1'' @ [NEWLINE]), NewNet, LoopbackUp]
     \<and> (w = ''deny'' \<or> (\<exists>w'. write_text (control K ''/proc/self/setgroups'') ''deny'' = Some (Some ENOENT, w'))))"
proof -
  have "unshare_user K = None" using assms(1) by (auto simp: enter_network_namespace_def split: if_splits)
  moreover obtain ev0 where ev0: "ns_writes K [(''/proc/self/setgroups'', ''deny'', True),
      (''/proc/self/uid_map'', id_mapping uid, False), (''/proc/self/gid_map'', id_mapping gid, False)] [NewUser] = Some (True, ev0)"
      "unshare_net K = None" "ev = ev0 @ [NewNet, LoopbackUp]"
    using assms(1) calculation
    by (auto simp: enter_network_namespace_def simp del: ns_writes.simps split: option.splits prod.splits bool.splits if_splits)
  moreover obtain e w where a: "write_text (control K ''/proc/self/setgroups'') ''deny'' = Some (e, w)" "e = None \<or> e = Some ENOENT"
    using ev0(1) by (auto split: option.splits prod.splits if_splits)
  moreover obtain w1 where b: "write_text (control K ''/proc/self/uid_map'') (id_mapping uid) = Some (None, w1)"
    using ev0(1) a by (auto split: option.splits prod.splits if_splits)
  moreover obtain w2 where c: "write_text (control K ''/proc/self/gid_map'') (id_mapping gid) = Some (None, w2)"
    using ev0(1) a b by (auto split: option.splits prod.splits if_splits)
  ultimately show ?thesis
    using write_text_writes_all [OF b] write_text_writes_all [OF c] write_text_writes_all [of _ "''deny''" w] assms(2,3)
    by (auto simp: id_mapping_whole)
qed

definition willing_file :: control_file where
  "willing_file = \<lparr>cf_errno = 0, cf_open = None, cf_writes = [Done 3, Failed EINTR, Done 90], cf_close = None\<rparr>"

definition willing_kernel :: ns_kernel where
  "willing_kernel = \<lparr>unshare_user = None, control = (\<lambda>_. willing_file), unshare_net = None, ns_socket = None,
     get_flags = None, set_flags = None\<rparr>"

lemma willing_enters: "\<exists>ev. enter_network_namespace willing_kernel 1000 100 = Some (True, ev)"
  by (simp add: enter_network_namespace_def willing_kernel_def willing_file_def write_text_def id_mapping_whole
      show_nat.simps digit_char_def)

theorem namespace_is_private_witness:
  "\<exists>ev w. enter_network_namespace willing_kernel 1000 100 = Some (True, ev)
     \<and> ev = [NewUser, Wrote ''/proc/self/setgroups'' w, Wrote ''/proc/self/uid_map'' (''0 '' @ show_nat 1000 @ '' 1'' @ [NEWLINE]),
       Wrote ''/proc/self/gid_map'' (''0 '' @ show_nat 100 @ '' 1'' @ [NEWLINE]), NewNet, LoopbackUp]"
proof -
  obtain ev where ev: "enter_network_namespace willing_kernel 1000 100 = Some (True, ev)" using willing_enters by blast
  from namespace_is_private [OF ev] show ?thesis using ev by auto
qed
section \<open>The bridge keeps no connection\<close>

text \<open>Documented behaviour: a descriptor the kernel hands out was not open before.\<close>

definition fresh_turn :: "int set \<Rightarrow> bridge_turn \<Rightarrow> bool" where
  "fresh_turn fds k \<longleftrightarrow>
     (\<forall>kind fd. Option.bind (on_control k) receive_descriptor = Some (kind, fd) \<longrightarrow> fd \<notin> fds \<and> dial_fd k \<noteq> fd)
     \<and> dial_fd k \<notin> fds \<and> (\<forall>fd. on_listener k = Some fd \<longrightarrow> fd \<notin> fds)"

text \<open>What a turn may add to the relays and to the messages.\<close>

definition control_relays :: "bridge_kind \<Rightarrow> int \<Rightarrow> bridge_turn \<Rightarrow> (int \<times> int) list" where
  "control_relays expected port k =
     (case Option.bind (on_control k) receive_descriptor of
        Some (kind, fd) \<Rightarrow> if kind = expected \<and> port > 0 \<and> fork_ok k then [(fd, dial_fd k)] else []
      | None \<Rightarrow> [])"

lemma control_part_effect:
  assumes "fresh_turn (open_now b) k"
  shows "open_now (control_part expected port attempts k b) = open_now b
    \<and> sent_messages (control_part expected port attempts k b) = sent_messages b
    \<and> set (relays (control_part expected port attempts k b)) \<subseteq> set (relays b) \<union> set (control_relays expected port k)"
proof (cases "Option.bind (on_control k) receive_descriptor")
  case None
  then show ?thesis by (simp add: control_part_def)
next
  case (Some r)
  obtain kind fd where r: "r = (kind, fd)" by fastforce
  have f: "fd \<notin> open_now b" "dial_fd k \<notin> open_now b" "dial_fd k \<noteq> fd" using assms Some r by (auto simp: fresh_turn_def)
  show ?thesis
  proof (cases "kind = expected \<and> port > 0 \<and> loopback_connect attempts (dial k (address_port port))")
    case True
    have "control_part expected port attempts k b = b\<lparr>open_now := open_now b, relays := relays b @ control_relays expected port k\<rparr>"
    proof (cases "fork_ok k")
      case ok: True
      have "insert (dial_fd k) (insert fd (open_now b)) - {fd, dial_fd k} = open_now b" using f by auto
      with ok True Some r show ?thesis by (simp add: control_part_def control_relays_def spawn_relay_def Let_def)
    next
      case no: False
      have "insert (dial_fd k) (insert fd (open_now b)) - {fd} - {dial_fd k} = open_now b" using f by auto
      with no True Some r show ?thesis by (simp add: control_part_def control_relays_def spawn_relay_def Let_def)
    qed
    then show ?thesis by simp
  next
    case False
    with Some r f have "control_part expected port attempts k b = b\<lparr>open_now := open_now b\<rparr>"
      by (simp add: control_part_def Let_def)
    then show ?thesis by simp
  qed
qed

lemma listener_part_effect:
  assumes "fresh_turn (open_now b) k"
  shows "open_now (listener_part kind listening k b) = open_now b
    \<and> relays (listener_part kind listening k b) = relays b
    \<and> sent_messages (listener_part kind listening k b) = sent_messages b @
        (case on_listener k of Some fd \<Rightarrow> if listening \<and> handoff_ok k then [Message kind [Rights fd]] else [] | None \<Rightarrow> [])"
  using assms by (auto simp: listener_part_def fresh_turn_def send_descriptor_def split: option.splits)

text \<open>The relays and messages a whole run may start, turn by turn.\<close>

definition run_relays :: "bridge_kind \<Rightarrow> int \<Rightarrow> (bridge_turn \<times> 'a) option list \<Rightarrow> (int \<times> int) set" where
  "run_relays expected port ks = (\<Union>(k, c) \<in> {x. Some x \<in> set ks}. set (control_relays expected port k))"

definition run_messages :: "bridge_kind \<Rightarrow> (bridge_turn \<times> 'a) option list \<Rightarrow> message set" where
  "run_messages kind ks = {Message kind [Rights fd] | fd k c. Some (k, c) \<in> set ks \<and> on_listener k = Some fd \<and> handoff_ok k}"

lemma run_message:
  "Some fd = on_listener k \<Longrightarrow> handoff_ok k \<Longrightarrow> Message kind [Rights fd] \<in> run_messages kind (Some (k, c) # ks)"
  unfolding run_messages_def by force

lemma bridge_loop_effect:
  "\<forall>k c. Some (k, c) \<in> set ks \<longrightarrow> fresh_turn (open_now b) k \<Longrightarrow>
   bridge_loop (bridge_turns expected kind attempts port listening) main_pid ks st fin b = Some (st', fin', b') \<Longrightarrow>
     open_now b' = open_now b
     \<and> set (relays b') \<subseteq> set (relays b) \<union> run_relays expected port ks
     \<and> set (sent_messages b') \<subseteq> set (sent_messages b) \<union> run_messages kind ks"
proof (induction "bridge_turns expected kind attempts port listening" main_pid ks st fin b rule: bridge_loop.induct)
  case (4 main_pid k ended ks st b)
  obtain st1 fin1 where s: "reap_relays main_pid ended st False = (st1, fin1)" by fastforce
  let ?b = "bridge_turns expected kind attempts port listening k b"
  have f: "fresh_turn (open_now b) k" using "4.prems"(1) by auto
  have C: "open_now (control_part expected port attempts k b) = open_now b"
    using control_part_effect [OF f] by blast
  have o: "open_now ?b = open_now b" using listener_part_effect [of "control_part expected port attempts k b" k] C f
    by (simp add: bridge_turns_def)
  have r: "set (relays ?b) \<subseteq> set (relays b) \<union> set (control_relays expected port k)"
    using listener_part_effect [of "control_part expected port attempts k b" k] control_part_effect [OF f] C f
    by (simp add: bridge_turns_def)
  have m: "set (sent_messages ?b) \<subseteq> set (sent_messages b) \<union> run_messages kind (Some (k, ended) # ks)"
    using listener_part_effect [of "control_part expected port attempts k b" k] control_part_effect [OF f] C f
    by (auto simp: bridge_turns_def intro: run_message split: option.splits)
  have run: "bridge_loop (bridge_turns expected kind attempts port listening) main_pid ks st1 fin1 ?b = Some (st', fin', b')"
    using "4.prems"(2) s by simp
  have IH: "open_now b' = open_now ?b \<and> set (relays b') \<subseteq> set (relays ?b) \<union> run_relays expected port ks
      \<and> set (sent_messages b') \<subseteq> set (sent_messages ?b) \<union> run_messages kind ks"
    using "4.hyps" [OF s [symmetric] refl _ run] "4.prems"(1) o by auto
  have "run_relays expected port (Some (k, ended) # ks) = set (control_relays expected port k) \<union> run_relays expected port ks"
    by (auto simp: run_relays_def)
  moreover have "run_messages kind ks \<subseteq> run_messages kind (Some (k, ended) # ks)" by (auto simp: run_messages_def)
  ultimately show ?case using IH o r m by blast
qed auto
lemma fresh_turn_mono: "fresh_turn fds k \<Longrightarrow> fds' \<subseteq> fds \<Longrightarrow> fresh_turn fds' k"
  unfolding fresh_turn_def by blast

lemma run_outside_effect:
  assumes "run_outside control_fd listener port inside killed ks b = Some (code, was_killed, b')"
    and "\<forall>k c. Some (k, c) \<in> set ks \<longrightarrow> fresh_turn (open_now b) k"
  shows "open_now b' = open_now b - set_option listener - {control_fd}
    \<and> set (relays b') \<subseteq> set (relays b) \<union> run_relays BRIDGE_OUTBOUND port ks
    \<and> set (sent_messages b') \<subseteq> set (sent_messages b) \<union> run_messages BRIDGE_INBOUND ks"
proof -
  obtain st fin b1 where l: "bridge_loop (bridge_turns BRIDGE_OUTBOUND BRIDGE_INBOUND 100 port (listener \<noteq> None)) inside ks
      (Exited 0) False b = Some (st, fin, b1)" "finish_bridge control_fd listener killed (st, fin, b1) = (code, was_killed, b')"
    using assms(1) by (auto simp: run_outside_def)
  from bridge_loop_effect [OF assms(2) l(1)] l(2) show ?thesis by (auto simp: finish_bridge_def)
qed

text \<open>What the descriptors are when the bridge starts to wait: \<open>fresh_start\<close> says that the kernel hands out
  descriptors that were closed and lie below the limit.\<close>

definition fresh_start :: "bridge_start \<Rightarrow> int \<Rightarrow> int set \<Rightarrow> bool" where
  "fresh_start B sysconf_max fds \<longleftrightarrow>
     (case control_pair B of None \<Rightarrow> True | Some (c0, c1) \<Rightarrow>
        c0 \<noteq> c1 \<and> {c0, c1} \<inter> fds = {} \<and> set_option (la_socket (inbound_made B)) \<inter> (fds \<union> {c0, c1}) = {}
        \<and> fds \<union> {c0, c1} \<union> set_option (la_socket (inbound_made B)) \<subseteq> {0..<close_bound sysconf_max})"

lemma loopback_listener_result:
  "loopback_listener L port fds = (listener, fds') \<Longrightarrow> set_option (la_socket L) \<inter> fds = {} \<Longrightarrow>
     fds' = fds \<union> set_option listener \<and> set_option listener \<subseteq> set_option (la_socket L)"
  by (auto simp: loopback_listener_def split: option.splits if_splits)

lemma bridge_start_fds:
  assumes "fresh_start B m fds" "control_pair B = Some (c0, c1)" "set_option listener \<subseteq> set_option (la_socket (inbound_made B))"
  shows "close_except range_ok m c0 (fd_or listener) (fds \<union> {c0, c1} \<union> set_option listener - {c1})
    = {fd \<in> fds. fd < 3} \<union> {c0} \<union> set_option listener"
proof -
  let ?fds = "fds \<union> {c0, c1} \<union> set_option listener - {c1}"
  have A: "c0 \<noteq> c1" "{c0, c1} \<inter> fds = {}" "set_option (la_socket (inbound_made B)) \<inter> (fds \<union> {c0, c1}) = {}"
    "fds \<union> {c0, c1} \<union> set_option (la_socket (inbound_made B)) \<subseteq> {0..<close_bound m}"
    using assms(1,2) by (simp_all add: fresh_start_def)
  have F: "c0 \<noteq> c1" "c0 \<notin> fds" "c1 \<notin> fds" "set_option listener \<inter> (fds \<union> {c0, c1}) = {}"
    "?fds \<subseteq> {0..<close_bound m}"
    using A assms(3) by blast+
  then have nn: "\<forall>fd \<in> ?fds. 0 \<le> fd" by (meson atLeastLessThan_iff subsetD)
  have "close_except range_ok m c0 (fd_or listener) ?fds = {fd \<in> ?fds. fd < 3 \<or> fd = c0 \<or> fd = fd_or listener}"
    by (rule close_except_bounds [OF F(5)])
  also have "\<dots> = {fd \<in> fds. fd < 3} \<union> {c0} \<union> set_option listener"
  proof (cases listener)
    case None
    then have "\<forall>fd \<in> ?fds. fd \<noteq> fd_or listener" using nn by (metis fd_or_def neg_0_le_iff_le not_one_le_zero option.case(1))
    with None F(1-3) show ?thesis by auto
  next
    case (Some l)
    with F(1-4) show ?thesis by (auto simp: fd_or_def)
  qed
  finally show ?thesis .
qed

text \<open>C12: The bridge holds exactly what it needs and gives all of it back.  A bridge that ends has only the
  caller's standard streams open, whatever connections came and went; it relayed only connections that came
  as outbound ones while a proxy port was set, and handed in only connections its own listener accepted.
\<close>

theorem bridge_leaks_no_descriptor:
  assumes "visjail_linux_bridge_run range_ok m B proxy_port inbound_port killed ks fds = Bridged (Some (code, was_killed, b))"
    and "fresh_start B m fds"
    and "\<forall>k c. Some (k, c) \<in> set ks \<longrightarrow>
      fresh_turn ({fd \<in> fds. fd < 3} \<union> fst ` set_option (control_pair B) \<union> set_option (la_socket (inbound_made B))) k"
  shows "open_now b = {fd \<in> fds. fd < 3}
    \<and> set (relays b) \<subseteq> run_relays BRIDGE_OUTBOUND proxy_port ks
    \<and> set (sent_messages b) \<subseteq> run_messages BRIDGE_INBOUND ks"
proof -
  have p: "\<not> (proxy_port \<le> 0 \<and> inbound_port \<le> 0)" using assms(1) by (auto simp: visjail_linux_bridge_run_def)
  obtain c0 c1 where c: "control_pair B = Some (c0, c1)"
    using assms(1) p by (cases "control_pair B") (auto simp: visjail_linux_bridge_run_def)
  let ?fds = "fds \<union> {c0, c1}"
  obtain listener fds1 where l: "(if inbound_port > 0 then loopback_listener (inbound_made B) inbound_port ?fds else (None, ?fds))
      = (listener, fds1)" by fastforce
  have d: "set_option (la_socket (inbound_made B)) \<inter> ?fds = {}" using assms(2) c by (simp add: fresh_start_def)
  have L: "fds1 = ?fds \<union> set_option listener" "set_option listener \<subseteq> set_option (la_socket (inbound_made B))"
    using l loopback_listener_result [OF _ d, of inbound_port listener fds1] by (auto split: if_splits)
  obtain inside where run: "run_outside c0 listener proxy_port inside killed ks
      \<lparr>open_now = close_except range_ok m c0 (fd_or listener) (fds1 - {c1}), relays = [], sent_messages = []\<rparr>
      = Some (code, was_killed, b)"
  proof -
    have "(if inbound_port > 0 \<and> listener = None then StartFailed (fds1 - {c0} - {c1})
        else (case inside_pid B of
                None \<Rightarrow> StartFailed (fds1 - set_option listener - {c0} - {c1})
              | Some inside \<Rightarrow> Bridged (run_outside c0 listener proxy_port inside killed ks
                  \<lparr>open_now = close_except range_ok m c0 (fd_or listener) (fds1 - {c1}), relays = [], sent_messages = []\<rparr>)))
      = Bridged (Some (code, was_killed, b))"
      using assms(1) by (simp only: visjail_linux_bridge_run_def p if_False c option.case prod.case Let_def l)
    then show thesis using that by (cases "inside_pid B"; cases "inbound_port > 0 \<and> listener = None") simp_all
  qed
  note S = bridge_start_fds [OF assms(2) c L(2), of range_ok]
  have fresh: "\<forall>k c. Some (k, c) \<in> set ks \<longrightarrow> fresh_turn ({fd \<in> fds. fd < 3} \<union> {c0} \<union> set_option listener) k"
  proof (intro allI impI)
    fix k c assume k: "Some (k, c) \<in> set ks"
    have "{fd \<in> fds. fd < 3} \<union> {c0} \<union> set_option listener \<subseteq>
      {fd \<in> fds. fd < 3} \<union> fst ` set_option (control_pair B) \<union> set_option (la_socket (inbound_made B))"
      using \<open>control_pair B = Some (c0, c1)\<close> L(2) by auto
    with assms(3) k show "fresh_turn ({fd \<in> fds. fd < 3} \<union> {c0} \<union> set_option listener) k"
      by (meson fresh_turn_mono)
  qed
  have E: "open_now b = {fd \<in> fds. fd < 3} \<union> {c0} \<union> set_option listener - set_option listener - {c0}
      \<and> set (relays b) \<subseteq> run_relays BRIDGE_OUTBOUND proxy_port ks \<and> set (sent_messages b) \<subseteq> run_messages BRIDGE_INBOUND ks"
    using run_outside_effect [OF run [unfolded L(1) S]] fresh by simp
  have "{fd \<in> fds. fd < 3} \<union> {c0} \<union> set_option listener - set_option listener - {c0} = {fd \<in> fds. fd < 3}"
    using assms(2) c L(2) by (auto simp: fresh_start_def)
  with E show ?thesis by simp
qed


definition quiet_start :: bridge_start where
  "quiet_start = \<lparr>control_pair = Some (40, 41),
     inbound_made = \<lparr>la_socket = Some 42, la_bind = (\<lambda>_. True), la_listen = True\<rparr>, inside_pid = Some 900\<rparr>"

text \<open>One outbound connection relayed and one inbound connection handed in, then the process inside ends with 3.\<close>

definition busy_run :: "(bridge_turn \<times> (int \<times> wait_status) list) option list" where
  "busy_run =
     [Some (\<lparr>on_control = Some (Message BRIDGE_OUTBOUND [OtherHeader, Rights 50]),
         dial = (\<lambda>_. [ConnectFailed ECONNREFUSED, Connected]), dial_fd = 51, fork_ok = True, on_listener = Some 52,
         handoff_ok = True\<rparr>, [(901, Exited 0), (900, Exited 3)])]"

lemma loopback_second_try: "2 \<le> n \<Longrightarrow> loopback_connect n (ConnectFailed ECONNREFUSED # Connected # rest)"
  by (cases n; cases "n - 1") auto

lemma quiet_fresh: "fresh_start quiet_start 1024 {0, 30}"
  by (simp add: fresh_start_def quiet_start_def close_bound_def)

lemma busy_run_outside:
  "run_outside 40 (Some 42) 3128 900 killed busy_run \<lparr>open_now = {0, 40, 42}, relays = [], sent_messages = []\<rparr>
     = Some (3, False, \<lparr>open_now = {0}, relays = [(50, 51)], sent_messages = [Message BRIDGE_INBOUND [Rights 52]]\<rparr>)"
  by (simp add: busy_run_def run_outside_def finish_bridge_def bridge_turns_def control_part_def listener_part_def
      spawn_relay_def send_descriptor_def receive_descriptor_def decode_status_def loopback_second_try
      insert_Diff_if Let_def)

lemma busy_run_ends:
  "visjail_linux_bridge_run (\<lambda>a b. True) 1024 quiet_start 3128 8080 (Signaled 9) busy_run {0, 30}
     = Bridged (Some (3, False, \<lparr>open_now = {0}, relays = [(50, 51)],
         sent_messages = [Message BRIDGE_INBOUND [Rights 52]]\<rparr>))"
proof -
  have "{fd \<in> {0, 30::int}. fd < 3} \<union> {40} \<union> set_option (Some 42) = {0, 40, 42}" by auto
  then have C: "close_except (\<lambda>a b. True) 1024 40 (fd_or (Some 42)) ({0, 30} \<union> {40, 41} \<union> set_option (Some 42) - {41}) = {0, 40, 42}"
    using bridge_start_fds [OF quiet_fresh, of 40 41 "Some 42" "\<lambda>a b. True"] by (simp add: quiet_start_def)
  have "({0, 30} \<union> {40, 41} \<union> set_option (Some 42) - {41} :: int set) = {0, 30, 40, 42}" by auto
  moreover have "insert 42 ({0, 30} \<union> {40, 41}) - {41} = {0, 30, 40, 42 :: int}" by auto
  ultimately show ?thesis
    using C busy_run_outside
    by (simp only: visjail_linux_bridge_run_def loopback_listener_def quiet_start_def bridge_start.simps option.case
        listener_answers.simps prod.case Let_def) simp
qed

theorem bridge_leaks_no_descriptor_witness:
  "open_now \<lparr>open_now = {0}, relays = [(50, 51)], sent_messages = [Message BRIDGE_INBOUND [Rights 52]]\<rparr>
     = {fd \<in> {0, 30}. fd < (3::int)}"
proof -
  have "\<forall>k c. Some (k, c) \<in> set busy_run \<longrightarrow> fresh_turn ({fd \<in> {0, 30}. fd < 3}
      \<union> fst ` set_option (control_pair quiet_start) \<union> set_option (la_socket (inbound_made quiet_start))) k"
    by (simp add: busy_run_def quiet_start_def fresh_turn_def receive_descriptor_def)
  with bridge_leaks_no_descriptor [OF busy_run_ends quiet_fresh] show ?thesis by blast
qed

end
