(* ===== verification/StackDump.thy ===== *)
theory StackDump
  imports Boundary
begin

text \<open>
  The stack diagnostics of \<^verbatim>\<open>native/vispython/vispython.c\<close>: a private file that is configured once and
  rewritten on request with the frames of every Python thread, read through the kernel without the
  interpreter lock.  What is read may change between any two reads, so the guest's memory is a parameter
  indexed by the number of reads made before; so is what the calls on the file answer.
\<close>

section \<open>The file\<close>

text \<open>The state a dump threads through: the reads made, the answers of \<open>write\<close> still to come, and what the
  file holds.\<close>

record dump_state =
  reads :: nat
  write_answers :: "nat sys list"
  artifact :: bytes

text \<open>The loop of \<open>vis_py_stack_write\<close>; \<open>None\<close> when the answers are used up.\<close>

fun write_from :: "nat sys list \<Rightarrow> bytes \<Rightarrow> bytes \<Rightarrow> (bool \<times> nat sys list \<times> bytes) option" where
  "write_from answers [] written = Some (True, answers, written)"
| "write_from [] (c # cs) written = None"
| "write_from (Failed e # answers) (c # cs) written =
     (if e = EINTR then write_from answers (c # cs) written else Some (False, answers, written))"
| "write_from (Done n # answers) (c # cs) written =
     (if n = 0 then Some (False, answers, written)
      else write_from answers (drop n (c # cs)) (written @ take n (c # cs)))"

definition vis_py_stack_write :: "bytes \<Rightarrow> dump_state \<Rightarrow> (bool \<times> dump_state) option" where
  "vis_py_stack_write text s =
     map_option (\<lambda>(ok, answers, written). (ok, s\<lparr>write_answers := answers, artifact := written\<rparr>))
       (write_from (write_answers s) text (artifact s))"

section \<open>Reading the interpreter\<close>

definition UINTPTR_MAX :: nat where "UINTPTR_MAX = 18446744073709551615"

text \<open>The pinned layout of CPython, whose headers are not part of this repository: sizes of what is copied,
  offsets, and the codes of a frame's owner.\<close>

record layout =
  thread_size :: nat
  frame_size :: nat
  code_offset :: nat
  unicode_size :: nat
  ascii_size :: nat
  compact_size :: nat
  OWNED_BY_THREAD :: int
  OWNED_BY_INTERPRETER :: int

text \<open>The fields the code reads of a copied structure.\<close>

record thread_copy =
  t_interp :: nat
  t_frame :: nat
  t_id :: nat
  t_next :: nat

record frame_copy =
  f_owner :: int
  f_tagged :: bool
  f_executable :: nat
  f_instruction :: nat
  f_previous :: nat

record code_copy =
  c_is_code :: bool
  c_filename :: nat
  c_name :: nat
  c_firstline :: int

record text_copy =
  x_is_unicode :: bool
  x_length :: int
  x_kind :: nat
  x_compact :: bool
  x_ascii :: bool
  x_data :: nat

text \<open>What the kernel copies of an address at a given read; \<open>None\<close> when it refuses.\<close>

record guest_memory =
  thread_at :: "nat \<Rightarrow> nat \<Rightarrow> thread_copy option"
  frame_at :: "nat \<Rightarrow> nat \<Rightarrow> frame_copy option"
  code_at :: "nat \<Rightarrow> nat \<Rightarrow> code_copy option"
  text_at :: "nat \<Rightarrow> nat \<Rightarrow> text_copy option"
  bytes_at :: "nat \<Rightarrow> nat \<Rightarrow> nat \<Rightarrow> nat list option"

definition vis_py_stack_read ::
  "(nat \<Rightarrow> nat \<Rightarrow> 'a option) \<Rightarrow> nat \<Rightarrow> nat \<Rightarrow> dump_state \<Rightarrow> 'a option \<times> dump_state" where
  "vis_py_stack_read copy wanted address s =
     (if address = 0 \<or> wanted > UINTPTR_MAX - address then (None, s)
      else (copy (reads s) address, s\<lparr>reads := reads s + 1\<rparr>))"

section \<open>Names\<close>

definition hex_digit :: "nat \<Rightarrow> char" where
  "hex_digit d = (if d < 10 then digit_char d else char_of (87 + d))"

text \<open>\<open>%08x\<close> of an unsigned 32-bit value, and \<open>%lx\<close>.\<close>

definition hex8 :: "nat \<Rightarrow> bytes" where
  "hex8 n = map (\<lambda>i. hex_digit (n div 16 ^ i mod 16)) [7, 6, 5, 4, 3, 2, 1, 0]"

fun show_hex :: "nat \<Rightarrow> bytes" where
  "show_hex n = (if n < 16 then [hex_digit n] else show_hex (n div 16) @ [hex_digit (n mod 16)])"

declare show_hex.simps [simp del]

definition plain :: "nat \<Rightarrow> bool" where
  "plain ch \<longleftrightarrow> 32 \<le> ch \<and> ch \<le> 126 \<and> ch \<noteq> 92 \<and> ch \<noteq> 34"

definition escape_text :: "nat \<Rightarrow> bytes" where
  "escape_text ch = CHR 0x5C # CHR ''U'' # hex8 ch"

text \<open>The loop over the characters: \<open>used\<close> counts what was rendered, \<open>out\<close> is what the buffer of 1001 bytes
  kept.\<close>

fun name_loop :: "nat list \<Rightarrow> nat \<Rightarrow> bytes \<Rightarrow> nat \<times> bytes" where
  "name_loop [] used out = (used, out)"
| "name_loop (ch # chs) used out =
     (if plain ch then name_loop chs (used + 1) (out @ [char_of ch])
      else name_loop chs (used + length (escape_text ch)) (out @ snprintf_kept (1001 - used) (escape_text ch)))"

text \<open>\<open>PyUnicode_READ\<close> of consecutive characters of 1, 2 or 4 bytes, the lowest byte first.\<close>

fun unicode_read :: "nat \<Rightarrow> nat \<Rightarrow> nat list \<Rightarrow> nat list" where
  "unicode_read kind 0 bs = []"
| "unicode_read kind (Suc n) bs =
     foldr (\<lambda>b v. b + 256 * v) (take kind bs) 0 # unicode_read kind n (drop kind bs)"

text \<open>How many characters are shown, and where their data lies.\<close>

definition name_length :: "text_copy \<Rightarrow> nat" where
  "name_length x = (if x_length x > 100 then 100 else nat (x_length x))"

definition name_data :: "layout \<Rightarrow> nat \<Rightarrow> text_copy \<Rightarrow> nat" where
  "name_data L address x =
     (if x_compact x then (address + (if x_ascii x then ascii_size L else compact_size L)) mod (UINTPTR_MAX + 1)
      else x_data x)"

definition vis_py_stack_name :: "layout \<Rightarrow> guest_memory \<Rightarrow> nat \<Rightarrow> dump_state \<Rightarrow> bytes \<times> dump_state" where
  "vis_py_stack_name L M address s =
     (let (header, s1) = vis_py_stack_read (text_at M) (unicode_size L) address s in
      case header of
        None \<Rightarrow> (''???'', s1)
      | Some x \<Rightarrow>
          if \<not> x_is_unicode x then (''???'', s1)
          else if x_length x < 0 \<or> (x_kind x \<noteq> 1 \<and> x_kind x \<noteq> 2 \<and> x_kind x \<noteq> 4) then (''???'', s1)
          else
            let (chars, s2) = vis_py_stack_read (\<lambda>t a. bytes_at M t a (name_length x * x_kind x)) (name_length x * x_kind x)
                  (name_data L address x) s1
            in (case chars of
                  None \<Rightarrow> (''???'', s2)
                | Some bs \<Rightarrow> (snd (name_loop (unicode_read (x_kind x) (name_length x) bs) 0 []), s2)))"

section \<open>Frames and threads\<close>

definition frame_text :: "bytes \<Rightarrow> int \<Rightarrow> int \<Rightarrow> bytes \<Rightarrow> bytes" where
  "frame_text filename firstline offset name =
     snprintf_kept 2200 (''  File '' @ quoted filename @ '', defined line '' @ show_int firstline
       @ '', bytecode offset '' @ show_int offset @ '' in '' @ name @ [NEWLINE])"

definition thread_text :: "nat \<Rightarrow> bytes" where
  "thread_text tid = snprintf_kept 2200 (''Thread 0x'' @ show_hex tid @ '':'' @ [NEWLINE])"

definition bytecode_offset :: "layout \<Rightarrow> frame_copy \<Rightarrow> int" where
  "bytecode_offset L f =
     (let bytecode = (f_executable f + code_offset L) mod (UINTPTR_MAX + 1) in
      if f_instruction f \<ge> bytecode \<and> int (f_instruction f - bytecode) \<le> INT_MAX
      then int (f_instruction f - bytecode) else - 1)"

text \<open>What one frame writes, and whether the walk goes on behind it.\<close>

definition invalid_frame :: "layout \<Rightarrow> frame_copy \<Rightarrow> bool" where
  "invalid_frame L f \<longleftrightarrow>
     f_owner f < OWNED_BY_THREAD L \<or> f_owner f \<ge> OWNED_BY_INTERPRETER L \<or> f_tagged f"

definition frame_line :: "layout \<Rightarrow> guest_memory \<Rightarrow> nat \<Rightarrow> dump_state \<Rightarrow> (bytes \<times> nat option) \<times> dump_state" where
  "frame_line L M frame s =
     (let (sample, s1) = vis_py_stack_read (frame_at M) (frame_size L) frame s in
      case sample of
        None \<Rightarrow> ((''  <unavailable frame>'' @ [NEWLINE], None), s1)
      | Some f \<Rightarrow>
          if f_owner f = OWNED_BY_INTERPRETER L then (([], Some (f_previous f)), s1)
          else if invalid_frame L f then ((''  <invalid frame>'' @ [NEWLINE], None), s1)
          else
            let (code, s2) = vis_py_stack_read (code_at M) (code_offset L) (f_executable f) s1 in
            case code of
              None \<Rightarrow> ((''  <unavailable code>'' @ [NEWLINE], None), s2)
            | Some c \<Rightarrow>
                if \<not> c_is_code c then ((''  <unavailable code>'' @ [NEWLINE], None), s2)
                else
                  let (filename, s3) = vis_py_stack_name L M (c_filename c) s2;
                      (name, s4) = vis_py_stack_name L M (c_name c) s3
                  in ((frame_text filename (c_firstline c) (bytecode_offset L f) name, Some (f_previous f)), s4))"

text \<open>The walk over the frames of a thread, at most \<open>n\<close> of them.\<close>

fun dump_frames :: "layout \<Rightarrow> guest_memory \<Rightarrow> nat \<Rightarrow> nat \<Rightarrow> dump_state \<Rightarrow> (bool \<times> dump_state) option" where
  "dump_frames L M n frame s =
     (if frame = 0 then Some (True, s)
      else
        (case n of
           0 \<Rightarrow> vis_py_stack_write (''  <frames truncated>'' @ [NEWLINE]) s
         | Suc m \<Rightarrow>
             let ((text, onward), s1) = frame_line L M frame s in
             Option.bind (vis_py_stack_write text s1) (\<lambda>(ok, s2).
               if \<not> ok then Some (False, s2)
               else (case onward of None \<Rightarrow> Some (True, s2) | Some previous \<Rightarrow> dump_frames L M m previous s2))))"

declare dump_frames.simps [simp del]

text \<open>The walk over the threads, at most \<open>n\<close> of them, each with at most 64 frames.\<close>

fun dump_threads ::
  "layout \<Rightarrow> guest_memory \<Rightarrow> nat \<Rightarrow> nat \<Rightarrow> nat \<Rightarrow> dump_state \<Rightarrow> (bool \<times> dump_state) option" where
  "dump_threads L M interp n thread s =
     (if thread = 0 then Some (True, s)
      else
        (case n of
           0 \<Rightarrow> vis_py_stack_write (''<threads truncated>'' @ [NEWLINE]) s
         | Suc m \<Rightarrow>
             let (state, s1) = vis_py_stack_read (thread_at M) (thread_size L) thread s in
             case (case state of None \<Rightarrow> None | Some t \<Rightarrow> if t_interp t = interp then Some t else None) of
               None \<Rightarrow> vis_py_stack_write (''<unavailable thread state>'' @ [NEWLINE]) s1
             | Some t \<Rightarrow>
                 Option.bind (vis_py_stack_write (thread_text (t_id t)) s1) (\<lambda>(ok, s2).
                   if \<not> ok then Some (False, s2)
                   else Option.bind (dump_frames L M 64 (t_frame t) s2) (\<lambda>(ok', s3).
                     if \<not> ok' then Some (False, s3) else dump_threads L M interp m (t_next t) s3))))"

declare dump_threads.simps [simp del]

definition dump_header :: bytes where
  "dump_header = ''Python stack samples (most recent frame first; definition lines, not current lines)'' @ [NEWLINE]"

definition vis_py_stack_dump ::
  "layout \<Rightarrow> guest_memory \<Rightarrow> nat \<Rightarrow> nat \<Rightarrow> dump_state \<Rightarrow> (bool \<times> dump_state) option" where
  "vis_py_stack_dump L M interp thread_head s =
     Option.bind (vis_py_stack_write dump_header s) (\<lambda>(ok, s1).
       if \<not> ok then Some (False, s1) else dump_threads L M interp 64 thread_head s1)"

section \<open>Configuring and dumping\<close>

text \<open>What \<open>fstat\<close> reports of a descriptor: whether it is a regular file, its device and inode.\<close>

type_synonym identity = "bool \<times> nat \<times> nat"

record stack_state =
  stack_fd :: int
  stack_interp :: "nat option"
  stack_identity :: identity

definition initial_stack_state :: stack_state where
  "initial_stack_state = \<lparr>stack_fd = - 1, stack_interp = None, stack_identity = (False, 0, 0)\<rparr>"

text \<open>The calls of one request: whether the lock is free, what \<open>fstat\<close> answers, whether a probe of own memory
  works, the descriptor \<open>open\<close> answers, the main interpreter and its first thread, and whether the file
  can be emptied and rewound.\<close>

record request =
  lock_free :: bool
  fstat_of :: "int \<Rightarrow> identity option"
  probe_ok :: bool
  opened :: "int option"
  main_interp :: nat
  thread_head :: nat
  truncated_ok :: bool
  rewound_ok :: bool

definition vis_py_stack_owned :: "(int \<Rightarrow> identity option) \<Rightarrow> stack_state \<Rightarrow> bool" where
  "vis_py_stack_owned fstat_at st \<longleftrightarrow>
     stack_fd st \<ge> 0 \<and>
     (case fstat_at (stack_fd st) of
        None \<Rightarrow> False
      | Some (regular, device, inode) \<Rightarrow>
          regular \<and> device = fst (snd (stack_identity st)) \<and> inode = snd (snd (stack_identity st)))"

text \<open>The verdict, the new state and the descriptors closed.\<close>

definition diagnostics_verdict ::
  "request \<Rightarrow> bool \<Rightarrow> bool \<Rightarrow> bytes option \<Rightarrow> stack_state \<Rightarrow> bytes \<times> stack_state \<times> int list" where
  "diagnostics_verdict R started confined path st =
     (if path = None \<or> path = Some [] then
        (''unavailable not-configured'', st\<lparr>stack_fd := - 1, stack_interp := None\<rparr>,
         if vis_py_stack_owned (fstat_of R) st then [stack_fd st] else [])
      else if \<not> started then (''unavailable not-initialized'', st, [])
      else if confined then (''unavailable already-confined'', st, [])
      else if stack_fd st \<ge> 0 then (''unavailable already-configured'', st, [])
      else if hd (the path) \<noteq> CHR ''/'' then (''unavailable absolute-path-required'', st, [])
      else if \<not> probe_ok R then (''unavailable memory-read-failed'', st, [])
      else
        (case opened R of
           None \<Rightarrow> (''unavailable open-failed'', st\<lparr>stack_fd := - 1\<rparr>, [])
         | Some fd \<Rightarrow>
             (case fstat_of R fd of
                None \<Rightarrow> (''unavailable open-failed'', st\<lparr>stack_fd := - 1\<rparr>, [fd])
              | Some identity \<Rightarrow>
                  (''ready'', st\<lparr>stack_fd := fd, stack_interp := Some (main_interp R), stack_identity := identity\<rparr>, []))))"

definition vispython_stack_diagnostics ::
  "allocator \<Rightarrow> request \<Rightarrow> bool \<Rightarrow> bool \<Rightarrow> bytes option \<Rightarrow> int \<Rightarrow> caller \<Rightarrow> stack_state \<Rightarrow>
     int \<times> caller \<times> stack_state \<times> int list" where
  "vispython_stack_diagnostics E R started confined path cap c st =
     (if \<not> lock_free R then (let (r, c') = vis_py_copy_out E ''busy'' cap c in (r, c', st, []))
      else
        let (verdict, st', closed) = diagnostics_verdict R started confined path st;
            (r, c') = vis_py_copy_out E verdict cap c
        in (r, c', st', closed))"

text \<open>The verdict of a dump and what becomes of the file; the file is emptied before it is written.\<close>

definition dump_verdict ::
  "layout \<Rightarrow> guest_memory \<Rightarrow> request \<Rightarrow> stack_state \<Rightarrow> dump_state \<Rightarrow> (bytes \<times> stack_state \<times> dump_state) option" where
  "dump_verdict L M R st s =
     (if stack_fd st < 0 then Some (''unavailable not-configured'', st, s)
      else if \<not> vis_py_stack_owned (fstat_of R) st then Some (''unavailable descriptor-replaced'', st\<lparr>stack_fd := - 1\<rparr>, s)
      else if \<not> probe_ok R then Some (''unavailable memory-read-failed'', st, s)
      else if \<not> truncated_ok R then Some (''failed write-failed'', st, s)
      else
        let s1 = s\<lparr>artifact := []\<rparr> in
        if \<not> rewound_ok R then Some (''failed write-failed'', st, s1)
        else map_option (\<lambda>(ok, s2). (if ok then ''written'' else ''failed write-failed'', st, s2))
               (vis_py_stack_dump L M (the (stack_interp st)) (thread_head R) s1))"

definition vispython_dump_stacks ::
  "allocator \<Rightarrow> layout \<Rightarrow> guest_memory \<Rightarrow> request \<Rightarrow> int \<Rightarrow> caller \<Rightarrow> stack_state \<Rightarrow> dump_state \<Rightarrow>
     (int \<times> caller \<times> stack_state \<times> dump_state) option" where
  "vispython_dump_stacks E L M R cap c st s =
     (if \<not> lock_free R then (let (r, c') = vis_py_copy_out E ''busy'' cap c in Some (r, c', st, s))
      else map_option (\<lambda>(verdict, st', s'). let (r, c') = vis_py_copy_out E verdict cap c in (r, c', st', s'))
             (dump_verdict L M R st s))"
section \<open>Names\<close>

text \<open>How a character is shown.\<close>

definition shown :: "nat \<Rightarrow> bytes" where
  "shown ch = (if plain ch then [char_of ch] else escape_text ch)"

lemma length_escape_text [simp]: "length (escape_text ch) = 10"
  by (simp add: escape_text_def hex8_def)

lemma length_shown: "length (shown ch) \<le> 10"
  by (simp add: shown_def)

lemma length_concat_shown: "length (concat (map shown chs)) \<le> 10 * length chs"
proof (induction chs)
  case (Cons ch chs)
  then show ?case using length_shown [of ch] by simp
qed simp

text \<open>The buffer of 1001 bytes never cuts a character of the first hundred.\<close>

lemma name_loop_shown:
  "length out + 10 * length chs \<le> 1000 \<Longrightarrow>
     name_loop chs (length out) out = (length (out @ concat (map shown chs)), out @ concat (map shown chs))"
proof (induction chs arbitrary: out)
  case Nil
  then show ?case by simp
next
  case (Cons ch chs)
  show ?case
  proof (cases "plain ch")
    case True
    with Cons.IH [of "out @ [char_of ch]"] Cons.prems show ?thesis by (simp add: shown_def)
  next
    case False
    from Cons.prems have "snprintf_kept (1001 - length out) (escape_text ch) = escape_text ch" by simp
    with False Cons.IH [of "out @ escape_text ch"] Cons.prems show ?thesis by (simp add: shown_def)
  qed
qed

text \<open>Characters that can stand inside the quotes of a line.\<close>

definition printable :: "char \<Rightarrow> bool" where
  "printable c \<longleftrightarrow> (let n = of_char c :: nat in 32 \<le> n \<and> n \<le> 126 \<and> n \<noteq> 34)"

lemma of_char_small: "n < 256 \<Longrightarrow> (of_char (char_of (n :: nat)) :: nat) = n"
  by (simp add: of_char_of)

lemma printable_char_of: "32 \<le> n \<Longrightarrow> n \<le> 126 \<Longrightarrow> n \<noteq> 34 \<Longrightarrow> printable (char_of (n :: nat))"
  by (simp add: printable_def of_char_small Let_def del: of_char_of)

lemma printable_hex_digit: "d < 16 \<Longrightarrow> printable (hex_digit d)"
  unfolding hex_digit_def digit_char_def by (cases "d < 10") (auto intro!: printable_char_of)

lemma printable_shown: "c \<in> set (shown ch) \<Longrightarrow> printable c"
proof (cases "plain ch")
  case True
  then have "printable (char_of ch)" by (auto simp: plain_def intro!: printable_char_of)
  then show "c \<in> set (shown ch) \<Longrightarrow> printable c" using True by (simp add: shown_def)
next
  case False
  have "printable (CHR 0x5C)" "printable (CHR ''U'')" by (simp_all add: printable_def)
  then show "c \<in> set (shown ch) \<Longrightarrow> printable c"
    using False by (auto simp: shown_def escape_text_def hex8_def intro: printable_hex_digit)
qed

lemma length_unicode_read [simp]: "length (unicode_read kind n bs) = n"
  by (induction n arbitrary: bs) simp_all

lemma stack_name_cases:
  "fst (vis_py_stack_name L M a s) = ''???'' \<or>
     (\<exists>chs. length chs \<le> 100 \<and> fst (vis_py_stack_name L M a s) = concat (map shown chs))"
proof -
  have *: "snd (name_loop (unicode_read kind n bs) 0 []) = concat (map shown (unicode_read kind n bs))" if "n \<le> 100" for kind n bs
    using name_loop_shown [of "[]" "unicode_read kind n bs"] that by simp
  obtain header s1 where h: "vis_py_stack_read (text_at M) (unicode_size L) a s = (header, s1)" by fastforce
  show ?thesis
  proof (cases "\<exists>x. header = Some x \<and> x_is_unicode x \<and> x_length x \<ge> 0 \<and> x_kind x \<in> {1, 2, 4}")
    case False
    then show ?thesis by (cases header) (auto simp: vis_py_stack_name_def h Let_def)
  next
    case True
    then obtain x where x: "header = Some x" "x_is_unicode x" "\<not> x_length x < 0" "x_kind x \<in> {1, 2, 4}" by auto
    obtain chars s2 where c: "vis_py_stack_read (\<lambda>t a. bytes_at M t a (name_length x * x_kind x)) (name_length x * x_kind x)
        (name_data L a x) s1 = (chars, s2)" by fastforce
    have n: "name_length x \<le> 100" by (auto simp: name_length_def)
    have "fst (vis_py_stack_name L M a s) = (case chars of None \<Rightarrow> ''???''
        | Some bs \<Rightarrow> snd (name_loop (unicode_read (x_kind x) (name_length x) bs) 0 []))"
      using x c by (cases chars) (auto simp: vis_py_stack_name_def h)
    then show ?thesis
      using * [OF n] n by (cases chars) (auto intro: exI [where x = "unicode_read (x_kind x) (name_length x) _"])
  qed
qed

lemma stack_name_bounds:
  "length (fst (vis_py_stack_name L M a s)) \<le> 1000 \<and> (\<forall>c \<in> set (fst (vis_py_stack_name L M a s)). printable c)"
  using stack_name_cases [of L M a s]
proof
  assume "fst (vis_py_stack_name L M a s) = ''???''"
  then show ?thesis by (simp add: printable_def)
next
  assume "\<exists>chs. length chs \<le> 100 \<and> fst (vis_py_stack_name L M a s) = concat (map shown chs)"
  then obtain chs where chs: "length chs \<le> 100" "fst (vis_py_stack_name L M a s) = concat (map shown chs)" by blast
  with length_concat_shown [of chs] printable_shown show ?thesis by fastforce
qed

section \<open>Lines\<close>

lemma bytecode_offset_range: "INT_MIN \<le> bytecode_offset L f \<and> bytecode_offset L f \<le> INT_MAX"
  by (auto simp: bytecode_offset_def Let_def INT_MIN_def INT_MAX_def)

text \<open>No name of the guest can break a line of the artifact.  The file name and the function name of a frame
  appear whole, at most 1000 printable characters each and none a quote, and the line of 2200 bytes that
  holds them with both numbers is never cut.
\<close>

theorem frame_line_is_whole:
  assumes "INT_MIN \<le> firstline" "firstline \<le> INT_MAX"
  shows "let filename = fst (vis_py_stack_name L M a s); name = fst (vis_py_stack_name L M b s') in
      frame_text filename firstline (bytecode_offset L f) name =
        ''  File '' @ quoted filename @ '', defined line '' @ show_int firstline
          @ '', bytecode offset '' @ show_int (bytecode_offset L f) @ '' in '' @ name @ [NEWLINE]
      \<and> (\<forall>c \<in> set filename \<union> set name. printable c) \<and> length filename \<le> 1000 \<and> length name \<le> 1000"
proof -
  have "\<bar>firstline\<bar> < 10 ^ Suc 9" "\<bar>bytecode_offset L f\<bar> < 10 ^ Suc 9"
    using assms bytecode_offset_range [of L f] by (auto simp: INT_MIN_def INT_MAX_def)
  from length_show_int [OF this(1)] length_show_int [OF this(2)]
    stack_name_bounds [of L M a s] stack_name_bounds [of L M b s']
  show ?thesis by (simp add: Let_def frame_text_def ball_Un)
qed

section \<open>Writing\<close>

lemma write_from_bounds:
  "write_from answers bs written = Some (ok, answers', written') \<Longrightarrow>
     \<exists>n \<le> length bs. written' = written @ take n bs \<and> (ok \<longrightarrow> n = length bs)"
proof (induction answers bs written rule: write_from.induct)
  case (4 n answers c cs written)
  then have n: "n \<noteq> 0 \<or> written' = written \<and> \<not> ok" by (auto split: if_splits)
  show ?case
  proof (cases "n = 0")
    case True
    with n show ?thesis by (intro exI [where x = 0]) auto
  next
    case False
    with "4.IH" "4.prems" obtain k where k: "k \<le> length (drop n (c # cs))"
      "written' = (written @ take n (c # cs)) @ take k (drop n (c # cs))" "ok \<longrightarrow> k = length (drop n (c # cs))" by auto
    then have "written' = written @ take (n + k) (c # cs)" by (simp add: take_add)
    then show ?thesis using k by (intro exI [where x = "min (n + k) (length (c # cs))"]) (auto simp: min_def)
  qed
qed (auto split: if_splits)

lemma stack_write_bounds:
  "vis_py_stack_write bs s = Some (ok, s') \<Longrightarrow>
     reads s' = reads s \<and> (\<exists>n \<le> length bs. artifact s' = artifact s @ take n bs)"
  using write_from_bounds [of "write_answers s" bs "artifact s" ok]
  by (auto simp: vis_py_stack_write_def)

lemma stack_read_bounds: "vis_py_stack_read copy w a s = (r, s') \<Longrightarrow>
    reads s \<le> reads s' \<and> reads s' \<le> reads s + 1 \<and> artifact s' = artifact s \<and> write_answers s' = write_answers s"
  by (auto simp: vis_py_stack_read_def split: if_splits)

text \<open>\<open>stays n k s s'\<close>: at most \<open>n\<close> reads were made and at most \<open>k\<close> bytes written, all behind what was there.\<close>

definition stays :: "nat \<Rightarrow> nat \<Rightarrow> dump_state \<Rightarrow> dump_state \<Rightarrow> bool" where
  "stays n k s s' \<longleftrightarrow> reads s' \<le> reads s + n \<and> (\<exists>t. artifact s' = artifact s @ t \<and> length t \<le> k)"

lemma stays_refl: "stays n k s s"
  by (simp add: stays_def)

lemma stays_trans: "stays n k s s1 \<Longrightarrow> stays m j s1 s2 \<Longrightarrow> n + m \<le> p \<Longrightarrow> k + j \<le> q \<Longrightarrow> stays p q s s2"
  unfolding stays_def by force

lemma stays_write: "vis_py_stack_write text s = Some (ok, s') \<Longrightarrow> length text \<le> k \<Longrightarrow> stays n k s s'"
  by (drule stack_write_bounds) (auto simp: stays_def)

lemma stays_read: "vis_py_stack_read copy w a s = (r, s') \<Longrightarrow> stays 1 0 s s'"
  by (drule stack_read_bounds) (simp add: stays_def)

lemma stays_name:
  assumes "vis_py_stack_name L M a s = (t, s')"
  shows "stays 2 0 s s' \<and> write_answers s' = write_answers s"
proof -
  obtain header s1 where h: "vis_py_stack_read (text_at M) (unicode_size L) a s = (header, s1)" by fastforce
  have 1: "stays 1 0 s s1" "write_answers s1 = write_answers s" using stays_read [OF h] stack_read_bounds [OF h] by simp_all
  show ?thesis
  proof (cases "s' = s1")
    case True
    with 1 show ?thesis by (auto simp: stays_def)
  next
    case False
    then obtain x r where "vis_py_stack_read (\<lambda>t a. bytes_at M t a (name_length x * x_kind x)) (name_length x * x_kind x)
        (name_data L a x) s1 = (r, s')"
      using assms by (auto simp: vis_py_stack_name_def h split: option.splits if_splits prod.splits)
    from stays_read [OF this] stack_read_bounds [OF this] 1 show ?thesis
      by (auto intro: stays_trans [of 1 0 s s1 1 0])
  qed
qed

section \<open>The dump is bounded\<close>

lemma frame_text_length: "length (frame_text a i j b) \<le> 2199"
  by (simp add: frame_text_def)

lemma thread_text_length: "length (thread_text t) \<le> 2199"
  by (simp add: thread_text_def)

lemma frame_line_bounds:
  assumes "frame_line L M frame s = ((line, onward), s')"
  shows "stays 6 0 s s' \<and> write_answers s' = write_answers s \<and> length line \<le> 2199"
proof -
  obtain sample s1 where 1: "vis_py_stack_read (frame_at M) (frame_size L) frame s = (sample, s1)" by fastforce
  note B1 = stays_read [OF 1] stack_read_bounds [OF 1]
  show ?thesis
  proof (cases sample)
    case None
    with assms 1 B1 show ?thesis by (auto simp: frame_line_def stays_def)
  next
    case (Some f)
    show ?thesis
    proof (cases "f_owner f = OWNED_BY_INTERPRETER L \<or> invalid_frame L f")
      case True
      with Some assms 1 B1 show ?thesis by (auto simp: frame_line_def stays_def split: if_splits)
    next
      case False
      obtain code s2 where 2: "vis_py_stack_read (code_at M) (code_offset L) (f_executable f) s1 = (code, s2)" by fastforce
      note B2 = stays_read [OF 2] stack_read_bounds [OF 2]
      show ?thesis
      proof (cases "\<exists>c. code = Some c \<and> c_is_code c")
        case no: False
        with Some False assms 1 2 B1 B2 show ?thesis
          by (auto simp: frame_line_def stays_def split: option.splits if_splits)
      next
        case True
        then obtain c where c: "code = Some c" "c_is_code c" by blast
        obtain filename s3 where 3: "vis_py_stack_name L M (c_filename c) s2 = (filename, s3)" by fastforce
        obtain name s4 where 4: "vis_py_stack_name L M (c_name c) s3 = (name, s4)" by fastforce
        have r: "line = frame_text filename (c_firstline c) (bytecode_offset L f) name" "s' = s4"
          using assms 1 Some False 2 c 3 4 by (auto simp: frame_line_def)
        have "stays 2 0 s s2" by (rule stays_trans [OF B1(1) B2(1)]) simp_all
        moreover have "stays 4 0 s2 s4"
          by (rule stays_trans [OF conjunct1 [OF stays_name [OF 3]] conjunct1 [OF stays_name [OF 4]]]) simp_all
        ultimately have "stays 6 0 s s4" by (rule stays_trans) simp_all
        with r B1 B2 stays_name [OF 3] stays_name [OF 4] frame_text_length show ?thesis by simp
      qed
    qed
  qed
qed

lemma dump_frames_bounds:
  "dump_frames L M n frame s = Some (ok, s') \<Longrightarrow> stays (6 * n) (2199 * n + 21) s s'"
proof (induction n arbitrary: frame s)
  case 0
  then show ?case
    by (cases "frame = 0") (auto simp: dump_frames.simps intro: stays_refl stays_write)
next
  case (Suc n)
  show ?case
  proof (cases "frame = 0")
    case True
    with Suc.prems show ?thesis by (auto simp: dump_frames.simps intro: stays_refl)
  next
    case False
    obtain line onward s1 where l: "frame_line L M frame s = ((line, onward), s1)" by (metis surj_pair)
    note B = frame_line_bounds [OF l]
    obtain ok1 s2 where w: "vis_py_stack_write line s1 = Some (ok1, s2)"
      using Suc.prems False l by (auto simp: dump_frames.simps split: bind_splits)
    have "stays 6 2199 s s2"
      using B stays_write [OF w, of 2199 0] by (auto intro: stays_trans [of 6 0 s s1 0 2199])
    moreover have "stays (6 * n) (2199 * n + 21) s2 s'"
      using Suc.prems False l w Suc.IH [of _ s2]
      by (auto simp: dump_frames.simps [of _ _ "Suc n"] intro: stays_refl split: if_splits option.splits)
    ultimately show ?thesis by (rule stays_trans) simp_all
  qed
qed

definition thread_bytes :: nat where
  "thread_bytes = 2199 + (2199 * 64 + 21)"

lemma dump_threads_bounds:
  "dump_threads L M interp n thread s = Some (ok, s') \<Longrightarrow> stays (385 * n) (thread_bytes * n + 27) s s'"
proof (induction n arbitrary: thread s)
  case 0
  then show ?case
    by (cases "thread = 0") (auto simp: dump_threads.simps intro: stays_refl stays_write)
next
  case (Suc n)
  show ?case
  proof (cases "thread = 0")
    case True
    with Suc.prems show ?thesis by (auto simp: dump_threads.simps intro: stays_refl)
  next
    case False
    obtain state s1 where r: "vis_py_stack_read (thread_at M) (thread_size L) thread s = (state, s1)" by fastforce
    note B = stays_read [OF r]
    show ?thesis
    proof (cases "\<exists>t. state = Some t \<and> t_interp t = interp")
      case no: False
      have "vis_py_stack_write (''<unavailable thread state>'' @ [NEWLINE]) s1 = Some (ok, s')"
        using Suc.prems \<open>thread \<noteq> 0\<close> r no by (auto simp: dump_threads.simps [of _ _ _ "Suc n"] split: option.splits if_splits)
      from stays_write [OF this, of 27 0] B show ?thesis
        by (auto intro: stays_trans [of 1 0 s s1 0 27])
    next
      case True
      then obtain t where t: "state = Some t" "t_interp t = interp" by blast
      obtain ok1 s2 where w: "vis_py_stack_write (thread_text (t_id t)) s1 = Some (ok1, s2)"
        using Suc.prems False r t by (auto simp: dump_threads.simps split: bind_splits)
      have 2: "stays 1 2199 s s2"
        using stays_write [OF w thread_text_length, of 0] B by (auto intro: stays_trans [of 1 0 s s1 0 2199])
      show ?thesis
      proof (cases ok1)
        case no: False
        with Suc.prems False r t w have "s' = s2" by (auto simp: dump_threads.simps)
        with 2 show ?thesis by (auto simp: thread_bytes_def intro: stays_trans [OF 2 stays_refl [of 0 0]])
      next
        case True
        obtain ok2 s3 where f: "dump_frames L M 64 (t_frame t) s2 = Some (ok2, s3)"
          using Suc.prems False r t w True by (auto simp: dump_threads.simps split: bind_splits)
        have 3: "stays 385 thread_bytes s s3"
          by (rule stays_trans [OF 2 dump_frames_bounds [OF f]]) (simp_all add: thread_bytes_def)
        have "stays (385 * n) (thread_bytes * n + 27) s3 s'"
          using Suc.prems False r t w True f Suc.IH [of _ s3]
          by (auto simp: dump_threads.simps [of _ _ _ "Suc n"] intro: stays_refl split: if_splits)
        with 3 show ?thesis by (rule stays_trans) simp_all
      qed
    qed
  qed
qed

section \<open>The dump ends\<close>

text \<open>A file that takes every line whole, at least \<open>n\<close> more times.\<close>

definition willing :: "nat \<Rightarrow> dump_state \<Rightarrow> bool" where
  "willing n s \<longleftrightarrow> n \<le> length (write_answers s) \<and> (\<forall>a \<in> set (write_answers s). \<exists>m \<ge> 2200. a = Done m)"

lemma willing_mono: "willing n s \<Longrightarrow> m \<le> n \<Longrightarrow> willing m s"
  by (simp add: willing_def)

lemma willing_write:
  assumes "willing (Suc n) s" "length bs \<le> 2200"
  shows "\<exists>s'. vis_py_stack_write bs s = Some (True, s') \<and> willing n s'"
proof (cases bs)
  case Nil
  with assms show ?thesis by (auto simp: vis_py_stack_write_def willing_def)
next
  case (Cons c cs)
  from assms(1) obtain m rest where a: "write_answers s = Done m # rest" "2200 \<le> m"
    by (cases "write_answers s") (auto simp: willing_def)
  with Cons assms have "write_from (write_answers s) bs (artifact s) = Some (True, rest, artifact s @ bs)" by simp
  with a assms(1) show ?thesis by (auto simp: vis_py_stack_write_def willing_def)
qed

lemma willing_same: "write_answers s' = write_answers s \<Longrightarrow> willing n s' = willing n s"
  by (simp add: willing_def)

lemma frames_end:
  "willing (n + 1 + k) s \<Longrightarrow> \<exists>s'. dump_frames L M n frame s = Some (True, s') \<and> willing k s'"
proof (induction n arbitrary: frame s)
  case 0
  show ?case
  proof (cases "frame = 0")
    case True
    with 0 willing_mono show ?thesis by (fastforce simp: dump_frames.simps)
  next
    case False
    with willing_write [of k s "''  <frames truncated>'' @ [NEWLINE]"] 0 show ?thesis by (simp add: dump_frames.simps)
  qed
next
  case (Suc n)
  show ?case
  proof (cases "frame = 0")
    case True
    with Suc.prems willing_mono show ?thesis by (fastforce simp: dump_frames.simps)
  next
    case False
    obtain line onward s1 where l: "frame_line L M frame s = ((line, onward), s1)" by (metis surj_pair)
    note B = frame_line_bounds [OF l]
    obtain s2 where w: "vis_py_stack_write line s1 = Some (True, s2)" "willing (n + 1 + k) s2"
      using willing_write [of "n + 1 + k" s1 line] B Suc.prems willing_same [of s1 s] by auto
    show ?thesis
    proof (cases onward)
      case None
      with False l w willing_mono [OF w(2), of k] show ?thesis by (simp add: dump_frames.simps)
    next
      case (Some previous)
      with False l w Suc.IH [OF w(2), of previous] show ?thesis by (simp add: dump_frames.simps [of _ _ "Suc n"])
    qed
  qed
qed

lemma threads_end:
  "willing (66 * n + 1 + k) s \<Longrightarrow> \<exists>s'. dump_threads L M interp n thread s = Some (True, s') \<and> willing k s'"
proof (induction n arbitrary: thread s)
  case 0
  show ?case
  proof (cases "thread = 0")
    case True
    with 0 willing_mono show ?thesis by (fastforce simp: dump_threads.simps)
  next
    case False
    with willing_write [of k s "''<threads truncated>'' @ [NEWLINE]"] 0 show ?thesis by (simp add: dump_threads.simps)
  qed
next
  case (Suc n)
  show ?case
  proof (cases "thread = 0")
    case True
    with Suc.prems willing_mono show ?thesis by (fastforce simp: dump_threads.simps)
  next
    case False
    obtain state s1 where r: "vis_py_stack_read (thread_at M) (thread_size L) thread s = (state, s1)" by fastforce
    have w1: "willing (66 * Suc n + 1 + k) s1" using stack_read_bounds [OF r] Suc.prems willing_same [of s1 s] by simp
    show ?thesis
    proof (cases "\<exists>t. state = Some t \<and> t_interp t = interp")
      case no: False
      then have "(case state of None \<Rightarrow> None | Some t \<Rightarrow> if t_interp t = interp then Some t else None) = None"
        by (auto split: option.splits)
      with False r willing_write [of k s1 "''<unavailable thread state>'' @ [NEWLINE]"] willing_mono [OF w1, of "Suc k"]
      show ?thesis by (simp add: dump_threads.simps)
    next
      case True
      then obtain t where t: "state = Some t" "t_interp t = interp" by blast
      obtain s2 where w: "vis_py_stack_write (thread_text (t_id t)) s1 = Some (True, s2)" "willing (64 + 1 + (66 * n + 1 + k)) s2"
        using willing_write [of "64 + 1 + (66 * n + 1 + k)" s1 "thread_text (t_id t)"] w1 thread_text_length [of "t_id t"]
        by (auto simp: add.commute add.left_commute)
      obtain s3 where f: "dump_frames L M 64 (t_frame t) s2 = Some (True, s3)" "willing (66 * n + 1 + k) s3"
        using frames_end [OF w(2)] by blast
      with Suc.IH [OF f(2), of "t_next t"] False r t w show ?thesis
        by (simp add: dump_threads.simps [of _ _ _ "Suc n"])
    qed
  qed
qed

text \<open>C38: A dump ends, whatever the guest's memory holds while it is read, cyclic lists of frames or threads
  included.  With a file that takes its lines, it answers success after at most 64 threads of 64 frames:
  no more than 24640 reads and 9150000 bytes, all of them behind what the file held.
\<close>

theorem stack_dump_ends:
  assumes "willing 4226 s"
  shows "\<exists>s'. vis_py_stack_dump L M interp head s = Some (True, s')
    \<and> reads s' \<le> reads s + 24640 \<and> (\<exists>t. artifact s' = artifact s @ t \<and> length t \<le> 9150000)"
proof -
  have h: "length dump_header \<le> 100" by (simp add: dump_header_def)
  obtain s1 where w: "vis_py_stack_write dump_header s = Some (True, s1)" "willing (66 * 64 + 1 + 0) s1"
    using willing_write [of 4225 s dump_header] assms h by auto
  obtain s' where t: "dump_threads L M interp 64 head s1 = Some (True, s')" using threads_end [OF w(2)] by blast
  have "stays 24640 9150000 s s'"
    by (rule stays_trans [OF stays_write [OF w(1) h, of 0] dump_threads_bounds [OF t]]) (simp_all add: thread_bytes_def)
  with w t show ?thesis by (auto simp: vis_py_stack_dump_def stays_def)
qed

text \<open>A memory in which every frame and every thread is its own successor.\<close>

definition cyclic_memory :: guest_memory where
  "cyclic_memory = \<lparr>thread_at = (\<lambda>_ _. Some \<lparr>t_interp = 5, t_frame = 32, t_id = 255, t_next = 16\<rparr>),
     frame_at = (\<lambda>_ _. Some \<lparr>f_owner = 3, f_tagged = False, f_executable = 48, f_instruction = 60, f_previous = 32\<rparr>),
     code_at = (\<lambda>_ _. None), text_at = (\<lambda>_ _. None), bytes_at = (\<lambda>_ _ _. None)\<rparr>"

definition sample_layout :: layout where
  "sample_layout = \<lparr>thread_size = 800, frame_size = 80, code_offset = 200, unicode_size = 64, ascii_size = 40,
     compact_size = 56, OWNED_BY_THREAD = 0, OWNED_BY_INTERPRETER = 3\<rparr>"

theorem stack_dump_ends_witness:
  "\<exists>s'. vis_py_stack_dump sample_layout cyclic_memory 5 16
       \<lparr>reads = 0, write_answers = replicate 4226 (Done 4096), artifact = []\<rparr> = Some (True, s')
     \<and> reads s' \<le> 24640 \<and> length (artifact s') \<le> 9150000"
  using stack_dump_ends [of "\<lparr>reads = 0, write_answers = replicate 4226 (Done 4096), artifact = []\<rparr>" sample_layout
      cyclic_memory 5 16]
  by (auto simp: willing_def)

definition fresh_dump :: dump_state where
  "fresh_dump = \<lparr>reads = 0, write_answers = [], artifact = []\<rparr>"

text \<open>A memory whose strings hold a quote, a backslash and a newline.\<close>

definition hostile_memory :: guest_memory where
  "hostile_memory = cyclic_memory\<lparr>
     text_at := (\<lambda>_ _. Some \<lparr>x_is_unicode = True, x_length = 4, x_kind = 1, x_compact = True, x_ascii = True, x_data = 0\<rparr>),
     bytes_at := (\<lambda>_ _ _. Some [34, 92, 10, 65])\<rparr>"

theorem frame_line_is_whole_witness:
  "list_all printable (fst (vis_py_stack_name sample_layout hostile_memory 8 fresh_dump))
   \<and> length (fst (vis_py_stack_name sample_layout hostile_memory 8 fresh_dump)) \<le> 1000"
  using frame_line_is_whole [of 7 sample_layout hostile_memory 8 fresh_dump 8 fresh_dump]
  by (simp add: Let_def INT_MIN_def INT_MAX_def ball_Un list_all_iff)

section \<open>Only its own file\<close>

text \<open>A dump touches no file but the one configured.  Unless the descriptor still names the file whose device
  and inode were recorded, nothing is written and a descriptor that names another file is given up; when the
  request is refused the file is as it was.
\<close>

theorem dump_touches_own_file_only:
  assumes "vispython_dump_stacks E L M R cap c st s = Some (r, c', st', s')"
  shows "(s' \<noteq> s \<longrightarrow> lock_free R \<and> vis_py_stack_owned (fstat_of R) st)
    \<and> (lock_free R \<and> \<not> vis_py_stack_owned (fstat_of R) st \<longrightarrow> stack_fd st' < 0)
    \<and> (lock_free R \<and> vis_py_stack_owned (fstat_of R) st \<or> \<not> lock_free R \<longrightarrow> st' = st)"
  using assms
  by (auto simp: vispython_dump_stacks_def dump_verdict_def Let_def vis_py_stack_owned_def
      split: if_splits prod.splits option.splits)

definition sample_request :: request where
  "sample_request = \<lparr>lock_free = True, fstat_of = (\<lambda>fd. if fd = 9 then Some (True, 1, 77) else None), probe_ok = True,
     opened = Some 9, main_interp = 5, thread_head = 16, truncated_ok = True, rewound_ok = True\<rparr>"

text \<open>Another file was put behind descriptor 9.\<close>

theorem dump_touches_own_file_only_witness:
  "\<exists>r c' st'. vispython_dump_stacks (\<lparr>malloc_ok = (\<lambda>_. True), pyalloc_ok = (\<lambda>_. True)\<rparr>) sample_layout cyclic_memory
       sample_request 0 \<lparr>out_buf = None, stash = None\<rparr>
       \<lparr>stack_fd = 9, stack_interp = Some 5, stack_identity = (True, 1, 76)\<rparr> fresh_dump = Some (r, c', st', fresh_dump)
     \<and> stack_fd st' < 0"
proof -
  let ?E = "\<lparr>malloc_ok = (\<lambda>_. True), pyalloc_ok = (\<lambda>_. True)\<rparr> :: allocator"
  let ?c = "\<lparr>out_buf = None, stash = None\<rparr>"
  let ?st = "\<lparr>stack_fd = 9, stack_interp = Some 5, stack_identity = (True, 1, 76)\<rparr> :: stack_state"
  have no: "\<not> vis_py_stack_owned (fstat_of sample_request) ?st" by (simp add: vis_py_stack_owned_def sample_request_def)
  have "\<exists>r c' st'. vispython_dump_stacks ?E sample_layout cyclic_memory sample_request 0 ?c ?st fresh_dump = Some (r, c', st', fresh_dump)"
    using no by (simp add: vispython_dump_stacks_def dump_verdict_def Let_def sample_request_def split: prod.splits)
  then obtain r c' st' where d:
    "vispython_dump_stacks ?E sample_layout cyclic_memory sample_request 0 ?c ?st fresh_dump = Some (r, c', st', fresh_dump)" by blast
  from dump_touches_own_file_only [OF d] no d show ?thesis by (auto simp: sample_request_def)
qed

text \<open>The artifact is configured once, before confinement.  A request that leaves a descriptor in place other
  than the one before was made after the start, before confinement, with none configured and an absolute
  path; the identity recorded is that of the file opened, so a regular one is owned from then on.
\<close>

theorem diagnostics_configured_once:
  assumes "vispython_stack_diagnostics E R started confined path cap c st = (r, c', st', closed)"
    and "stack_fd st' \<ge> 0" "st' \<noteq> st"
  shows "started \<and> \<not> confined \<and> stack_fd st < 0 \<and> lock_free R \<and> opened R = Some (stack_fd st')
    \<and> (\<exists>p. path = Some (CHR ''/'' # p)) \<and> stack_interp st' = Some (main_interp R)
    \<and> fstat_of R (stack_fd st') = Some (stack_identity st')
    \<and> (fst (stack_identity st') \<longrightarrow> vis_py_stack_owned (fstat_of R) st') \<and> closed = []"
proof -
  have l: "lock_free R"
    using assms by (cases "lock_free R") (auto simp: vispython_stack_diagnostics_def Let_def split: prod.splits)
  then have v: "diagnostics_verdict R started confined path st = (fst (diagnostics_verdict R started confined path st), st', closed)"
    using assms(1) by (auto simp: vispython_stack_diagnostics_def Let_def split: prod.splits)
  obtain p where p: "path = Some p" "p \<noteq> []" "hd p = CHR ''/''"
    using v assms(2,3) by (cases path) (auto simp: diagnostics_verdict_def split: if_splits)
  then obtain q where q: "path = Some (CHR ''/'' # q)" by (cases p) auto
  with v assms(2,3) l show ?thesis
    by (auto simp: diagnostics_verdict_def vis_py_stack_owned_def split: if_splits option.splits)
qed

theorem diagnostics_configured_once_witness:
  "\<exists>r c' st'. vispython_stack_diagnostics \<lparr>malloc_ok = (\<lambda>_. True), pyalloc_ok = (\<lambda>_. True)\<rparr> sample_request True False
       (Some ''/log/stacks'') 0 \<lparr>out_buf = None, stash = None\<rparr> initial_stack_state = (r, c', st', [])
     \<and> stack_identity st' = (True, 1, 77) \<and> vis_py_stack_owned (fstat_of sample_request) st'"
proof -
  let ?E = "\<lparr>malloc_ok = (\<lambda>_. True), pyalloc_ok = (\<lambda>_. True)\<rparr> :: allocator"
  let ?c = "\<lparr>out_buf = None, stash = None\<rparr>"
  let ?st = "\<lparr>stack_fd = 9, stack_interp = Some 5, stack_identity = (True, 1, 77)\<rparr> :: stack_state"
  have "\<exists>r c'. vispython_stack_diagnostics ?E sample_request True False (Some ''/log/stacks'') 0 ?c initial_stack_state = (r, c', ?st, [])"
    by (simp add: vispython_stack_diagnostics_def diagnostics_verdict_def sample_request_def initial_stack_state_def split: prod.splits)
  then obtain r c' where
    d: "vispython_stack_diagnostics ?E sample_request True False (Some ''/log/stacks'') 0 ?c initial_stack_state = (r, c', ?st, [])" by blast
  have "vis_py_stack_owned (fstat_of sample_request) ?st"
    using diagnostics_configured_once [OF d] by (simp add: initial_stack_state_def)
  with d show ?thesis by force
qed

end
