(* ===== verification/WinLaunch.thy ===== *)
theory WinLaunch
  imports JailSpawn "HOL-Library.List_Lexorder" "HOL-Library.Multiset"
begin

unbundle bit_operations_syntax

text \<open>
  The checks and encodings of the Windows jail in \<^verbatim>\<open>native/visjail/visjail_windows.c\<close> that decide what a
  confined process is started with: the names and paths it accepts, the command line and the environment
  block it builds, and the admission of a launch.  Win32 answers are parameters.
\<close>

section \<open>Wide strings\<close>

text \<open>UTF-16 code units; a string without its terminator.\<close>

type_synonym wstring = "nat list"

definition ascii :: "string \<Rightarrow> wstring" where
  "ascii s = map of_char s"

definition BACKSLASH :: nat where "BACKSLASH = 92"

definition QUOTE :: nat where "QUOTE = 34"

definition EQUALS :: nat where "EQUALS = 61"

text \<open>The folding of \<open>_wcsicmp\<close> and \<open>_wcsnicmp\<close> in the C locale.\<close>

definition wlower :: "wstring \<Rightarrow> wstring" where
  "wlower s = map (\<lambda>c. if 65 \<le> c \<and> c \<le> 90 then c + 32 else c) s"

definition same_text :: "wstring \<Rightarrow> wstring \<Rightarrow> bool" where
  "same_text a b \<longleftrightarrow> wlower a = wlower b"

definition join :: "wstring \<Rightarrow> wstring \<Rightarrow> wstring" where
  "join parent name = parent @ BACKSLASH # name"

section \<open>Names and paths\<close>

definition forbidden :: "nat \<Rightarrow> bool" where
  "forbidden c \<longleftrightarrow> c < 32 \<or> c \<in> set (ascii ''<>:'' @ [QUOTE] @ ascii ''/'' @ [BACKSLASH] @ ascii ''|?*'')"

text \<open>The first loop: up to the first dot, the base name in a buffer of 15 units; \<open>None\<close> on a forbidden unit.\<close>

fun scan_base :: "wstring \<Rightarrow> wstring \<Rightarrow> (wstring \<times> wstring) option" where
  "scan_base [] base = Some (base, [])"
| "scan_base (c # cs) base =
     (if forbidden c then None
      else if c = 46 then Some (base, c # cs)
      else scan_base cs (if length base < 15 then base @ [c] else base))"

definition device_base :: "wstring \<Rightarrow> bool" where
  "device_base base \<longleftrightarrow>
     (\<exists>d \<in> {''CON'', ''PRN'', ''AUX'', ''NUL'', ''CONIN$'', ''CONOUT$''}. same_text base (ascii d))
     \<or> (length base = 4 \<and> (same_text (take 3 base) (ascii ''COM'') \<or> same_text (take 3 base) (ascii ''LPT''))
        \<and> ((48 \<le> base ! 3 \<and> base ! 3 \<le> 57) \<or> base ! 3 = 185 \<or> base ! 3 = 178 \<or> base ! 3 = 179))"

definition component :: "wstring \<Rightarrow> bool" where
  "component name \<longleftrightarrow>
     (if name = [] \<or> last name = 46 \<or> last name = 32 then False
      else (case scan_base name [] of
              None \<Rightarrow> False
            | Some (base, rest) \<Rightarrow> if device_base base then False else \<not> list_ex forbidden rest))"

text \<open>The loop over the components; a trailing backslash is refused.\<close>

function relative_loop :: "wstring \<Rightarrow> bool" where
  "relative_loop at =
     (if \<not> component (takeWhile (\<lambda>c. c \<noteq> BACKSLASH) at) then False
      else (case dropWhile (\<lambda>c. c \<noteq> BACKSLASH) at of
              [] \<Rightarrow> True
            | _ # rest \<Rightarrow> if rest = [] then False else relative_loop rest))"
  by pat_completeness auto
termination
proof (relation "measure length")
  fix at x rest
  assume "dropWhile (\<lambda>c. c \<noteq> BACKSLASH) at = x # rest"
  then show "(rest, at) \<in> measure length"
    using length_dropWhile_le [of "\<lambda>c. c \<noteq> BACKSLASH" at] by simp
qed simp

declare relative_loop.simps [simp del]

definition relative_path :: "wstring option \<Rightarrow> bool" where
  "relative_path path = (case path of None \<Rightarrow> False | Some p \<Rightarrow> p \<noteq> [] \<and> relative_loop p)"

text \<open>The path as \<open>local_path\<close> leaves it, its slashes turned, and whether it names a fixed local drive.\<close>

definition turn_slashes :: "wstring \<Rightarrow> wstring" where
  "turn_slashes = map (\<lambda>c. if c = 47 then BACKSLASH else c)"

definition is_letter :: "nat \<Rightarrow> bool" where
  "is_letter c \<longleftrightarrow> (65 \<le> c \<and> c \<le> 90) \<or> (97 \<le> c \<and> c \<le> 122)"

definition local_path :: "(wstring \<Rightarrow> bool) \<Rightarrow> wstring option \<Rightarrow> wstring option" where
  "local_path drive_fixed path =
     (case path of
        None \<Rightarrow> None
      | Some p \<Rightarrow>
          if length p < 4 then None
          else
            let q = turn_slashes p in
            if \<not> is_letter (q ! 0) \<or> q ! 1 \<noteq> 58 \<or> q ! 2 \<noteq> BACKSLASH \<or> \<not> relative_path (Some (drop 3 q)) then None
            else if drive_fixed (take 3 q) then Some q else None)"

definition inside :: "wstring \<Rightarrow> wstring \<Rightarrow> bool" where
  "inside path directory \<longleftrightarrow>
     length path > length directory \<and> same_text (take (length directory) path) directory
     \<and> path ! length directory = BACKSLASH"

section \<open>The command line\<close>

text \<open>The body of a quoted argument: each round takes a run of backslashes and what follows it.\<close>

function quote_body :: "wstring \<Rightarrow> wstring" where
  "quote_body p =
     (let slashes = length (takeWhile (\<lambda>c. c = BACKSLASH) p) in
      case dropWhile (\<lambda>c. c = BACKSLASH) p of
        [] \<Rightarrow> replicate (2 * slashes) BACKSLASH
      | c # rest \<Rightarrow>
          if c = QUOTE then replicate (2 * slashes) BACKSLASH @ [BACKSLASH, c] @ quote_body rest
          else replicate slashes BACKSLASH @ [c] @ quote_body rest)"
  by pat_completeness auto
termination
proof (relation "measure length")
  fix p :: wstring and x :: nat and slashes c and rest :: wstring
  assume "dropWhile (\<lambda>c. c = BACKSLASH) p = c # rest"
  then show "(rest, p) \<in> measure length"
    using length_dropWhile_le [of "\<lambda>c. c = BACKSLASH" p] by simp
  then show "(rest, p) \<in> measure length" .
qed simp

declare quote_body.simps [simp del]

definition quote :: "wstring \<Rightarrow> wstring" where
  "quote a = QUOTE # quote_body a @ [QUOTE]"

fun quote_all :: "wstring list \<Rightarrow> wstring" where
  "quote_all [] = []"
| "quote_all [a] = quote a"
| "quote_all (a # b # rest) = quote a @ 32 # quote_all (b # rest)"

definition line_capacity :: "wstring list \<Rightarrow> nat" where
  "line_capacity args = 1 + sum_list (map (\<lambda>a. 2 * length a + 3) args)"

definition command_line :: "(nat \<Rightarrow> bool) \<Rightarrow> wstring list \<Rightarrow> wstring option" where
  "command_line alloc_ok args =
     (if line_capacity args > 32767 then None
      else if \<not> alloc_ok (line_capacity args) then None
      else Some (quote_all args))"

section \<open>The environment\<close>

definition key_of :: "wstring \<Rightarrow> wstring" where
  "key_of item = takeWhile (\<lambda>c. c \<noteq> EQUALS) item"

text \<open>An item needs a name before its first equals sign, and no earlier item may have that name.\<close>

fun items_ok :: "wstring list \<Rightarrow> wstring list \<Rightarrow> bool" where
  "items_ok seen [] = True"
| "items_ok seen (item # rest) =
     (if EQUALS \<notin> set item \<or> key_of item = [] then False
      else if \<exists>prior \<in> set seen. EQUALS \<in> set prior \<and> length (key_of prior) = length (key_of item)
           \<and> same_text (take (length (key_of item)) item) (take (length (key_of item)) prior) then False
      else items_ok (seen @ [item]) rest)"

definition environment_block :: "(nat \<Rightarrow> bool) \<Rightarrow> wstring list \<Rightarrow> wstring option" where
  "environment_block alloc_ok given =
     (let items = (if given = [[]] then [] else given) in
      if \<not> items_ok [] items then None
      else
        let sorted = sort_key wlower items in
        if \<not> alloc_ok (2 + sum_list (map (\<lambda>i. length i + 1) items)) then None
        else Some (concat (map (\<lambda>i. i @ [0]) sorted) @ [0, 0]))"

text \<open>Setting a variable: it takes the place of the first item that starts with its name, or comes last.\<close>

fun put_variable :: "wstring \<Rightarrow> wstring \<Rightarrow> wstring list \<Rightarrow> wstring list" where
  "put_variable key value_text [] = [key @ value_text]"
| "put_variable key value_text (item # rest) =
     (if same_text (take (length key) item) key then (key @ value_text) # rest
      else item # put_variable key value_text rest)"

definition private_environment :: "wstring \<Rightarrow> wstring \<Rightarrow> wstring list \<Rightarrow> wstring list" where
  "private_environment tmp system_root env =
     fold (\<lambda>(key, v) items. put_variable (ascii key) v items)
       [(''TEMP='', tmp), (''TMP='', tmp), (''SystemRoot='', system_root), (''LOCALAPPDATA='', tmp)] env"
section \<open>Admission of a launch\<close>

text \<open>The blobs of the host as wide strings: each piece up to its NUL through \<open>MultiByteToWideChar\<close>.\<close>

function wide_items :: "(bytes \<Rightarrow> wstring option) \<Rightarrow> bytes \<Rightarrow> wstring list option" where
  "wide_items utf16 rest =
     (if rest = [] then Some []
      else (case utf16 (cstr_of rest) of
              None \<Rightarrow> None
            | Some w \<Rightarrow> map_option (Cons w) (wide_items utf16 (drop (length (cstr_of rest) + 1) rest))))"
  by pat_completeness auto
termination by (relation "measure (length \<circ> snd)") auto

declare wide_items.simps [simp del]

definition decode_wide :: "(bytes \<Rightarrow> wstring option) \<Rightarrow> bytes option \<Rightarrow> int \<Rightarrow> wstring list option" where
  "decode_wide utf16 packed_text len =
     (case packed_text of
        None \<Rightarrow> None
      | Some b \<Rightarrow>
          if len < 1 \<or> b ! nat (len - 1) \<noteq> NUL then None else wide_items utf16 (take (nat len) b))"

text \<open>A context of the jail as a launch sees it.\<close>

record win_context =
  w_path :: wstring
  w_sealed :: bool
  w_poisoned :: bool

text \<open>What Win32 answers: the conversion to UTF-16, whether a drive is fixed, allocations, the two system
  directories (\<open>None\<close> when the call fails or the path is too long), and what comes of each pin of a launch, by its
  position: \<open>regular\<close> with the kind of object asked for and \<open>pin_handle\<close> keep a handle, get none, or close one
  again that is of another kind or has no memory for its pin.\<close>

datatype object_kind = Directory | SingleFile | LinkedFile

datatype pin_outcome = Pinned | NotOpened int | OpenedAndClosed int

record win32 =
  utf16 :: "bytes \<Rightarrow> wstring option"
  drive_fixed :: "wstring \<Rightarrow> bool"
  alloc_ok :: "nat \<Rightarrow> bool"
  windows_directory :: "wstring option"
  system_directory :: "wstring option"
  pin_result :: "nat \<Rightarrow> wstring \<Rightarrow> object_kind \<Rightarrow> pin_outcome"

definition flags_supported :: "int \<Rightarrow> bool" where
  "flags_supported flags \<longleftrightarrow> flags AND int VISJAIL_CONFINED \<noteq> 0 \<and> flags AND NOT 7 = 0"

text \<open>\<open>windows:<id>\<close> with a positive decimal number; \<open>strtol\<close> saturates.\<close>

definition context_of_profile :: "bytes option \<Rightarrow> int option" where
  "context_of_profile profile =
     (case profile of
        None \<Rightarrow> None
      | Some p \<Rightarrow>
          if take 8 p \<noteq> ''windows:'' \<or> length p \<le> 8 then None
          else if \<not> is_digit (p ! 8) \<or> p ! 8 = CHR ''0'' \<or> list_ex (\<lambda>c. \<not> is_digit c) (drop 8 p) then None
          else Some (min (int (digits_val (drop 8 p))) INT_MAX))"

definition private_directories :: "win_context \<Rightarrow> wstring list" where
  "private_directories c = [join (w_path c) (ascii ''work''), join (w_path c) (ascii ''tmp''), join (w_path c) (ascii ''app'')]"

definition launch_admitted :: "win_context \<Rightarrow> wstring \<Rightarrow> wstring \<Rightarrow> wstring \<Rightarrow> bool" where
  "launch_admitted c system program directory \<longleftrightarrow>
     (inside program (join (w_path c) (ascii ''app'')) \<or> inside program system)
     \<and> list_ex (\<lambda>d. same_text directory d \<or> inside directory d) (private_directories c)"

text \<open>The paths in front of the backslashes of \<open>rest\<close>, behind \<open>before\<close>.\<close>

fun parent_paths :: "wstring \<Rightarrow> wstring \<Rightarrow> wstring list" where
  "parent_paths before [] = []"
| "parent_paths before (c # rest) =
     (if c = BACKSLASH then before # parent_paths (before @ [c]) rest else parent_paths (before @ [c]) rest)"

text \<open>What a launch pins, in order: the ancestors of the directory and of the program, the directory, the program.\<close>

definition launch_pins :: "win_context \<Rightarrow> wstring \<Rightarrow> wstring \<Rightarrow> (wstring \<times> object_kind) list" where
  "launch_pins c program directory =
     map (\<lambda>p. (p, Directory)) (parent_paths (take 3 directory) (drop 3 directory) @ parent_paths (take 3 program) (drop 3 program))
     @ [(directory, Directory), (program, if inside program (join (w_path c) (ascii ''app'')) then SingleFile else LinkedFile)]"

definition pin_outcomes :: "win32 \<Rightarrow> (wstring \<times> object_kind) list \<Rightarrow> pin_outcome list" where
  "pin_outcomes K pins = map (\<lambda>(i, p, kind). pin_result K i p kind) (enumerate 0 pins)"

definition launch_pinned :: "win32 \<Rightarrow> win_context \<Rightarrow> wstring \<Rightarrow> wstring \<Rightarrow> bool" where
  "launch_pinned K c program directory \<longleftrightarrow> list_all (\<lambda>x. x = Pinned) (pin_outcomes K (launch_pins c program directory))"

text \<open>What \<open>CreateProcessW\<close> is given.\<close>

record launch =
  l_program :: wstring
  l_line :: wstring
  l_block :: wstring
  l_directory :: wstring

text \<open>The spawn up to its pins; \<open>None\<close> for every refusal.  The first block sorts the items in place, so the variables
  are set in the sorted ones.\<close>

definition admit_launch ::
  "win32 \<Rightarrow> (int \<Rightarrow> win_context option) \<Rightarrow> bytes option \<Rightarrow> int \<Rightarrow> bytes option \<Rightarrow> int \<Rightarrow> bytes option \<Rightarrow> bytes option \<Rightarrow>
     int \<Rightarrow> int \<Rightarrow> int \<Rightarrow> (win_context \<times> launch) option" where
  "admit_launch K contexts argv_blob argv_len env_blob env_len cwd profile flags proxy_port inbound_port =
     (if \<not> flags_supported flags \<or> proxy_port \<noteq> 0 \<or> inbound_port \<noteq> 0 then None
      else
        (case (context_of_profile profile, decode_wide (utf16 K) argv_blob argv_len, decode_wide (utf16 K) env_blob env_len) of
           (Some number, Some (arg0 # args), Some env) \<Rightarrow>
             (case local_path (drive_fixed K) (Some arg0) of
                None \<Rightarrow> None
              | Some program \<Rightarrow>
                  (case (command_line (alloc_ok K) (program # args), environment_block (alloc_ok K) env,
                         local_path (drive_fixed K) (Option.bind cwd (utf16 K)), contexts number) of
                     (Some line, Some _, Some directory, Some c) \<Rightarrow>
                       if \<not> w_sealed c \<or> w_poisoned c then None
                       else
                         (case (windows_directory K, system_directory K) of
                            (Some root, Some system) \<Rightarrow>
                              (case environment_block (alloc_ok K)
                                  (private_environment (join (w_path c) (ascii ''tmp'')) root
                                     (if env = [[]] then [] else sort_key wlower env)) of
                                 None \<Rightarrow> None
                               | Some block \<Rightarrow>
                                   if launch_admitted c system program directory
                                   then Some (c, \<lparr>l_program = program, l_line = line, l_block = block, l_directory = directory\<rparr>)
                                   else None)
                          | _ \<Rightarrow> None)
                   | _ \<Rightarrow> None))
         | _ \<Rightarrow> None))"

text \<open>With its pins: what a spawn has before its pipes.\<close>

definition prepare_launch ::
  "win32 \<Rightarrow> (int \<Rightarrow> win_context option) \<Rightarrow> bytes option \<Rightarrow> int \<Rightarrow> bytes option \<Rightarrow> int \<Rightarrow> bytes option \<Rightarrow> bytes option \<Rightarrow>
     int \<Rightarrow> int \<Rightarrow> int \<Rightarrow> launch option" where
  "prepare_launch K contexts argv_blob argv_len env_blob env_len cwd profile flags proxy_port inbound_port =
     (case admit_launch K contexts argv_blob argv_len env_blob env_len cwd profile flags proxy_port inbound_port of
        Some (c, l) \<Rightarrow> if launch_pinned K c (l_program l) (l_directory l) then Some l else None
      | None \<Rightarrow> None)"

section \<open>How a program reads its command line\<close>

text \<open>
  The rules Microsoft documents for the C run-time library.  The program name is taken up to its closing quote as
  it is; in the other arguments a run of backslashes before a quote counts half, an odd one makes the quote a
  character, and two quotes inside quotes are one.
\<close>

definition blank :: "nat \<Rightarrow> bool" where
  "blank c \<longleftrightarrow> c = 32 \<or> c = 9"

lemma dropWhile_Cons_less: "dropWhile P p = c # rest \<Longrightarrow> length rest < length p"
  using length_dropWhile_le [of P p] by simp

function crt_arg :: "bool \<Rightarrow> wstring \<Rightarrow> wstring \<Rightarrow> wstring \<times> wstring" where
  "crt_arg quoting p acc =
     (let n = length (takeWhile (\<lambda>c. c = BACKSLASH) p) in
      case dropWhile (\<lambda>c. c = BACKSLASH) p of
        [] \<Rightarrow> (acc @ replicate n BACKSLASH, [])
      | c # rest \<Rightarrow>
          if c = QUOTE then
            if odd n then crt_arg quoting rest (acc @ replicate (n div 2) BACKSLASH @ [QUOTE])
            else if quoting \<and> rest \<noteq> [] \<and> hd rest = QUOTE
            then crt_arg quoting (tl rest) (acc @ replicate (n div 2) BACKSLASH @ [QUOTE])
            else crt_arg (\<not> quoting) rest (acc @ replicate (n div 2) BACKSLASH)
          else if \<not> quoting \<and> blank c then (acc @ replicate n BACKSLASH, c # rest)
          else crt_arg quoting rest (acc @ replicate n BACKSLASH @ [c]))"
  by pat_completeness auto
termination
  by (relation "measure (\<lambda>(quoting, p, acc). length p)") (auto dest!: dropWhile_Cons_less)

declare crt_arg.simps [simp del]

text \<open>The rest of the line, with at most one argument per unit of its length.\<close>

fun crt_args :: "nat \<Rightarrow> wstring \<Rightarrow> wstring list" where
  "crt_args 0 p = []"
| "crt_args (Suc n) p =
     (let q = dropWhile blank p in
      if q = [] then [] else (let (a, rest) = crt_arg False q [] in a # crt_args n rest))"

definition crt_argv :: "wstring \<Rightarrow> wstring list" where
  "crt_argv line =
     (if line \<noteq> [] \<and> hd line = QUOTE
      then takeWhile (\<lambda>c. c \<noteq> QUOTE) (tl line) # crt_args (length line) (drop 1 (dropWhile (\<lambda>c. c \<noteq> QUOTE) (tl line)))
      else takeWhile (\<lambda>c. \<not> blank c) line # crt_args (length line) (dropWhile (\<lambda>c. \<not> blank c) line))"
section \<open>Lemmas on the command line\<close>

lemma slash_run:
  "c \<noteq> BACKSLASH \<Longrightarrow> takeWhile (\<lambda>c. c = BACKSLASH) (replicate k BACKSLASH @ c # r) = replicate k BACKSLASH"
  "c \<noteq> BACKSLASH \<Longrightarrow> dropWhile (\<lambda>c. c = BACKSLASH) (replicate k BACKSLASH @ c # r) = c # r"
  by (induction k) simp_all

lemma quote_not_slash [simp]: "QUOTE \<noteq> BACKSLASH" "BACKSLASH \<noteq> QUOTE"
  by (simp_all add: QUOTE_def BACKSLASH_def)

lemma slash_split:
  obtains k rest where "p = replicate k BACKSLASH @ rest" "length (takeWhile (\<lambda>c. c = BACKSLASH) p) = k"
    "dropWhile (\<lambda>c. c = BACKSLASH) p = rest" "rest = [] \<or> hd rest \<noteq> BACKSLASH"
proof
  show "p = replicate (length (takeWhile (\<lambda>c. c = BACKSLASH) p)) BACKSLASH @ dropWhile (\<lambda>c. c = BACKSLASH) p"
    by (induction p) auto
  show "dropWhile (\<lambda>c. c = BACKSLASH) p = [] \<or> hd (dropWhile (\<lambda>c. c = BACKSLASH) p) \<noteq> BACKSLASH"
    by (induction p) auto
qed simp_all

text \<open>What a run of backslashes becomes, by what follows it.\<close>

lemma crt_arg_quote:
  "crt_arg quoting (replicate k BACKSLASH @ QUOTE # r) acc =
     (if odd k then crt_arg quoting r (acc @ replicate (k div 2) BACKSLASH @ [QUOTE])
      else if quoting \<and> r \<noteq> [] \<and> hd r = QUOTE then crt_arg quoting (tl r) (acc @ replicate (k div 2) BACKSLASH @ [QUOTE])
      else crt_arg (\<not> quoting) r (acc @ replicate (k div 2) BACKSLASH))"
  by (subst crt_arg.simps) (simp add: slash_run)

lemma crt_arg_char:
  "c \<noteq> QUOTE \<Longrightarrow> c \<noteq> BACKSLASH \<Longrightarrow> quoting \<or> \<not> blank c \<Longrightarrow>
     crt_arg quoting (replicate k BACKSLASH @ c # r) acc = crt_arg quoting r (acc @ replicate k BACKSLASH @ [c])"
  by (subst crt_arg.simps) (auto simp: slash_run)

lemma crt_arg_end:
  "crt_arg False [] acc = (acc, [])" "blank c \<Longrightarrow> crt_arg False (c # r) acc = (acc, c # r)"
  by (subst crt_arg.simps, auto simp: blank_def BACKSLASH_def QUOTE_def)+

text \<open>A quoted argument is read back, whatever it holds.\<close>

lemma crt_arg_body:
  "r = [] \<or> hd r \<noteq> QUOTE \<Longrightarrow> crt_arg True (quote_body a @ QUOTE # r) acc = crt_arg False r (acc @ a)"
proof (induction a arbitrary: acc rule: quote_body.induct)
  case (1 p)
  obtain k rest where p: "p = replicate k BACKSLASH @ rest" "length (takeWhile (\<lambda>c. c = BACKSLASH) p) = k"
    "dropWhile (\<lambda>c. c = BACKSLASH) p = rest" "rest = [] \<or> hd rest \<noteq> BACKSLASH" by (rule slash_split)
  show ?case
  proof (cases rest)
    case Nil
    with p have "quote_body p = replicate (2 * k) BACKSLASH" by (subst quote_body.simps) simp
    with Nil p 1(3) show ?thesis by (auto simp: crt_arg_quote)
  next
    case (Cons c cs)
    show ?thesis
    proof (cases "c = QUOTE")
      case True
      with Cons p have "quote_body p = replicate (2 * k) BACKSLASH @ [BACKSLASH, QUOTE] @ quote_body cs"
        by (subst quote_body.simps) simp
      then have "quote_body p @ QUOTE # r = replicate (Suc (2 * k)) BACKSLASH @ QUOTE # (quote_body cs @ QUOTE # r)"
        by (simp add: replicate_app_Cons_same)
      moreover have "crt_arg True (quote_body cs @ QUOTE # r) (acc @ replicate k BACKSLASH @ [QUOTE])
          = crt_arg False r ((acc @ replicate k BACKSLASH @ [QUOTE]) @ cs)"
        by (rule "1.IH"(1) [OF refl]) (use Cons p True 1(3) in simp_all)
      ultimately show ?thesis using Cons True p(1) by (simp add: crt_arg_quote del: replicate_Suc)
    next
      case False
      with Cons p have "quote_body p = replicate k BACKSLASH @ [c] @ quote_body cs" by (subst quote_body.simps) simp
      moreover have "crt_arg True (quote_body cs @ QUOTE # r) (acc @ replicate k BACKSLASH @ [c])
          = crt_arg False r ((acc @ replicate k BACKSLASH @ [c]) @ cs)"
        by (rule "1.IH"(2) [OF refl]) (use Cons p False 1(3) in simp_all)
      ultimately show ?thesis using Cons False p by (simp add: crt_arg_char)
    qed
  qed
qed

definition quote_rest :: "wstring list \<Rightarrow> wstring" where
  "quote_rest args = concat (map (\<lambda>a. 32 # quote a) args)"

lemma quote_all_Cons: "quote_all (a # args) = quote a @ quote_rest args"
  by (induction args arbitrary: a) (simp_all add: quote_rest_def)

lemma quote_rest_start: "quote_rest args = [] \<or> hd (quote_rest args) = 32"
  by (cases args) (simp_all add: quote_rest_def)

lemma crt_args_rest: "length args \<le> n \<Longrightarrow> crt_args n (quote_rest args) = args"
proof (induction args arbitrary: n)
  case Nil
  then show ?case by (cases n) (simp_all add: quote_rest_def)
next
  case (Cons a args)
  then obtain m where m: "n = Suc m" "length args \<le> m" by (cases n) auto
  have s: "quote_rest args = [] \<or> hd (quote_rest args) \<noteq> QUOTE"
    using quote_rest_start [of args] by (auto simp: QUOTE_def)
  have "dropWhile blank (quote_rest (a # args)) = QUOTE # quote_body a @ QUOTE # quote_rest args"
    by (simp add: quote_rest_def quote_def blank_def QUOTE_def)
  moreover have "crt_arg False (QUOTE # quote_body a @ QUOTE # quote_rest args) [] = (a, quote_rest args)"
  proof -
    have "crt_arg False (QUOTE # quote_body a @ QUOTE # quote_rest args) [] = crt_arg False (quote_rest args) a"
      using crt_arg_quote [of False 0 "quote_body a @ QUOTE # quote_rest args" "[]"] crt_arg_body [OF s, of a "[]"] by simp
    also have "\<dots> = (a, quote_rest args)"
      using quote_rest_start [of args] by (cases "quote_rest args") (auto simp: crt_arg_end blank_def)
    finally show ?thesis .
  qed
  ultimately show ?case using m Cons.IH [OF m(2)] by simp
qed

text \<open>A program name without quotes and without a backslash at its end is quoted as it is.\<close>

lemma quote_body_plain: "QUOTE \<notin> set a \<Longrightarrow> a = [] \<or> last a \<noteq> BACKSLASH \<Longrightarrow> quote_body a = a"
proof (induction a rule: quote_body.induct)
  case (1 p)
  obtain k rest where p: "p = replicate k BACKSLASH @ rest" "length (takeWhile (\<lambda>c. c = BACKSLASH) p) = k"
    "dropWhile (\<lambda>c. c = BACKSLASH) p = rest" "rest = [] \<or> hd rest \<noteq> BACKSLASH" by (rule slash_split)
  show ?case
  proof (cases rest)
    case Nil
    with p(1) 1(4) have "k = 0" by (metis append_Nil2 last_replicate replicate_empty)
    with Nil p show ?thesis by (subst quote_body.simps) simp
  next
    case (Cons c cs)
    with p(1) 1(3) have c: "c \<noteq> QUOTE" by auto
    have "quote_body cs = cs"
      by (rule "1.IH"(2) [OF refl]) (use Cons c p 1(3,4) in \<open>auto split: if_splits\<close>)
    with Cons c p show ?thesis by (subst quote_body.simps) simp
  qed
qed

lemma crt_argv_line:
  assumes "QUOTE \<notin> set a" "a = [] \<or> last a \<noteq> BACKSLASH"
  shows "crt_argv (quote_all (a # args)) = a # args"
proof -
  let ?line = "quote_all (a # args)"
  have l: "?line = QUOTE # a @ QUOTE # quote_rest args"
    using quote_body_plain [OF assms] by (simp add: quote_all_Cons quote_def)
  have "takeWhile (\<lambda>c. c \<noteq> QUOTE) (a @ QUOTE # quote_rest args) = a" "dropWhile (\<lambda>c. c \<noteq> QUOTE) (a @ QUOTE # quote_rest args) = QUOTE # quote_rest args"
    using assms(1) by (induction a) auto
  moreover have "length args \<le> length (quote_rest args)"
    by (induction args) (simp_all add: quote_rest_def)
  ultimately show ?thesis by (simp add: crt_argv_def l crt_args_rest del: crt_args.simps)
qed

lemma length_quote_body: "length (quote_body a) \<le> 2 * length a"
proof (induction a rule: quote_body.induct)
  case (1 p)
  obtain k rest where p: "p = replicate k BACKSLASH @ rest" "length (takeWhile (\<lambda>c. c = BACKSLASH) p) = k"
    "dropWhile (\<lambda>c. c = BACKSLASH) p = rest" "rest = [] \<or> hd rest \<noteq> BACKSLASH" by (rule slash_split)
  show ?case
  proof (cases rest)
    case Nil
    with p show ?thesis by (subst quote_body.simps) simp
  next
    case (Cons c cs)
    with p have "c = QUOTE \<Longrightarrow> length (quote_body cs) \<le> 2 * length cs" "c \<noteq> QUOTE \<Longrightarrow> length (quote_body cs) \<le> 2 * length cs"
      using "1.IH"(1) [OF refl, of c cs] "1.IH"(2) [OF refl, of c cs] by simp_all
    with Cons p show ?thesis by (subst quote_body.simps) (auto simp: p(1))
  qed
qed

lemma length_quote_all: "length (quote_all args) < line_capacity args"
proof (induction args rule: quote_all.induct)
  case (2 a)
  then show ?case using length_quote_body [of a] by (simp add: line_capacity_def quote_def)
next
  case (3 a b rest)
  then show ?case using length_quote_body [of a] by (simp add: line_capacity_def quote_def)
qed (simp add: line_capacity_def)
section \<open>Lemmas on paths\<close>

text \<open>The pieces of a path between its backslashes.\<close>

fun segments :: "wstring \<Rightarrow> wstring list" where
  "segments [] = [[]]"
| "segments (c # cs) = (if c = BACKSLASH then [] # segments cs else (c # hd (segments cs)) # tl (segments cs))"

lemma segments_step:
  "segments p = takeWhile (\<lambda>c. c \<noteq> BACKSLASH) p #
     (case dropWhile (\<lambda>c. c \<noteq> BACKSLASH) p of [] \<Rightarrow> [] | _ # rest \<Rightarrow> segments rest)"
  by (induction p) auto

lemma relative_loop_iff: "relative_loop p \<longleftrightarrow> (\<forall>s \<in> set (segments p). component s)"
proof (induction p rule: relative_loop.induct)
  case (1 p)
  show ?case
  proof (cases "dropWhile (\<lambda>c. c \<noteq> BACKSLASH) p")
    case Nil
    have "segments p = [takeWhile (\<lambda>c. c \<noteq> BACKSLASH) p]"
      using segments_step [of p] by (simp only: Nil list.case)
    moreover have "relative_loop p = component (takeWhile (\<lambda>c. c \<noteq> BACKSLASH) p)"
      by (subst relative_loop.simps) (simp only: Nil list.case, simp)
    ultimately show ?thesis by simp
  next
    case (Cons c rest)
    have e: "\<not> component []" by (simp add: component_def)
    show ?thesis
    proof (cases "component (takeWhile (\<lambda>c. c \<noteq> BACKSLASH) p) \<and> rest \<noteq> []")
      case True
      with Cons 1 show ?thesis by (subst relative_loop.simps, subst segments_step) auto
    next
      case False
      with Cons e show ?thesis by (subst relative_loop.simps, subst segments_step) auto
    qed
  qed
qed

text \<open>A name of the list of devices, with whatever extension, in whatever case.\<close>

definition plain_name :: "wstring \<Rightarrow> bool" where
  "plain_name s \<longleftrightarrow> s \<noteq> [] \<and> s \<noteq> ascii ''.'' \<and> s \<noteq> ascii ''..'' \<and> last s \<noteq> 46 \<and> last s \<noteq> 32 \<and> \<not> list_ex forbidden s
     \<and> \<not> device_base (take 15 (takeWhile (\<lambda>c. c \<noteq> 46) s))"

lemma scan_base_spec:
  "scan_base s base = Some (b, rest) \<Longrightarrow> length base \<le> 15 \<Longrightarrow>
     s = takeWhile (\<lambda>c. c \<noteq> 46) s @ rest \<and> \<not> list_ex forbidden (takeWhile (\<lambda>c. c \<noteq> 46) s)
     \<and> b = take 15 (base @ takeWhile (\<lambda>c. c \<noteq> 46) s)"
proof (induction s base rule: scan_base.induct)
  case (2 c cs base)
  then show ?case by (cases "length base < 15") (auto split: if_splits)
qed simp

lemma component_plain: "component s \<Longrightarrow> plain_name s"
proof -
  assume c: "component s"
  then obtain b rest where s: "scan_base s [] = Some (b, rest)" "\<not> device_base b" "\<not> list_ex forbidden rest"
    by (auto simp: component_def split: if_splits option.splits)
  note S = scan_base_spec [OF s(1)]
  have "\<not> list_ex forbidden s" using S s(3) by (metis list_ex_append list.size(3) zero_le)
  with c S s(2) show "plain_name s" by (auto simp: plain_name_def component_def ascii_def)
qed

text \<open>The characters of a path that passed.\<close>

lemma set_segments: "c \<in> set p \<Longrightarrow> c = BACKSLASH \<or> (\<exists>s \<in> set (segments p). c \<in> set s)"
proof (induction p)
  case (Cons x p)
  have "segments p \<noteq> []" by (subst segments_step) simp
  with Cons show ?case by (cases "segments p") auto
qed simp

lemma last_segments: "p \<noteq> [] \<Longrightarrow> last p = BACKSLASH \<Longrightarrow> tl (segments p) \<noteq> [] \<and> last (segments p) = []"
proof (induction p)
  case (Cons x p)
  have "segments p \<noteq> []" by (subst segments_step) simp
  with Cons show ?case by (cases "p = []"; cases "segments p") auto
qed simp

definition plain_path :: "wstring \<Rightarrow> bool" where
  "plain_path p \<longleftrightarrow> length p > 3 \<and> is_letter (p ! 0) \<and> p ! 1 = 58 \<and> p ! 2 = BACKSLASH
     \<and> list_all plain_name (segments (drop 3 p))"

lemma local_path_plain: "local_path fixed (Some p) = Some q \<Longrightarrow> plain_path q \<and> length q = length p"
  by (auto simp: local_path_def Let_def relative_path_def relative_loop_iff plain_path_def list_all_iff turn_slashes_def
      component_plain split: if_splits)

lemma forbidden_quote: "forbidden QUOTE"
  by (simp add: forbidden_def)

lemma plain_path_quotes: assumes "plain_path p" shows "QUOTE \<notin> set p \<and> last p \<noteq> BACKSLASH"
proof -
  have l: "length p > 3" using assms by (simp add: plain_path_def)
  then have "p \<noteq> []" by auto
  with l obtain a b c r where p: "p = a # b # c # r" "r \<noteq> []"
    using that [of "p ! 0" "p ! 1" "p ! 2" "drop 3 p"] Cons_nth_drop_Suc [of 0 p] Cons_nth_drop_Suc [of 1 p] Cons_nth_drop_Suc [of 2 p]
    by (simp add: numeral_2_eq_2 numeral_3_eq_3)
  have r: "is_letter a" "b = 58" "c = BACKSLASH" "\<forall>s \<in> set (segments r). plain_name s"
    using assms unfolding plain_path_def p(1) by (simp_all add: list_all_iff)
  have "QUOTE \<notin> set r" using r(4) set_segments [of QUOTE r] forbidden_quote by (fastforce simp: plain_name_def list_ex_iff)
  moreover have "last r \<noteq> BACKSLASH"
  proof
    assume "last r = BACKSLASH"
    with last_segments [OF p(2)] have "[] \<in> set (segments r)" by (metis last_in_set list.sel(2))
    with r(4) show False by (auto simp: plain_name_def)
  qed
  moreover have "a \<noteq> QUOTE" "b \<noteq> QUOTE" "c \<noteq> QUOTE" using r(1-3) by (auto simp: is_letter_def QUOTE_def BACKSLASH_def)
  ultimately show ?thesis using p by simp
qed

section \<open>Lemmas on the environment\<close>

lemma items_ok_distinct:
  "items_ok seen items \<Longrightarrow> \<forall>i \<in> set seen. EQUALS \<in> set i \<Longrightarrow> distinct (map (wlower \<circ> key_of) seen) \<Longrightarrow>
     distinct (map (wlower \<circ> key_of) (seen @ items)) \<and> (\<forall>i \<in> set items. EQUALS \<in> set i \<and> key_of i \<noteq> [])"
proof (induction seen items rule: items_ok.induct)
  case (2 seen item rest)
  have t: "take (length (key_of i)) i = key_of i" for i
    by (metis key_of_def takeWhile_eq_take)
  have new: "wlower (key_of prior) \<noteq> wlower (key_of item)" if "prior \<in> set seen" for prior
  proof
    assume e: "wlower (key_of prior) = wlower (key_of item)"
    have l: "length (key_of prior) = length (key_of item)"
      using arg_cong [OF e, of length] by (simp add: wlower_def)
    then have "take (length (key_of item)) prior = key_of prior" using t [of prior] by (simp only: l)
    then have "same_text (take (length (key_of item)) item) (take (length (key_of item)) prior)"
      using e t [of item] by (simp add: same_text_def)
    moreover have "\<not> (\<exists>prior \<in> set seen. EQUALS \<in> set prior \<and> length (key_of prior) = length (key_of item)
        \<and> same_text (take (length (key_of item)) item) (take (length (key_of item)) prior))"
      using "2.prems"(1) by (simp only: items_ok.simps simp_thms split: if_splits)
    ultimately show False using l that "2.prems"(2) by blast
  qed
  have ok: "EQUALS \<in> set item" "key_of item \<noteq> []" "items_ok (seen @ [item]) rest"
    using "2.prems"(1) by (auto split: if_splits)
  have "distinct (map (wlower \<circ> key_of) ((seen @ [item]) @ rest)) \<and> (\<forall>i \<in> set rest. EQUALS \<in> set i \<and> key_of i \<noteq> [])"
  proof (rule "2.IH")
    show "\<not> (EQUALS \<notin> set item \<or> key_of item = [])" using ok by blast
    show "\<not> (\<exists>prior \<in> set seen. EQUALS \<in> set prior \<and> length (key_of prior) = length (key_of item)
        \<and> same_text (take (length (key_of item)) item) (take (length (key_of item)) prior))"
      using "2.prems"(1) by (simp only: items_ok.simps simp_thms split: if_splits)
    show "items_ok (seen @ [item]) rest" by (rule ok)
    show "\<forall>i \<in> set (seen @ [item]). EQUALS \<in> set i" using "2.prems"(2) ok by auto
    show "distinct (map (wlower \<circ> key_of) (seen @ [item]))"
      using "2.prems"(3) new by (fastforce simp: comp_def image_iff)
  qed
  with ok show ?case by (simp add: comp_def)
qed simp

lemma environment_block_spec:
  assumes "environment_block ok given = Some block" "given \<noteq> [[]]"
  shows "\<exists>items. block = concat (map (\<lambda>i. i @ [0]) items) @ [0, 0] \<and> mset items = mset given
    \<and> sorted (map wlower items) \<and> distinct (map (wlower \<circ> key_of) items) \<and> (\<forall>i \<in> set items. EQUALS \<in> set i \<and> key_of i \<noteq> [])"
proof -
  have i: "items_ok [] given" "block = concat (map (\<lambda>i. i @ [0]) (sort_key wlower given)) @ [0, 0]"
    using assms by (auto simp: environment_block_def Let_def split: if_splits)
  have d: "distinct (map (wlower \<circ> key_of) given)" "\<forall>i \<in> set given. EQUALS \<in> set i \<and> key_of i \<noteq> []"
    using items_ok_distinct [OF i(1)] by simp_all
  have "distinct (map (wlower \<circ> key_of) (sort_key wlower given))"
    using d(1) by (metis mset_eq_imp_distinct_iff mset_map mset_sort)
  with i d(2) show ?thesis by (intro exI [where x = "sort_key wlower given"]) simp
qed

lemma put_variable_has: "key @ v \<in> set (put_variable key v items)"
  by (induction items) auto

lemma put_variable_keeps: "i \<in> set items \<Longrightarrow> \<not> same_text (take (length key) i) key \<Longrightarrow> i \<in> set (put_variable key v items)"
  by (induction items) auto

definition forced_variables :: "wstring \<Rightarrow> wstring \<Rightarrow> wstring set" where
  "forced_variables tmp root = {ascii ''TEMP='' @ tmp, ascii ''TMP='' @ tmp, ascii ''SystemRoot='' @ root, ascii ''LOCALAPPDATA='' @ tmp}"

lemma private_environment_forced: "forced_variables tmp root \<subseteq> set (private_environment tmp root env)"
proof -
  let ?a = "put_variable (ascii ''TEMP='') tmp env"
  let ?b = "put_variable (ascii ''TMP='') tmp ?a"
  let ?c = "put_variable (ascii ''SystemRoot='') root ?b"
  have a: "ascii ''TEMP='' @ tmp \<in> set ?b" "ascii ''TMP='' @ tmp \<in> set ?b"
    by (rule put_variable_keeps [OF put_variable_has], simp add: same_text_def wlower_def ascii_def) (rule put_variable_has)
  have b: "ascii ''TEMP='' @ tmp \<in> set ?c" "ascii ''TMP='' @ tmp \<in> set ?c" "ascii ''SystemRoot='' @ root \<in> set ?c"
    by (rule put_variable_keeps [OF a(1)], simp add: same_text_def wlower_def ascii_def)
       (rule put_variable_keeps [OF a(2)], simp add: same_text_def wlower_def ascii_def, rule put_variable_has)
  have "ascii ''TEMP='' @ tmp \<in> set (put_variable (ascii ''LOCALAPPDATA='') tmp ?c)"
    by (rule put_variable_keeps [OF b(1)]) (simp add: same_text_def wlower_def ascii_def)
  moreover have "ascii ''TMP='' @ tmp \<in> set (put_variable (ascii ''LOCALAPPDATA='') tmp ?c)"
    by (rule put_variable_keeps [OF b(2)]) (simp add: same_text_def wlower_def ascii_def)
  moreover have "ascii ''SystemRoot='' @ root \<in> set (put_variable (ascii ''LOCALAPPDATA='') tmp ?c)"
    by (rule put_variable_keeps [OF b(3)]) (simp add: same_text_def wlower_def ascii_def)
  ultimately show ?thesis using put_variable_has [of "ascii ''LOCALAPPDATA=''" tmp ?c]
    by (simp add: forced_variables_def private_environment_def)
qed

section \<open>What a launch is given\<close>

lemma prepare_launchD:
  assumes "prepare_launch K contexts argv_blob argv_len env_blob env_len cwd profile flags proxy_port inbound_port = Some l"
  shows "\<exists>number arg0 args env given c root system.
      decode_wide (utf16 K) argv_blob argv_len = Some (arg0 # args) \<and> decode_wide (utf16 K) env_blob env_len = Some env
      \<and> local_path (drive_fixed K) (Some arg0) = Some (l_program l)
      \<and> command_line (alloc_ok K) (l_program l # args) = Some (l_line l)
      \<and> local_path (drive_fixed K) (Option.bind cwd (utf16 K)) = Some (l_directory l)
      \<and> contexts number = Some c \<and> w_sealed c \<and> \<not> w_poisoned c \<and> context_of_profile profile = Some number
      \<and> windows_directory K = Some root \<and> system_directory K = Some system
      \<and> environment_block (alloc_ok K)
          (private_environment (join (w_path c) (ascii ''tmp'')) root given) = Some (l_block l)
      \<and> launch_admitted c system (l_program l) (l_directory l) \<and> launch_pinned K c (l_program l) (l_directory l)"
proof -
  obtain c where c: "admit_launch K contexts argv_blob argv_len env_blob env_len cwd profile flags proxy_port inbound_port = Some (c, l)"
    "launch_pinned K c (l_program l) (l_directory l)"
    using assms by (auto simp: prepare_launch_def split: option.splits if_splits)
  from c(1) [unfolded admit_launch_def] c(2) show ?thesis
    by (simp split: if_splits option.splits prod.splits list.splits) auto
qed

text \<open>C15: A confined Windows program reads exactly the arguments it was given.  For every launch that is prepared,
  the documented rules of the C run-time library split its command line into the program and the arguments of
  the host, whatever quotes, backslashes and blanks they hold; the line fits the buffer it is built in, which
  is within the limit of the system.\<close>

theorem launched_program_reads_its_arguments:
  assumes "prepare_launch K contexts argv_blob argv_len env_blob env_len cwd profile flags proxy_port inbound_port = Some l"
    and "decode_wide (utf16 K) argv_blob argv_len = Some (arg0 # args)"
  shows "crt_argv (l_line l) = l_program l # args \<and> local_path (drive_fixed K) (Some arg0) = Some (l_program l)
    \<and> length (l_line l) < line_capacity (l_program l # args) \<and> line_capacity (l_program l # args) \<le> 32767"
proof -
  have d: "local_path (drive_fixed K) (Some arg0) = Some (l_program l)"
    "command_line (alloc_ok K) (l_program l # args) = Some (l_line l)"
    using prepare_launchD [OF assms(1)] assms(2) by auto
  then have "l_line l = quote_all (l_program l # args)" "line_capacity (l_program l # args) \<le> 32767"
    by (auto simp: command_line_def split: if_splits)
  moreover from d(1) have "QUOTE \<notin> set (l_program l)" "last (l_program l) \<noteq> BACKSLASH"
    using plain_path_quotes local_path_plain by blast+
  ultimately show ?thesis using crt_argv_line [of "l_program l" args] length_quote_all [of "l_program l # args"] d(1) by simp
qed

text \<open>C16: A confined Windows program is one of the application of its sealed context or of the system directory, and
  it works in the private directories of the context.  Program and directory are absolute paths all of whose names
  are plain: not empty, not dots, without wildcards, streams or quotes, and no device; the context is the one the
  profile names, sealed and not poisoned.\<close>

theorem launch_paths_are_admitted:
  assumes "prepare_launch K contexts argv_blob argv_len env_blob env_len cwd profile flags proxy_port inbound_port = Some l"
  shows "plain_path (l_program l) \<and> plain_path (l_directory l)
    \<and> (\<exists>number c system. contexts number = Some c \<and> context_of_profile profile = Some number \<and> w_sealed c \<and> \<not> w_poisoned c
         \<and> system_directory K = Some system
         \<and> (inside (l_program l) (join (w_path c) (ascii ''app'')) \<or> inside (l_program l) system)
         \<and> (\<exists>d \<in> {''work'', ''tmp'', ''app''}.
               same_text (l_directory l) (join (w_path c) (ascii d)) \<or> inside (l_directory l) (join (w_path c) (ascii d))))"
proof -
  obtain number arg0 args env c root system where D:
      "local_path (drive_fixed K) (Some arg0) = Some (l_program l)"
      "local_path (drive_fixed K) (Option.bind cwd (utf16 K)) = Some (l_directory l)"
      "contexts number = Some c" "context_of_profile profile = Some number" "w_sealed c" "\<not> w_poisoned c"
      "system_directory K = Some system" "launch_admitted c system (l_program l) (l_directory l)"
    using prepare_launchD [OF assms] by blast
  obtain w where w: "Option.bind cwd (utf16 K) = Some w" using D(2) by (cases "Option.bind cwd (utf16 K)") (auto simp: local_path_def)
  have "plain_path (l_program l)" "plain_path (l_directory l)" using D(1,2) w local_path_plain by metis+
  moreover have "inside (l_program l) (join (w_path c) (ascii ''app'')) \<or> inside (l_program l) system"
    using D(8) by (simp add: launch_admitted_def)
  moreover have "\<exists>d \<in> {''work'', ''tmp'', ''app''}.
      same_text (l_directory l) (join (w_path c) (ascii d)) \<or> inside (l_directory l) (join (w_path c) (ascii d))"
    using D(8) by (auto simp: launch_admitted_def private_directories_def)
  ultimately show ?thesis using D by blast
qed

text \<open>C17: A confined Windows program gets a well-formed environment with the private directories in it, whatever
  the host passed.  The block is a list of terminated items with an empty one behind it, sorted without regard
  to case and with each name once; the four variables of the context are among them, so no other item has one
  of their names.\<close>

theorem launch_environment_is_private:
  assumes "prepare_launch K contexts argv_blob argv_len env_blob env_len cwd profile flags proxy_port inbound_port = Some l"
  shows "\<exists>items number c root. l_block l = concat (map (\<lambda>i. i @ [0]) items) @ [0, 0]
    \<and> contexts number = Some c \<and> context_of_profile profile = Some number \<and> windows_directory K = Some root
    \<and> sorted (map wlower items) \<and> distinct (map (wlower \<circ> key_of) items)
    \<and> forced_variables (join (w_path c) (ascii ''tmp'')) root \<subseteq> set items"
proof -
  obtain number c root env where D: "contexts number = Some c" "context_of_profile profile = Some number"
      "windows_directory K = Some root"
      "environment_block (alloc_ok K) (private_environment (join (w_path c) (ascii ''tmp'')) root env) = Some (l_block l)"
    using prepare_launchD [OF assms] by blast
  let ?given = "private_environment (join (w_path c) (ascii ''tmp'')) root env"
  have F: "forced_variables (join (w_path c) (ascii ''tmp'')) root \<subseteq> set ?given" by (rule private_environment_forced)
  then have "?given \<noteq> [[]]" by (auto simp: forced_variables_def ascii_def)
  from environment_block_spec [OF D(4) this] F D(1-3) show ?thesis by (metis set_mset_mset)
qed

text \<open>A launch of \<open>C:\c\app\p.exe\<close> with the arguments \<open>a"b\<close>, the empty one and \<open>c d\<close> plus a backslash.\<close>

definition bs :: bytes where "bs = [CHR 0x5C]"

definition sample_argv :: bytes where
  "sample_argv = ''C:'' @ bs @ ''c'' @ bs @ ''app/p.exe'' @ [NUL] @ ''a'' @ [DQUOTE] @ ''b'' @ [NUL] @ [NUL] @ ''c d'' @ bs @ [NUL]"

definition sample_env :: bytes where
  "sample_env = ''B=1'' @ [NUL] @ ''tmp=x'' @ [NUL]"

definition sample_win32 :: win32 where
  "sample_win32 = \<lparr>utf16 = (\<lambda>s. Some (ascii s)), drive_fixed = (\<lambda>d. True), alloc_ok = (\<lambda>n. True),
     windows_directory = Some (ascii (''C:'' @ bs @ ''W'')), system_directory = Some (ascii (''C:'' @ bs @ ''W'' @ bs @ ''S'')),
     pin_result = (\<lambda>i p k. Pinned)\<rparr>"

definition sample_contexts :: "int \<Rightarrow> win_context option" where
  "sample_contexts i = (if i = 7 then Some \<lparr>w_path = ascii (''C:'' @ bs @ ''c''), w_sealed = True, w_poisoned = False\<rparr> else None)"

definition sample_launch :: "launch option" where
  "sample_launch = prepare_launch sample_win32 sample_contexts (Some sample_argv) 25 (Some sample_env) 10
     (Some (''C:'' @ bs @ ''c'' @ bs @ ''Work'')) (Some ''windows:7'') 4 0 0"

lemma sample_launch_made: "sample_launch \<noteq> None"
  by code_simp

lemma sample_argv_decoded:
  "decode_wide (utf16 sample_win32) (Some sample_argv) 25
     = Some [ascii (''C:'' @ bs @ ''c'' @ bs @ ''app/p.exe''), [97, 34, 98], [], [99, 32, 100, 92]]"
  by code_simp

lemma sample_launch_obtained:
  obtains l where "prepare_launch sample_win32 sample_contexts (Some sample_argv) 25 (Some sample_env) 10
     (Some (''C:'' @ bs @ ''c'' @ bs @ ''Work'')) (Some ''windows:7'') 4 0 0 = Some l"
  using sample_launch_made by (auto simp: sample_launch_def)

theorem launched_program_reads_its_arguments_witness:
  "\<exists>line program. crt_argv line = [program, [97, 34, 98], [], [99, 32, 100, 92]]
     \<and> local_path (drive_fixed sample_win32) (Some (ascii (''C:'' @ bs @ ''c'' @ bs @ ''app/p.exe''))) = Some program"
proof -
  obtain l where l: "prepare_launch sample_win32 sample_contexts (Some sample_argv) 25 (Some sample_env) 10
     (Some (''C:'' @ bs @ ''c'' @ bs @ ''Work'')) (Some ''windows:7'') 4 0 0 = Some l" by (rule sample_launch_obtained)
  from launched_program_reads_its_arguments [OF l sample_argv_decoded] show ?thesis by blast
qed

theorem launch_paths_are_admitted_witness:
  "\<exists>program directory. plain_path program \<and> plain_path directory
     \<and> (\<exists>d \<in> {''work'', ''tmp'', ''app''}.
          same_text directory (join (ascii (''C:'' @ bs @ ''c'')) (ascii d)) \<or> inside directory (join (ascii (''C:'' @ bs @ ''c'')) (ascii d)))"
proof -
  obtain l where l: "prepare_launch sample_win32 sample_contexts (Some sample_argv) 25 (Some sample_env) 10
     (Some (''C:'' @ bs @ ''c'' @ bs @ ''Work'')) (Some ''windows:7'') 4 0 0 = Some l" by (rule sample_launch_obtained)
  note L = launch_paths_are_admitted [OF l]
  then obtain number c where c: "sample_contexts number = Some c"
    "\<exists>d \<in> {''work'', ''tmp'', ''app''}.
       same_text (l_directory l) (join (w_path c) (ascii d)) \<or> inside (l_directory l) (join (w_path c) (ascii d))" by blast
  then have "w_path c = ascii (''C:'' @ bs @ ''c'')" by (auto simp: sample_contexts_def split: if_splits)
  with c(2) L show ?thesis by metis
qed

theorem launch_environment_is_private_witness:
  "\<exists>items tmp root. distinct (map (wlower \<circ> key_of) items) \<and> forced_variables tmp root \<subseteq> set items"
proof -
  obtain l where l: "prepare_launch sample_win32 sample_contexts (Some sample_argv) 25 (Some sample_env) 10
     (Some (''C:'' @ bs @ ''c'' @ bs @ ''Work'')) (Some ''windows:7'') 4 0 0 = Some l" by (rule sample_launch_obtained)
  from launch_environment_is_private [OF l] show ?thesis by blast
qed

end
