(* ===== verification/WinStreams.thy ===== *)
theory WinStreams
  imports CPrelude "HOL-Library.Multiset"
begin

text \<open>
  The table of streams of the Windows jail in \<^verbatim>\<open>native/visjail/visjail_windows.c\<close> with its reference counts.
  Handles are names that are not used again; what Win32 answers is a parameter.
\<close>

section \<open>The stream table\<close>

record stream =
  s_refs :: int
  s_closed :: bool
  s_process :: int
  s_context :: int
  s_read :: "nat option"
  s_write :: "nat option"
  s_cancel :: nat
  s_event :: "nat option"
  s_cancelled :: bool
  s_byte :: char
  s_pending :: bool
  s_cached :: bool
  s_eof :: bool

record win_process =
  p_console :: bool
  p_closer_running :: bool
  p_output :: "nat option"
  p_output_event :: "nat option"

text \<open>The memory of the streams by their ids, the linked table, the counter of ids, the live streams of a
  context, the processes, and the handles closed so far.\<close>

record stream_tables =
  memory :: "int \<Rightarrow> stream option"
  table :: "int list"
  next_id :: int
  live_streams :: "int \<Rightarrow> int"
  processes :: "int \<Rightarrow> win_process option"
  closed_handles :: "nat list"

definition allocate_id :: "stream_tables \<Rightarrow> int \<times> stream_tables" where
  "allocate_id T = (if next_id T = INT_MAX then (0, T) else (next_id T, T\<lparr>next_id := next_id T + 1\<rparr>))"

definition close_handle :: "nat option \<Rightarrow> stream_tables \<Rightarrow> stream_tables" where
  "close_handle h T = (case h of None \<Rightarrow> T | Some x \<Rightarrow> T\<lparr>closed_handles := closed_handles T @ [x]\<rparr>)"

definition set_stream :: "int \<Rightarrow> stream option \<Rightarrow> stream_tables \<Rightarrow> stream_tables" where
  "set_stream sid s T = T\<lparr>memory := (memory T)(sid := s)\<rparr>"

text \<open>Whether the process of a stream takes over its output when the stream goes.\<close>

definition adopts :: "stream \<Rightarrow> stream_tables \<Rightarrow> bool" where
  "adopts s T \<longleftrightarrow> s_process s \<noteq> 0 \<and>
     (case processes T (s_process s) of
        None \<Rightarrow> False
      | Some p \<Rightarrow> \<not> s_eof s \<and> (p_console p \<or> p_closer_running p))"

definition stream_dispose :: "int \<Rightarrow> stream_tables \<Rightarrow> stream_tables" where
  "stream_dispose sid T =
     (case memory T sid of
        None \<Rightarrow> T
      | Some s \<Rightarrow>
          let adopted = adopts s T;
              s1 = (if adopted then s\<lparr>s_read := None, s_event := None\<rparr> else s);
              T1 = (if adopted
                    then T\<lparr>processes := (processes T)(s_process s :=
                             map_option (\<lambda>p. p\<lparr>p_output := s_read s, p_output_event := s_event s\<rparr>) (processes T (s_process s)))\<rparr>
                    else T);
              T2 = close_handle (s_read s1) T1;
              T3 = (if s_write s1 \<noteq> s_read s1 then close_handle (s_write s1) T2 else T2);
              T4 = close_handle (Some (s_cancel s1)) (close_handle (s_event s1) T3)
          in set_stream sid None (T4\<lparr>live_streams := (live_streams T4)(s_context s := live_streams T4 (s_context s) - 1)\<rparr>))"

definition drop_reference :: "int \<Rightarrow> stream_tables \<Rightarrow> stream_tables" where
  "drop_reference sid T =
     (case memory T sid of
        None \<Rightarrow> T
      | Some s \<Rightarrow>
          let T1 = set_stream sid (Some (s\<lparr>s_refs := s_refs s - 1\<rparr>)) T
          in if s_refs s - 1 = 0 then stream_dispose sid T1 else T1)"

definition stream_get :: "int \<Rightarrow> stream_tables \<Rightarrow> stream_tables option" where
  "stream_get sid T =
     (case memory T sid of
        None \<Rightarrow> None
      | Some s \<Rightarrow>
          if sid \<in> set (table T) \<and> \<not> s_closed s then Some (set_stream sid (Some (s\<lparr>s_refs := s_refs s + 1\<rparr>)) T) else None)"

definition stream_release :: "int \<Rightarrow> stream_tables \<Rightarrow> stream_tables" where
  "stream_release sid T = drop_reference sid T"

text \<open>A new stream, from the two events \<open>CreateEventW\<close> answers; the id is drawn in any case.\<close>

definition stream_new ::
  "bool \<Rightarrow> nat option \<Rightarrow> nat option \<Rightarrow> int \<Rightarrow> nat option \<Rightarrow> nat option \<Rightarrow> stream_tables \<Rightarrow> int option \<times> stream_tables" where
  "stream_new calloc_ok cancel event ctx rd wr T =
     (if \<not> calloc_ok then (None, T)
      else
        let (sid, T1) = allocate_id T in
        case (cancel, event) of
          (Some cancel_handle, Some event_handle) \<Rightarrow>
            if sid = 0 then (None, close_handle event (close_handle cancel T1))
            else
              (Some sid,
               T1\<lparr>memory := (memory T1)(sid := Some \<lparr>s_refs = 1, s_closed = False, s_process = 0, s_context = ctx,
                      s_read = rd, s_write = wr, s_cancel = cancel_handle, s_event = event, s_cancelled = False, s_byte = NUL,
           s_pending = False, s_cached = False, s_eof = False\<rparr>),
                  live_streams := (live_streams T1)(ctx := live_streams T1 ctx + 1),
                  table := sid # table T1\<rparr>)
        | _ \<Rightarrow> (None, close_handle event (close_handle cancel T1)))"

definition stream_close_locked :: "int \<Rightarrow> stream_tables \<Rightarrow> stream_tables" where
  "stream_close_locked sid T =
     (case memory T sid of
        None \<Rightarrow> T
      | Some s \<Rightarrow>
          drop_reference sid (set_stream sid (Some (s\<lparr>s_closed := True, s_cancelled := True\<rparr>)) (T\<lparr>table := remove1 sid (table T)\<rparr>)))"

definition ERROR_INVALID_HANDLE :: int where "ERROR_INVALID_HANDLE = 6"

definition visjail_close :: "int \<Rightarrow> stream_tables \<Rightarrow> int \<times> stream_tables" where
  "visjail_close sid T =
     (if sid \<in> set (table T) then (0, stream_close_locked sid T) else (- ERROR_INVALID_HANDLE, T))"

section \<open>Operations side by side\<close>

text \<open>Each operation holds the table lock, so it is one step; a blocking read or write holds a reference between
  its \<open>stream_get\<close> and its \<open>stream_release\<close>.  The second component lists the references held, one entry each.\<close>

definition handles_of :: "stream \<Rightarrow> nat set" where
  "handles_of s = set_option (s_read s) \<union> set_option (s_write s) \<union> set_option (s_event s) \<union> {s_cancel s}"

definition all_handles :: "stream_tables \<Rightarrow> nat set" where
  "all_handles T = (\<Union>s \<in> ran (memory T). handles_of s) \<union> set (closed_handles T)
     \<union> (\<Union>p \<in> ran (processes T). set_option (p_output p) \<union> set_option (p_output_event p))"

text \<open>The handles a new stream is made of: distinct, and not seen before.\<close>

definition new_handles :: "nat option list \<Rightarrow> stream_tables \<Rightarrow> bool" where
  "new_handles hs T \<longleftrightarrow> distinct (map the (filter (\<lambda>h. h \<noteq> None) hs)) \<and> (\<forall>h \<in> set hs. set_option h \<inter> all_handles T = {})"

inductive stream_step :: "stream_tables \<times> int list \<Rightarrow> stream_tables \<times> int list \<Rightarrow> bool" where
  New: "stream_new ok cancel event ctx rd wr T = (r, T') \<Longrightarrow> new_handles [cancel, event, rd, wr] T \<Longrightarrow>
    stream_step (T, H) (T', H)"
| Get: "stream_get sid T = Some T' \<Longrightarrow> stream_step (T, H) (T', sid # H)"
| Release: "sid \<in> set H \<Longrightarrow> stream_step (T, H) (stream_release sid T, remove1 sid H)"
| Close: "stream_step (T, H) (snd (visjail_close sid T), H)"
| Own: "memory T sid = Some s \<Longrightarrow> stream_step (T, H) (set_stream sid (Some (s\<lparr>s_process := pid\<rparr>)) T, H)"
| Process: "processes T pid = None \<Longrightarrow> stream_step (T, H) (T\<lparr>processes := (processes T)(pid := Some
    \<lparr>p_console = console, p_closer_running = False, p_output = None, p_output_event = None\<rparr>)\<rparr>, H)"
| Closer: "processes T pid = Some p \<Longrightarrow> stream_step (T, H) (T\<lparr>processes := (processes T)(pid := Some
    (p\<lparr>p_console := False, p_closer_running := running\<rparr>))\<rparr>, H)"
| Reader: "memory T sid = Some s \<Longrightarrow>
    stream_step (T, H) (set_stream sid (Some (s\<lparr>s_byte := b, s_pending := p, s_cached := c, s_eof := e\<rparr>)) T, H)"

definition initial_tables :: stream_tables where
  "initial_tables = \<lparr>memory = (\<lambda>_. None), table = [], next_id = 1, live_streams = (\<lambda>_. 0), processes = (\<lambda>_. None),
     closed_handles = []\<rparr>"
section \<open>Lemmas on references\<close>

text \<open>The handles a stream owns, one after the other.\<close>

definition own_handles :: "stream \<Rightarrow> nat list" where
  "own_handles s = map the (filter (\<lambda>h. h \<noteq> None) [Some (s_cancel s), s_event s, s_read s, s_write s])"

lemma set_own_handles: "set (own_handles s) = handles_of s"
  by (cases "s_event s"; cases "s_read s"; cases "s_write s") (auto simp: own_handles_def handles_of_def)

lemma dispose_effect:
  assumes "memory T sid = Some s" "distinct (own_handles s)"
  shows "memory (stream_dispose sid T) = (memory T)(sid := None) \<and> table (stream_dispose sid T) = table T
    \<and> next_id (stream_dispose sid T) = next_id T
    \<and> live_streams (stream_dispose sid T) = (live_streams T)(s_context s := live_streams T (s_context s) - 1)
    \<and> (\<exists>hs. closed_handles (stream_dispose sid T) = closed_handles T @ hs \<and> distinct hs \<and> set hs \<subseteq> handles_of s
         \<and> (\<not> adopts s T \<longrightarrow> set hs = handles_of s))"
  using assms
  by (cases "s_event s"; cases "s_read s"; cases "s_write s"; cases "adopts s T")
    (auto simp: stream_dispose_def Let_def set_stream_def close_handle_def own_handles_def handles_of_def)

text \<open>The state is in order when \<open>f\<close> references are held on each stream.\<close>

definition stream_inv :: "stream_tables \<Rightarrow> (int \<Rightarrow> int) \<Rightarrow> bool" where
  "stream_inv T f \<longleftrightarrow>
     (\<forall>sid s. memory T sid = Some s \<longrightarrow> s_refs s = f sid \<and> 0 < f sid \<and> 0 < sid \<and> sid < next_id T
        \<and> distinct (own_handles s) \<and> handles_of s \<inter> set (closed_handles T) = {})
     \<and> (\<forall>sid. memory T sid = None \<longrightarrow> f sid = 0)
     \<and> (\<forall>a b s t. memory T a = Some s \<longrightarrow> memory T b = Some t \<longrightarrow> a \<noteq> b \<longrightarrow> handles_of s \<inter> handles_of t = {})
     \<and> distinct (closed_handles T) \<and> 0 < next_id T
     \<and> finite (dom (memory T))
     \<and> (\<forall>c. live_streams T c = int (card {sid. \<exists>s. memory T sid = Some s \<and> s_context s = c}))"

lemma stream_invD:
  assumes "stream_inv T f" "memory T sid = Some s"
  shows "s_refs s = f sid" "0 < f sid" "0 < sid" "sid < next_id T" "distinct (own_handles s)"
    "handles_of s \<inter> set (closed_handles T) = {}"
  using assms by (auto simp: stream_inv_def)

text \<open>Changing a stream without touching its handles or its context.\<close>

lemma stream_inv_update:
  assumes "stream_inv T f" "memory T sid = Some s" "own_handles s' = own_handles s" "s_context s' = s_context s"
    "s_refs s' = g sid" "0 < g sid" "\<forall>x. x \<noteq> sid \<longrightarrow> g x = f x"
  shows "stream_inv (set_stream sid (Some s') T) g"
proof -
  have h: "handles_of s' = handles_of s" using assms(3) set_own_handles by metis
  have c: "{x. \<exists>t. ((memory T)(sid := Some s')) x = Some t \<and> s_context t = c} = {x. \<exists>t. memory T x = Some t \<and> s_context t = c}" for c
    using assms(2,4) by auto
  show ?thesis
    using assms unfolding stream_inv_def set_stream_def
    by (simp add: c h del: fun_upd_apply) (simp add: h)
qed

lemma dispose_inv:
  assumes "stream_inv T f" "memory T sid = Some s"
  shows "stream_inv (stream_dispose sid T) (f(sid := 0))"
proof -
  note D = dispose_effect [OF assms(2) stream_invD(5) [OF assms]]
  then obtain hs where hs: "closed_handles (stream_dispose sid T) = closed_handles T @ hs" "distinct hs" "set hs \<subseteq> handles_of s"
    by blast
  have disj: "handles_of t \<inter> handles_of s = {}" if "memory T x = Some t" "x \<noteq> sid" for x t
    using assms that unfolding stream_inv_def by blast
  have 1: "s_refs t = (f(sid := 0)) x \<and> 0 < (f(sid := 0)) x \<and> 0 < x \<and> x < next_id T \<and> distinct (own_handles t)
      \<and> handles_of t \<inter> set (closed_handles T @ hs) = {}" if "((memory T)(sid := None)) x = Some t" for x t
  proof -
    from that have x: "memory T x = Some t" "x \<noteq> sid" by (auto split: if_splits)
    with stream_invD [OF assms(1) x(1)] hs(3) disj [OF x] show ?thesis by auto
  qed
  have 2: "distinct (closed_handles T @ hs)"
    using hs stream_invD(6) [OF assms] assms(1) by (auto simp: stream_inv_def)
  have 3: "{x. \<exists>t. ((memory T)(sid := None)) x = Some t \<and> s_context t = c}
      = {x. \<exists>t. memory T x = Some t \<and> s_context t = c} - {sid}" for c by auto
  have fin: "finite {x. \<exists>t. memory T x = Some t \<and> s_context t = c}" for c
    by (rule finite_subset [of _ "dom (memory T)"]) (use assms(1) in \<open>auto simp: stream_inv_def\<close>)
  have 4: "((live_streams T)(s_context s := live_streams T (s_context s) - 1)) c
      = int (card ({x. \<exists>t. memory T x = Some t \<and> s_context t = c} - {sid}))" for c
  proof (cases "c = s_context s")
    case True
    with assms(2) have i: "sid \<in> {x. \<exists>t. memory T x = Some t \<and> s_context t = c}" by auto
    then have "0 < card {x. \<exists>t. memory T x = Some t \<and> s_context t = c}" using fin card_gt_0_iff by blast
    with i fin [of c] True assms(1) show ?thesis by (simp add: stream_inv_def of_nat_diff)
  next
    case False
    with assms(2) have "{x. \<exists>t. memory T x = Some t \<and> s_context t = c} - {sid} = {x. \<exists>t. memory T x = Some t \<and> s_context t = c}"
      by auto
    with False assms(1) show ?thesis by (simp add: stream_inv_def)
  qed
  have 5: "handles_of t \<inter> handles_of u = {}"
    if "((memory T)(sid := None)) a = Some t" "((memory T)(sid := None)) b = Some u" "a \<noteq> b" for a b t u
    using assms(1) that unfolding stream_inv_def by (metis fun_upd_apply option.distinct(1))
  have 6: "(f(sid := 0)) x = 0" if "((memory T)(sid := None)) x = None" for x
    using assms(1) that unfolding stream_inv_def by (metis fun_upd_apply)
  have 7: "finite (dom ((memory T)(sid := None)))" "0 < next_id T" using assms(1) by (auto simp: stream_inv_def)
  show ?thesis
    unfolding stream_inv_def using D hs 1 2 4 5 6 7 3 by (simp del: fun_upd_apply)
qed

lemma dispose_refs:
  assumes "memory T sid = Some s"
  shows "stream_dispose sid (set_stream sid (Some (s\<lparr>s_refs := n\<rparr>)) T) = stream_dispose sid T"
proof -
  have a: "adopts (s\<lparr>s_refs := n\<rparr>) (set_stream sid x T) = adopts s T" for x
    by (simp add: adopts_def set_stream_def cong: option.case_cong)
  have m: "memory (set_stream sid x T) sid = x" for x by (simp add: set_stream_def)
  show ?thesis
    unfolding stream_dispose_def assms m option.case a Let_def
    by (cases "adopts s T"; cases "s_event s"; cases "s_read s"; cases "s_write s")
      (simp_all add: close_handle_def set_stream_def)
qed

lemma drop_reference_inv:
  assumes "stream_inv T f" "memory T sid = Some s"
  shows "stream_inv (drop_reference sid T) (f(sid := f sid - 1))"
proof (cases "f sid - 1 = 0")
  case True
  let ?s = "s\<lparr>s_refs := s_refs s - 1\<rparr>"
  let ?T = "set_stream sid (Some ?s) T"
  note I = stream_invD [OF assms]
  have "drop_reference sid T = stream_dispose sid ?T" using assms(2) I(1) True by (simp add: drop_reference_def)
  moreover have "stream_dispose sid ?T = stream_dispose sid T" by (rule dispose_refs [OF assms(2)])
  ultimately show ?thesis using dispose_inv [OF assms] True by simp
next
  case False
  note I = stream_invD [OF assms]
  have "drop_reference sid T = set_stream sid (Some (s\<lparr>s_refs := s_refs s - 1\<rparr>)) T"
    using assms(2) I(1) False by (simp add: drop_reference_def)
  moreover have "stream_inv (set_stream sid (Some (s\<lparr>s_refs := s_refs s - 1\<rparr>)) T) (f(sid := f sid - 1))"
    by (rule stream_inv_update [OF assms]) (use I False in \<open>auto simp: own_handles_def\<close>)
  ultimately show ?thesis by simp
qed

lemma drop_reference_frame:
  "table (drop_reference sid T) = table T \<and> next_id (drop_reference sid T) = next_id T
   \<and> (\<forall>x. x \<noteq> sid \<longrightarrow> memory (drop_reference sid T) x = memory T x)"
  by (auto simp: drop_reference_def stream_dispose_def Let_def set_stream_def close_handle_def split: option.splits)

section \<open>The invariant of the tables\<close>

definition references :: "stream_tables \<Rightarrow> int list \<Rightarrow> int \<Rightarrow> int" where
  "references T H sid = (if sid \<in> set (table T) then 1 else 0) + int (count_list H sid)"

definition tables_inv :: "stream_tables \<times> int list \<Rightarrow> bool" where
  "tables_inv S \<longleftrightarrow>
     (let (T, H) = S in
      stream_inv T (references T H) \<and> distinct (table T)
      \<and> (\<forall>sid \<in> set (table T). \<exists>s. memory T sid = Some s \<and> \<not> s_closed s))"

lemma tables_inv_initial: "tables_inv (initial_tables, [])"
  by (simp add: tables_inv_def initial_tables_def stream_inv_def references_def)

lemma present_iff: "stream_inv T f \<Longrightarrow> (memory T sid \<noteq> None) = (0 < f sid)"
  unfolding stream_inv_def by (metis less_irrefl not_None_eq)

lemma count_remove1: "count_list (remove1 x xs) y = (if x = y \<and> x \<in> set xs then count_list xs y - 1 else count_list xs y)"
  by (induction xs) (auto simp: count_list_0_iff)

lemma step_release:
  assumes "tables_inv (T, H)" "sid \<in> set H"
  shows "tables_inv (stream_release sid T, remove1 sid H)"
proof -
  have I: "stream_inv T (references T H)" using assms(1) by (simp add: tables_inv_def)
  have c: "0 < count_list H sid" using assms(2) by (metis count_list_0_iff gr0I)
  then have "0 < references T H sid" by (simp add: references_def)
  with present_iff [OF I] obtain s where s: "memory T sid = Some s" by blast
  note F = drop_reference_frame [of sid T]
  have "(references T H)(sid := references T H sid - 1) = references (stream_release sid T) (remove1 sid H)"
    using c assms(2) F by (auto simp: fun_eq_iff references_def stream_release_def count_remove1)
  then have J: "stream_inv (stream_release sid T) (references (stream_release sid T) (remove1 sid H))"
    using drop_reference_inv [OF I s] by (simp add: stream_release_def)
  have "\<exists>t. memory (stream_release sid T) x = Some t \<and> \<not> s_closed t" if "x \<in> set (table T)" for x
  proof (cases "x = sid")
    case False
    with F that assms(1) show ?thesis by (auto simp: tables_inv_def stream_release_def)
  next
    case True
    with that assms(1) s have "\<not> s_closed s" by (auto simp: tables_inv_def)
    have "0 < references T H sid - 1" using that True c by (simp add: references_def)
    with s stream_invD(1) [OF I s] have "memory (stream_release sid T) sid = Some (s\<lparr>s_refs := s_refs s - 1\<rparr>)"
      by (simp add: stream_release_def drop_reference_def set_stream_def)
    with True \<open>\<not> s_closed s\<close> show ?thesis by simp
  qed
  with J F assms(1) show ?thesis by (simp add: tables_inv_def stream_release_def)
qed

lemma step_close:
  assumes "tables_inv (T, H)"
  shows "tables_inv (snd (visjail_close sid T), H)"
proof (cases "sid \<in> set (table T)")
  case False
  with assms show ?thesis by (simp add: visjail_close_def)
next
  case True
  have I: "stream_inv T (references T H)" and d: "distinct (table T)" using assms by (simp_all add: tables_inv_def)
  from True assms obtain s where s: "memory T sid = Some s" by (auto simp: tables_inv_def)
  let ?s = "s\<lparr>s_closed := True, s_cancelled := True\<rparr>"
  let ?T = "T\<lparr>table := remove1 sid (table T)\<rparr>"
  have I': "stream_inv ?T (references T H)" using I by (simp add: stream_inv_def)
  have U: "stream_inv (set_stream sid (Some ?s) ?T) (references T H)"
    by (rule stream_inv_update [OF I']) (use s stream_invD [OF I s] in \<open>auto simp: own_handles_def\<close>)
  have m: "memory (set_stream sid (Some ?s) ?T) sid = Some ?s" by (simp add: set_stream_def)
  have c: "snd (visjail_close sid T) = drop_reference sid (set_stream sid (Some ?s) ?T)"
    using True s by (simp add: visjail_close_def stream_close_locked_def)
  note F = drop_reference_frame [of sid "set_stream sid (Some ?s) ?T"]
  have t: "table (snd (visjail_close sid T)) = remove1 sid (table T)" using F c by (simp add: set_stream_def)
  have "(references T H)(sid := references T H sid - 1) = references (snd (visjail_close sid T)) H"
    using True d t by (auto simp: fun_eq_iff references_def)
  with drop_reference_inv [OF U m] c have "stream_inv (snd (visjail_close sid T)) (references (snd (visjail_close sid T)) H)" by simp
  moreover have "\<exists>u. memory (snd (visjail_close sid T)) x = Some u \<and> \<not> s_closed u" if "x \<in> set (remove1 sid (table T))" for x
    using that d F c assms by (auto simp: tables_inv_def set_stream_def)
  ultimately show ?thesis using t d by (simp add: tables_inv_def)
qed

lemma tables_inv_update:
  assumes "tables_inv (T, H)" "memory T sid = Some s" "own_handles s' = own_handles s" "s_context s' = s_context s"
    "s_refs s' = references T H' sid" "0 < references T H' sid" "\<forall>x. x \<noteq> sid \<longrightarrow> count_list H' x = count_list H x"
    "s_closed s' = s_closed s"
  shows "tables_inv (set_stream sid (Some s') T, H')"
proof -
  have I: "stream_inv T (references T H)" using assms(1) by (simp add: tables_inv_def)
  have r: "references (set_stream sid (Some s') T) H' = references T H'" by (simp add: fun_eq_iff references_def set_stream_def)
  have "stream_inv (set_stream sid (Some s') T) (references T H')"
    by (rule stream_inv_update [OF I assms(2,3,4)]) (use assms(5-7) in \<open>auto simp: references_def\<close>)
  moreover have "table (set_stream sid (Some s') T) = table T" "memory (set_stream sid (Some s') T) = (memory T)(sid := Some s')"
    by (simp_all add: set_stream_def)
  ultimately show ?thesis using assms(1,2,8) unfolding tables_inv_def by (auto simp: r)
qed

lemma tables_inv_processes:
  assumes "tables_inv (T, H)"
  shows "tables_inv (T\<lparr>processes := ps\<rparr>, H)"
proof -
  have "references (T\<lparr>processes := ps\<rparr>) H = references T H" by (simp add: fun_eq_iff references_def)
  moreover have "stream_inv (T\<lparr>processes := ps\<rparr>) f = stream_inv T f" for f by (simp add: stream_inv_def)
  ultimately show ?thesis using assms by (simp add: tables_inv_def)
qed

lemma used_handles: "memory T x = Some s \<Longrightarrow> handles_of s \<subseteq> all_handles T"
  by (auto simp: all_handles_def ran_def)

lemma closed_in_all: "set (closed_handles T) \<subseteq> all_handles T"
  by (auto simp: all_handles_def)

lemma fresh_handles:
  assumes "new_handles [cancel, event, rd, wr] T"
  shows "set_option cancel \<inter> all_handles T = {}" "set_option event \<inter> all_handles T = {}"
    "set_option rd \<inter> all_handles T = {}" "set_option wr \<inter> all_handles T = {}"
  using assms by (simp_all add: new_handles_def)

lemma stream_new_fails_inv:
  assumes inv: "tables_inv (T, H)" and run: "stream_new ok cancel event ctx rd wr T = (r, T')"
    and fresh: "new_handles [cancel, event, rd, wr] T" and False: "\<not> (ok \<and> cancel \<noteq> None \<and> event \<noteq> None \<and> next_id T \<noteq> INT_MAX)"
  shows "tables_inv (T', H)"
proof -
  have I: "stream_inv T (references T H)" using inv by (simp add: tables_inv_def)
  have used: "handles_of s \<subseteq> all_handles T" if "memory T x = Some s" for x s by (rule used_handles [OF that])
  note new = fresh_handles [OF fresh]
  have e: "cancel \<noteq> event \<or> cancel = None"
    using fresh by (cases cancel; cases event) (auto simp: new_handles_def)
  define hs where "hs = (if ok then map the (filter (\<lambda>h. h \<noteq> None) [cancel, event]) else [])"
  define n where "n = next_id T'"
  have pos: "next_id T \<noteq> 0" using I by (simp add: stream_inv_def)
  have "T' = T\<lparr>closed_handles := closed_handles T @ hs, next_id := n\<rparr>"
    using False run pos unfolding hs_def n_def
    by (cases ok; cases cancel; cases event; cases "next_id T = INT_MAX")
      (auto simp: stream_new_def allocate_id_def close_handle_def)
  moreover have "next_id T \<le> n"
    using False run pos unfolding n_def
    by (cases ok; cases cancel; cases event; cases "next_id T = INT_MAX")
      (auto simp: stream_new_def allocate_id_def close_handle_def)
  moreover have "distinct hs"
    using e by (cases cancel; cases event) (simp_all add: hs_def)
  moreover have "set hs \<subseteq> set_option cancel \<union> set_option event"
    by (cases cancel; cases event) (auto simp: hs_def)
  then have "set hs \<inter> all_handles T = {}" using new(1,2) by blast
  ultimately have h: "T' = T\<lparr>closed_handles := closed_handles T @ hs, next_id := n\<rparr>" "next_id T \<le> n" "distinct hs"
      "set hs \<inter> all_handles T = {}" by blast+
  have J: "stream_inv T' (references T H)"
    unfolding stream_inv_def
  proof (intro conjI allI impI)
    fix sid s assume "memory T' sid = Some s"
    then have m: "memory T sid = Some s" by (simp add: h(1))
    note D = stream_invD [OF I m]
    from D show "s_refs s = references T H sid" "0 < references T H sid" "0 < sid" "distinct (own_handles s)" by simp_all
    show "sid < next_id T'" using D h(1,2) by simp
    show "handles_of s \<inter> set (closed_handles T') = {}" using D(6) used [OF m] h(1,4) by auto
  next
    show "distinct (closed_handles T')" using I h closed_in_all [of T] by (auto simp: stream_inv_def)
  next
    show "0 < next_id T'" using I h by (simp add: stream_inv_def)
  qed (use I in \<open>auto simp: h(1) stream_inv_def\<close>)
  have "references T' H = references T H" by (simp add: fun_eq_iff references_def h(1))
  with J inv show ?thesis by (simp add: tables_inv_def h(1))
qed

lemma live_insert:
  assumes I: "stream_inv T f" and none: "memory T n = None"
  shows "int (card {x. \<exists>t. ((memory T)(n := Some s)) x = Some t \<and> s_context t = k})
    = live_streams T k + (if k = s_context s then 1 else 0)"
proof -
  have fin: "finite {x. \<exists>t. memory T x = Some t \<and> s_context t = k}" for k
    by (rule finite_subset [of _ "dom (memory T)"]) (use I in \<open>auto simp: stream_inv_def\<close>)
  have "{x. \<exists>t. ((memory T)(n := Some s)) x = Some t \<and> s_context t = k}
      = (if k = s_context s then insert n {x. \<exists>t. memory T x = Some t \<and> s_context t = k}
         else {x. \<exists>t. memory T x = Some t \<and> s_context t = k})" using none by auto
  moreover have "n \<notin> {x. \<exists>t. memory T x = Some t \<and> s_context t = k}" using none by simp
  moreover have "live_streams T k = int (card {x. \<exists>t. memory T x = Some t \<and> s_context t = k})"
    using I by (simp add: stream_inv_def)
  ultimately show ?thesis using card_insert_disjoint [OF fin, of n k] by (cases "k = s_context s") simp_all
qed

lemma stream_new_links_inv:
  assumes inv: "tables_inv (T, H)" and run: "stream_new ok cancel event ctx rd wr T = (r, T')"
    and fresh: "new_handles [cancel, event, rd, wr] T" and True: "ok" "next_id T \<noteq> INT_MAX"
    and ce: "cancel = Some c" "event = Some e"
  shows "tables_inv (T', H)"
proof -
  have I: "stream_inv T (references T H)" using inv by (simp add: tables_inv_def)
  have used: "handles_of s \<subseteq> all_handles T" if "memory T x = Some s" for x s by (rule used_handles [OF that])
  note new = fresh_handles [OF fresh]
  let ?id = "next_id T"
  let ?s = "\<lparr>s_refs = 1, s_closed = False, s_process = 0, s_context = ctx, s_read = rd, s_write = wr, s_cancel = c,
      s_event = event, s_cancelled = False, s_byte = NUL,
         s_pending = False, s_cached = False, s_eof = False\<rparr>"
  have pos: "0 < ?id" using I by (simp add: stream_inv_def)
  have T': "T' = T\<lparr>next_id := ?id + 1, memory := (memory T)(?id := Some ?s),
      live_streams := (live_streams T)(ctx := live_streams T ctx + 1), table := ?id # table T\<rparr>"
    using True run ce pos by (auto simp: stream_new_def allocate_id_def)
  have none: "memory T ?id = None"
    using stream_invD(4) [OF I] by (metis less_irrefl not_None_eq)
  have r0: "references T H ?id = 0" using I none by (simp add: stream_inv_def)
  have refs: "references T' H = (references T H)(?id := 1)"
  proof
    fix x
    have "count_list H ?id = 0" using r0 by (simp add: references_def split: if_splits)
    then show "references T' H x = ((references T H)(?id := 1)) x" by (simp add: references_def T')
  qed
  have own: "distinct (own_handles ?s)" "handles_of ?s \<inter> all_handles T = {}"
    using fresh new by (auto simp: new_handles_def own_handles_def handles_of_def ce)
  have J: "stream_inv T' ((references T H)(?id := 1))"
    unfolding stream_inv_def
  proof (intro conjI allI impI)
    fix sid s assume m: "memory T' sid = Some s"
    have D: "memory T sid = Some s \<and> sid \<noteq> ?id \<or> s = ?s \<and> sid = ?id" using m by (auto simp: T' split: if_splits)
    have "s_refs s = ((references T H)(?id := 1)) sid \<and> 0 < ((references T H)(?id := 1)) sid \<and> 0 < sid
        \<and> sid < ?id + 1 \<and> distinct (own_handles s)"
      using D
    proof
      assume d: "memory T sid = Some s \<and> sid \<noteq> ?id"
      then have e: "((references T H)(?id := 1)) sid = references T H sid" by simp
      from d stream_invD(1-5) [OF I, of sid s] show ?thesis unfolding e by simp
    qed (use pos own(1) in simp)
    then show "s_refs s = ((references T H)(?id := 1)) sid" "0 < ((references T H)(?id := 1)) sid" "0 < sid"
        "sid < next_id T'" "distinct (own_handles s)" by (simp_all add: T')
    show "handles_of s \<inter> set (closed_handles T') = {}"
      using D stream_invD(6) [OF I] own(2) closed_in_all [of T] by (auto simp: T')
  next
    fix a b s t assume m: "memory T' a = Some s" "memory T' b = Some t" "a \<noteq> b"
    then have "memory T a = Some s \<and> memory T b = Some t \<or> s = ?s \<and> memory T b = Some t \<or> t = ?s \<and> memory T a = Some s"
      by (auto simp: T' split: if_splits)
    then show "handles_of s \<inter> handles_of t = {}" using m(3) I own(2) used unfolding stream_inv_def by blast
  next
    fix k show "live_streams T' k = int (card {x. \<exists>t. memory T' x = Some t \<and> s_context t = k})"
      using live_insert [OF I none, of ?s k] by (simp add: T')
  next
    fix sid assume "memory T' sid = None"
    then show "((references T H)(?id := 1)) sid = 0" using I by (auto simp: T' stream_inv_def split: if_splits)
  qed (use I in \<open>auto simp: T' stream_inv_def\<close>)
  show ?thesis using J refs inv none by (auto simp: tables_inv_def T')
qed

lemma stream_new_inv:
  assumes "tables_inv (T, H)" "stream_new ok cancel event ctx rd wr T = (r, T')" "new_handles [cancel, event, rd, wr] T"
  shows "tables_inv (T', H)"
  using stream_new_fails_inv [OF assms] stream_new_links_inv [OF assms] by fast

lemma tables_inv_step: "stream_step S S' \<Longrightarrow> tables_inv S \<Longrightarrow> tables_inv S'"
proof (induction rule: stream_step.induct)
  case (New ok cancel event ctx rd wr T r T' H)
  then show ?case by (rule stream_new_inv [rotated 1])
next
  case (Get sid T T' H)
  then obtain s where s: "memory T sid = Some s" "T' = set_stream sid (Some (s\<lparr>s_refs := s_refs s + 1\<rparr>)) T"
    by (auto simp: stream_get_def split: option.splits if_splits)
  have I: "stream_inv T (references T H)" using Get.prems by (simp add: tables_inv_def)
  have "references T (sid # H) sid = references T H sid + 1" by (simp add: references_def)
  then show ?case
    unfolding s(2) using stream_invD(1,2) [OF I s(1)]
    by (intro tables_inv_update [OF Get.prems s(1)]) (auto simp: own_handles_def)
next
  case (Release sid H T)
  then show ?case by (intro step_release)
next
  case (Close T H sid)
  then show ?case by (rule step_close)
next
  case (Own T sid s H pid)
  have I: "stream_inv T (references T H)" using Own.prems by (simp add: tables_inv_def)
  show ?case using stream_invD(1,2) [OF I Own(1)]
    by (intro tables_inv_update [OF Own.prems Own(1)]) (auto simp: own_handles_def)
next
  case (Reader T sid s H)
  have I: "stream_inv T (references T H)" using Reader.prems by (simp add: tables_inv_def)
  show ?case using stream_invD(1,2) [OF I Reader(1)]
    by (intro tables_inv_update [OF Reader.prems Reader(1)]) (auto simp: own_handles_def)
qed (simp_all add: tables_inv_processes)

definition reachable_streams :: "stream_tables \<times> int list \<Rightarrow> bool" where
  "reachable_streams S = stream_step\<^sup>*\<^sup>* (initial_tables, []) S"

lemma reachable_streams_inv: "reachable_streams S \<Longrightarrow> tables_inv S"
  unfolding reachable_streams_def
  by (induction rule: rtranclp_induct) (auto intro: tables_inv_initial tables_inv_step)

text \<open>C25: A handle is closed once, and never under an operation that uses it.  However gets, releases, closes and
  new streams interleave, no handle is closed twice, each reference held keeps its stream and every handle of
  it open, and a stream nobody holds or lists is gone; the count of live streams of a context is the number it
  has.\<close>

theorem stream_handles_closed_once:
  assumes "reachable_streams (T, H)"
  shows "distinct (closed_handles T)
    \<and> (sid \<in> set H \<union> set (table T) \<longrightarrow> (\<exists>s. memory T sid = Some s \<and> handles_of s \<inter> set (closed_handles T) = {}))
    \<and> (sid \<notin> set H \<union> set (table T) \<longrightarrow> memory T sid = None)
    \<and> live_streams T ctx = int (card {x. \<exists>s. memory T x = Some s \<and> s_context s = ctx})"
proof -
  have "tables_inv (T, H)" using assms by (rule reachable_streams_inv)
  then have I: "stream_inv T (references T H)" by (simp add: tables_inv_def)
  have p: "0 < references T H sid \<longleftrightarrow> sid \<in> set H \<union> set (table T)"
    using count_list_0_iff [of H sid] by (auto simp: references_def)
  have "\<exists>s. memory T sid = Some s \<and> handles_of s \<inter> set (closed_handles T) = {}" if "sid \<in> set H \<union> set (table T)"
    using present_iff [OF I, of sid] stream_invD(6) [OF I, of sid] p that by auto
  moreover have "memory T sid = None" if "sid \<notin> set H \<union> set (table T)"
    using present_iff [OF I, of sid] p that by blast
  ultimately show ?thesis using I by (simp add: stream_inv_def)
qed

text \<open>A reader holds a stream while it is closed; its release closes the handles.\<close>

lemma sample_streams:
  "\<exists>T. reachable_streams (T, [1]) \<and> table T = [] \<and> closed_handles T = []"
proof -
  obtain T1 where n: "stream_new True (Some 10) (Some 11) 7 (Some 12) None initial_tables = (Some 1, T1)"
    and T1: "table T1 = [1]" "closed_handles T1 = []"
      "memory T1 1 = Some \<lparr>s_refs = 1, s_closed = False, s_process = 0, s_context = 7, s_read = Some 12, s_write = None,
         s_cancel = 10, s_event = Some 11, s_cancelled = False, s_byte = NUL,
           s_pending = False, s_cached = False, s_eof = False\<rparr>"
    by (simp add: stream_new_def allocate_id_def initial_tables_def INT_MAX_def)
  have "new_handles [Some 10, Some 11, Some 12, None] initial_tables"
    by (simp add: new_handles_def all_handles_def initial_tables_def)
  with n have 1: "stream_step (initial_tables, []) (T1, [])" by (rule stream_step.New)
  obtain T2 where g: "stream_get 1 T1 = Some T2" and T2: "table T2 = [1]" "closed_handles T2 = []"
      "memory T2 1 = Some \<lparr>s_refs = 2, s_closed = False, s_process = 0, s_context = 7, s_read = Some 12, s_write = None,
         s_cancel = 10, s_event = Some 11, s_cancelled = False, s_byte = NUL,
           s_pending = False, s_cached = False, s_eof = False\<rparr>"
    using T1 by (simp add: stream_get_def set_stream_def)
  from g have 2: "stream_step (T1, []) (T2, [1])" by (rule stream_step.Get)
  have 3: "stream_step (T2, [1]) (snd (visjail_close 1 T2), [1])" by (rule stream_step.Close)
  have "table (snd (visjail_close 1 T2)) = []" "closed_handles (snd (visjail_close 1 T2)) = []"
    using T2 by (simp_all add: visjail_close_def stream_close_locked_def drop_reference_def set_stream_def)
  moreover have "reachable_streams (snd (visjail_close 1 T2), [1])"
    unfolding reachable_streams_def using 1 2 3 by (meson converse_rtranclp_into_rtranclp rtranclp.rtrancl_refl)
  ultimately show ?thesis by blast
qed

theorem stream_handles_closed_once_witness:
  "\<exists>T :: stream_tables. table T = [] \<and> (\<exists>s. memory T 1 = Some s \<and> handles_of s \<inter> set (closed_handles T) = {})
     \<and> live_streams T 7 = int (card {x. \<exists>s. memory T x = Some s \<and> s_context s = 7})"
proof -
  obtain T where T: "reachable_streams (T, [1])" "table T = []" using sample_streams by blast
  have m: "(1 :: int) \<in> set [1] \<union> set (table T)" by simp
  note R = stream_handles_closed_once [OF T(1), of 1 7]
  from R m have s: "\<exists>s. memory T 1 = Some s \<and> handles_of s \<inter> set (closed_handles T) = {}" by blast
  from R have l: "live_streams T 7 = int (card {x. \<exists>s. memory T x = Some s \<and> s_context s = 7})" by blast
  show ?thesis by (rule exI [where x = T]) (rule conjI [OF T(2) conjI [OF s l]])
qed

end
