(* ===== verification/WinReads.thy ===== *)
theory WinReads
  imports WinStreams
begin

text \<open>
  Reading, writing and polling a stream of the Windows jail in \<^verbatim>\<open>native/visjail/visjail_windows.c\<close>.  A poll has
  one overlapped read of one byte outstanding; the byte it fetched is handed over by the next read.  What Win32
  answers is a parameter; a pipe is the bytes its writers give it that are not yet read from it.
\<close>

section \<open>What Win32 answers\<close>

definition ERROR_INVALID_PARAMETER :: int where "ERROR_INVALID_PARAMETER = 87"

definition ERROR_BROKEN_PIPE :: int where "ERROR_BROKEN_PIPE = 109"

definition ERROR_PIPE_NOT_CONNECTED :: int where "ERROR_PIPE_NOT_CONNECTED = 233"

definition ERROR_OPERATION_ABORTED :: int where "ERROR_OPERATION_ABORTED = 995"

definition ERROR_IO_PENDING :: int where "ERROR_IO_PENDING = 997"

lemmas win_errors = ERROR_INVALID_PARAMETER_def ERROR_BROKEN_PIPE_def ERROR_PIPE_NOT_CONNECTED_def
  ERROR_OPERATION_ABORTED_def ERROR_IO_PENDING_def ERROR_INVALID_HANDLE_def

text \<open>A transfer completes with at most so many bytes, or fails with a code.\<close>

datatype transfer = Moved nat | Refused int

datatype wait_answer = Timeout | Signalled | Abandoned

record look_answers =
  cancel_seen :: bool
  look_started :: transfer
  look_waited :: wait_answer
  look_ended :: transfer

record io_answers =
  io_found :: bool
  io_event :: "int option"
  io_cancelled :: bool
  io_started :: transfer
  io_ended :: transfer

record read_answers =
  look :: look_answers
  available :: "nat option"
  bulk :: io_answers

section \<open>Look-ahead\<close>

definition pipe_read :: "nat \<Rightarrow> nat \<Rightarrow> bytes \<Rightarrow> bytes \<times> bytes" where
  "pipe_read ready asked pipe = (take (min ready asked) pipe, drop (min ready asked) pipe)"

definition stream_over :: "int \<Rightarrow> bool" where
  "stream_over code \<longleftrightarrow> code = ERROR_BROKEN_PIPE \<or> code = ERROR_PIPE_NOT_CONNECTED"

text \<open>A completed look-ahead, and a failed one.\<close>

definition looked :: "nat \<Rightarrow> stream \<Rightarrow> bytes \<Rightarrow> int \<times> stream \<times> bytes" where
  "looked ready s pipe =
     (let (got, rest) = pipe_read ready 1 pipe
      in (1, s\<lparr>s_byte := (case got of [] \<Rightarrow> s_byte s | b # _ \<Rightarrow> b), s_cached := got \<noteq> [], s_eof := got = []\<rparr>, rest))"

definition look_failed :: "int \<Rightarrow> stream \<Rightarrow> bytes \<Rightarrow> int \<times> stream \<times> bytes" where
  "look_failed code s pipe = (if stream_over code then (1, s\<lparr>s_eof := True\<rparr>, pipe) else (- code, s, pipe))"

definition look_wait :: "look_answers \<Rightarrow> stream \<Rightarrow> bytes \<Rightarrow> int \<times> stream \<times> bytes" where
  "look_wait A s pipe =
     (case look_waited A of
        Timeout \<Rightarrow> (0, s, pipe)
      | Abandoned \<Rightarrow> (- ERROR_OPERATION_ABORTED, s, pipe)
      | Signalled \<Rightarrow>
          (case look_ended A of
             Moved n \<Rightarrow> looked n (s\<lparr>s_pending := False\<rparr>) pipe
           | Refused code \<Rightarrow> look_failed code (s\<lparr>s_pending := False\<rparr>) pipe))"

definition read_ready :: "look_answers \<Rightarrow> stream \<Rightarrow> bytes \<Rightarrow> int \<times> stream \<times> bytes" where
  "read_ready A s pipe =
     (if s_read s = None then (- ERROR_INVALID_HANDLE, s, pipe)
      else if cancel_seen A then (- ERROR_OPERATION_ABORTED, s, pipe)
      else if s_cached s \<or> s_eof s then (1, s, pipe)
      else if s_pending s then look_wait A s pipe
      else
        (case look_started A of
           Moved n \<Rightarrow> looked n s pipe
         | Refused code \<Rightarrow>
             if code = ERROR_IO_PENDING then look_wait A (s\<lparr>s_pending := True\<rparr>) pipe
             else look_failed code s pipe))"

section \<open>Bulk transfers\<close>

definition io_outcome :: "io_answers \<Rightarrow> int + nat" where
  "io_outcome A =
     (case io_event A of
        Some code \<Rightarrow> Inl code
      | None \<Rightarrow>
          if io_cancelled A then Inl ERROR_OPERATION_ABORTED
          else
            (case io_started A of
               Moved n \<Rightarrow> Inr n
             | Refused code \<Rightarrow>
                 if code = ERROR_IO_PENDING then (case io_ended A of Moved n \<Rightarrow> Inr n | Refused code' \<Rightarrow> Inl code')
                 else Inl code))"

text \<open>The result, the bytes put into the buffer, and the pipe; \<open>content\<close> is what a write was given.\<close>

definition stream_io :: "io_answers \<Rightarrow> bytes option \<Rightarrow> int \<Rightarrow> bool \<Rightarrow> stream \<Rightarrow> bytes \<Rightarrow> int \<times> bytes \<times> bytes" where
  "stream_io A buffer len writing s pipe =
     (if len < 0 \<or> (buffer = None \<and> len \<noteq> 0) then (- ERROR_INVALID_PARAMETER, [], pipe)
      else if \<not> io_found A then (- ERROR_INVALID_HANDLE, [], pipe)
      else if (if writing then s_write s else s_read s) = None then (- ERROR_INVALID_HANDLE, [], pipe)
      else
        (case io_outcome A of
           Inr n \<Rightarrow>
             if writing then
               let sent = take (min n (nat len)) (case buffer of None \<Rightarrow> [] | Some content \<Rightarrow> content)
               in (int (length sent), [], pipe @ sent)
             else let (got, rest) = pipe_read n (nat len) pipe in (int (length got), got, rest)
         | Inl code \<Rightarrow> (if \<not> writing \<and> stream_over code then 0 else - code, [], pipe)))"

text \<open>The part of a read under the lock of the reader.\<close>

definition read_section :: "read_answers \<Rightarrow> int \<Rightarrow> stream \<Rightarrow> bytes \<Rightarrow> (int \<times> bytes) \<times> stream \<times> bytes" where
  "read_section A len s pipe =
     (let (result, s1, pipe1) = read_ready (look A) s pipe in
      if result > 0 then
        if s_cached s1 then
          let s2 = s1\<lparr>s_cached := False\<rparr> in
          (case available A of
             Some n \<Rightarrow>
               if len > 1 \<and> n > 0 then
                 let (extra, more_bytes, pipe2) = stream_io (bulk A) (Some []) (min (int n) (len - 1)) False s2 pipe1
                 in if extra > 0 then ((1 + extra, s_byte s1 # more_bytes), s2, pipe2) else ((1, [s_byte s1]), s2, pipe2)
               else ((1, [s_byte s1]), s2, pipe1)
           | None \<Rightarrow> ((1, [s_byte s1]), s2, pipe1))
        else ((0, []), s1, pipe1)
      else ((result, []), s1, pipe1))"

section \<open>The calls of the host\<close>

definition visjail_read ::
  "read_answers \<Rightarrow> bool \<Rightarrow> int \<Rightarrow> int \<Rightarrow> stream_tables \<Rightarrow> bytes \<Rightarrow> (int \<times> bytes) \<times> stream_tables \<times> bytes" where
  "visjail_read A given sid len T pipe =
     (if len < 0 \<or> (\<not> given \<and> len \<noteq> 0) then ((- ERROR_INVALID_PARAMETER, []), T, pipe)
      else if len = 0 then ((0, []), T, pipe)
      else
        (case stream_get sid T of
           None \<Rightarrow> ((- ERROR_INVALID_HANDLE, []), T, pipe)
         | Some T1 \<Rightarrow>
             let (answer, s', pipe') = read_section A len (the (memory T1 sid)) pipe
             in (answer, stream_release sid (set_stream sid (Some s') T1), pipe')))"

definition visjail_poll :: "look_answers \<Rightarrow> int \<Rightarrow> stream_tables \<Rightarrow> bytes \<Rightarrow> int \<times> stream_tables \<times> bytes" where
  "visjail_poll A sid T pipe =
     (case stream_get sid T of
        None \<Rightarrow> (- ERROR_INVALID_HANDLE, T, pipe)
      | Some T1 \<Rightarrow>
          let (result, s', pipe') = read_ready A (the (memory T1 sid)) pipe
          in (result, stream_release sid (set_stream sid (Some s') T1), pipe'))"

text \<open>A write has the reference of \<open>stream_io\<close> only.\<close>

definition visjail_write ::
  "io_answers \<Rightarrow> int \<Rightarrow> bytes option \<Rightarrow> int \<Rightarrow> stream_tables \<Rightarrow> bytes \<Rightarrow> int \<times> stream_tables \<times> bytes" where
  "visjail_write A sid buffer len T pipe =
     (if len < 0 \<or> (buffer = None \<and> len \<noteq> 0) then (- ERROR_INVALID_PARAMETER, T, pipe)
      else
        (case stream_get sid T of
           None \<Rightarrow> (- ERROR_INVALID_HANDLE, T, pipe)
         | Some T1 \<Rightarrow>
             let (result, _, pipe') = stream_io (A\<lparr>io_found := True\<rparr>) buffer len True (the (memory T1 sid)) pipe
             in (result, stream_release sid T1, pipe')))"

section \<open>Lemmas on reads\<close>

definition held :: "stream \<Rightarrow> bytes" where
  "held s = (if s_cached s then [s_byte s] else [])"

text \<open>What a reader may change of a stream.\<close>

definition same_stream :: "stream \<Rightarrow> stream \<Rightarrow> bool" where
  "same_stream s t \<longleftrightarrow> s_refs t = s_refs s \<and> s_closed t = s_closed s \<and> s_process t = s_process s \<and> s_context t = s_context s
     \<and> s_read t = s_read s \<and> s_write t = s_write s \<and> s_cancel t = s_cancel s \<and> s_event t = s_event s
     \<and> s_cancelled t = s_cancelled s"

lemma same_stream_simps [simp]:
  "same_stream s s"
  "same_stream s (t\<lparr>s_byte := b\<rparr>) = same_stream s t" "same_stream s (t\<lparr>s_pending := k\<rparr>) = same_stream s t"
  "same_stream s (t\<lparr>s_cached := k\<rparr>) = same_stream s t" "same_stream s (t\<lparr>s_eof := k\<rparr>) = same_stream s t"
  "same_stream (s\<lparr>s_pending := k\<rparr>) t = same_stream s t"
  by (simp_all add: same_stream_def)

lemma same_stream_update:
  "same_stream s t \<Longrightarrow> t = s\<lparr>s_byte := s_byte t, s_pending := s_pending t, s_cached := s_cached t, s_eof := s_eof t\<rparr>"
  by (cases s; cases t) (simp add: same_stream_def)

text \<open>A look-ahead keeps what the stream holds in front of its pipe; it never holds a byte behind the end.\<close>

definition reader_ok :: "stream \<Rightarrow> bool" where
  "reader_ok s \<longleftrightarrow> \<not> (s_cached s \<and> s_eof s) \<and> (s_cached s \<or> s_eof s \<longrightarrow> \<not> s_pending s)"

definition looks :: "stream \<Rightarrow> bytes \<Rightarrow> int \<times> stream \<times> bytes \<Rightarrow> bool" where
  "looks s pipe R \<longleftrightarrow>
     (case R of (r, t, rest) \<Rightarrow> held t @ rest = held s @ pipe \<and> same_stream s t \<and> reader_ok t
        \<and> (s_eof s \<longrightarrow> s_eof t \<and> rest = pipe) \<and> (0 < r \<longrightarrow> s_cached t \<or> s_eof t))"

lemma looked_looks: "held s = [] \<Longrightarrow> \<not> s_pending s \<Longrightarrow> \<not> s_eof s \<Longrightarrow> looks s pipe (looked n s pipe)"
  by (cases pipe; cases n) (auto simp: looks_def looked_def pipe_read_def held_def reader_ok_def split: if_splits)

text \<open>Documented of Win32: a failed transfer has a positive code.\<close>

definition valid_transfer :: "transfer \<Rightarrow> bool" where
  "valid_transfer t = (case t of Moved n \<Rightarrow> True | Refused code \<Rightarrow> 0 < code)"

definition valid_look :: "look_answers \<Rightarrow> bool" where
  "valid_look A \<longleftrightarrow> valid_transfer (look_started A) \<and> valid_transfer (look_ended A)"

definition valid_io :: "io_answers \<Rightarrow> bool" where
  "valid_io A \<longleftrightarrow> valid_transfer (io_started A) \<and> valid_transfer (io_ended A) \<and> pred_option (\<lambda>code. 0 < code) (io_event A)"

definition valid_read :: "read_answers \<Rightarrow> bool" where
  "valid_read A \<longleftrightarrow> valid_look (look A) \<and> valid_io (bulk A)"

lemma look_failed_looks:
  "reader_ok s \<Longrightarrow> \<not> s_pending s \<Longrightarrow> \<not> s_cached s \<Longrightarrow> 0 < code \<Longrightarrow> looks s pipe (look_failed code s pipe)"
  by (auto simp: looks_def look_failed_def held_def reader_ok_def)

text \<open>Nothing is held while a look-ahead is outstanding.\<close>

lemma looks_pending:
  "looks (s\<lparr>s_pending := p\<rparr>) pipe R = looks s pipe R"
proof -
  have "held (s\<lparr>s_pending := p\<rparr>) = held s" by (simp add: held_def)
  then show ?thesis by (simp add: looks_def)
qed

lemma look_wait_looks:
  assumes "\<not> s_cached s" "\<not> s_eof s" "valid_look A"
  shows "looks s pipe (look_wait A s pipe)"
proof -
  let ?s = "s\<lparr>s_pending := False\<rparr>"
  have n: "looks s pipe (looked n ?s pipe)" for n
    using looked_looks [of ?s pipe n] assms(1,2) by (simp add: looks_pending held_def)
  have f: "0 < code \<Longrightarrow> looks s pipe (look_failed code ?s pipe)" for code
    using look_failed_looks [of ?s code pipe] assms(1,2) by (simp add: looks_pending reader_ok_def)
  have "looks s pipe (r, s, pipe)" if "r \<le> 0" for r
    using assms that by (auto simp: looks_def reader_ok_def)
  with n f assms(3) show ?thesis
    by (auto simp: look_wait_def valid_look_def valid_transfer_def win_errors split: wait_answer.splits transfer.splits)
qed

lemma read_ready_looks:
  assumes "reader_ok s" "valid_look A"
  shows "looks s pipe (read_ready A s pipe)"
proof (cases "s_read s = None \<or> cancel_seen A \<or> s_cached s \<or> s_eof s")
  case True
  then show ?thesis using assms by (auto simp: read_ready_def looks_def win_errors)
next
  case False
  then have w: "looks s pipe (look_wait A s pipe)" "looks s pipe (look_wait A (s\<lparr>s_pending := True\<rparr>) pipe)"
    using look_wait_looks [of s A pipe] look_wait_looks [of "s\<lparr>s_pending := True\<rparr>" A pipe] assms(2)
    by (simp_all add: looks_pending)
  show ?thesis
  proof (cases "s_pending s")
    case False
    with \<open>\<not> (s_read s = None \<or> cancel_seen A \<or> s_cached s \<or> s_eof s)\<close> have
      "looks s pipe (looked n s pipe)" "0 < code \<Longrightarrow> looks s pipe (look_failed code s pipe)" for n code
      using looked_looks [of s pipe n] look_failed_looks [of s code pipe] assms(1) by (simp_all add: held_def)
    with w False \<open>\<not> (s_read s = None \<or> cancel_seen A \<or> s_cached s \<or> s_eof s)\<close> assms(2) show ?thesis
      by (auto simp: read_ready_def valid_look_def valid_transfer_def split: transfer.splits)
  qed (use w False in \<open>auto simp: read_ready_def\<close>)
qed

text \<open>A bulk read takes what it delivers from the front of the pipe.\<close>

lemma io_outcome_code: "valid_io A \<Longrightarrow> io_outcome A = Inl code \<Longrightarrow> 0 < code"
  by (auto simp: io_outcome_def valid_io_def valid_transfer_def win_errors split: option.splits if_splits transfer.splits)

lemma stream_io_read:
  assumes "stream_io A buffer len False s pipe = (r, got, rest)" "0 \<le> len" "valid_io A"
  shows "got @ rest = pipe \<and> int (length got) \<le> len \<and> (if 0 < r then r = int (length got) else got = [])"
proof (cases "(buffer = None \<and> len \<noteq> 0) \<or> \<not> io_found A \<or> s_read s = None")
  case True
  with assms(1,2) have "r \<le> 0" "got = []" "rest = pipe" by (auto simp: stream_io_def win_errors split: if_splits)
  with assms(2) show ?thesis by simp
next
  case False
  then have e: "stream_io A buffer len False s pipe =
      (case io_outcome A of
         Inr n \<Rightarrow> let (got, rest) = pipe_read n (nat len) pipe in (int (length got), got, rest)
       | Inl code \<Rightarrow> (if stream_over code then 0 else - code, [], pipe))"
    using assms(2) by (subst stream_io_def) (simp only: not_less de_Morgan_disj simp_thms if_False if_not_P split: if_split sum.split; simp)
  show ?thesis
  proof (cases "io_outcome A")
    case (Inl code)
    with assms(1) e io_outcome_code [OF assms(3) Inl] have "r \<le> 0" "got = []" "rest = pipe" by (simp_all split: if_splits)
    with assms(2) show ?thesis by simp
  next
    case (Inr n)
    with assms(1) e have "r = int (length got)" "got = take (min n (nat len)) pipe" "rest = drop (min n (nat len)) pipe"
      by (auto simp: pipe_read_def)
    with assms(2) show ?thesis by auto
  qed
qed

definition reads :: "int \<Rightarrow> stream \<Rightarrow> bytes \<Rightarrow> (int \<times> bytes) \<times> stream \<times> bytes \<Rightarrow> bool" where
  "reads len s pipe R \<longleftrightarrow>
     (case R of ((r, d), t, rest) \<Rightarrow> d @ held t @ rest = held s @ pipe \<and> same_stream s t \<and> reader_ok t
        \<and> length d = nat r \<and> r \<le> len \<and> (s_eof s \<longrightarrow> s_eof t \<and> rest = pipe \<and> d = []))"

lemma read_section_reads:
  assumes "reader_ok s" "valid_read A" "0 < len"
  shows "reads len s pipe (read_section A len s pipe)"
proof -
  obtain r t rest where R: "read_ready (look A) s pipe = (r, t, rest)" by (cases "read_ready (look A) s pipe")
  with read_ready_looks [OF assms(1), of "look A" pipe] assms(2) have L: "held t @ rest = held s @ pipe" "same_stream s t" "reader_ok t"
    "s_eof s \<longrightarrow> s_eof t \<and> rest = pipe" "0 < r \<longrightarrow> s_cached t \<or> s_eof t" by (auto simp: looks_def valid_read_def)
  show ?thesis
  proof (cases "0 < r \<and> s_cached t")
    case False
    then show ?thesis using L assms(3) by (auto simp: read_section_def R reads_def held_def reader_ok_def)
  next
    case True
    let ?t = "t\<lparr>s_cached := False\<rparr>"
    have t: "same_stream s ?t" "reader_ok ?t" "held ?t = []" "\<not> s_eof t" "\<not> s_eof s"
      using L True by (auto simp: reader_ok_def held_def)
    have one: "reads len s pipe ((1, [s_byte t]), ?t, rest)"
      using True L(1) t assms(3) by (auto simp: reads_def held_def)
    obtain e d rest' where io: "stream_io (bulk A) (Some []) (min (int (the (available A))) (len - 1)) False ?t rest = (e, d, rest')"
      by (cases "stream_io (bulk A) (Some []) (min (int (the (available A))) (len - 1)) False ?t rest")
    have S: "d @ rest' = rest" "int (length d) \<le> len - 1" "0 < e \<longrightarrow> e = int (length d)" "e \<le> 0 \<longrightarrow> d = []"
      using stream_io_read [OF io] assms(2,3) by (auto simp: valid_read_def split: if_splits)
    have "reads len s pipe (if e > 0 then ((1 + e, s_byte t # d), ?t, rest') else ((1, [s_byte t]), ?t, rest'))"
      using True L(1) t S one by (auto simp: reads_def held_def)
    with one io True show ?thesis by (cases "available A") (simp_all add: read_section_def R Let_def)
  qed
qed

lemma read_section_end:
  assumes "read_section A len s pipe = ((0, d), t, rest)" "reader_ok s" "valid_look (look A)" "look_waited (look A) \<noteq> Timeout"
  shows "s_eof t"
proof -
  obtain r u v where R: "read_ready (look A) s pipe = (r, u, v)" by (cases "read_ready (look A) s pipe")
  with read_ready_looks [OF assms(2,3), of pipe] have L: "0 < r \<longrightarrow> s_cached u \<or> s_eof u" by (simp add: looks_def)
  have "r \<noteq> 0"
    using R assms(3,4)
    by (auto simp: read_ready_def look_wait_def looked_def look_failed_def valid_look_def valid_transfer_def win_errors
        pipe_read_def split: if_splits transfer.splits wait_answer.splits)
  with L assms(1) show ?thesis
    by (auto simp: read_section_def R Let_def split: if_splits option.splits prod.splits)
qed

section \<open>The end of the pipe\<close>

text \<open>Documented of a byte pipe: a transfer completes with at least one byte, which the pipe had, unless a writer wrote
  no bytes at all, which is left out here; and it is refused as broken only once everything written was read.\<close>

definition faithful_transfer :: "bytes \<Rightarrow> transfer \<Rightarrow> bool" where
  "faithful_transfer pipe t = (case t of Moved n \<Rightarrow> 0 < n \<and> pipe \<noteq> [] | Refused code \<Rightarrow> stream_over code \<longrightarrow> pipe = [])"

definition faithful_look :: "bytes \<Rightarrow> look_answers \<Rightarrow> bool" where
  "faithful_look pipe A \<longleftrightarrow> faithful_transfer pipe (look_started A) \<and> faithful_transfer pipe (look_ended A)"

text \<open>What Win32 answers once the writers are gone and everything was read: the pipe is broken, at once or behind
  \<open>ERROR_IO_PENDING\<close>.\<close>

definition sees_end :: "look_answers \<Rightarrow> bool" where
  "sees_end A \<longleftrightarrow> \<not> cancel_seen A \<and> look_waited A = Signalled
     \<and> (case look_started A of Moved _ \<Rightarrow> False | Refused code \<Rightarrow> stream_over code \<or> code = ERROR_IO_PENDING)
     \<and> (case look_ended A of Moved _ \<Rightarrow> False | Refused code \<Rightarrow> stream_over code)"

text \<open>A stream that has ended has nothing left.\<close>

definition truly_ended :: "stream \<Rightarrow> bytes \<Rightarrow> bool" where
  "truly_ended s pipe \<longleftrightarrow> (s_eof s \<longrightarrow> pipe = [])"

lemma truly_ended_simps [simp]:
  "truly_ended (s\<lparr>s_refs := k\<rparr>) pipe = truly_ended s pipe" "truly_ended (s\<lparr>s_pending := b\<rparr>) pipe = truly_ended s pipe"
  "truly_ended (s\<lparr>s_cached := b\<rparr>) pipe = truly_ended s pipe"
  by (simp_all add: truly_ended_def)

lemma looked_ended: "0 < n \<Longrightarrow> pipe \<noteq> [] \<Longrightarrow> looked n s pipe = (r, t, rest) \<Longrightarrow> truly_ended t rest"
  by (cases pipe; cases n) (auto simp: looked_def pipe_read_def truly_ended_def)

lemma look_failed_ended:
  "truly_ended s pipe \<Longrightarrow> stream_over code \<longrightarrow> pipe = [] \<Longrightarrow> look_failed code s pipe = (r, t, rest) \<Longrightarrow> truly_ended t rest"
  by (auto simp: look_failed_def truly_ended_def split: if_splits)

lemma look_wait_ended:
  assumes "truly_ended s pipe" "faithful_look pipe A" "look_wait A s pipe = (r, t, rest)"
  shows "truly_ended t rest"
proof -
  let ?s = "s\<lparr>s_pending := False\<rparr>"
  consider "(t, rest) = (s, pipe)" | n where "look_ended A = Moved n" "looked n ?s pipe = (r, t, rest)"
    | code where "look_ended A = Refused code" "look_failed code ?s pipe = (r, t, rest)"
    using assms(3) by (auto simp: look_wait_def split: wait_answer.splits transfer.splits)
  then show ?thesis
    using assms(1,2) looked_ended [of _ pipe ?s r t rest] look_failed_ended [of ?s pipe _ r t rest]
    by cases (auto simp: faithful_look_def faithful_transfer_def)
qed

lemma read_ready_ended:
  assumes "truly_ended s pipe" "faithful_look pipe A" "read_ready A s pipe = (r, t, rest)"
  shows "truly_ended t rest"
proof -
  consider "(t, rest) = (s, pipe)" | "look_wait A s pipe = (r, t, rest)" | "look_wait A (s\<lparr>s_pending := True\<rparr>) pipe = (r, t, rest)"
    | n where "look_started A = Moved n" "looked n s pipe = (r, t, rest)"
    | code where "look_started A = Refused code" "look_failed code s pipe = (r, t, rest)"
    using assms(3) by (auto simp: read_ready_def split: transfer.splits if_splits)
  then show ?thesis
  proof cases
    case 1
    then show ?thesis using assms(1) by simp
  next
    case 2
    show ?thesis by (rule look_wait_ended [OF assms(1,2) 2])
  next
    case 3
    show ?thesis by (rule look_wait_ended [OF _ assms(2) 3]) (simp add: assms(1))
  next
    case (4 n)
    then show ?thesis using looked_ended [OF _ _ 4(2)] assms(2) by (simp add: faithful_look_def faithful_transfer_def)
  next
    case (5 code)
    then show ?thesis using look_failed_ended [OF assms(1) _ 5(2)] assms(2) by (simp add: faithful_look_def faithful_transfer_def)
  qed
qed

lemma read_section_ended:
  assumes "truly_ended s pipe" "faithful_look pipe (look A)" "reader_ok s" "valid_look (look A)"
    "read_section A len s pipe = (out, t, rest)"
  shows "truly_ended t rest"
proof -
  obtain r u v where R: "read_ready (look A) s pipe = (r, u, v)" by (cases "read_ready (look A) s pipe")
  with read_ready_looks [OF assms(3,4), of pipe] have "reader_ok u" by (simp add: looks_def)
  with assms(5) read_ready_ended [OF assms(1,2) R] show ?thesis
    by (auto simp: read_section_def R truly_ended_def reader_ok_def Let_def split: if_splits option.splits prod.splits)
qed

text \<open>Once nothing is left and the pipe is seen broken, a poll answers, and a read answers the end.\<close>

lemma look_at_end:
  assumes "sees_end A" "\<not> s_cached s" "s_read s \<noteq> None"
  shows "\<exists>t. read_ready A s pipe = (1, t, pipe) \<and> \<not> s_cached t \<and> s_eof t \<and> same_stream s t"
proof (cases "s_eof s")
  case True
  with assms show ?thesis by (auto simp: read_ready_def sees_end_def)
next
  case False
  obtain e where e: "look_ended A = Refused e" "stream_over e" using assms(1) by (auto simp: sees_end_def split: transfer.splits)
  then have w: "look_wait A u pipe = (1, u\<lparr>s_pending := False, s_eof := True\<rparr>, pipe)" for u
    using assms(1) by (simp add: look_wait_def look_failed_def sees_end_def)
  obtain c where c: "look_started A = Refused c" "stream_over c \<or> c = ERROR_IO_PENDING"
    using assms(1) by (auto simp: sees_end_def split: transfer.splits)
  with assms False show ?thesis by (auto simp: read_ready_def sees_end_def w look_failed_def stream_over_def win_errors)
qed

section \<open>A reader of a stream\<close>

definition open_stream :: "stream_tables \<Rightarrow> int \<Rightarrow> stream \<Rightarrow> bool" where
  "open_stream T sid s \<longleftrightarrow> memory T sid = Some s \<and> sid \<in> set (table T) \<and> \<not> s_closed s \<and> 0 < s_refs s"

text \<open>A call alone gives back the reference it took; nothing a reader looks at depends on it.\<close>

lemma refs_simps [simp]:
  "held (s\<lparr>s_refs := k\<rparr>) = held s" "reader_ok (s\<lparr>s_refs := k\<rparr>) = reader_ok s"
  by (simp_all add: held_def reader_ok_def)

lemma same_stream_refs: "same_stream (s\<lparr>s_refs := k\<rparr>) t \<Longrightarrow> same_stream s (t\<lparr>s_refs := s_refs s\<rparr>)"
  by (simp add: same_stream_def)

lemma call_gives_back:
  assumes "open_stream T sid s" "same_stream (s\<lparr>s_refs := s_refs s + 1\<rparr>) t"
  shows "\<exists>T1. stream_get sid T = Some T1 \<and> memory T1 sid = Some (s\<lparr>s_refs := s_refs s + 1\<rparr>)
    \<and> stream_release sid (set_stream sid (Some t) T1) = set_stream sid (Some (t\<lparr>s_refs := s_refs s\<rparr>)) T
    \<and> open_stream (set_stream sid (Some (t\<lparr>s_refs := s_refs s\<rparr>)) T) sid (t\<lparr>s_refs := s_refs s\<rparr>)"
  using assms
  by (simp add: open_stream_def stream_get_def set_stream_def stream_release_def drop_reference_def same_stream_def)

text \<open>A sequence of calls on one stream: each gets the answers of Win32 it meets.\<close>

datatype call = Poll look_answers | Read read_answers int

definition one_call :: "int \<Rightarrow> call \<Rightarrow> stream_tables \<Rightarrow> bytes \<Rightarrow> (int \<times> bytes) \<times> stream_tables \<times> bytes" where
  "one_call sid c T pipe =
     (case c of
        Poll A \<Rightarrow> (case visjail_poll A sid T pipe of (r, T', pipe') \<Rightarrow> ((r, []), T', pipe'))
      | Read A len \<Rightarrow> visjail_read A True sid len T pipe)"

fun run_calls :: "int \<Rightarrow> call list \<Rightarrow> stream_tables \<Rightarrow> bytes \<Rightarrow> (int \<times> bytes) list \<times> stream_tables \<times> bytes" where
  "run_calls sid [] T pipe = ([], T, pipe)"
| "run_calls sid (c # cs) T pipe =
     (let (out, T', pipe') = one_call sid c T pipe;
          (outs, T'', pipe'') = run_calls sid cs T' pipe'
      in (out # outs, T'', pipe''))"

definition valid_call :: "call \<Rightarrow> bool" where
  "valid_call c = (case c of Poll A \<Rightarrow> valid_look A | Read A len \<Rightarrow> valid_read A \<and> look_waited (look A) \<noteq> Timeout)"

text \<open>What one call answers.\<close>

definition answer_ok :: "call \<Rightarrow> int \<times> bytes \<Rightarrow> bool" where
  "answer_ok c out =
     (case (c, out) of
        (Poll A, r, d) \<Rightarrow> d = []
      | (Read A len, r, d) \<Rightarrow> length d = nat r \<and> r \<le> max 0 len)"

text \<open>Every call meets answers that are faithful to the pipe it finds.\<close>

definition call_look :: "call \<Rightarrow> look_answers" where
  "call_look c = (case c of Poll A \<Rightarrow> A | Read A _ \<Rightarrow> look A)"

fun faithful_calls :: "int \<Rightarrow> call list \<Rightarrow> stream_tables \<Rightarrow> bytes \<Rightarrow> bool" where
  "faithful_calls sid [] T pipe = True"
| "faithful_calls sid (c # cs) T pipe =
     (faithful_look pipe (call_look c) \<and> (case one_call sid c T pipe of (_, T', pipe') \<Rightarrow> faithful_calls sid cs T' pipe'))"

lemma poll_alone:
  assumes "open_stream T sid s" "reader_ok s" "valid_look A" "visjail_poll A sid T pipe = (r, T', pipe')"
    and "truly_ended s pipe" "faithful_look pipe A"
  shows "\<exists>t. open_stream T' sid t \<and> reader_ok t \<and> held t @ pipe' = held s @ pipe \<and> (s_eof s \<longrightarrow> s_eof t \<and> pipe' = pipe)
    \<and> (0 < r \<longrightarrow> s_cached t \<or> s_eof t) \<and> truly_ended t pipe'"
proof -
  let ?s = "s\<lparr>s_refs := s_refs s + 1\<rparr>"
  obtain t where R: "read_ready A ?s pipe = (fst (read_ready A ?s pipe), t, snd (snd (read_ready A ?s pipe)))"
    by (metis prod.collapse)
  have L: "looks ?s pipe (fst (read_ready A ?s pipe), t, snd (snd (read_ready A ?s pipe)))"
    using read_ready_looks [of ?s A pipe] assms(2,3) R by simp
  then have "same_stream ?s t" by (simp add: looks_def)
  from call_gives_back [OF assms(1) this] obtain T1 where T1: "stream_get sid T = Some T1" "memory T1 sid = Some ?s"
    "stream_release sid (set_stream sid (Some t) T1) = set_stream sid (Some (t\<lparr>s_refs := s_refs s\<rparr>)) T"
    "open_stream (set_stream sid (Some (t\<lparr>s_refs := s_refs s\<rparr>)) T) sid (t\<lparr>s_refs := s_refs s\<rparr>)" by blast
  have v: "visjail_poll A sid T pipe = (fst (read_ready A ?s pipe), set_stream sid (Some (t\<lparr>s_refs := s_refs s\<rparr>)) T,
      snd (snd (read_ready A ?s pipe)))"
    by (simp add: visjail_poll_def T1(1) T1(2)) (subst R, simp add: T1(3))
  show ?thesis
    using read_ready_ended [OF _ assms(6) R] assms(5)
    by (intro exI [where x = "t\<lparr>s_refs := s_refs s\<rparr>"]) (use v assms(4) L T1(4) in \<open>auto simp: looks_def\<close>)
qed

text \<open>A read of no bytes returns at once; otherwise it answers the end only once the stream has ended.\<close>

definition saw_end :: "call \<Rightarrow> int \<times> bytes \<Rightarrow> bool" where
  "saw_end c out = (case c of Poll A \<Rightarrow> False | Read A len \<Rightarrow> 0 < len \<and> fst out = 0)"

lemma read_alone:
  assumes "open_stream T sid s" "reader_ok s" "valid_read A" "look_waited (look A) \<noteq> Timeout"
    "visjail_read A True sid len T pipe = ((r, d), T', pipe')"
    and "truly_ended s pipe" "faithful_look pipe (look A)"
  shows "\<exists>t. open_stream T' sid t \<and> reader_ok t \<and> d @ held t @ pipe' = held s @ pipe
    \<and> (s_eof s \<longrightarrow> s_eof t \<and> pipe' = pipe \<and> d = []) \<and> length d = nat r \<and> r \<le> max 0 len \<and> (0 < len \<and> r = 0 \<longrightarrow> s_eof t)
    \<and> truly_ended t pipe'"
proof (cases "0 < len")
  case False
  then have "visjail_read A True sid len T pipe = ((if len < 0 then - ERROR_INVALID_PARAMETER else 0, []), T, pipe)"
    by (auto simp: visjail_read_def)
  with assms(1,2,5,6) False show ?thesis by (auto simp: win_errors)
next
  case True
  let ?s = "s\<lparr>s_refs := s_refs s + 1\<rparr>"
  let ?R = "read_section A len ?s pipe"
  obtain t where R: "?R = (fst ?R, t, snd (snd ?R))" by (metis prod.collapse)
  have L: "reads len ?s pipe (fst ?R, t, snd (snd ?R))"
    using read_section_reads [OF _ assms(3) True, of ?s pipe] assms(2) R by simp
  have ended: "truly_ended t (snd (snd ?R))"
    using read_section_ended [OF _ assms(7), of ?s len "fst ?R" t "snd (snd ?R)"] assms(2,3,6) R by (simp add: valid_read_def)
  have E: "fst (fst ?R) = 0 \<longrightarrow> s_eof t"
    using read_section_end [of A len ?s pipe "snd (fst ?R)" t "snd (snd ?R)"] assms(2,3,4) R
    by (metis prod.collapse refs_simps(2) valid_read_def)
  from L have "same_stream ?s t" by (cases "fst ?R") (simp add: reads_def)
  from call_gives_back [OF assms(1) this] obtain T1 where T1: "stream_get sid T = Some T1" "memory T1 sid = Some ?s"
    "stream_release sid (set_stream sid (Some t) T1) = set_stream sid (Some (t\<lparr>s_refs := s_refs s\<rparr>)) T"
    "open_stream (set_stream sid (Some (t\<lparr>s_refs := s_refs s\<rparr>)) T) sid (t\<lparr>s_refs := s_refs s\<rparr>)" by blast
  have v: "visjail_read A True sid len T pipe = (fst ?R, set_stream sid (Some (t\<lparr>s_refs := s_refs s\<rparr>)) T, snd (snd ?R))"
    using True by (simp add: visjail_read_def T1(1) T1(2)) (subst R, simp add: T1(3))
  with assms(5) have o: "fst ?R = (r, d)" "T' = set_stream sid (Some (t\<lparr>s_refs := s_refs s\<rparr>)) T" "pipe' = snd (snd ?R)" by simp_all
  show ?thesis
    by (rule exI [where x = "t\<lparr>s_refs := s_refs s\<rparr>"])
      (use L E T1(4) True ended in \<open>auto simp: o reads_def\<close>)
qed

text \<open>The calls of a reader as steps of the threads that share the table.\<close>

lemma call_is_steps:
  assumes "stream_get sid T = Some T1" "memory T1 sid = Some s" "same_stream s t"
  shows "stream_step\<^sup>*\<^sup>* (T, H) (stream_release sid (set_stream sid (Some t) T1), H)"
proof -
  have "stream_step (T, H) (T1, sid # H)" using assms(1) by (rule stream_step.Get)
  moreover have "stream_step (T1, sid # H) (set_stream sid (Some t) T1, sid # H)"
    using stream_step.Reader [OF assms(2), where H = "sid # H" and b = "s_byte t" and p = "s_pending t" and c = "s_cached t" and e = "s_eof t"]
      same_stream_update [OF assms(3)] by simp
  moreover have "stream_step (set_stream sid (Some t) T1, sid # H) (stream_release sid (set_stream sid (Some t) T1), H)"
    using stream_step.Release [of sid "sid # H"] by simp
  ultimately show ?thesis by (rule converse_rtranclp_into_rtranclp [OF _ converse_rtranclp_into_rtranclp [OF _ r_into_rtranclp]])
qed

lemma one_call_spec:
  assumes "open_stream T sid s" "reader_ok s" "valid_call c" "one_call sid c T pipe = (out, T', pipe')"
    and "truly_ended s pipe" "faithful_look pipe (call_look c)"
  shows "\<exists>t. open_stream T' sid t \<and> reader_ok t \<and> snd out @ held t @ pipe' = held s @ pipe
    \<and> (s_eof s \<longrightarrow> s_eof t \<and> pipe' = pipe \<and> snd out = []) \<and> answer_ok c out \<and> (saw_end c out \<longrightarrow> s_eof t)
    \<and> truly_ended t pipe'"
proof (cases c)
  case (Poll A)
  obtain r where v: "visjail_poll A sid T pipe = (r, T', pipe')" "out = (r, [])"
    using assms(4) by (auto simp: one_call_def Poll split: prod.splits)
  from poll_alone [OF assms(1,2) _ v(1) assms(5)] assms(3,6) show ?thesis
    by (auto simp: v(2) Poll valid_call_def answer_ok_def saw_end_def call_look_def)
next
  case (Read A len)
  obtain r d where out: "out = (r, d)" by (cases out)
  have v: "visjail_read A True sid len T pipe = ((r, d), T', pipe')" using assms(4) by (simp add: one_call_def Read out)
  have "valid_read A" "look_waited (look A) \<noteq> Timeout" using assms(3) by (simp_all add: valid_call_def Read)
  from read_alone [OF assms(1,2) this v assms(5)] assms(6) show ?thesis by (simp add: out Read answer_ok_def saw_end_def call_look_def)
qed

lemma calls_at_end:
  assumes "open_stream T sid s" "held s @ pipe = []" "s_read s \<noteq> None" "sees_end (look A)"
  shows "fst (visjail_poll (look A) sid T pipe) = 1" "0 < len \<Longrightarrow> fst (visjail_read A True sid len T pipe) = (0, [])"
proof -
  let ?s = "s\<lparr>s_refs := s_refs s + 1\<rparr>"
  have "\<not> s_cached ?s" "s_read ?s \<noteq> None" using assms(2,3) by (auto simp: held_def split: if_splits)
  from look_at_end [OF assms(4) this, of pipe] obtain t where
    t: "read_ready (look A) ?s pipe = (1, t, pipe)" "\<not> s_cached t" "same_stream ?s t" by blast
  from call_gives_back [OF assms(1) t(3)] obtain T1 where T1: "stream_get sid T = Some T1" "memory T1 sid = Some ?s" by blast
  show "fst (visjail_poll (look A) sid T pipe) = 1" by (simp add: visjail_poll_def T1 t(1))
  show "fst (visjail_read A True sid len T pipe) = (0, [])" if "0 < len"
    using that t(2) by (simp add: visjail_read_def T1 read_section_def t(1))
qed

text \<open>C18: Reading a stream of the Windows jail loses and repeats nothing and ends where the pipe ends.  Over any
  sequence of polls and reads whose answers of Win32 are those of a byte pipe to which no one writes nothing at all
  (a completed write of no bytes would be taken for the end), the bytes delivered, then the byte a poll fetched
  ahead, then what the pipe still holds are the bytes that were there before.  A read delivers as many bytes as it
  reports, at most those asked for.  It reports the end, and the stream counts as ended, only when everything was
  delivered; and when everything was delivered and Win32 finds the pipe broken, the next poll answers and the next
  read reports the end.\<close>

theorem reads_deliver_the_pipe:
  assumes "open_stream T sid s" "reader_ok s" "truly_ended s pipe" "list_all valid_call cs" "faithful_calls sid cs T pipe"
    and "run_calls sid cs T pipe = (outs, T', pipe')"
  shows "\<exists>t. open_stream T' sid t \<and> concat (map snd outs) @ held t @ pipe' = held s @ pipe \<and> list_all2 answer_ok cs outs
    \<and> (list_ex (\<lambda>(c, out). saw_end c out) (zip cs outs) \<or> s_eof s \<longrightarrow> s_eof t)
    \<and> (s_eof t \<longrightarrow> concat (map snd outs) = held s @ pipe \<and> pipe' = [])
    \<and> (concat (map snd outs) = held s @ pipe \<longrightarrow> (\<forall>A len. s_read t \<noteq> None \<and> sees_end (look A) \<and> 0 < len \<longrightarrow>
         fst (visjail_poll (look A) sid T' pipe') = 1 \<and> fst (visjail_read A True sid len T' pipe') = (0, [])))"
proof -
  have "\<exists>t. open_stream T' sid t \<and> reader_ok t \<and> truly_ended t pipe' \<and> concat (map snd outs) @ held t @ pipe' = held s @ pipe
      \<and> list_all2 answer_ok cs outs \<and> (list_ex (\<lambda>(c, out). saw_end c out) (zip cs outs) \<or> s_eof s \<longrightarrow> s_eof t)"
    using assms
  proof (induction cs arbitrary: T s pipe outs)
    case (Cons c cs)
    obtain out T1 pipe1 where o: "one_call sid c T pipe = (out, T1, pipe1)" by (metis prod.collapse)
    obtain rest where r: "run_calls sid cs T1 pipe1 = (rest, T', pipe')" "outs = out # rest"
      using Cons.prems(6) by (auto simp: o split: prod.splits)
    have v: "valid_call c" "list_all valid_call cs" "faithful_look pipe (call_look c)" "faithful_calls sid cs T1 pipe1"
      using Cons.prems(4,5) by (simp_all add: o)
    from one_call_spec [OF Cons.prems(1,2) v(1) o Cons.prems(3) v(3)] obtain t where t: "open_stream T1 sid t" "reader_ok t"
        "snd out @ held t @ pipe1 = held s @ pipe" "s_eof s \<longrightarrow> s_eof t" "answer_ok c out"
        "saw_end c out \<longrightarrow> s_eof t" "truly_ended t pipe1" by blast
    from Cons.IH [OF t(1,2,7) v(2,4) r(1)] obtain u where u: "open_stream T' sid u" "reader_ok u" "truly_ended u pipe'"
        "concat (map snd rest) @ held u @ pipe' = held t @ pipe1" "list_all2 answer_ok cs rest"
        "list_ex (\<lambda>(c, out). saw_end c out) (zip cs rest) \<or> s_eof t \<longrightarrow> s_eof u" by blast
    have "concat (map snd outs) @ held u @ pipe' = held s @ pipe" using t(3) u(4) by (simp add: r(2))
    moreover have "list_ex (\<lambda>(c, out). saw_end c out) (zip (c # cs) outs) \<or> s_eof s \<longrightarrow> s_eof u"
      using t(4,6) u(6) by (auto simp: r(2))
    moreover have "list_all2 answer_ok (c # cs) outs" using t(5) u(5) by (simp add: r(2))
    ultimately show ?case using u(1-3) by blast
  qed auto
  then obtain t where t: "open_stream T' sid t" "reader_ok t" "truly_ended t pipe'" "concat (map snd outs) @ held t @ pipe' = held s @ pipe"
    "list_all2 answer_ok cs outs" "list_ex (\<lambda>(c, out). saw_end c out) (zip cs outs) \<or> s_eof s \<longrightarrow> s_eof t" by blast
  have "s_eof t \<longrightarrow> concat (map snd outs) = held s @ pipe \<and> pipe' = []"
    using t(2,3,4) by (auto simp: truly_ended_def reader_ok_def held_def)
  moreover have "held t @ pipe' = []" if "concat (map snd outs) = held s @ pipe" using t(4) that by simp
  ultimately show ?thesis using t calls_at_end [OF t(1)] by blast
qed

text \<open>A poll fetches one byte, the read behind it two more; the next one gets the last byte, and the one after it the end.\<close>

definition sample_stream :: stream where
  "sample_stream = \<lparr>s_refs = 1, s_closed = False, s_process = 0, s_context = 7, s_read = Some 12, s_write = None,
     s_cancel = 10, s_event = Some 11, s_cancelled = False, s_byte = NUL, s_pending = False, s_cached = False, s_eof = False\<rparr>"

definition sample_table :: stream_tables where
  "sample_table = initial_tables\<lparr>memory := (\<lambda>_. None)(1 := Some sample_stream), table := [1], next_id := 2\<rparr>"

definition sample_look :: "transfer \<Rightarrow> look_answers" where
  "sample_look r = \<lparr>cancel_seen = False, look_started = Refused ERROR_IO_PENDING, look_waited = Signalled, look_ended = r\<rparr>"

definition sample_read :: "transfer \<Rightarrow> nat option \<Rightarrow> call" where
  "sample_read r ready = Read \<lparr>look = sample_look r, available = ready,
     bulk = \<lparr>io_found = True, io_event = None, io_cancelled = False, io_started = Moved 2, io_ended = Moved 1\<rparr>\<rparr> 5"

definition sample_calls :: "call list" where
  "sample_calls = [Poll (sample_look (Moved 1)), sample_read (Moved 1) (Some 2), sample_read (Moved 1) None,
     sample_read (Refused ERROR_BROKEN_PIPE) None]"

lemmas sample_run_defs = sample_calls_def one_call_def visjail_poll_def visjail_read_def stream_get_def sample_table_def sample_read_def
      sample_stream_def sample_look_def set_stream_def stream_release_def drop_reference_def read_ready_def look_wait_def look_failed_def
      looked_def pipe_read_def read_section_def stream_io_def io_outcome_def stream_over_def win_errors initial_tables_def

lemma sample_calls_run: "fst (run_calls 1 sample_calls sample_table ''abcd'') = [(1, []), (3, ''abc''), (1, ''d''), (0, [])]"
  by (simp add: sample_run_defs)

lemma sample_calls_faithful: "faithful_calls 1 sample_calls sample_table ''abcd''"
  by (simp add: sample_run_defs call_look_def faithful_look_def faithful_transfer_def)

theorem reads_deliver_the_pipe_witness:
  "\<exists>outs T' pipe'. run_calls 1 sample_calls sample_table ''abcd'' = (outs, T', pipe')
     \<and> outs = [(1, []), (3, ''abc''), (1, ''d''), (0, [])] \<and> pipe' = [] \<and> (\<exists>t. open_stream T' 1 t \<and> s_eof t)"
proof -
  obtain outs T' pipe' where r: "run_calls 1 sample_calls sample_table ''abcd'' = (outs, T', pipe')" by (metis prod.collapse)
  then have o: "outs = [(1, []), (3, ''abc''), (1, ''d''), (0, [])]" using sample_calls_run by simp
  have "open_stream sample_table 1 sample_stream" "reader_ok sample_stream" "truly_ended sample_stream ''abcd''"
    "list_all valid_call sample_calls" "list_ex (\<lambda>(c, out). saw_end c out) (zip sample_calls outs)"
    by (simp_all add: open_stream_def sample_table_def sample_stream_def reader_ok_def sample_calls_def valid_call_def truly_ended_def
        sample_read_def sample_look_def valid_look_def valid_read_def valid_io_def valid_transfer_def win_errors saw_end_def o)
  with reads_deliver_the_pipe [OF this(1-4) sample_calls_faithful r] o r show ?thesis by blast
qed

end
