(* ===== verification/WinProcess.thy ===== *)
theory WinProcess
  imports WinReads "HOL-Library.Multiset"
begin

text \<open>
  The records of the processes of the Windows jail in \<^verbatim>\<open>native/visjail/visjail_windows.c\<close>: waiting, killing, closing
  a pseudo console, draining output nobody reads, and the part of the destruction of a context that runs with the
  lock released.  Handles are names that are not used again; what Win32 answers is a parameter.
\<close>

section \<open>Records\<close>

record proc =
  pr_context :: int
  pr_reaped :: bool
  pr_waited :: bool
  pr_cleaning :: bool
  pr_process :: "nat option"
  pr_job :: "nat option"
  pr_closer :: "nat option"
  pr_output :: "nat option"
  pr_output_event :: "nat option"
  pr_console :: "nat option"
  pr_pid :: int
  pr_code :: int

text \<open>The linked table, the newest record first; the handles closed, and the consoles given to a closing thread.\<close>

record proc_tables =
  procs :: "(int \<times> proc) list"
  closed :: "nat list"
  opened :: "nat list"
  consoles_closed :: "nat list"

definition process_get :: "int \<Rightarrow> proc_tables \<Rightarrow> proc option" where
  "process_get i T = map_of (procs T) i"

definition set_proc :: "int \<Rightarrow> proc \<Rightarrow> proc_tables \<Rightarrow> proc_tables" where
  "set_proc i p T = T\<lparr>procs := map (\<lambda>(j, q). if j = i then (j, p) else (j, q)) (procs T)\<rparr>"

definition close_handles :: "nat option list \<Rightarrow> proc_tables \<Rightarrow> proc_tables" where
  "close_handles hs T = T\<lparr>closed := closed T @ map the (filter (\<lambda>h. h \<noteq> None) hs)\<rparr>"

definition visjail_windows_pid :: "int \<Rightarrow> proc_tables \<Rightarrow> int" where
  "visjail_windows_pid i T = (case process_get i T of Some p \<Rightarrow> pr_pid p | None \<Rightarrow> 0)"

section \<open>Jobs\<close>

text \<open>Termination, then one answer per query: \<open>None\<close> when it fails, else the processes still active.  The result is
  \<open>None\<close> while the answers do not last.\<close>

fun job_queries :: "nat option list \<Rightarrow> bool option" where
  "job_queries [] = None"
| "job_queries (None # answers) = Some False"
| "job_queries (Some active # answers) = (if active = 0 then Some True else job_queries answers)"

definition finish_job :: "bool \<Rightarrow> nat option list \<Rightarrow> bool option" where
  "finish_job terminated answers = (if \<not> terminated then Some False else job_queries answers)"

definition visjail_kill :: "int option \<Rightarrow> int \<Rightarrow> int \<Rightarrow> proc_tables \<Rightarrow> int" where
  "visjail_kill terminate_error i signal_number T =
     (if signal_number \<noteq> 9 \<and> signal_number \<noteq> 15 then - ERROR_INVALID_PARAMETER
      else
        (case process_get i T of
           None \<Rightarrow> - ERROR_INVALID_HANDLE
         | Some p \<Rightarrow> (case terminate_error of None \<Rightarrow> 0 | Some code \<Rightarrow> - code)))"

section \<open>Draining\<close>

datatype closer_state = CloserDone | CloserRunning | CloserFailed int

datatype drain_wait = ByCloser | ByEvent | WaitFailed int | WaitOther

record drain_answers =
  closer_at_start :: closer_state
  reset_error :: "int option"
  drain_started :: transfer
  drain_waited :: drain_wait
  cancel_error :: "int option"
  drain_ended :: transfer

definition ERROR_NOT_FOUND :: int where "ERROR_NOT_FOUND = 1168"

definition ERROR_GEN_FAILURE :: int where "ERROR_GEN_FAILURE = 31"

text \<open>What happens to the overlapped read on the stack: submitted, cancelled, completed.\<close>

datatype overlapped = Submitted | Cancelled | Completed

text \<open>One turn of the loop: the value returned, or \<open>None\<close> to go on.\<close>

definition drain_turn :: "drain_answers \<Rightarrow> int option \<times> overlapped list" where
  "drain_turn A =
     (case closer_at_start A of
        CloserDone \<Rightarrow> (Some 0, [])
      | CloserFailed code \<Rightarrow> (Some (- code), [])
      | CloserRunning \<Rightarrow>
          (case reset_error A of
             Some code \<Rightarrow> (Some (- code), [])
           | None \<Rightarrow>
               (case drain_started A of
                  Moved n \<Rightarrow> (if n = 0 then Some 0 else None, [])
                | Refused code \<Rightarrow>
                    if stream_over code then (Some 0, [])
                    else if code \<noteq> ERROR_IO_PENDING then (Some (- code), [])
                    else
                      let w = drain_waited A;
                          cancel_failed = (if w = ByEvent then 0
                            else (case cancel_error A of None \<Rightarrow> 0 | Some e \<Rightarrow> if e = ERROR_NOT_FOUND then 0 else e));
                          ended = (case drain_ended A of Moved n \<Rightarrow> 0 | Refused e \<Rightarrow> e);
                          count = (case drain_ended A of Moved n \<Rightarrow> n | Refused e \<Rightarrow> 0)
                      in (if w \<noteq> ByCloser \<and> w \<noteq> ByEvent
                          then Some (- (case w of WaitFailed e \<Rightarrow> e | _ \<Rightarrow> ERROR_GEN_FAILURE))
                          else if cancel_failed \<noteq> 0 then Some (- cancel_failed)
                          else if w = ByCloser \<and> ended = ERROR_OPERATION_ABORTED then Some 0
                          else if stream_over ended then Some 0
                          else if ended \<noteq> 0 then Some (- ended)
                          else if w = ByCloser \<or> count = 0 then Some 0
                          else None,
                          Submitted # (if w = ByEvent then [] else [Cancelled]) @ [Completed]))))"

fun drain_turns :: "drain_answers list \<Rightarrow> int option \<times> overlapped list" where
  "drain_turns [] = (None, [])"
| "drain_turns (A # answers) =
     (case drain_turn A of
        (Some r, events) \<Rightarrow> (Some r, events)
      | (None, events) \<Rightarrow> (case drain_turns answers of (r, more_events) \<Rightarrow> (r, events @ more_events)))"

definition drain_console :: "nat option \<Rightarrow> nat option \<Rightarrow> nat option \<Rightarrow> drain_answers list \<Rightarrow> int option \<times> overlapped list" where
  "drain_console output event closer answers =
     (if output = None then (Some 0, [])
      else if event = None \<or> closer = None then (Some (- ERROR_INVALID_HANDLE), [])
      else drain_turns answers)"

section \<open>Waiting\<close>

text \<open>The first critical section: an answer, or the wait for the process itself.\<close>

definition wait_begin :: "int \<Rightarrow> bool \<Rightarrow> proc_tables \<Rightarrow> (int \<times> int option) option \<times> proc_tables" where
  "wait_begin i duplicated T =
     (case process_get i T of
        None \<Rightarrow> (Some (- ERROR_INVALID_HANDLE, None), T)
      | Some p \<Rightarrow>
          if pr_reaped p then (Some (1, Some (pr_code p)), set_proc i (p\<lparr>pr_waited := True\<rparr>) T)
          else if pr_process p \<noteq> None \<and> duplicated then (None, T)
          else (Some (- ERROR_INVALID_HANDLE, None), T))"

text \<open>Handing the console to a thread that closes it: its handle, or an error.\<close>

definition start_closer :: "int + nat \<Rightarrow> proc \<Rightarrow> proc_tables \<Rightarrow> proc \<times> proc_tables" where
  "start_closer thread p T =
     (case pr_console p of
        None \<Rightarrow> (p, T)
      | Some console \<Rightarrow>
          (case thread of
             Inl e \<Rightarrow> (p\<lparr>pr_closer := None\<rparr>, T)
           | Inr h \<Rightarrow>
               (p\<lparr>pr_closer := Some h, pr_console := None\<rparr>, T\<lparr>opened := h # opened T, consoles_closed := console # consoles_closed T\<rparr>)))"

text \<open>The second one, after the process ended with a code.\<close>

definition wait_end ::
  "int \<Rightarrow> int \<Rightarrow> int option \<Rightarrow> bool \<Rightarrow> int + nat \<Rightarrow> proc_tables \<Rightarrow> (int \<times> int option) \<times> proc_tables" where
  "wait_end i code finish_error context_alive thread T =
     (case process_get i T of
        None \<Rightarrow> ((1, Some code), T)
      | Some p \<Rightarrow>
          if pr_reaped p then ((1, Some code), set_proc i (p\<lparr>pr_waited := True\<rparr>) T)
          else
            (case finish_error of
               Some e \<Rightarrow> ((- e, Some code), set_proc i (p\<lparr>pr_waited := True\<rparr>) T)
             | None \<Rightarrow>
                 let T1 = close_handles [pr_process p, pr_job p] T;
                     p1 = p\<lparr>pr_reaped := True, pr_code := code, pr_process := None, pr_job := None\<rparr>
                 in if pr_console p1 \<noteq> None \<and> context_alive
                    then let (p2, T2) = start_closer thread p1 T1
                         in ((case thread of Inr h \<Rightarrow> 1 | Inl e \<Rightarrow> - e, Some code), set_proc i (p2\<lparr>pr_waited := True\<rparr>) T2)
                    else ((1, Some code), set_proc i (p1\<lparr>pr_waited := True\<rparr>) T1)))"

datatype process_wait = StillRunning | Exited int | WaitError int

text \<open>The whole call; other threads use the table while it waits.\<close>

definition visjail_wait ::
  "bool \<Rightarrow> int \<Rightarrow> bool \<Rightarrow> process_wait \<Rightarrow> (proc_tables \<Rightarrow> proc_tables) \<Rightarrow> int option \<Rightarrow> bool \<Rightarrow> int + nat \<Rightarrow> proc_tables \<Rightarrow>
     (int \<times> int option) \<times> proc_tables" where
  "visjail_wait given i duplicated answer others finish_error context_alive thread T =
     (if \<not> given then ((- ERROR_INVALID_PARAMETER, None), T)
      else
        (case wait_begin i duplicated T of
           (Some r, T1) \<Rightarrow> (r, T1)
         | (None, T1) \<Rightarrow>
             (case answer of
                StillRunning \<Rightarrow> ((0, None), others T1)
              | WaitError e \<Rightarrow> ((- e, None), others T1)
              | Exited code \<Rightarrow> wait_end i code finish_error context_alive thread (others T1))))"

section \<open>Registering and reclaiming\<close>

definition register :: "int \<Rightarrow> int \<Rightarrow> nat \<Rightarrow> nat \<Rightarrow> nat option \<Rightarrow> int \<Rightarrow> proc_tables \<Rightarrow> proc_tables" where
  "register i ctx process job console pid T =
     T\<lparr>procs := (i, \<lparr>pr_context = ctx, pr_reaped = False, pr_waited = False, pr_cleaning = False, pr_process = Some process,
          pr_job = Some job, pr_closer = None, pr_output = None, pr_output_event = None, pr_console = console,
          pr_pid = pid, pr_code = 0\<rparr>) # procs T,
       opened := process # job # opened T\<rparr>"

definition reclaimable :: "(nat \<Rightarrow> bool) \<Rightarrow> proc \<Rightarrow> bool" where
  "reclaimable signalled p \<longleftrightarrow> pr_reaped p \<and> pr_waited p \<and> \<not> pr_cleaning p \<and> pr_output p = None \<and> pr_console p = None
     \<and> (case pr_closer p of None \<Rightarrow> True | Some h \<Rightarrow> signalled h)"

definition reclaim :: "(nat \<Rightarrow> bool) \<Rightarrow> proc_tables \<Rightarrow> proc_tables" where
  "reclaim signalled T =
     close_handles (map (pr_closer \<circ> snd) (filter (reclaimable signalled \<circ> snd) (procs T)))
       (T\<lparr>procs := filter (\<lambda>x. \<not> reclaimable signalled (snd x)) (procs T)\<rparr>)"

section \<open>The processes of a context that is destroyed\<close>

text \<open>A turn of the loop up to the release of the lock: nothing left, an error, or what to drain.\<close>

datatype cleaning = NothingLeft | GiveUp int | Drain int "nat option" "nat option" "nat option"

definition clean_begin :: "int \<Rightarrow> int option \<Rightarrow> int + nat \<Rightarrow> proc_tables \<Rightarrow> cleaning \<times> proc_tables" where
  "clean_begin ctx exit_code thread T =
     (case find (\<lambda>x. pr_context (snd x) = ctx) (procs T) of
        None \<Rightarrow> (NothingLeft, T)
      | Some (i, p) \<Rightarrow>
          let p1 = (if pr_reaped p then p
                    else p\<lparr>pr_code := (case exit_code of Some code \<Rightarrow> code | None \<Rightarrow> 1), pr_reaped := True\<rparr>);
              T1 = close_handles [pr_process p1, pr_job p1] T;
              p2 = p1\<lparr>pr_process := None, pr_job := None\<rparr>;
              (p3, T2) = start_closer thread p2 T1
          in (case (pr_console p2, thread) of
                (Some console, Inl e) \<Rightarrow> (GiveUp (- e), set_proc i p3 T2)
              | _ \<Rightarrow> (Drain i (pr_output p3) (pr_output_event p3) (pr_closer p3), set_proc i (p3\<lparr>pr_cleaning := True\<rparr>) T2)))"

text \<open>The rest of it; \<open>None\<close> would be a use of a record that was freed meanwhile.\<close>

definition clean_end :: "int \<Rightarrow> nat option \<Rightarrow> nat option \<Rightarrow> nat option \<Rightarrow> int \<Rightarrow> proc_tables \<Rightarrow> proc_tables option" where
  "clean_end i output event closer result T =
     (case process_get i T of
        None \<Rightarrow> None
      | Some p \<Rightarrow>
          if result \<noteq> 0 then Some (set_proc i (p\<lparr>pr_cleaning := False\<rparr>) T)
          else Some (set_proc i (p\<lparr>pr_cleaning := False, pr_output := None, pr_output_event := None, pr_closer := None,
                 pr_context := 0\<rparr>) (close_handles [output, event, closer] T)))"

text \<open>A stream that goes leaves its output to the process.\<close>

definition leave_output :: "int \<Rightarrow> nat \<Rightarrow> nat \<Rightarrow> proc_tables \<Rightarrow> proc_tables" where
  "leave_output i output event T =
     (case process_get i T of
        None \<Rightarrow> T
      | Some p \<Rightarrow> set_proc i (p\<lparr>pr_output := Some output, pr_output_event := Some event\<rparr>) (T\<lparr>opened := output # event # opened T\<rparr>))"

section \<open>The ledger of handles\<close>

definition proc_handles :: "proc \<Rightarrow> nat multiset" where
  "proc_handles p = mset (map the (filter (\<lambda>h. h \<noteq> None) [pr_process p, pr_job p, pr_closer p, pr_output p, pr_output_event p]))"

definition held_handles :: "proc_tables \<Rightarrow> nat multiset" where
  "held_handles T = (\<Sum>x \<leftarrow> procs T. proc_handles (snd x))"

definition balanced :: "proc_tables \<Rightarrow> bool" where
  "balanced T \<longleftrightarrow> mset (opened T) = mset (closed T) + held_handles T"

definition some_handles :: "nat option list \<Rightarrow> nat multiset" where
  "some_handles hs = mset (map the (filter (\<lambda>h. h \<noteq> None) hs))"

lemma some_handles_simps [simp]:
  "some_handles [] = {#}" "some_handles (None # hs) = some_handles hs" "some_handles (Some h # hs) = add_mset h (some_handles hs)"
  by (simp_all add: some_handles_def)

lemma close_handles_simps [simp]:
  "mset (closed (close_handles hs T)) = mset (closed T) + some_handles hs"
  "procs (close_handles hs T) = procs T" "opened (close_handles hs T) = opened T"
  "consoles_closed (close_handles hs T) = consoles_closed T" "held_handles (close_handles hs T) = held_handles T"
  by (simp_all add: close_handles_def some_handles_def held_handles_def)

lemma set_proc_simps [simp]:
  "opened (set_proc i p T) = opened T" "closed (set_proc i p T) = closed T" "consoles_closed (set_proc i p T) = consoles_closed T"
  "map fst (procs (set_proc i p T)) = map fst (procs T)"
  by (auto simp: set_proc_def comp_def split_def)

text \<open>Replacing the record of an id.\<close>

lemma map_of_replaced:
  "map_of xs i = Some q \<Longrightarrow> map_of (map (\<lambda>(j, q). if j = i then (j, p) else (j, q)) xs) j = (if j = i then Some p else map_of xs j)"
proof -
  let ?f = "\<lambda>(j, q). if j = i then (j, p) else (j, q)"
  have "map_of xs i = Some q \<Longrightarrow> map_of (map ?f xs) i = Some p" by (induction xs) (auto split: if_splits)
  moreover have "j \<noteq> i \<Longrightarrow> map_of (map ?f xs) j = map_of xs j" by (induction xs) auto
  moreover assume "map_of xs i = Some q"
  ultimately show ?thesis by simp
qed

lemma not_replaced: "i \<notin> fst ` set xs \<Longrightarrow> map (\<lambda>(j, q). if j = i then (j, p) else (j, q)) xs = xs"
  by (induction xs) auto

lemma sum_replaced:
  "distinct (map fst xs) \<Longrightarrow> map_of xs i = Some q \<Longrightarrow>
     (\<Sum>x \<leftarrow> map (\<lambda>(j, q). if j = i then (j, p) else (j, q)) xs. proc_handles (snd x)) + proc_handles q
       = (\<Sum>x \<leftarrow> xs. proc_handles (snd x)) + proc_handles p"
proof (induction xs)
  case (Cons x xs)
  obtain j r where x: "x = (j, r)" by (cases x)
  show ?case
  proof (cases "j = i")
    case True
    with Cons.prems x have "i \<notin> fst ` set xs" "r = q" by auto
    with True x not_replaced [of i xs p] show ?thesis by (simp add: ac_simps)
  next
    case False
    with Cons x show ?thesis by (simp add: ac_simps)
  qed
qed simp

lemma process_get_set_proc:
  "process_get i T = Some q \<Longrightarrow> process_get j (set_proc i p T) = (if j = i then Some p else process_get j T)"
  unfolding process_get_def set_proc_def by (simp add: map_of_replaced)

lemma process_get_in: "distinct (map fst (procs T)) \<Longrightarrow> (i, p) \<in> set (procs T) \<longleftrightarrow> process_get i T = Some p"
  by (simp add: process_get_def)

lemma process_get_cong [simp]:
  "process_get i (close_handles hs T) = process_get i T" "process_get i (T\<lparr>opened := os\<rparr>) = process_get i T"
  "process_get i (T\<lparr>opened := os, consoles_closed := cs\<rparr>) = process_get i T"
  by (simp_all add: process_get_def)

text \<open>The ledger stays balanced when the handles of the record that go are those closed, and those that come are
  opened.\<close>

lemma balanced_set_proc:
  assumes "balanced T" "distinct (map fst (procs T))" "process_get i T = Some q" "procs T' = procs T"
    "mset (opened T') + mset (closed T) + proc_handles q = mset (opened T) + mset (closed T') + proc_handles p"
  shows "balanced (set_proc i p T')"
proof -
  let ?S = "set_proc i p T'"
  have 1: "held_handles ?S + proc_handles q = held_handles T + proc_handles p"
    using sum_replaced [OF assms(2), of i q p] assms(3,4) by (simp add: held_handles_def set_proc_def process_get_def)
  have 2: "mset (opened T) = mset (closed T) + held_handles T" using assms(1) by (simp add: balanced_def)
  have "mset (opened T') = mset (closed T') + held_handles ?S"
  proof (rule multiset_eqI)
    fix h
    from arg_cong [OF 1, of "\<lambda>M. count M h"] arg_cong [OF 2, of "\<lambda>M. count M h"] arg_cong [OF assms(5), of "\<lambda>M. count M h"]
    show "count (mset (opened T')) h = count (mset (closed T') + held_handles ?S) h" by simp
  qed
  then show ?thesis by (simp add: balanced_def)
qed

section \<open>Threads side by side\<close>

text \<open>Each operation holds the table lock and is one step.  The second component is what the thread that destroys a
  context drains with the lock released; the host lets one thread destroy at a time.  A stream leaves its output
  only while the destruction of its context has not come to the processes, since that waits for all its streams.\<close>

type_synonym drained = "(int \<times> nat option \<times> nat option \<times> nat option) option"

definition fresh_thread :: "int + nat \<Rightarrow> proc_tables \<Rightarrow> bool" where
  "fresh_thread thread T = (case thread of Inl e \<Rightarrow> True | Inr h \<Rightarrow> h \<notin> set (opened T))"

inductive proc_step :: "proc_tables \<times> drained \<Rightarrow> proc_tables \<times> drained \<Rightarrow> bool" where
  Register: "process_get i T = None \<Longrightarrow> process \<noteq> job \<Longrightarrow> {process, job} \<inter> set (opened T) = {} \<Longrightarrow>
    (\<forall>k. console = Some k \<longrightarrow> k \<notin> set (consoles_closed T) \<and> (\<forall>x \<in> set (procs T). pr_console (snd x) \<noteq> Some k)) \<Longrightarrow>
    proc_step (T, d) (register i ctx process job console pid T, d)"
| WaitBegin: "proc_step (T, d) (snd (wait_begin i duplicated T), d)"
| WaitEnd: "fresh_thread thread T \<Longrightarrow>
    proc_step (T, d) (snd (wait_end i code finish_error context_alive thread T), d)"
| Reclaim: "proc_step (T, d) (reclaim signalled T, d)"
| Leave: "process_get i T = Some p \<Longrightarrow> pr_console p \<noteq> None \<or> pr_closer p \<noteq> None \<Longrightarrow> pr_output p = None \<Longrightarrow>
    \<not> pr_cleaning p \<Longrightarrow> output \<noteq> event \<Longrightarrow> {output, event} \<inter> set (opened T) = {} \<Longrightarrow>
    proc_step (T, d) (leave_output i output event T, d)"
| CleanBegin: "fresh_thread thread T \<Longrightarrow> clean_begin ctx exit_code thread T = (Drain i output event closer, T') \<Longrightarrow>
    proc_step (T, None) (T', Some (i, output, event, closer))"
| CleanFailed: "fresh_thread thread T \<Longrightarrow> clean_begin ctx exit_code thread T = (GiveUp e, T') \<Longrightarrow>
    proc_step (T, None) (T', None)"
| CleanEnd: "clean_end i output event closer result T = Some T' \<Longrightarrow>
    proc_step (T, Some (i, output, event, closer)) (T', None)"

definition proc_ok :: "drained \<Rightarrow> int \<Rightarrow> proc \<Rightarrow> bool" where
  "proc_ok d i p \<longleftrightarrow> (pr_reaped p \<longrightarrow> pr_process p = None \<and> pr_job p = None)
     \<and> (\<not> pr_reaped p \<longrightarrow> pr_process p \<noteq> None \<and> pr_job p \<noteq> None)
     \<and> (pr_output p = None \<longrightarrow> pr_output_event p = None) \<and> (pr_console p \<noteq> None \<longrightarrow> pr_closer p = None)
     \<and> (pr_cleaning p \<longrightarrow> pr_reaped p \<and> pr_console p = None \<and> d = Some (i, pr_output p, pr_output_event p, pr_closer p))"

definition consoles_ok :: "proc_tables \<Rightarrow> bool" where
  "consoles_ok T \<longleftrightarrow> distinct (consoles_closed T)
     \<and> (\<forall>i p k. process_get i T = Some p \<and> pr_console p = Some k \<longrightarrow> k \<notin> set (consoles_closed T)
          \<and> (\<forall>j q. process_get j T = Some q \<and> pr_console q = Some k \<longrightarrow> j = i))"

definition drained_ok :: "proc_tables \<Rightarrow> drained \<Rightarrow> bool" where
  "drained_ok T d = (case d of None \<Rightarrow> True | Some (i, _) \<Rightarrow> (\<exists>p. process_get i T = Some p \<and> pr_cleaning p))"

definition proc_inv :: "proc_tables \<times> drained \<Rightarrow> bool" where
  "proc_inv S \<longleftrightarrow> (case S of (T, d) \<Rightarrow> distinct (map fst (procs T)) \<and> distinct (opened T) \<and> balanced T
     \<and> (\<forall>i p. process_get i T = Some p \<longrightarrow> proc_ok d i p) \<and> drained_ok T d \<and> consoles_ok T)"

definition initial_procs :: proc_tables where
  "initial_procs = \<lparr>procs = [], closed = [], opened = [], consoles_closed = []\<rparr>"

definition reachable_procs :: "proc_tables \<times> drained \<Rightarrow> bool" where
  "reachable_procs S \<longleftrightarrow> proc_step\<^sup>*\<^sup>* (initial_procs, None) S"

text \<open>No console in two places: closed already, or of two records.\<close>

lemma consoles_update:
  assumes "consoles_ok T" "process_get i T = Some q" "procs T' = procs T"
    and c: "(pr_console p = None \<or> pr_console p = pr_console q) \<and> consoles_closed T' = consoles_closed T
      \<or> pr_console p = None \<and> (\<exists>k. pr_console q = Some k \<and> consoles_closed T' = k # consoles_closed T)"
  shows "consoles_ok (set_proc i p T')"
proof -
  have g: "process_get j T' = process_get j T" for j using assms(3) by (simp add: process_get_def)
  have s: "process_get j (set_proc i p T') = (if j = i then Some p else process_get j T)" for j
    using process_get_set_proc [of i T' q j p] assms(2) by (simp add: g)
  have d: "distinct (consoles_closed T)" using assms(1) by (simp add: consoles_ok_def)
  have out: "k \<notin> set (consoles_closed T)" if "process_get j T = Some r" "pr_console r = Some k" for j r k
    using assms(1) that unfolding consoles_ok_def by blast
  have one: "j = l" if "process_get j T = Some r" "pr_console r = Some k" "process_get l T = Some t" "pr_console t = Some k" for j l r t k
    using assms(1) that unfolding consoles_ok_def by blast
  show ?thesis
    unfolding consoles_ok_def s
  proof (intro conjI allI impI)
    show "distinct (consoles_closed (set_proc i p T'))" using c d out [OF assms(2)] by auto
  next
    fix j r k assume r: "(if j = i then Some p else process_get j T) = Some r \<and> pr_console r = Some k"
    with c out [of j r k] out [OF assms(2), of k] one [OF assms(2), of _ j r] show "k \<notin> set (consoles_closed (set_proc i p T'))"
      by (auto split: if_splits)
  next
    fix j r k l t assume "(if j = i then Some p else process_get j T) = Some r \<and> pr_console r = Some k"
      "(if l = i then Some p else process_get l T) = Some t \<and> pr_console t = Some k"
    with c one [OF assms(2), of k l t] one [OF assms(2), of k j r] one [of j r k l t] show "l = j"
      by (auto split: if_splits)
  qed
qed

lemma inv_update:
  assumes I: "proc_inv (T, d)" and q: "process_get i T = Some q" and T': "procs T' = procs T" "distinct (opened T')"
    and ledger: "mset (opened T') + mset (closed T) + proc_handles q = mset (opened T) + mset (closed T') + proc_handles p"
    and p: "proc_ok d' i p" "consoles_ok (set_proc i p T')"
    and others: "\<forall>j r. j \<noteq> i \<and> process_get j T = Some r \<and> proc_ok d j r \<longrightarrow> proc_ok d' j r"
    and d': "drained_ok (set_proc i p T') d'"
  shows "proc_inv (set_proc i p T', d')"
proof -
  have g: "process_get j T' = process_get j T" for j using T'(1) by (simp add: process_get_def)
  have s: "process_get j (set_proc i p T') = (if j = i then Some p else process_get j T)" for j
    using process_get_set_proc [of i T' q j p] q by (simp add: g)
  from I have I: "distinct (map fst (procs T))" "balanced T" "\<forall>i p. process_get i T = Some p \<longrightarrow> proc_ok d i p"
    by (simp_all add: proc_inv_def)
  have "balanced (set_proc i p T')" using balanced_set_proc [OF I(2,1) q T'(1) ledger] .
  moreover have "\<forall>j r. process_get j (set_proc i p T') = Some r \<longrightarrow> proc_ok d' j r"
    using I(3) p(1) others by (simp add: s)
  moreover have "distinct (map fst (procs (set_proc i p T')))" unfolding set_proc_simps T'(1) by (rule I(1))
  ultimately show ?thesis using T'(2) p(2) d' by (simp add: proc_inv_def)
qed

lemma proc_invD:
  assumes "proc_inv (T, d)"
  shows "distinct (map fst (procs T))" "distinct (opened T)" "balanced T" "consoles_ok T" "drained_ok T d"
    "process_get i T = Some p \<Longrightarrow> proc_ok d i p"
  using assms by (simp_all add: proc_inv_def)

lemma drained_keep:
  "drained_ok T d \<Longrightarrow> process_get i T = Some q \<Longrightarrow> procs T' = procs T \<Longrightarrow> pr_cleaning p = pr_cleaning q \<Longrightarrow> drained_ok (set_proc i p T') d"
proof -
  assume a: "drained_ok T d" "process_get i T = Some q" "procs T' = procs T" "pr_cleaning p = pr_cleaning q"
  have g: "process_get j T' = process_get j T" for j using a(3) by (simp add: process_get_def)
  have s: "process_get j (set_proc i p T') = (if j = i then Some p else process_get j T)" for j
    using process_get_set_proc [of i T' q j p] a(2) by (simp add: g)
  show ?thesis using a(1,2,4) by (auto simp: drained_ok_def s split: option.splits)
qed

text \<open>A change of a record that nobody drains.\<close>

lemma inv_change:
  assumes "proc_inv (T, d)" "process_get i T = Some q" "procs T' = procs T" "distinct (opened T')"
    "mset (opened T') + mset (closed T) + proc_handles q = mset (opened T) + mset (closed T') + proc_handles p"
    "proc_ok d i p" "pr_cleaning p = pr_cleaning q"
    "(pr_console p = None \<or> pr_console p = pr_console q) \<and> consoles_closed T' = consoles_closed T
      \<or> pr_console p = None \<and> (\<exists>k. pr_console q = Some k \<and> consoles_closed T' = k # consoles_closed T)"
  shows "proc_inv (set_proc i p T', d)"
  using inv_update [OF assms(1-6)] consoles_update [OF proc_invD(4) [OF assms(1)] assms(2,3,8)]
    drained_keep [OF proc_invD(5) [OF assms(1)] assms(2,3,7)] by blast

lemma inv_waited:
  assumes "proc_inv (T, d)" "process_get i T = Some p"
  shows "proc_inv (set_proc i (p\<lparr>pr_waited := True\<rparr>) T, d)"
  using proc_invD(2) [OF assms(1)] proc_invD(6) [OF assms]
  by (intro inv_change [OF assms]) (simp_all add: proc_handles_def proc_ok_def)

lemma proc_wait_begin_inv: "proc_inv (T, d) \<Longrightarrow> proc_inv (snd (wait_begin i duplicated T), d)"
  using inv_waited [of T d i] by (auto simp: wait_begin_def split: option.splits)

lemma proc_handles_some:
  "proc_handles p = some_handles [pr_process p, pr_job p, pr_closer p, pr_output p, pr_output_event p]"
  by (simp add: proc_handles_def some_handles_def)

lemma some_handles_Cons: "some_handles (h # hs) = some_handles [h] + some_handles hs"
  by (cases h) simp_all

lemma proc_wait_end_inv:
  assumes I: "proc_inv (T, d)" and t: "fresh_thread thread T"
  shows "proc_inv (snd (wait_end i code finish_error context_alive thread T), d)"
proof (cases "process_get i T")
  case None
  with I show ?thesis by (simp add: wait_end_def)
next
  case (Some p)
  show ?thesis
  proof (cases "pr_reaped p \<or> finish_error \<noteq> None")
    case True
    with Some inv_waited [OF I Some] show ?thesis by (auto simp: wait_end_def)
  next
    case False
    then have live: "\<not> pr_reaped p" "finish_error = None" by simp_all
    obtain a b where ab: "pr_process p = Some a" "pr_job p = Some b" using proc_invD(6) [OF I Some] live by (auto simp: proc_ok_def)
    have nc: "\<not> pr_cleaning p" using proc_invD(6) [OF I Some] live by (simp add: proc_ok_def)
    let ?T1 = "close_handles [Some a, Some b] T" and ?p1 = "p\<lparr>pr_reaped := True, pr_code := code, pr_process := None, pr_job := None\<rparr>"
    have plain: "proc_inv (set_proc i (?p1\<lparr>pr_waited := True\<rparr>) ?T1, d)"
      using proc_invD(2) [OF I] proc_invD(6) [OF I Some] nc
      by (intro inv_change [OF I Some]) (simp_all add: proc_handles_some ab proc_ok_def)
    show ?thesis
    proof (cases "context_alive \<and> (\<exists>k. pr_console p = Some k)")
      case False
      with Some live ab plain show ?thesis by (auto simp: wait_end_def Let_def)
    next
      case True
      then obtain k where k: "pr_console p = Some k" by blast
      with proc_invD(6) [OF I Some] have c: "pr_closer p = None" by (simp add: proc_ok_def)
      show ?thesis
      proof (cases thread)
        case (Inl e)
        have "p\<lparr>pr_reaped := True, pr_code := code, pr_process := None, pr_job := None, pr_closer := None, pr_waited := True\<rparr>
            = ?p1\<lparr>pr_waited := True\<rparr>" using c by (cases p) simp
        with True Some live ab plain k Inl show ?thesis by (simp add: wait_end_def start_closer_def)
      next
        case (Inr h)
        let ?T2 = "?T1\<lparr>opened := h # opened T, consoles_closed := k # consoles_closed T\<rparr>"
        have "proc_inv (set_proc i (?p1\<lparr>pr_closer := Some h, pr_console := None, pr_waited := True\<rparr>) ?T2, d)"
          using proc_invD(2) [OF I] proc_invD(6) [OF I Some] nc t Inr k
          by (intro inv_change [OF I Some])
            (simp_all add: proc_handles_some ab c proc_ok_def fresh_thread_def close_handles_def)
        with True Some live ab k Inr show ?thesis by (simp add: wait_end_def start_closer_def)
      qed
    qed
  qed
qed

lemma proc_register_inv:
  assumes I: "proc_inv (T, d)" and f: "process_get i T = None" "process \<noteq> job" "{process, job} \<inter> set (opened T) = {}"
    and c: "\<forall>k. console = Some k \<longrightarrow> k \<notin> set (consoles_closed T) \<and> (\<forall>x \<in> set (procs T). pr_console (snd x) \<noteq> Some k)"
  shows "proc_inv (register i ctx process job console pid T, d)"
proof -
  let ?T = "register i ctx process job console pid T"
  define p where "p = \<lparr>pr_context = ctx, pr_reaped = False, pr_waited = False, pr_cleaning = False, pr_process = Some process,
    pr_job = Some job, pr_closer = None, pr_output = None, pr_output_event = None, pr_console = console, pr_pid = pid, pr_code = 0\<rparr>"
  have T: "procs ?T = (i, p) # procs T" "opened ?T = process # job # opened T" "closed ?T = closed T"
      "consoles_closed ?T = consoles_closed T" by (simp_all add: register_def p_def)
  have s: "process_get j ?T = (if j = i then Some p else process_get j T)" for j by (simp add: process_get_def T)
  have "i \<notin> fst ` set (procs T)" using f(1) by (simp add: process_get_def map_of_eq_None_iff)
  moreover have "proc_handles p = {#process, job#}" by (simp add: proc_handles_def p_def)
  then have "balanced ?T" using proc_invD(3) [OF I] by (simp add: balanced_def held_handles_def T)
  moreover have "proc_ok d i p" by (simp add: proc_ok_def p_def)
  moreover have "drained_ok ?T d" using proc_invD(5) [OF I] f(1) by (auto simp: drained_ok_def s split: option.splits)
  moreover have "consoles_ok ?T"
  proof -
    have pc: "pr_console p = console" by (simp add: p_def)
    have n: "pr_console r \<noteq> Some k" if "process_get j T = Some r" "console = Some k" for j r k
      using c that map_of_SomeD [of "procs T" j r] unfolding process_get_def by fastforce
    have K: "consoles_ok T" by (rule proc_invD(4) [OF I])
    show ?thesis
      unfolding consoles_ok_def s T(4)
    proof (intro conjI allI impI)
      show "distinct (consoles_closed T)" using K by (simp add: consoles_ok_def)
    next
      fix j r k assume "(if j = i then Some p else process_get j T) = Some r \<and> pr_console r = Some k"
      with K c pc show "k \<notin> set (consoles_closed T)" unfolding consoles_ok_def by (auto split: if_splits)
    next
      fix j r k l t assume "(if j = i then Some p else process_get j T) = Some r \<and> pr_console r = Some k"
        "(if l = i then Some p else process_get l T) = Some t \<and> pr_console t = Some k"
      with K pc n show "l = j" unfolding consoles_ok_def by (metis option.inject)
    qed
  qed
  ultimately show ?thesis
    using proc_invD(1,2,6) [OF I] f(2,3) by (simp add: proc_inv_def T s)
qed

lemma sum_filter: "(\<Sum>x \<leftarrow> xs. f x :: nat multiset) = (\<Sum>x \<leftarrow> filter P xs. f x) + (\<Sum>x \<leftarrow> filter (\<lambda>x. \<not> P x) xs. f x)"
  by (induction xs) (simp_all add: ac_simps)

lemma map_of_filter: "distinct (map fst xs) \<Longrightarrow> map_of (filter P xs) i = (case map_of xs i of None \<Rightarrow> None | Some p \<Rightarrow> if P (i, p) then Some p else None)"
  by (induction xs) (auto split: option.splits simp: map_of_eq_None_iff image_iff)

lemma proc_reclaim_inv:
  assumes I: "proc_inv (T, d)"
  shows "proc_inv (reclaim signalled T, d)"
proof -
  let ?P = "reclaimable signalled \<circ> snd" and ?T = "reclaim signalled T"
  have T: "procs ?T = filter (\<lambda>x. \<not> ?P x) (procs T)" "opened ?T = opened T" "consoles_closed ?T = consoles_closed T"
    by (simp_all add: reclaim_def)
  have s: "process_get j ?T = (case process_get j T of None \<Rightarrow> None | Some p \<Rightarrow> if reclaimable signalled p then None else Some p)" for j
    unfolding process_get_def T using map_of_filter [OF proc_invD(1) [OF I]] by (simp split: option.splits)
  have h: "proc_handles (snd x) = some_handles [pr_closer (snd x)]" if "x \<in> set (filter ?P (procs T))" for x
  proof -
    from that have "(fst x, snd x) \<in> set (procs T)" "reclaimable signalled (snd x)" by simp_all
    then have "process_get (fst x) T = Some (snd x)" "reclaimable signalled (snd x)"
      using process_get_in [OF proc_invD(1) [OF I]] by blast+
    with proc_invD(6) [OF I] show ?thesis
      by (cases "pr_closer (snd x)") (auto simp: proc_ok_def reclaimable_def proc_handles_some)
  qed
  have each: "some_handles (map (pr_closer \<circ> snd) xs) = (\<Sum>x \<leftarrow> xs. some_handles [pr_closer (snd x)])" for xs :: "(int \<times> proc) list"
  proof (induction xs)
    case (Cons x xs)
    then show ?case by (cases "pr_closer (snd x)") (simp_all add: comp_def)
  qed simp
  have "some_handles (map (pr_closer \<circ> snd) (filter ?P (procs T))) = (\<Sum>x \<leftarrow> filter ?P (procs T). proc_handles (snd x))"
  proof -
    have "map (\<lambda>x. proc_handles (snd x)) (filter ?P (procs T)) = map (\<lambda>x. some_handles [pr_closer (snd x)]) (filter ?P (procs T))"
      by (intro map_cong refl h)
    then show ?thesis by (simp only: each)
  qed
  moreover have "held_handles T = (\<Sum>x \<leftarrow> filter ?P (procs T). proc_handles (snd x)) + held_handles ?T"
    unfolding held_handles_def T(1) by (rule sum_filter)
  moreover have "mset (closed ?T) = mset (closed T) + some_handles (map (pr_closer \<circ> snd) (filter ?P (procs T)))"
    unfolding reclaim_def by (subst close_handles_simps) simp
  ultimately have "balanced ?T" using proc_invD(3) [OF I] by (simp add: balanced_def T ac_simps)
  moreover have "drained_ok ?T d"
    using proc_invD(5) [OF I] by (auto simp: drained_ok_def s reclaimable_def split: option.splits)
  moreover have "consoles_ok ?T"
    using proc_invD(4) [OF I] unfolding consoles_ok_def by (auto simp: s T split: option.splits if_splits)
  moreover have "distinct (map fst (procs ?T))" using proc_invD(1) [OF I] unfolding T by (rule distinct_map_filter)
  ultimately show ?thesis
    using proc_invD(2,6) [OF I] by (auto simp: proc_inv_def T s split: option.splits if_splits)
qed

lemma proc_leave_inv:
  assumes I: "proc_inv (T, d)" and p: "process_get i T = Some p" "pr_output p = None" "\<not> pr_cleaning p"
    and f: "output \<noteq> event" "{output, event} \<inter> set (opened T) = {}"
  shows "proc_inv (leave_output i output event T, d)"
proof -
  have e: "pr_output_event p = None" using proc_invD(6) [OF I p(1)] p(2) by (simp add: proc_ok_def)
  have h: "proc_handles (p\<lparr>pr_output := Some output, pr_output_event := Some event\<rparr>) = {#output, event#} + proc_handles p"
    by (cases "pr_process p"; cases "pr_job p"; cases "pr_closer p") (simp_all add: proc_handles_some e p(2))
  have "proc_inv (set_proc i (p\<lparr>pr_output := Some output, pr_output_event := Some event\<rparr>) (T\<lparr>opened := output # event # opened T\<rparr>), d)"
    using proc_invD(2) [OF I] proc_invD(6) [OF I p(1)] f p
    by (intro inv_change [OF I p(1)]) (simp_all add: h proc_ok_def)
  with p show ?thesis by (simp add: leave_output_def)
qed

lemma proc_clean_begin_inv:
  assumes I: "proc_inv (T, None)" and t: "fresh_thread thread T" and b: "clean_begin ctx exit_code thread T = (r, T')"
  shows "case r of NothingLeft \<Rightarrow> T' = T | GiveUp e \<Rightarrow> proc_inv (T', None)
    | Drain i output event closer \<Rightarrow> proc_inv (T', Some (i, output, event, closer))"
proof (cases "find (\<lambda>x. pr_context (snd x) = ctx) (procs T)")
  case None
  with b show ?thesis by (auto simp: clean_begin_def)
next
  case (Some x)
  obtain i p where x: "x = (i, p)" by (cases x)
  from Some x have "(i, p) \<in> set (procs T)" by (auto simp: find_Some_iff)
  then have p: "process_get i T = Some p" using process_get_in [OF proc_invD(1) [OF I]] by blast
  note ok = proc_invD(6) [OF I p]
  have nc: "\<not> pr_cleaning q" if "process_get j T = Some q" for j q using proc_invD(6) [OF I that] by (auto simp: proc_ok_def)
  define p2 where "p2 = (if pr_reaped p then p
      else p\<lparr>pr_code := (case exit_code of Some code \<Rightarrow> code | None \<Rightarrow> 1), pr_reaped := True\<rparr>)\<lparr>pr_process := None, pr_job := None\<rparr>"
  define T1 where "T1 = close_handles [pr_process p, pr_job p] T"
  have f: "pr_reaped p2" "pr_process p2 = None" "pr_job p2 = None" "pr_closer p2 = pr_closer p" "pr_output p2 = pr_output p"
      "pr_output_event p2 = pr_output_event p" "pr_console p2 = pr_console p" "\<not> pr_cleaning p2"
    using nc [OF p] by (simp_all add: p2_def)
  have T1: "procs T1 = procs T" "opened T1 = opened T" "consoles_closed T1 = consoles_closed T"
      "mset (closed T1) = mset (closed T) + some_handles [pr_process p, pr_job p]" by (simp_all add: T1_def)
  have e: "clean_begin ctx exit_code thread T =
      (let (p3, T2) = start_closer thread p2 T1
       in (case (pr_console p2, thread) of
             (Some console, Inl e) \<Rightarrow> (GiveUp (- e), set_proc i p3 T2)
           | _ \<Rightarrow> (Drain i (pr_output p3) (pr_output_event p3) (pr_closer p3), set_proc i (p3\<lparr>pr_cleaning := True\<rparr>) T2)))"
    using Some x by (simp add: clean_begin_def p2_def T1_def Let_def)
  have H: "proc_handles p = some_handles [pr_process p, pr_job p] + some_handles [pr_closer p, pr_output p, pr_output_event p]"
    by (cases "pr_process p"; cases "pr_job p") (simp_all add: proc_handles_some)
  have H2: "proc_handles q = some_handles [pr_closer q, pr_output q, pr_output_event q]" if "pr_process q = None" "pr_job q = None" for q
    using that by (simp add: proc_handles_some)
  have drain: "proc_inv (set_proc i (p3\<lparr>pr_cleaning := True\<rparr>) T2, Some (i, pr_output p3, pr_output_event p3, pr_closer p3))"
    if q: "start_closer thread p2 T1 = (p3, T2)" and n: "pr_console p2 = None \<or> (\<exists>h. thread = Inr h)" for p3 T2
  proof (rule inv_update [OF I p])
    have c: "pr_console p3 = None" "pr_reaped p3" "pr_process p3 = None" "pr_job p3 = None" "pr_output p3 = pr_output p"
        "pr_output_event p3 = pr_output_event p" "procs T2 = procs T"
      using q n f T1 by (auto simp: start_closer_def split: option.splits sum.splits)
    show "procs T2 = procs T" by (rule c)
    show "distinct (opened T2)"
      using q T1 proc_invD(2) [OF I] t by (auto simp: start_closer_def fresh_thread_def split: option.splits sum.splits)
    have "mset (opened T2) + mset (closed T) + proc_handles p = mset (opened T) + mset (closed T2) + proc_handles p3"
      using q ok f T1 by (auto simp: start_closer_def H H2 c proc_ok_def split: option.splits sum.splits)
    then show "mset (opened T2) + mset (closed T) + proc_handles p = mset (opened T) + mset (closed T2) + proc_handles (p3\<lparr>pr_cleaning := True\<rparr>)"
      by (simp add: proc_handles_def)
    show "proc_ok (Some (i, pr_output p3, pr_output_event p3, pr_closer p3)) i (p3\<lparr>pr_cleaning := True\<rparr>)"
      using c ok by (simp add: proc_ok_def)
    show "consoles_ok (set_proc i (p3\<lparr>pr_cleaning := True\<rparr>) T2)"
      using q f T1 by (intro consoles_update [OF proc_invD(4) [OF I] p])
        (auto simp: c start_closer_def split: option.splits sum.splits)
    show "\<forall>j r. j \<noteq> i \<and> process_get j T = Some r \<and> proc_ok None j r \<longrightarrow>
        proc_ok (Some (i, pr_output p3, pr_output_event p3, pr_closer p3)) j r"
      by (auto simp: proc_ok_def)
    have "process_get i T2 = Some p" using p c(7) by (simp add: process_get_def)
    then show "drained_ok (set_proc i (p3\<lparr>pr_cleaning := True\<rparr>) T2) (Some (i, pr_output p3, pr_output_event p3, pr_closer p3))"
      by (simp add: drained_ok_def process_get_set_proc)
  qed
  have failed: "proc_inv (set_proc i (p2\<lparr>pr_closer := None\<rparr>) T1, None)" if "pr_console p2 = Some k" for k
  proof -
    have "pr_console p \<noteq> None" using f(7) that by (metis option.distinct(1))
    with ok have "pr_closer p = None" by (simp add: proc_ok_def)
    with ok f proc_invD(2) [OF I] show ?thesis by (intro inv_change [OF I p]) (simp_all add: T1 H H2 proc_ok_def)
  qed
  show ?thesis
  proof (cases "\<exists>k e. pr_console p2 = Some k \<and> thread = Inl e")
    case True
    then show ?thesis using b failed by (auto simp: e start_closer_def)
  next
    case False
    obtain p3 T2 where q: "start_closer thread p2 T1 = (p3, T2)" by (cases "start_closer thread p2 T1")
    from False have n: "pr_console p2 = None \<or> (\<exists>h. thread = Inr h)" by (cases "pr_console p2"; cases thread) auto
    with b drain [OF q n] q show ?thesis by (auto simp: e split: option.splits sum.splits)
  qed
qed

text \<open>What was drained is still the record's when the lock is taken again.\<close>

lemma drained_handles:
  assumes "proc_inv (T, Some (i, output, event, closer))"
  shows "\<exists>p. process_get i T = Some p \<and> pr_cleaning p \<and> pr_output p = output \<and> pr_output_event p = event \<and> pr_closer p = closer
    \<and> pr_process p = None \<and> pr_job p = None \<and> pr_console p = None"
proof -
  obtain p where p: "process_get i T = Some p" "pr_cleaning p" using proc_invD(5) [OF assms] by (auto simp: drained_ok_def)
  with proc_invD(6) [OF assms p(1)] show ?thesis by (auto simp: proc_ok_def)
qed

lemma proc_clean_end_inv:
  assumes I: "proc_inv (T, Some (i, output, event, closer))" and e: "clean_end i output event closer result T = Some T'"
  shows "proc_inv (T', None)"
proof -
  obtain p where p: "process_get i T = Some p" "pr_cleaning p" "pr_output p = output" "pr_output_event p = event" "pr_closer p = closer"
      "pr_process p = None" "pr_job p = None" "pr_console p = None" using drained_handles [OF I] by blast
  note ok = proc_invD(6) [OF I p(1)]
  have others: "\<forall>j r. j \<noteq> i \<and> process_get j T = Some r \<and> proc_ok (Some (i, output, event, closer)) j r \<longrightarrow> proc_ok None j r"
    by (auto simp: proc_ok_def)
  have n: "drained_ok S None" for S by (simp add: drained_ok_def)
  show ?thesis
  proof (cases "result = 0")
    case False
    have "proc_inv (set_proc i (p\<lparr>pr_cleaning := False\<rparr>) T, None)"
      using ok p proc_invD(2) [OF I]
      by (intro inv_update [OF I p(1) refl _ _ _ _ others n] consoles_update [OF proc_invD(4) [OF I] p(1)])
        (simp_all add: proc_ok_def proc_handles_def)
    with e p False show ?thesis by (simp add: clean_end_def)
  next
    case True
    let ?p = "p\<lparr>pr_cleaning := False, pr_output := None, pr_output_event := None, pr_closer := None, pr_context := 0\<rparr>"
    have h: "proc_handles p = some_handles [output, event, closer]"
      using p(3-7) by (cases "output"; cases event; cases closer) (simp_all add: proc_handles_some)
    have "proc_inv (set_proc i ?p (close_handles [output, event, closer] T), None)"
      using ok p proc_invD(2) [OF I]
      by (intro inv_update [OF I p(1) _ _ _ _ _ others n] consoles_update [OF proc_invD(4) [OF I] p(1)])
        (simp_all add: proc_ok_def h proc_handles_some [of ?p])
    with e p True show ?thesis by (simp add: clean_end_def)
  qed
qed

lemma proc_inv_step: "proc_step S S' \<Longrightarrow> proc_inv S \<Longrightarrow> proc_inv S'"
proof (induction rule: proc_step.induct)
  case (Register i T process job console d ctx pid)
  then show ?case by (intro proc_register_inv)
next
  case (CleanBegin thread T ctx exit_code i out event closer T')
  from proc_clean_begin_inv [OF CleanBegin.prems CleanBegin(1,2)] show ?case by simp
next
  case (CleanFailed thread T ctx exit_code e T')
  from proc_clean_begin_inv [OF CleanFailed.prems CleanFailed(1,2)] show ?case by simp
next
  case (CleanEnd i out event closer result T T')
  show ?case by (rule proc_clean_end_inv [OF CleanEnd.prems CleanEnd(1)])
qed (simp_all add: proc_wait_begin_inv proc_wait_end_inv proc_reclaim_inv proc_leave_inv)

lemma reachable_procs_inv: "reachable_procs S \<Longrightarrow> proc_inv S"
  unfolding reachable_procs_def
proof (induction rule: rtranclp_induct)
  case base
  show ?case
    by (simp add: proc_inv_def initial_procs_def balanced_def held_handles_def process_get_def drained_ok_def consoles_ok_def)
qed (rule proc_inv_step)

section \<open>What holds of the records\<close>

lemma in_held_handles:
  "distinct (map fst (procs T)) \<Longrightarrow> h \<in># held_handles T \<longleftrightarrow> (\<exists>i p. process_get i T = Some p \<and> h \<in># proc_handles p)"
proof -
  assume d: "distinct (map fst (procs T))"
  have "h \<in># (\<Sum>x \<leftarrow> xs. proc_handles (snd x)) \<longleftrightarrow> (\<exists>x \<in> set xs. h \<in># proc_handles (snd x))" for xs :: "(int \<times> proc) list"
    by (induction xs) auto
  then have "h \<in># held_handles T \<longleftrightarrow> (\<exists>x \<in> set (procs T). h \<in># proc_handles (snd x))" by (simp add: held_handles_def)
  also have "\<dots> \<longleftrightarrow> (\<exists>i p. (i, p) \<in> set (procs T) \<and> h \<in># proc_handles p)" by force
  finally show ?thesis unfolding process_get_in [OF d] .
qed

text \<open>C19: The handles of the confined Windows processes are accounted for, whatever threads launch, wait, reclaim and
  destroy side by side.  In every reachable state each handle opened for a process is either in its record or was
  closed, once; no console is closed twice; and while a destruction drains output with the lock released, the
  record it works on stays in the table and the handles it uses stay open and its own.\<close>

theorem process_handles_accounted:
  assumes "reachable_procs (T, d)"
  shows "distinct (closed T) \<and> distinct (consoles_closed T)
    \<and> set (opened T) = set (closed T) \<union> {h. \<exists>i p. process_get i T = Some p \<and> h \<in># proc_handles p}
    \<and> (\<forall>i p h. process_get i T = Some p \<longrightarrow> h \<in># proc_handles p \<longrightarrow> h \<notin> set (closed T))
    \<and> (\<forall>i output event closer. d = Some (i, output, event, closer) \<longrightarrow>
         (set_option output \<union> set_option event \<union> set_option closer) \<inter> set (closed T) = {}
         \<and> (\<forall>result. clean_end i output event closer result T \<noteq> None))"
proof -
  have I: "proc_inv (T, d)" using assms by (rule reachable_procs_inv)
  note D = proc_invD(1,2,3,4) [OF I]
  have m: "mset (opened T) = mset (closed T) + held_handles T" using D(3) by (simp add: balanced_def)
  have one: "count (mset (closed T)) h + count (held_handles T) h \<le> 1" for h
  proof -
    have "count (mset (opened T)) h \<le> 1" using D(2) by (simp add: distinct_count_atmost_1)
    then show ?thesis by (simp add: m)
  qed
  have "count (mset (closed T)) h = (if h \<in> set (closed T) then 1 else 0)" for h
  proof (cases "h \<in> set (closed T)")
    case True
    then have "0 < count (mset (closed T)) h" by simp
    with one [of h] have "count (mset (closed T)) h = 1" by linarith
    with True show ?thesis by simp
  qed simp
  then have "distinct (closed T)" by (simp add: distinct_count_atmost_1)
  moreover have out: "h \<notin> set (closed T)" if "process_get i T = Some p" "h \<in># proc_handles p" for i p h
  proof
    assume "h \<in> set (closed T)"
    then have "0 < count (mset (closed T)) h" by simp
    moreover have "h \<in># held_handles T" using that in_held_handles [OF D(1)] by blast
    ultimately show False using one [of h] by (simp add: count_greater_zero_iff [symmetric] del: count_greater_zero_iff)
  qed
  moreover have "set (opened T) = set (closed T) \<union> {h. \<exists>i p. process_get i T = Some p \<and> h \<in># proc_handles p}"
    using arg_cong [OF m, of set_mset] in_held_handles [OF D(1)] by auto
  moreover have "(set_option out \<union> set_option event \<union> set_option closer) \<inter> set (closed T) = {}
      \<and> clean_end i out event closer result T \<noteq> None" if dd: "d = Some (i, out, event, closer)" for i out event closer result
  proof -
    obtain p where p: "process_get i T = Some p" "pr_output p = out" "pr_output_event p = event" "pr_closer p = closer"
      using drained_handles [of T i out event closer] I dd by auto
    have "h \<in># proc_handles p" if "h \<in> set_option out \<union> set_option event \<union> set_option closer" for h
      using that p(2-4) by (auto simp: proc_handles_def)
    with out [OF p(1)] show ?thesis by (auto simp: clean_end_def p(1))
  qed
  moreover have "distinct (consoles_closed T)" using D(4) by (simp add: consoles_ok_def)
  ultimately show ?thesis by blast
qed

text \<open>Reads submitted one after the other, each completed before the next.\<close>

definition whole_reads :: "overlapped list \<Rightarrow> bool" where
  "whole_reads events \<longleftrightarrow> (\<exists>rs. set rs \<subseteq> {[Submitted, Completed], [Submitted, Cancelled, Completed]} \<and> events = concat rs)"

lemma whole_reads_simps [simp]: "whole_reads []" "whole_reads [Submitted, Completed]" "whole_reads [Submitted, Cancelled, Completed]"
  unfolding whole_reads_def
  by (rule exI [where x = "[]"], simp, rule exI [where x = "[[Submitted, Completed]]"], simp,
      rule exI [where x = "[[Submitted, Cancelled, Completed]]"], simp)

lemma whole_reads_append: "whole_reads a \<Longrightarrow> whole_reads b \<Longrightarrow> whole_reads (a @ b)"
  unfolding whole_reads_def
proof (elim exE conjE)
  fix r s
  assume "set r \<subseteq> {[Submitted, Completed], [Submitted, Cancelled, Completed]}" "a = concat r"
    "set s \<subseteq> {[Submitted, Completed], [Submitted, Cancelled, Completed]}" "b = concat s"
  then show "\<exists>rs. set rs \<subseteq> {[Submitted, Completed], [Submitted, Cancelled, Completed]} \<and> a @ b = concat rs"
    by (intro exI [where x = "r @ s"]) simp
qed

lemma drain_turn_reads: "whole_reads (snd (drain_turn A))"
proof (cases "closer_at_start A = CloserRunning \<and> reset_error A = None \<and> (\<exists>code. drain_started A = Refused code)")
  case True
  then obtain code where "closer_at_start A = CloserRunning" "reset_error A = None" "drain_started A = Refused code" by blast
  then show ?thesis
    by (cases "stream_over code"; cases "code = ERROR_IO_PENDING") (simp_all add: drain_turn_def Let_def)
next
  case False
  then show ?thesis
    by (cases "closer_at_start A"; cases "reset_error A"; cases "drain_started A") (simp_all add: drain_turn_def)
qed

lemma drain_turns_reads: "whole_reads (snd (drain_turns answers))"
proof (induction answers)
  case (Cons A answers)
  obtain r events where A: "drain_turn A = (r, events)" by (cases "drain_turn A")
  obtain r' events' where t: "drain_turns answers = (r', events')" by (cases "drain_turns answers")
  from A drain_turn_reads [of A] Cons t show ?case by (cases r) (simp_all add: whole_reads_append)
qed simp

text \<open>Draining abandoned output ends, and never leaves a read behind.  As soon as the thread that closes the
  console has returned when a turn asks for it, the drain returns; and on every way out each read it submitted on
  its stack was completed, after a cancellation where it gave up.\<close>

theorem drain_completes_its_reads:
  "whole_reads (snd (drain_console output event closer answers))
   \<and> (CloserDone \<in> closer_at_start ` set answers \<longrightarrow> fst (drain_console output event closer answers) \<noteq> None)"
proof -
  have "CloserDone \<in> closer_at_start ` set answers \<Longrightarrow> fst (drain_turns answers) \<noteq> None"
    by (induction answers) (auto simp: drain_turn_def split: prod.splits option.splits closer_state.splits)
  with drain_turns_reads [of answers] show ?thesis by (simp add: drain_console_def)
qed

text \<open>A process with a console whose context is destroyed.\<close>

theorem process_handles_accounted_witness:
  "\<exists>T. distinct (closed T) \<and> closed T = [10, 11] \<and> (\<exists>T'. clean_end 1 None None (Some 12) 0 T = Some T')"
proof -
  let ?T = "register 1 7 10 11 (Some 5) 99 initial_procs"
  define T' where "T' = snd (clean_begin 7 (Some 0) (Inr 12) ?T)"
  have c: "clean_begin 7 (Some 0) (Inr 12) ?T = (Drain 1 None None (Some 12), T')" "closed T' = [10, 11]"
    by (simp_all add: T'_def clean_begin_def register_def initial_procs_def start_closer_def close_handles_def set_proc_def)
  have 1: "proc_step (initial_procs, None) (?T, None)"
    by (rule proc_step.Register) (simp_all add: initial_procs_def process_get_def)
  have 2: "proc_step (?T, None) (T', Some (1, None, None, Some 12))"
    by (rule proc_step.CleanBegin [OF _ c(1)]) (simp add: fresh_thread_def register_def initial_procs_def)
  have R: "reachable_procs (T', Some (1, None, None, Some 12))"
    unfolding reachable_procs_def using 1 2 by (meson converse_rtranclp_into_rtranclp rtranclp.rtrancl_refl)
  from process_handles_accounted [OF R] have "distinct (closed T')" "clean_end 1 None None (Some 12) 0 T' \<noteq> None" by blast+
  with c(2) show ?thesis by blast
qed

theorem drain_completes_its_reads_witness:
  "fst (drain_console (Some 1) (Some 2) (Some 3)
     [\<lparr>closer_at_start = CloserRunning, reset_error = None, drain_started = Refused ERROR_IO_PENDING, drain_waited = ByEvent,
        cancel_error = None, drain_ended = Moved 5\<rparr>,
      \<lparr>closer_at_start = CloserDone, reset_error = None, drain_started = Moved 0, drain_waited = ByEvent,
        cancel_error = None, drain_ended = Moved 0\<rparr>]) \<noteq> None"
  using drain_completes_its_reads [of "Some 1" "Some 2" "Some 3"
     "[\<lparr>closer_at_start = CloserRunning, reset_error = None, drain_started = Refused ERROR_IO_PENDING, drain_waited = ByEvent,
        cancel_error = None, drain_ended = Moved 5\<rparr>,
      \<lparr>closer_at_start = CloserDone, reset_error = None, drain_started = Moved 0, drain_waited = ByEvent,
        cancel_error = None, drain_ended = Moved 0\<rparr>]"]
  by simp

end
