(* ===== verification/WinSteps.thy ===== *)
theory WinSteps
  imports WinProcess
begin

text \<open>
  What the long functions of \<^verbatim>\<open>native/visjail/visjail_windows.c\<close> share: a sequence of calls the first failure of
  which leads to one way out, specified by what holds before it, after it and where it fails; and a ledger of
  the handles the kernel gave, held by variables or closed.
\<close>

section \<open>Errors\<close>

definition failure :: "int \<Rightarrow> int" where
  "failure code = (let c = (if code = 0 then ERROR_INVALID_PARAMETER else code) in - (if c \<le> INT_MAX then c else ERROR_GEN_FAILURE))"

definition ERROR_NOT_ENOUGH_MEMORY :: int where "ERROR_NOT_ENOUGH_MEMORY = 8"

definition ERROR_TOO_MANY_OPEN_FILES :: int where "ERROR_TOO_MANY_OPEN_FILES = 4"

lemma failure_not_0: "failure code \<noteq> 0"
  by (simp add: failure_def Let_def ERROR_INVALID_PARAMETER_def ERROR_GEN_FAILURE_def)

section \<open>Steps\<close>

text \<open>A step answers the error it failed with, or \<open>None\<close>; the first failure ends a sequence.\<close>

type_synonym ('s, 'e) step = "'s \<Rightarrow> 'e option \<times> 's"

fun run_steps :: "('s, 'e) step list \<Rightarrow> ('s, 'e) step" where
  "run_steps [] s = (None, s)"
| "run_steps (f # fs) s = (case f s of (None, s1) \<Rightarrow> run_steps fs s1 | (Some code, s1) \<Rightarrow> (Some code, s1))"

text \<open>From \<open>P\<close> a step leads to \<open>Q\<close> when it works and to \<open>E\<close> when it fails.\<close>

definition spec :: "('s \<Rightarrow> bool) \<Rightarrow> ('s \<Rightarrow> bool) \<Rightarrow> ('s, 'e) step \<Rightarrow> ('s \<Rightarrow> bool) \<Rightarrow> bool" where
  "spec E P f Q \<longleftrightarrow> (\<forall>s. P s \<longrightarrow> (case f s of (None, s1) \<Rightarrow> Q s1 | (Some _, s1) \<Rightarrow> E s1))"

lemma spec_Nil: "spec E P (run_steps []) P"
  by (simp add: spec_def)

lemma spec_Cons: "spec E P f Q \<Longrightarrow> spec E Q (run_steps fs) R \<Longrightarrow> spec E P (run_steps (f # fs)) R"
  by (fastforce simp: spec_def split: prod.splits option.splits)

lemma run_steps_append:
  "run_steps (fs @ gs) s = (case run_steps fs s of (None, s1) \<Rightarrow> run_steps gs s1 | (Some e, s1) \<Rightarrow> (Some e, s1))"
  by (induction fs arbitrary: s) (auto split: prod.splits option.splits)

lemma spec_append: "spec E P (run_steps fs) Q \<Longrightarrow> spec E Q (run_steps gs) R \<Longrightarrow> spec E P (run_steps (fs @ gs)) R"
  by (fastforce simp: spec_def run_steps_append split: prod.splits option.splits)

lemma spec_end: "P = Q \<Longrightarrow> spec E P (run_steps []) Q"
  by (simp add: spec_Nil)

section \<open>The ledger of handles\<close>

text \<open>The handles the kernel gave between two counts.\<close>

definition made :: "nat \<Rightarrow> nat \<Rightarrow> nat multiset" where
  "made n m = mset [n..<m]"

lemma made_Suc [simp]: "n \<le> m \<Longrightarrow> made n (Suc m) = add_mset m (made n m)" "made n n = {#}"
  by (simp_all add: made_def)

lemma made_member [simp]: "h \<in># made n m \<longleftrightarrow> n \<le> h \<and> h < m"
  by (simp add: made_def)

lemma made_once: "count (made n m) h \<le> 1"
proof -
  have "count (mset [n..<m]) h = (if h \<in> set [n..<m] then 1 else 0)"
    using distinct_count_atmost_1 [of "[n..<m]"] by (simp add: count_mset_set')
  then show ?thesis by (simp add: made_def split: if_splits)
qed

lemma made_apart: "made n m = A + B \<Longrightarrow> h \<in># A \<Longrightarrow> h \<notin># B"
proof
  assume "made n m = A + B" "h \<in># A" "h \<in># B"
  then have "1 \<le> count A h" "1 \<le> count B h" by (simp_all add: Suc_le_eq)
  then have "2 \<le> count (made n m) h" unfolding \<open>made n m = A + B\<close> plus_multiset.rep_eq by linarith
  with made_once [of n m h] show False by simp
qed

text \<open>The handles variables hold.\<close>

definition one_handle :: "nat option \<Rightarrow> nat multiset" where
  "one_handle h = (case h of None \<Rightarrow> {#} | Some x \<Rightarrow> {#x#})"

definition slots_held :: "('v :: finite \<Rightarrow> nat option) \<Rightarrow> nat multiset" where
  "slots_held f = (\<Sum>v \<in> UNIV. one_handle (f v))"

lemma one_handle_simps [simp]: "one_handle None = {#}" "one_handle (Some h) = {#h#}"
  by (simp_all add: one_handle_def)

lemma held_none [simp]: "slots_held (\<lambda>_. None) = {#}"
  by (simp add: slots_held_def)

lemma held_split: "slots_held f = one_handle (f v) + slots_held (f(v := None))"
proof -
  have "slots_held g = one_handle (g v) + (\<Sum>w \<in> UNIV - {v}. one_handle (g w))" for g
    unfolding slots_held_def by (rule sum.remove) auto
  from this [of f] this [of "f(v := None)"] show ?thesis by simp
qed

lemma held_add: "f v = None \<Longrightarrow> slots_held (f(v := Some h)) = add_mset h (slots_held f)"
  using held_split [of "f(v := Some h)" v] by (simp add: fun_upd_idem)

lemma held_clear: "slots_held f = one_handle (Option.bind x f) + slots_held (\<lambda>v. if Some v = x then None else f v)"
proof (cases x)
  case (Some w)
  have "(\<lambda>v. if Some v = x then None else f v) = f(w := None)" by (auto simp: Some)
  then show ?thesis using held_split [of f w] by (simp add: Some)
qed simp

lemma held_member: "f v = Some h \<Longrightarrow> h \<in># slots_held f"
  using held_split [of f v] by simp

end
