(* ===== verification/WinSpawn.thy ===== *)
theory WinSpawn
  imports WinLaunch WinSteps
begin

text \<open>
  \<^verbatim>\<open>visjail_spawn\<close> in \<^verbatim>\<open>native/visjail/visjail_windows.c\<close> from its pins on: pins, pipes and pseudo console, the attributes
  of the process, its jobs and streams, the start, and the way out of every failure.  Handles are numbers the
  kernel does not give twice; which calls work is a parameter.
\<close>

section \<open>The variables of a spawn\<close>

datatype slot = HostIn | HostOut | HostErr | ChildIn | ChildOut | ChildErr | StationCopy | DesktopCopy | Console
  | Job | ProcessHandle | ThreadHandle

datatype win_call = PipeName slot | PipeServer slot | PipeClient slot | PseudoConsole | ListMemory | ListInit
  | SetSecurity | SetPackages | CopyObject slot | SetConsole | SetHandles | RecordMemory | NewJob | JobLimits | NewProcess
  | JoinContextJob | JoinOwnJob | StreamMemory slot | CancelEvent slot | PeekEvent slot | ResumeMain

text \<open>What is asked of \<open>CreateProcessW\<close>: the launch, the standard handles, and the attributes of the list: the handles
  to inherit, the console, the package by the context it belongs to (0 is none), its capabilities and the policy.\<close>

datatype capability = RegistryRead

record creation =
  cr_launch :: launch
  cr_inherit :: "nat list"
  cr_console :: "nat option"
  cr_standard :: "nat option list"
  cr_package :: int
  cr_capabilities :: "capability list"
  cr_packages_opt_out :: bool
  cr_suspended :: bool

datatype action = Create creation | EnterContextJob | EnterOwnJob | Resume | Terminate | FinishOwnJob

record request =
  rq_pty :: bool
  rq_merge :: bool
  rq_rows :: int
  rq_cols :: int
  rq_context :: int
  rq_launch :: launch

record spawn =
  vars :: "slot \<Rightarrow> nat option"
  next_handle :: nat
  shut :: "nat list"
  sp_pins :: "nat list"
  sp_package :: int
  sp_capabilities :: "capability list"
  sp_opt_out :: bool
  sp_console :: "nat option"
  sp_handles :: "nat list"
  actions :: "action list"
  sp_id :: int
  sp_ids :: "int list"
  sp_streams :: stream_tables

definition SHRT_MAX :: int where "SHRT_MAX = 32767"

text \<open>A call that worked answers \<open>None\<close>, another one its error.\<close>

type_synonym calls = "win_call \<Rightarrow> int option"

type_synonym spawn_step = "(spawn, int) step"

definition new_handle :: "slot \<Rightarrow> spawn \<Rightarrow> spawn" where
  "new_handle v s = s\<lparr>vars := (vars s)(v := Some (next_handle s)), next_handle := next_handle s + 1\<rparr>"

definition open_object :: "calls \<Rightarrow> win_call \<Rightarrow> slot \<Rightarrow> spawn_step" where
  "open_object K call v s = (case K call of None \<Rightarrow> (None, new_handle v s) | Some code \<Rightarrow> (Some code, s))"

definition only_call :: "calls \<Rightarrow> win_call \<Rightarrow> spawn_step" where
  "only_call K call s = (K call, s)"

definition pipe_pair :: "calls \<Rightarrow> slot \<Rightarrow> slot \<Rightarrow> spawn_step" where
  "pipe_pair K host child s =
     (case (K (PipeName host), K (PipeServer host)) of
        (Some code, _) \<Rightarrow> (Some code, s)
      | (None, Some code) \<Rightarrow> (Some code, s)
      | (None, None) \<Rightarrow>
          (case K (PipeClient host) of
             Some code \<Rightarrow> (Some code, s\<lparr>next_handle := next_handle s + 1, shut := shut s @ [next_handle s]\<rparr>)
           | None \<Rightarrow> (None, new_handle child (new_handle host s))))"

text \<open>A job without its limits is closed again.\<close>

definition new_job :: "calls \<Rightarrow> spawn_step" where
  "new_job K s =
     (case (K NewJob, K JobLimits) of
        (Some code, _) \<Rightarrow> (Some code, s)
      | (None, Some code) \<Rightarrow> (Some code, s\<lparr>next_handle := next_handle s + 1, shut := shut s @ [next_handle s]\<rparr>)
      | (None, None) \<Rightarrow> (None, new_handle Job s))"

section \<open>The pins\<close>

definition take_pin :: "pin_outcome \<Rightarrow> spawn_step" where
  "take_pin outcome s =
     (case outcome of
        Pinned \<Rightarrow> (None, s\<lparr>next_handle := next_handle s + 1, sp_pins := next_handle s # sp_pins s\<rparr>)
      | NotOpened code \<Rightarrow> (Some code, s)
      | OpenedAndClosed code \<Rightarrow> (Some code, s\<lparr>next_handle := next_handle s + 1, shut := shut s @ [next_handle s]\<rparr>))"

definition pin_steps :: "win32 \<Rightarrow> win_context \<Rightarrow> launch \<Rightarrow> spawn_step list" where
  "pin_steps W c l = map take_pin (pin_outcomes W (launch_pins c (l_program l) (l_directory l)))"

definition unpin_launch :: "spawn \<Rightarrow> spawn" where
  "unpin_launch s = s\<lparr>shut := shut s @ sp_pins s, sp_pins := []\<rparr>"

section \<open>The steps\<close>

definition check_size :: "request \<Rightarrow> spawn_step" where
  "check_size q s =
     (if rq_pty q \<and> (rq_rows q \<le> 0 \<or> rq_cols q \<le> 0 \<or> rq_rows q > SHRT_MAX \<or> rq_cols q > SHRT_MAX)
      then (Some ERROR_INVALID_PARAMETER, s) else (None, s))"

definition draw_id :: spawn_step where
  "draw_id s =
     (case allocate_id (sp_streams s) of
        (sid, T) \<Rightarrow> if sid = 0 then (Some ERROR_TOO_MANY_OPEN_FILES, s\<lparr>sp_streams := T\<rparr>) else (None, s\<lparr>sp_streams := T, sp_id := sid\<rparr>))"

definition inherited_slots :: "request \<Rightarrow> slot list" where
  "inherited_slots q =
     [StationCopy, DesktopCopy] @ (if rq_pty q then [] else [ChildIn, ChildOut] @ (if rq_merge q then [] else [ChildErr]))"

text \<open>The attributes of the process, one call each.\<close>

definition set_security :: "calls \<Rightarrow> request \<Rightarrow> spawn_step" where
  "set_security K q s =
     (case K SetSecurity of Some code \<Rightarrow> (Some code, s)
      | None \<Rightarrow> (None, s\<lparr>sp_package := rq_context q, sp_capabilities := [RegistryRead]\<rparr>))"

definition set_packages :: "calls \<Rightarrow> spawn_step" where
  "set_packages K s = (case K SetPackages of Some code \<Rightarrow> (Some code, s) | None \<Rightarrow> (None, s\<lparr>sp_opt_out := True\<rparr>))"

definition set_console :: "calls \<Rightarrow> spawn_step" where
  "set_console K s = (case K SetConsole of Some code \<Rightarrow> (Some code, s) | None \<Rightarrow> (None, s\<lparr>sp_console := vars s Console\<rparr>))"

definition set_handles :: "calls \<Rightarrow> request \<Rightarrow> spawn_step" where
  "set_handles K q s =
     (case K SetHandles of Some code \<Rightarrow> (Some code, s)
      | None \<Rightarrow> (None, s\<lparr>sp_handles := map (the \<circ> vars s) (inherited_slots q)\<rparr>))"

definition creation_of :: "request \<Rightarrow> spawn \<Rightarrow> creation" where
  "creation_of q s =
     \<lparr>cr_launch = rq_launch q,
      cr_inherit = sp_handles s, cr_console = sp_console s,
      cr_standard = (if rq_pty q then [None, None, None]
        else [vars s ChildIn, vars s ChildOut, if vars s ChildErr \<noteq> None then vars s ChildErr else vars s ChildOut]),
      cr_package = sp_package s, cr_capabilities = sp_capabilities s, cr_packages_opt_out = sp_opt_out s, cr_suspended = True\<rparr>"

definition create_process :: "calls \<Rightarrow> request \<Rightarrow> spawn_step" where
  "create_process K q s =
     (case K NewProcess of
        Some code \<Rightarrow> (Some code, s)
      | None \<Rightarrow> (None, (new_handle ThreadHandle (new_handle ProcessHandle s))\<lparr>actions := actions s @ [Create (creation_of q s)]\<rparr>))"

definition act :: "calls \<Rightarrow> win_call \<Rightarrow> action \<Rightarrow> spawn_step" where
  "act K call a s = (case K call of None \<Rightarrow> (None, s\<lparr>actions := actions s @ [a]\<rparr>) | Some code \<Rightarrow> (Some code, s))"

definition new_event :: "calls \<Rightarrow> win_call \<Rightarrow> spawn \<Rightarrow> nat option \<times> spawn" where
  "new_event K call s =
     (case K call of None \<Rightarrow> (Some (next_handle s), s\<lparr>next_handle := next_handle s + 1\<rparr>) | Some _ \<Rightarrow> (None, s))"

text \<open>A stream over pipe ends held in variables, which it takes over.  It is named by the slot of its main end.\<close>

definition connect :: "calls \<Rightarrow> request \<Rightarrow> slot \<Rightarrow> slot option \<Rightarrow> slot option \<Rightarrow> spawn_step" where
  "connect K q name rd wr s =
     (case K (StreamMemory name) of
        Some code \<Rightarrow> (Some code, s)
      | None \<Rightarrow>
          let (cancel, s1) = new_event K (CancelEvent name) s;
              (event, s2) = new_event K (PeekEvent name) s1;
              (sid, T) = stream_new True cancel event (rq_context q) (Option.bind rd (vars s)) (Option.bind wr (vars s)) (sp_streams s2)
          in (case sid of
                None \<Rightarrow>
                  (Some (if next_id (sp_streams s) = INT_MAX then ERROR_TOO_MANY_OPEN_FILES
                     else (case K (PeekEvent name) of Some code \<Rightarrow> code
                           | None \<Rightarrow> (case K (CancelEvent name) of Some code \<Rightarrow> code | None \<Rightarrow> 0))),
                   s2\<lparr>sp_streams := T\<rparr>)
              | Some i \<Rightarrow>
                  (None, s2\<lparr>sp_streams := T, sp_ids := sp_ids s2 @ [i],
                     vars := (\<lambda>v. if Some v = rd \<or> Some v = wr then None else vars s v)\<rparr>)))"

text \<open>The steps of a spawn in order.\<close>

definition prepare_steps :: "calls \<Rightarrow> request \<Rightarrow> spawn_step list" where
  "prepare_steps K q =
     [check_size q, pipe_pair K HostIn ChildIn, pipe_pair K HostOut ChildOut]
     @ (if rq_pty q then [open_object K PseudoConsole Console] else if rq_merge q then [] else [pipe_pair K HostErr ChildErr])
     @ [only_call K ListMemory, only_call K ListInit, set_security K q, set_packages K,
        open_object K (CopyObject StationCopy) StationCopy, open_object K (CopyObject DesktopCopy) DesktopCopy]
     @ (if rq_pty q then [set_console K] else [])
     @ [set_handles K q, only_call K RecordMemory, new_job K, draw_id]"

definition connect_steps :: "calls \<Rightarrow> request \<Rightarrow> spawn_step list" where
  "connect_steps K q =
     (if rq_pty q then [connect K q HostIn (Some HostOut) (Some HostIn)]
      else [connect K q HostIn None (Some HostIn), connect K q HostOut (Some HostOut) None]
           @ (if rq_merge q then [] else [connect K q HostErr (Some HostErr) None]))"

definition spawn_steps :: "calls \<Rightarrow> request \<Rightarrow> spawn_step list" where
  "spawn_steps K q =
     prepare_steps K q
     @ [create_process K q, act K JoinContextJob EnterContextJob, act K JoinOwnJob EnterOwnJob]
     @ connect_steps K q @ [act K ResumeMain Resume]"

section \<open>The ways out\<close>

definition undo :: "spawn \<Rightarrow> spawn" where
  "undo s =
     s\<lparr>actions := actions s @ (if vars s ProcessHandle \<noteq> None then [Terminate] else [])
          @ (if vars s Job \<noteq> None then [FinishOwnJob] else []),
       sp_streams := fold stream_close_locked (filter (\<lambda>i. i \<in> set (sp_ids s)) (table (sp_streams s))) (sp_streams s)\<rparr>"

definition closing_order :: "slot list" where
  "closing_order = [DesktopCopy, StationCopy, ThreadHandle, ProcessHandle, Job, HostIn, HostOut, HostErr, ChildIn, ChildOut,
     ChildErr, Console]"

definition shut_all :: "spawn \<Rightarrow> spawn" where
  "shut_all s = s\<lparr>shut := shut s @ List.map_filter (vars s) closing_order, vars := (\<lambda>_. None)\<rparr>"

text \<open>What a started process leaves: its record and, for a terminal, the owner of its stream.\<close>

definition hand_over_process :: "request \<Rightarrow> int \<Rightarrow> spawn \<Rightarrow> proc_tables \<Rightarrow> spawn \<times> proc_tables" where
  "hand_over_process q pid s P =
     (s\<lparr>vars := (vars s)(ProcessHandle := None, Job := None, Console := None),
        sp_streams := (if rq_pty q
          then set_stream (hd (sp_ids s)) (map_option (\<lambda>t. t\<lparr>s_process := sp_id s\<rparr>) (memory (sp_streams s) (hd (sp_ids s)))) (sp_streams s)
          else sp_streams s)\<lparr>processes := (processes (sp_streams s))(sp_id s \<mapsto>
            \<lparr>p_console = vars s Console \<noteq> None, p_closer_running = False, p_output = None, p_output_event = None\<rparr>)\<rparr>\<rparr>,
      register (sp_id s) (rq_context q) (the (vars s ProcessHandle)) (the (vars s Job)) (vars s Console) pid P)"

definition spawn_results :: "request \<Rightarrow> spawn \<Rightarrow> int list" where
  "spawn_results q s =
     [sp_id s, hd (sp_ids s), if rq_pty q then hd (sp_ids s) else sp_ids s ! 1,
      if rq_pty q then hd (sp_ids s) else if rq_merge q then -1 else sp_ids s ! 2]"

definition start_process :: "calls \<Rightarrow> request \<Rightarrow> int \<Rightarrow> spawn \<Rightarrow> proc_tables \<Rightarrow> int \<times> int list \<times> spawn \<times> proc_tables" where
  "start_process K q pid s P =
     (case run_steps (spawn_steps K q) s of
        (None, s1) \<Rightarrow> (case hand_over_process q pid s1 P of (s2, P2) \<Rightarrow> (0, spawn_results q s1, shut_all s2, P2))
      | (Some code, s1) \<Rightarrow> (failure code, [0, -1, -1, -1], shut_all (undo s1), P))"

text \<open>The whole operation: what is refused before the pins, the pins, the start after completed records are reclaimed,
  and the pins closed on every way out.\<close>

definition visjail_spawn ::
  "win32 \<Rightarrow> calls \<Rightarrow> (int \<Rightarrow> win_context option) \<Rightarrow> int \<Rightarrow> (nat \<Rightarrow> bool) \<Rightarrow> int \<Rightarrow> bytes option \<Rightarrow> int \<Rightarrow> bytes option \<Rightarrow> int \<Rightarrow>
     bytes option \<Rightarrow> bytes option \<Rightarrow> int \<Rightarrow> int \<Rightarrow> int \<Rightarrow> int \<Rightarrow> int \<Rightarrow> spawn \<Rightarrow> proc_tables \<Rightarrow> int \<times> int list \<times> spawn \<times> proc_tables" where
  "visjail_spawn W K contexts refusal signalled pid argv_blob argv_len env_blob env_len cwd profile flags rows cols
     proxy_port inbound_port s P =
     (case (admit_launch W contexts argv_blob argv_len env_blob env_len cwd profile flags proxy_port inbound_port,
            context_of_profile profile) of
        (Some (c, l), Some number) \<Rightarrow>
          (case run_steps (pin_steps W c l) s of
             (Some code, s1) \<Rightarrow> (failure code, [0, -1, -1, -1], unpin_launch (shut_all (undo s1)), P)
           | (None, s1) \<Rightarrow>
               (case start_process K
                  \<lparr>rq_pty = flags AND int VISJAIL_PTY \<noteq> 0, rq_merge = flags AND int VISJAIL_MERGE_STDERR \<noteq> 0, rq_rows = rows,
                   rq_cols = cols, rq_context = number, rq_launch = l\<rparr> pid s1 (reclaim signalled P) of
                  (r, results, s2, P2) \<Rightarrow> (r, results, unpin_launch s2, P2)))
      | _ \<Rightarrow> (failure refusal, [0, -1, -1, -1], s, P))"

definition no_spawn :: "nat \<Rightarrow> stream_tables \<Rightarrow> spawn" where
  "no_spawn n T = \<lparr>vars = (\<lambda>_. None), next_handle = n, shut = [], sp_pins = [], sp_package = 0, sp_capabilities = [],
     sp_opt_out = False, sp_console = None, sp_handles = [], actions = [], sp_id = 0, sp_ids = [], sp_streams = T\<rparr>"

section \<open>The ledger of a spawn\<close>

instance slot :: finite
proof
  have "(UNIV :: slot set) = set closing_order" by (auto simp: closing_order_def intro: slot.exhaust)
  then show "finite (UNIV :: slot set)" by (metis finite_set)
qed

lemma all_slots: "set closing_order = UNIV" "distinct closing_order"
  by (auto simp: closing_order_def intro: slot.exhaust)

lemma held_closing: "mset (List.map_filter f closing_order) = slots_held f"
proof -
  have "mset (List.map_filter f xs) = (\<Sum>v \<leftarrow> xs. one_handle (f v))" for xs
    by (induction xs) (auto simp: List.map_filter_def one_handle_def split: option.splits)
  also have "(\<Sum>v \<leftarrow> closing_order. one_handle (f v)) = slots_held f"
    unfolding slots_held_def all_slots(1) [symmetric] by (rule sum_list_distinct_conv_sum_set [OF all_slots(2)])
  finally show ?thesis .
qed

text \<open>A stream of this spawn, not yet owned by its process.\<close>

definition fresh_stream :: "int \<Rightarrow> stream \<Rightarrow> bool" where
  "fresh_stream ctx t \<longleftrightarrow> s_refs t = 1 \<and> \<not> s_closed t \<and> s_process t = 0 \<and> s_context t = ctx \<and> distinct (own_handles t)"

definition stream_handles :: "(int \<times> stream) list \<Rightarrow> nat multiset" where
  "stream_handles L = (\<Sum>x \<leftarrow> L. mset (own_handles (snd x)))"

text \<open>The streams made so far, in front of the tables the spawn found.\<close>

definition extends :: "int \<Rightarrow> stream_tables \<Rightarrow> (int \<times> stream) list \<Rightarrow> nat list \<Rightarrow> stream_tables \<Rightarrow> bool" where
  "extends ctx T L hs T' \<longleftrightarrow>
     table T' = map fst L @ table T \<and> memory T' = memory T ++ map_of L \<and> closed_handles T' = closed_handles T @ hs
     \<and> processes T' = processes T \<and> live_streams T' = (live_streams T)(ctx := live_streams T ctx + int (length L))
     \<and> next_id T \<le> next_id T' \<and> distinct (map fst L)
     \<and> (\<forall>(i, t) \<in> set L. next_id T \<le> i \<and> i < next_id T' \<and> fresh_stream ctx t)"

definition ids_below :: "stream_tables \<Rightarrow> bool" where
  "ids_below T \<longleftrightarrow> 0 < next_id T \<and> (\<forall>i \<in> dom (memory T) \<union> set (table T). i < next_id T)"

definition ledger :: "nat \<Rightarrow> int \<Rightarrow> stream_tables \<Rightarrow> spawn \<Rightarrow> bool" where
  "ledger n ctx T s \<longleftrightarrow> n \<le> next_handle s \<and>
     (\<exists>L hs. extends ctx T L hs (sp_streams s) \<and> sp_ids s = rev (map fst L)
        \<and> made n (next_handle s) = mset (shut s) + mset (sp_pins s) + mset hs + slots_held (vars s) + stream_handles L)"

lemma tables_inv_below: "tables_inv (T, H) \<Longrightarrow> ids_below T"
  unfolding tables_inv_def ids_below_def stream_inv_def by fastforce

lemma ledger_initial: "ledger n ctx T (no_spawn n T)"
  unfolding ledger_def by (intro conjI exI [of _ "[]"]) (simp_all add: no_spawn_def extends_def stream_handles_def)

lemma ledger_new_handle:
  assumes "ledger n ctx T s" "vars s v = None"
  shows "ledger n ctx T (new_handle v s)"
  using assms held_add [of "vars s" v "next_handle s"]
  by (auto simp: ledger_def new_handle_def intro!: exI)

lemma ledger_updates [simp]:
  "ledger n ctx T (s\<lparr>actions := as\<rparr>) = ledger n ctx T s" "ledger n ctx T (s\<lparr>sp_console := h\<rparr>) = ledger n ctx T s"
  "ledger n ctx T (s\<lparr>sp_package := i, sp_capabilities := cs\<rparr>) = ledger n ctx T s"
  "ledger n ctx T (s\<lparr>sp_opt_out := b\<rparr>) = ledger n ctx T s" "ledger n ctx T (s\<lparr>sp_handles := hs\<rparr>) = ledger n ctx T s"
  by (simp_all add: ledger_def)

text \<open>The attributes set so far are those of the request, over variables that keep their handles.\<close>

definition same_attributes :: "spawn \<Rightarrow> spawn \<Rightarrow> bool" where
  "same_attributes s1 s \<longleftrightarrow> sp_package s1 = sp_package s \<and> sp_capabilities s1 = sp_capabilities s \<and> sp_opt_out s1 = sp_opt_out s
     \<and> sp_console s1 = sp_console s \<and> sp_handles s1 = sp_handles s"

definition configured :: "request \<Rightarrow> win_call set \<Rightarrow> spawn \<Rightarrow> bool" where
  "configured q A s \<longleftrightarrow>
     (SetSecurity \<in> A \<longrightarrow> sp_package s = rq_context q \<and> sp_capabilities s = [RegistryRead])
     \<and> (SetPackages \<in> A \<longrightarrow> sp_opt_out s)
     \<and> (if SetConsole \<in> A then Console \<in> dom (vars s) \<and> sp_console s = vars s Console else sp_console s = None)
     \<and> (SetHandles \<in> A \<longrightarrow> set (inherited_slots q) \<subseteq> dom (vars s) \<and> sp_handles s = map (the \<circ> vars s) (inherited_slots q))"

lemma configured_cong:
  assumes "configured q A s" "same_attributes s1 s"
    and "\<forall>v. v \<notin> {ProcessHandle, ThreadHandle, HostIn, HostOut, HostErr} \<longrightarrow> vars s1 v = vars s v"
  shows "configured q A s1"
proof -
  have v: "vars s1 v = vars s v" if "v \<in> insert Console (set (inherited_slots q))" for v
    using that assms(3) by (auto simp: inherited_slots_def split: if_splits)
  have handles: "map (the \<circ> vars s1) (inherited_slots q) = map (the \<circ> vars s) (inherited_slots q)" by (simp add: v)
  have slots: "set (inherited_slots q) \<subseteq> dom (vars s1) \<longleftrightarrow> set (inherited_slots q) \<subseteq> dom (vars s)"
    by (simp add: v subset_iff domIff)
  have console: "vars s1 Console = vars s Console" "Console \<in> dom (vars s1) \<longleftrightarrow> Console \<in> dom (vars s)" by (simp_all add: v domIff)
  show ?thesis using assms(1,2) unfolding configured_def same_attributes_def handles slots console by auto
qed

lemma new_handle_simps [simp]:
  "vars (new_handle v s) = (vars s)(v \<mapsto> next_handle s)" "actions (new_handle v s) = actions s"
  "sp_streams (new_handle v s) = sp_streams s" "next_handle (new_handle v s) = next_handle s + 1"
  "same_attributes (new_handle v s) t = same_attributes s t"
  by (simp_all add: new_handle_def same_attributes_def)

lemma configured_new_handle: "configured q A s \<Longrightarrow> v \<notin> dom (vars s) \<Longrightarrow> configured q A (new_handle v s)"
  by (auto simp: configured_def new_handle_def dom_def)

section \<open>Each step keeps the ledger\<close>

lemma ledger_vars:
  assumes "ledger n ctx T s" "vars s v = Some h"
  shows "h < next_handle s" and "v \<noteq> w \<Longrightarrow> vars s w \<noteq> Some h"
proof -
  obtain X where X: "made n (next_handle s) = X + slots_held (vars s)" using assms(1) by (auto simp: ledger_def ac_simps)
  have "h \<in># made n (next_handle s)" unfolding X using held_member [of "vars s" v h] assms(2) by simp
  then show "h < next_handle s" by simp
  assume w: "v \<noteq> w"
  have "slots_held (vars s) = {#h#} + (one_handle (vars s w) + slots_held ((vars s)(v := None, w := None)))"
    using held_split [of "vars s" v] held_split [of "(vars s)(v := None)" w] assms(2) w by simp
  then have "count (made n (next_handle s)) h = Suc (count (X + one_handle (vars s w) + slots_held ((vars s)(v := None, w := None))) h)"
    unfolding X by simp
  moreover have "count (made n (next_handle s)) h \<le> 1" by (rule made_once)
  ultimately show "vars s w \<noteq> Some h" by auto
qed

lemma stream_new_fails:
  assumes "stream_new True cancel event ctx rd wr T = (None, T')" "extends ctx T0 L hs T"
  shows "extends ctx T0 L (hs @ List.map_filter id [cancel, event]) T'"
  using assms
  by (cases cancel; cases event)
    (auto simp: stream_new_def allocate_id_def close_handle_def extends_def List.map_filter_def split: if_splits prod.splits)

lemma stream_new_works:
  assumes "stream_new True cancel event ctx rd wr T = (Some i, T')" "extends ctx T0 L hs T"
    and "distinct (map the (filter (\<lambda>h. h \<noteq> None) [cancel, event, rd, wr]))"
  shows "\<exists>t. extends ctx T0 ((i, t) # L) hs T'
    \<and> mset (own_handles t) = one_handle cancel + one_handle event + one_handle rd + one_handle wr"
proof -
  obtain c e where ce: "cancel = Some c" "event = Some e"
    using assms(1) by (cases cancel; cases event) (auto simp: stream_new_def split: if_splits prod.splits)
  define t where "t = \<lparr>s_refs = 1, s_closed = False, s_process = 0, s_context = ctx, s_read = rd, s_write = wr, s_cancel = c,
      s_event = event, s_cancelled = False, s_byte = NUL, s_pending = False, s_cached = False, s_eof = False\<rparr>"
  have i: "i = next_id T" and T': "T' = T\<lparr>next_id := next_id T + 1, memory := (memory T)(i := Some t),
      live_streams := (live_streams T)(ctx := live_streams T ctx + 1), table := i # table T\<rparr>"
    using assms(1) by (auto simp: ce t_def stream_new_def allocate_id_def split: if_splits)
  have "mset (own_handles t) = one_handle cancel + one_handle event + one_handle rd + one_handle wr"
    by (cases rd; cases wr) (simp_all add: t_def own_handles_def ce)
  moreover have "fresh_stream ctx t"
    using assms(3) by (cases rd; cases wr) (simp_all add: fresh_stream_def t_def own_handles_def ce)
  moreover have "i \<notin> fst ` set L" using assms(2) i by (auto simp: extends_def)
  moreover have "next_id T0 \<le> i" using assms(2) i by (simp add: extends_def)
  moreover have "\<forall>(j, u) \<in> set L. next_id T0 \<le> j \<and> j < next_id T + 1 \<and> fresh_stream ctx u"
    using assms(2) by (force simp: extends_def)
  moreover note assms(2) [unfolded extends_def]
  ultimately have "extends ctx T0 ((i, t) # L) hs T'" unfolding extends_def T' by (simp add: i ac_simps)
  with \<open>mset (own_handles t) = _\<close> show ?thesis by blast
qed

lemma new_event_cases:
  assumes "new_event K call s = (h, s1)"
    and none: "h = None \<Longrightarrow> s1 = s \<Longrightarrow> R"
    and some: "h = Some (next_handle s) \<Longrightarrow> s1 = s\<lparr>next_handle := next_handle s + 1\<rparr> \<Longrightarrow> R"
  shows R
proof (cases "K call")
  case None
  then have "(h, s1) = (Some (next_handle s), s\<lparr>next_handle := next_handle s + 1\<rparr>)"
    unfolding assms(1) [symmetric] by (simp add: new_event_def)
  then show R using some by blast
next
  case (Some e)
  then have "(h, s1) = (None, s)" unfolding assms(1) [symmetric] by (simp add: new_event_def)
  then show R using none by blast
qed

lemma connect_fails:
  assumes "connect K q name rd wr s = (Some code, s1)" "ledger n (rq_context q) T s"
  shows "ledger n (rq_context q) T s1 \<and> vars s1 = vars s \<and> actions s1 = actions s"
proof (cases "K (StreamMemory name)")
  case None
  obtain cancel sa where a: "new_event K (CancelEvent name) s = (cancel, sa)" by (metis surj_pair)
  obtain event sb where b: "new_event K (PeekEvent name) sa = (event, sb)" by (metis surj_pair)
  obtain sid T' where new: "stream_new True cancel event (rq_context q) (Option.bind rd (vars s)) (Option.bind wr (vars s)) (sp_streams sb)
      = (sid, T')" by (metis surj_pair)
  have sid: "sid = None" and s1: "s1 = sb\<lparr>sp_streams := T'\<rparr>"
    using assms(1) None a b new by (auto simp: connect_def split: option.splits)
  obtain L hs where L: "n \<le> next_handle s" "extends (rq_context q) T L hs (sp_streams s)" "sp_ids s = rev (map fst L)"
    "made n (next_handle s) = mset (shut s) + mset (sp_pins s) + mset hs + slots_held (vars s) + stream_handles L"
    using assms(2) by (auto simp: ledger_def)
  have streams: "sp_streams sb = sp_streams s" "sp_ids sb = sp_ids s" "vars sb = vars s" "actions sb = actions s" "shut sb = shut s" "sp_pins sb = sp_pins s"
    using a b by (auto elim!: new_event_cases)
  have E: "extends (rq_context q) T L (hs @ List.map_filter id [cancel, event]) T'"
    using stream_new_fails [OF new [unfolded sid streams]] L(2) by simp
  have "made n (next_handle sb) = made n (next_handle s) + mset (List.map_filter id [cancel, event])"
    using a b L(1) by (auto elim!: new_event_cases simp: List.map_filter_def)
  with E L(1,3,4) streams a b show ?thesis
    by (auto simp: ledger_def s1 elim!: new_event_cases intro!: exI [of _ L] exI [of _ "hs @ List.map_filter id [cancel, event]"])
qed (use assms in \<open>auto simp: connect_def\<close>)
lemma ledger_streams: "ledger n ctx T s \<Longrightarrow> processes (sp_streams s) = processes T"
  by (auto simp: ledger_def extends_def)

text \<open>The ends of a stream: at least one of two different pipe ends of the host.\<close>

definition stream_ends :: "slot option \<Rightarrow> slot option \<Rightarrow> bool" where
  "stream_ends rd wr \<longleftrightarrow> set_option rd \<inter> set_option wr = {} \<and> set_option rd \<union> set_option wr \<subseteq> {HostIn, HostOut, HostErr}"

lemma connect_works:
  assumes "connect K q name rd wr s = (None, s1)" "ledger n (rq_context q) T s"
    and ends: "stream_ends rd wr" "set_option rd \<union> set_option wr \<subseteq> dom (vars s)"
  shows "ledger n (rq_context q) T s1 \<and> actions s1 = actions s \<and> same_attributes s1 s
    \<and> vars s1 = (\<lambda>v. if Some v = rd \<or> Some v = wr then None else vars s v)"
proof -
  have m: "K (StreamMemory name) = None" using assms(1) by (cases "K (StreamMemory name)") (simp_all add: connect_def)
  obtain cancel sa where a: "new_event K (CancelEvent name) s = (cancel, sa)" by (metis surj_pair)
  obtain event sb where b: "new_event K (PeekEvent name) sa = (event, sb)" by (metis surj_pair)
  obtain sid T' where new: "stream_new True cancel event (rq_context q) (Option.bind rd (vars s)) (Option.bind wr (vars s)) (sp_streams sb)
      = (sid, T')" by (metis surj_pair)
  obtain i where sid: "sid = Some i"
    and s1: "s1 = sb\<lparr>sp_streams := T', sp_ids := sp_ids sb @ [i],
      vars := (\<lambda>v. if Some v = rd \<or> Some v = wr then None else vars s v)\<rparr>"
    using assms(1) m a b new by (auto simp: connect_def split: option.splits)
  have streams: "sp_streams sb = sp_streams s" "sp_ids sb = sp_ids s" "actions sb = actions s" "shut sb = shut s" "sp_pins sb = sp_pins s"
    using a b by (auto elim!: new_event_cases)
  have attributes: "same_attributes sb s" using a b by (auto elim!: new_event_cases simp: same_attributes_def)
  obtain c e where ce: "cancel = Some c" "event = Some e"
    using new unfolding sid by (cases cancel; cases event) (auto simp: stream_new_def split: if_splits prod.splits)
  have count: "c = next_handle s" "e = next_handle s + 1" "next_handle sb = next_handle s + 2"
    using a b by (auto elim!: new_event_cases simp: ce)
  have own: "distinct (map the (filter (\<lambda>h. h \<noteq> None) [cancel, event, Option.bind rd (vars s), Option.bind wr (vars s)]))"
  proof -
    have below: "h < next_handle s" if "Option.bind x (vars s) = Some h" for x h
      using that ledger_vars(1) [OF assms(2)] by (cases x) auto
    have apart: False if r: "Option.bind rd (vars s) = Some h" and w: "Option.bind wr (vars s) = Some h" for h
    proof -
      from r w obtain v u where "rd = Some v" "wr = Some u" "vars s v = Some h" "vars s u = Some h"
        by (auto simp: Option.bind_eq_Some_conv)
      with ends(1) ledger_vars(2) [OF assms(2), of v h u] show False by (auto simp: stream_ends_def)
    qed
    show ?thesis
      using below [of rd] below [of wr] apart
      by (cases "Option.bind rd (vars s)"; cases "Option.bind wr (vars s)") (fastforce simp: ce count)+
  qed
  obtain L hs where L: "n \<le> next_handle s" "extends (rq_context q) T L hs (sp_streams s)" "sp_ids s = rev (map fst L)"
    "made n (next_handle s) = mset (shut s) + mset (sp_pins s) + mset hs + slots_held (vars s) + stream_handles L"
    using assms(2) by (auto simp: ledger_def)
  obtain t where t: "extends (rq_context q) T ((i, t) # L) hs T'"
    "mset (own_handles t) = {#c#} + {#e#} + one_handle (Option.bind rd (vars s)) + one_handle (Option.bind wr (vars s))"
    using stream_new_works [OF new [unfolded sid streams] L(2) own] by (auto simp: ce)
  have "slots_held (vars s) = one_handle (Option.bind rd (vars s)) + one_handle (Option.bind wr (vars s))
      + slots_held (\<lambda>v. if Some v = rd \<or> Some v = wr then None else vars s v)"
  proof -
    let ?g = "\<lambda>v. if Some v = rd then None else vars s v"
    have "Option.bind wr ?g = Option.bind wr (vars s)" using ends(1) by (cases wr; cases rd) (auto simp: stream_ends_def)
    moreover have "(\<lambda>v. if Some v = wr then None else ?g v) = (\<lambda>v. if Some v = rd \<or> Some v = wr then None else vars s v)" by auto
    ultimately show ?thesis using held_clear [of "vars s" rd] held_clear [of ?g wr] by simp
  qed
  with L t count have "made n (next_handle sb) = mset (shut s) + mset (sp_pins s) + mset hs
      + slots_held (\<lambda>v. if Some v = rd \<or> Some v = wr then None else vars s v) + stream_handles ((i, t) # L)"
    by (simp add: stream_handles_def)
  with t L streams count attributes show ?thesis
    by (auto simp: ledger_def s1 same_attributes_def intro!: exI [of _ "(i, t) # L"] exI [of _ hs])
qed
text \<open>Before the process is made, after it, and where a failure is met.\<close>

definition before :: "nat \<Rightarrow> request \<Rightarrow> stream_tables \<Rightarrow> slot set \<Rightarrow> win_call set \<Rightarrow> spawn \<Rightarrow> bool" where
  "before n q T V A s \<longleftrightarrow> ledger n (rq_context q) T s \<and> dom (vars s) = V \<and> actions s = [] \<and> configured q A s"

definition attribute_calls :: "request \<Rightarrow> win_call set" where
  "attribute_calls q = {SetSecurity, SetPackages, SetHandles} \<union> (if rq_pty q then {SetConsole} else {})"

definition after :: "nat \<Rightarrow> request \<Rightarrow> stream_tables \<Rightarrow> slot set \<Rightarrow> action list \<Rightarrow> spawn \<Rightarrow> bool" where
  "after n q T V as s \<longleftrightarrow> ledger n (rq_context q) T s \<and> dom (vars s) = V \<and> actions s = Create (creation_of q s) # as
     \<and> configured q (attribute_calls q) s"

definition stopped :: "nat \<Rightarrow> int \<Rightarrow> stream_tables \<Rightarrow> spawn \<Rightarrow> bool" where
  "stopped n ctx T s \<longleftrightarrow> ledger n ctx T s \<and> Resume \<notin> set (actions s)
     \<and> ((\<exists>c. Create c \<in> set (actions s)) \<longrightarrow> vars s ProcessHandle \<noteq> None)"

abbreviation stops :: "nat \<Rightarrow> request \<Rightarrow> stream_tables \<Rightarrow> spawn \<Rightarrow> bool" where
  "stops n q T \<equiv> stopped n (rq_context q) T"

lemma before_stopped: "before n q T V A s \<Longrightarrow> stops n q T s"
  by (simp add: before_def stopped_def)

lemma after_stopped: "after n q T V as s \<Longrightarrow> Resume \<notin> set as \<Longrightarrow> ProcessHandle \<in> V \<Longrightarrow> stops n q T s"
  by (auto simp: after_def stopped_def dom_def)

lemma before_new_handle: "before n q T V A s \<Longrightarrow> v \<notin> V \<Longrightarrow> before n q T (insert v V) A (new_handle v s)"
  by (auto simp: before_def intro!: ledger_new_handle configured_new_handle)

lemma spec_check_size: "spec (stops n q T) (before n q T V A) (check_size q') (before n q T V A)"
  by (simp add: spec_def check_size_def before_stopped)

lemma spec_only_call: "spec (stops n q T) (before n q T V A) (only_call K call) (before n q T V A)"
  by (simp add: spec_def only_call_def before_stopped split: option.splits)

lemma spec_open_object:
  "v \<notin> V \<Longrightarrow> spec (stops n q T) (before n q T V A) (open_object K call v) (before n q T (insert v V) A)"
  by (auto simp: spec_def open_object_def before_stopped intro!: before_new_handle split: option.splits)

lemma ledger_shut_one: "ledger n ctx T s \<Longrightarrow>
  ledger n ctx T (s\<lparr>next_handle := Suc (next_handle s), shut := shut s @ [next_handle s]\<rparr>)"
  by (auto simp: ledger_def intro!: exI)

lemma before_shut_one: "before n q T V A s \<Longrightarrow>
  stops n q T (s\<lparr>next_handle := Suc (next_handle s), shut := shut s @ [next_handle s]\<rparr>)"
  using ledger_shut_one [of n "rq_context q" T s] by (simp add: before_def stopped_def)

lemma spec_pipe_pair:
  assumes "host \<notin> V" "child \<notin> V" "host \<noteq> child"
  shows "spec (stops n q T) (before n q T V A) (pipe_pair K host child) (before n q T (insert child (insert host V)) A)"
  using assms by (auto simp: spec_def pipe_pair_def before_stopped before_shut_one intro!: before_new_handle split: option.splits)

lemma spec_new_job: "Job \<notin> V \<Longrightarrow> spec (stops n q T) (before n q T V A) (new_job K) (before n q T (insert Job V) A)"
  by (auto simp: spec_def new_job_def before_stopped before_shut_one intro!: before_new_handle split: option.splits)

lemma spec_set_security: "spec (stops n q T) (before n q T V A) (set_security K q) (before n q T V (insert SetSecurity A))"
  by (auto simp: spec_def set_security_def before_stopped before_def configured_def stopped_def split: option.splits)

lemma spec_set_packages: "spec (stops n q T) (before n q T V A) (set_packages K) (before n q T V (insert SetPackages A))"
  by (auto simp: spec_def set_packages_def before_stopped before_def configured_def stopped_def split: option.splits)

lemma spec_set_console:
  "Console \<in> V \<Longrightarrow> spec (stops n q T) (before n q T V A) (set_console K) (before n q T V (insert SetConsole A))"
  by (auto simp: spec_def set_console_def before_stopped before_def configured_def stopped_def split: option.splits)

lemma spec_set_handles:
  "set (inherited_slots q) \<subseteq> V \<Longrightarrow> spec (stops n q T) (before n q T V A) (set_handles K q) (before n q T V (insert SetHandles A))"
  by (auto simp: spec_def set_handles_def before_stopped before_def configured_def stopped_def split: option.splits)

section \<open>The pins and the ledger\<close>

lemma before_pin: "before n q T V A s \<Longrightarrow>
  before n q T V A (s\<lparr>next_handle := Suc (next_handle s), sp_pins := next_handle s # sp_pins s\<rparr>)"
proof -
  assume "before n q T V A s"
  moreover from this have "ledger n (rq_context q) T (s\<lparr>next_handle := Suc (next_handle s), sp_pins := next_handle s # sp_pins s\<rparr>)"
    by (auto simp: before_def ledger_def intro!: exI)
  moreover have "configured q A (s\<lparr>next_handle := Suc (next_handle s), sp_pins := next_handle s # sp_pins s\<rparr>) = configured q A s"
    by (simp add: configured_def)
  ultimately show ?thesis by (simp add: before_def)
qed

lemma spec_take_pin: "spec (stops n q T) (before n q T V A) (take_pin x) (before n q T V A)"
  by (auto simp: spec_def take_pin_def before_stopped before_shut_one before_pin split: pin_outcome.splits)

lemma spec_pins: "spec (stops n q T) (before n q T V A) (run_steps (map take_pin xs)) (before n q T V A)"
proof (induction xs)
  case (Cons x xs)
  show ?case unfolding list.map by (rule spec_Cons [OF spec_take_pin Cons.IH])
qed (simp only: list.map spec_Nil)

lemma pins_all_taken: "fst (run_steps (map take_pin xs) s) = None \<longleftrightarrow> list_all (\<lambda>x. x = Pinned) xs"
  by (induction xs arbitrary: s) (auto simp: take_pin_def split: pin_outcome.splits)

lemma before_no_spawn: "before n q T {} {} (no_spawn n T)"
  using ledger_initial [of n "rq_context q" T] by (simp add: before_def no_spawn_def configured_def)

section \<open>The other steps\<close>

lemma ledger_next_id:
  "ledger n ctx T s \<Longrightarrow> next_id (sp_streams s) \<le> m \<Longrightarrow> ledger n ctx T (s\<lparr>sp_streams := (sp_streams s)\<lparr>next_id := m\<rparr>, sp_id := i\<rparr>)"
  unfolding ledger_def extends_def by fastforce

lemma spec_draw_id: "spec (stops n q T) (before n q T V A) draw_id (before n q T V A)"
  unfolding spec_def
proof (intro allI impI)
  fix s assume s: "before n q T V A s"
  have "s\<lparr>sp_streams := sp_streams s\<rparr> = s" by simp
  moreover have "ledger n (rq_context q) T (s\<lparr>sp_streams := (sp_streams s)\<lparr>next_id := next_id (sp_streams s) + 1\<rparr>, sp_id := i\<rparr>)" for i
    using s by (intro ledger_next_id) (simp_all add: before_def)
  moreover have "ledger n (rq_context q) T (s\<lparr>sp_streams := (sp_streams s)\<lparr>next_id := next_id (sp_streams s) + 1\<rparr>\<rparr>)"
    using s ledger_next_id [of n "rq_context q" T s "next_id (sp_streams s) + 1" "sp_id s"] by (simp add: before_def)
  ultimately show "case draw_id s of (None, s1) \<Rightarrow> before n q T V A s1 | (Some e, s1) \<Rightarrow> stops n q T s1"
    using s by (auto simp: draw_id_def allocate_id_def before_def stopped_def configured_def)
qed

lemma creation_of_cong:
  "same_attributes s1 s \<Longrightarrow> \<forall>v. v \<notin> {ProcessHandle, ThreadHandle, HostIn, HostOut, HostErr} \<longrightarrow> vars s1 v = vars s v
    \<Longrightarrow> creation_of q s1 = creation_of q s"
  by (simp add: creation_of_def same_attributes_def)

lemma same_attributes_refl [simp]: "same_attributes s s" "same_attributes (s\<lparr>actions := x\<rparr>) t = same_attributes s t"
  by (simp_all add: same_attributes_def)

lemma spec_create:
  assumes "ProcessHandle \<notin> V" "ThreadHandle \<notin> V"
  shows "spec (stops n q T) (before n q T V (attribute_calls q)) (create_process K q)
     (after n q T ({ThreadHandle, ProcessHandle} \<union> V) [])"
  unfolding spec_def
proof (intro allI impI)
  fix s assume s: "before n q T V (attribute_calls q) s"
  let ?n = "new_handle ThreadHandle (new_handle ProcessHandle s)"
  let ?s = "?n\<lparr>actions := actions s @ [Create (creation_of q s)]\<rparr>"
  have "ledger n (rq_context q) T ?n"
    using s assms by (auto simp: before_def intro!: ledger_new_handle)
  moreover have "creation_of q ?s = creation_of q s" by (rule creation_of_cong) simp_all
  moreover have "configured q (attribute_calls q) ?s"
    by (rule configured_cong [of q _ s]) (use s in \<open>simp_all add: before_def\<close>)
  ultimately have "after n q T ({ThreadHandle, ProcessHandle} \<union> V) [] ?s" using s by (auto simp: after_def before_def)
  with s show "case create_process K q s of (None, s1) \<Rightarrow> after n q T ({ThreadHandle, ProcessHandle} \<union> V) [] s1
      | (Some e, s1) \<Rightarrow> stops n q T s1"
    by (simp add: create_process_def before_stopped split: option.splits)
qed

lemma spec_act:
  assumes "Resume \<notin> set as" "ProcessHandle \<in> V"
  shows "spec (stops n q T) (after n q T V as) (act K call a) (after n q T V (as @ [a]))"
proof -
  have "creation_of q (s\<lparr>actions := x\<rparr>) = creation_of q s" "configured q A (s\<lparr>actions := x\<rparr>) = configured q A s" for s x A
    by (simp_all add: creation_of_def configured_def)
  then show ?thesis using assms after_stopped by (auto simp: spec_def act_def after_def split: option.splits)
qed

lemma spec_connect:
  assumes "Resume \<notin> set as" "ProcessHandle \<in> V" "stream_ends rd wr" "set_option rd \<union> set_option wr \<subseteq> V"
  shows "spec (stops n q T) (after n q T V as) (connect K q name rd wr)
    (after n q T (V - (set_option rd \<union> set_option wr)) as)"
  unfolding spec_def
proof (intro allI impI)
  fix s assume s: "after n q T V as s"
  obtain r s1 where c: "connect K q name rd wr s = (r, s1)" by (metis surj_pair)
  show "case connect K q name rd wr s of (None, s1) \<Rightarrow> after n q T (V - (set_option rd \<union> set_option wr)) as s1
      | (Some e, s1) \<Rightarrow> stops n q T s1"
  proof (cases r)
    case None
    have w: "ledger n (rq_context q) T s1" "actions s1 = actions s" "same_attributes s1 s"
      "vars s1 = (\<lambda>v. if Some v = rd \<or> Some v = wr then None else vars s v)"
      using connect_works [OF c [unfolded None]] s assms(3,4) by (auto simp: after_def)
    have "dom (vars s1) = V - (set_option rd \<union> set_option wr)"
      using s by (cases rd; cases wr) (auto simp: w(4) after_def split: if_splits)
    moreover have v: "\<forall>v. v \<notin> {ProcessHandle, ThreadHandle, HostIn, HostOut, HostErr} \<longrightarrow> vars s1 v = vars s v"
      using assms(3) by (cases rd; cases wr; auto simp: w(4) stream_ends_def)
    moreover have "creation_of q s1 = creation_of q s" by (rule creation_of_cong [OF w(3) v])
    moreover have "configured q (attribute_calls q) s1"
      by (rule configured_cong [OF _ w(3) v]) (use s in \<open>simp add: after_def\<close>)
    ultimately show ?thesis using c None s w by (simp add: after_def)
  next
    case (Some e)
    from connect_fails [OF c [unfolded Some]] s after_stopped [OF s assms(1,2)] c Some show ?thesis
      by (auto simp: stopped_def after_def)
  qed
qed

section \<open>A whole spawn\<close>

definition prepared :: "request \<Rightarrow> slot set" where
  "prepared q = {HostIn, ChildIn, HostOut, ChildOut, StationCopy, DesktopCopy, Job}
     \<union> (if rq_pty q then {Console} else if rq_merge q then {} else {HostErr, ChildErr})"

definition left_over :: "request \<Rightarrow> slot set" where
  "left_over q = {ThreadHandle, ProcessHandle} \<union> (prepared q - {HostIn, HostOut, HostErr})"

lemmas prepare_specs = spec_check_size spec_only_call spec_open_object spec_pipe_pair spec_new_job spec_draw_id
  spec_set_security spec_set_packages spec_set_console spec_set_handles

lemma spec_prepare: "spec (stops n q T) (before n q T {} {}) (run_steps (prepare_steps K q)) (before n q T (prepared q) (attribute_calls q))"
proof -
  consider "rq_pty q" | "\<not> rq_pty q" "rq_merge q" | "\<not> rq_pty q" "\<not> rq_merge q" by blast
  then show ?thesis
  proof cases
    case 1
    then show ?thesis unfolding prepare_steps_def
      by simp ((rule spec_Cons, (rule prepare_specs; simp add: inherited_slots_def))+, rule spec_end,
        rule arg_cong2 [of _ _ _ _ "before n q T"], auto simp: prepared_def attribute_calls_def)
  next
    case 2
    then show ?thesis unfolding prepare_steps_def
      by simp ((rule spec_Cons, (rule prepare_specs; simp add: inherited_slots_def))+, rule spec_end,
        rule arg_cong2 [of _ _ _ _ "before n q T"], auto simp: prepared_def attribute_calls_def)
  next
    case 3
    then show ?thesis unfolding prepare_steps_def
      by simp ((rule spec_Cons, (rule prepare_specs; simp add: inherited_slots_def))+, rule spec_end,
        rule arg_cong2 [of _ _ _ _ "before n q T"], auto simp: prepared_def attribute_calls_def)
  qed
qed

lemma spec_connects:
  assumes "Resume \<notin> set as"
  shows "spec (stops n q T) (after n q T ({ThreadHandle, ProcessHandle} \<union> prepared q) as)
    (run_steps (connect_steps K q)) (after n q T (left_over q) as)"
proof -
  consider "rq_pty q" | "\<not> rq_pty q" "rq_merge q" | "\<not> rq_pty q" "\<not> rq_merge q" by blast
  then show ?thesis
  proof cases
    case 1
    then show ?thesis using assms unfolding connect_steps_def
      by simp ((rule spec_Cons, (rule spec_connect; simp add: prepared_def stream_ends_def))+, rule spec_end,
        rule arg_cong [of _ _ "\<lambda>V. after n q T V as"], auto simp: prepared_def left_over_def)
  next
    case 2
    then show ?thesis using assms unfolding connect_steps_def
      by simp ((rule spec_Cons, (rule spec_connect; simp add: prepared_def stream_ends_def))+, rule spec_end,
        rule arg_cong [of _ _ "\<lambda>V. after n q T V as"], auto simp: prepared_def left_over_def)
  next
    case 3
    then show ?thesis using assms unfolding connect_steps_def
      by simp ((rule spec_Cons, (rule spec_connect; simp add: prepared_def stream_ends_def))+, rule spec_end,
        rule arg_cong [of _ _ "\<lambda>V. after n q T V as"], auto simp: prepared_def left_over_def)
  qed
qed

lemma spec_spawn:
  "spec (stops n q T) (before n q T {} {}) (run_steps (spawn_steps K q))
     (after n q T (left_over q) [EnterContextJob, EnterOwnJob, Resume])"
proof -
  have p: "ProcessHandle \<notin> prepared q" "ThreadHandle \<notin> prepared q" by (simp_all add: prepared_def)
  have jobs: "spec (stops n q T) (before n q T (prepared q) (attribute_calls q))
      (run_steps [create_process K q, act K JoinContextJob EnterContextJob, act K JoinOwnJob EnterOwnJob])
      (after n q T ({ThreadHandle, ProcessHandle} \<union> prepared q) [EnterContextJob, EnterOwnJob])"
    using spec_create [OF p]
      spec_act [of "[]" "{ThreadHandle, ProcessHandle} \<union> prepared q" n q T K JoinContextJob EnterContextJob]
      spec_act [of "[EnterContextJob]" "{ThreadHandle, ProcessHandle} \<union> prepared q" n q T K JoinOwnJob EnterOwnJob]
    by (auto intro!: spec_Cons spec_Nil)
  have resumed: "spec (stops n q T) (after n q T (left_over q) [EnterContextJob, EnterOwnJob])
      (run_steps [act K ResumeMain Resume]) (after n q T (left_over q) [EnterContextJob, EnterOwnJob, Resume])"
    using spec_act [of "[EnterContextJob, EnterOwnJob]" "left_over q" n q T K ResumeMain Resume]
    by (auto intro!: spec_Cons spec_Nil simp: left_over_def)
  show ?thesis unfolding spawn_steps_def
    by (rule spec_append [OF spec_prepare spec_append [OF jobs spec_append [OF spec_connects resumed]]]) simp
qed
section \<open>The way out of a failure\<close>

lemma close_fresh:
  assumes E: "table T' = i # map fst L @ table T" "memory T' = memory T ++ map_of ((i, t) # L)"
    "live_streams T' = (live_streams T)(ctx := live_streams T ctx + 1 + int (length L))"
    and t: "fresh_stream ctx t"
  shows "\<exists>hs. mset hs = mset (own_handles t) \<and> stream_close_locked i T' =
    T'\<lparr>table := map fst L @ table T, memory := (memory T')(i := None),
       live_streams := (live_streams T)(ctx := live_streams T ctx + int (length L)), closed_handles := closed_handles T' @ hs\<rparr>"
proof -
  have m: "memory T' i = Some t" by (simp add: E(2))
  have d: "distinct (own_handles t)" "s_refs t = 1" "s_process t = 0" "s_context t = ctx" using t by (simp_all add: fresh_stream_def)
  define hs where "hs = List.map_filter id [s_read t, if s_write t \<noteq> s_read t then s_write t else None, s_event t, Some (s_cancel t)]"
  have "mset hs = mset (own_handles t)"
    using d(1) by (cases "s_read t"; cases "s_write t"; cases "s_event t") (auto simp: hs_def own_handles_def List.map_filter_def)
  moreover have "stream_close_locked i T' =
    T'\<lparr>table := map fst L @ table T, memory := (memory T')(i := None),
       live_streams := (live_streams T)(ctx := live_streams T ctx + int (length L)), closed_handles := closed_handles T' @ hs\<rparr>"
    using d E(1,3)
    by (cases "s_read t"; cases "s_write t"; cases "s_event t")
      (auto simp: stream_close_locked_def m drop_reference_def stream_dispose_def adopts_def set_stream_def close_handle_def hs_def
        List.map_filter_def Let_def)
  ultimately show ?thesis by blast
qed

lemma close_all_fresh:
  assumes "extends ctx T L hs T'" "ids_below T"
  shows "\<exists>more. extends ctx T [] (hs @ more) (fold stream_close_locked (map fst L) T') \<and> mset more = stream_handles L"
  using assms(1)
proof (induction L arbitrary: T' hs)
  case Nil
  then show ?case by (auto simp: stream_handles_def)
next
  case (Cons x L)
  obtain i t where x: "x = (i, t)" by (metis surj_pair)
  from Cons.prems have E: "table T' = i # map fst L @ table T" "memory T' = memory T ++ map_of ((i, t) # L)"
    "live_streams T' = (live_streams T)(ctx := live_streams T ctx + 1 + int (length L))" "fresh_stream ctx t"
    by (auto simp: extends_def x)
  from close_fresh [OF E] obtain gs where gs: "mset gs = mset (own_handles t)" "stream_close_locked i T' =
    T'\<lparr>table := map fst L @ table T, memory := (memory T')(i := None),
       live_streams := (live_streams T)(ctx := live_streams T ctx + int (length L)), closed_handles := closed_handles T' @ gs\<rparr>"
    by blast
  have "next_id T \<le> i" and i2: "i \<notin> fst ` set L" using Cons.prems by (simp_all add: extends_def x)
  with assms(2) have i: "memory T i = None" by (metis UnI1 domIff ids_below_def leD)
  then have "(memory T')(i := None) = memory T ++ map_of L"
    using i2 by (auto simp: E(2) map_add_def map_of_eq_None_iff fun_eq_iff split: option.splits)
  with Cons.prems have "extends ctx T L (hs @ gs) (stream_close_locked i T')"
    unfolding gs(2) extends_def by (auto simp: x)
  from Cons.IH [OF this] obtain more where "extends ctx T [] ((hs @ gs) @ more) (fold stream_close_locked (map fst L) (stream_close_locked i T'))"
    "mset more = stream_handles L" by blast
  with gs(1) show ?case by (intro exI [of _ "gs @ more"]) (simp add: x stream_handles_def)
qed

lemma undo_ledger:
  assumes "ledger n ctx T s" "ids_below T"
  shows "\<exists>hs. extends ctx T [] hs (sp_streams (undo s))
    \<and> made n (next_handle s) = mset (shut s) + mset (sp_pins s) + mset hs + slots_held (vars s)"
proof -
  obtain L hs where L: "extends ctx T L hs (sp_streams s)" "sp_ids s = rev (map fst L)"
    "made n (next_handle s) = mset (shut s) + mset (sp_pins s) + mset hs + slots_held (vars s) + stream_handles L"
    using assms(1) by (auto simp: ledger_def)
  have "filter (\<lambda>i. i \<in> fst ` set L) (table T) = []"
    unfolding filter_empty_conv
  proof (intro ballI notI)
    fix i assume i: "i \<in> set (table T)" "i \<in> fst ` set L"
    from i(1) assms(2) have "i < next_id T" by (simp add: ids_below_def)
    moreover from i(2) L(1) have "next_id T \<le> i" by (auto simp: extends_def)
    ultimately show False by simp
  qed
  then have "filter (\<lambda>i. i \<in> set (sp_ids s)) (table (sp_streams s)) = map fst L"
    using L(1) by (simp add: L(2) extends_def)
  moreover obtain more where "extends ctx T [] (hs @ more) (fold stream_close_locked (map fst L) (sp_streams s))"
    "mset more = stream_handles L" using close_all_fresh [OF L(1) assms(2)] by blast
  ultimately show ?thesis using L(3) by (intro exI [of _ "hs @ more"]) (simp add: undo_def ac_simps)
qed
lemma shut_all_simps [simp]:
  "vars (shut_all s) = (\<lambda>_. None)" "actions (shut_all s) = actions s" "sp_streams (shut_all s) = sp_streams s"
  "next_handle (shut_all s) = next_handle s" "mset (shut (shut_all s)) = mset (shut s) + slots_held (vars s)"
  "sp_pins (shut_all s) = sp_pins s" "sp_id (shut_all s) = sp_id s"
  by (simp_all add: shut_all_def held_closing)

lemma unpin_launch_simps [simp]:
  "vars (unpin_launch s) = vars s" "actions (unpin_launch s) = actions s" "sp_streams (unpin_launch s) = sp_streams s"
  "next_handle (unpin_launch s) = next_handle s" "mset (shut (unpin_launch s)) = mset (shut s) + mset (sp_pins s)"
  "sp_pins (unpin_launch s) = []" "sp_id (unpin_launch s) = sp_id s" "set (shut (unpin_launch s)) = set (shut s) \<union> set (sp_pins s)"
  by (simp_all add: unpin_launch_def)

lemma extends_nothing:
  assumes "extends ctx T [] hs T'"
  shows "table T' = table T" "memory T' = memory T" "live_streams T' = live_streams T" "processes T' = processes T"
    "closed_handles T' = closed_handles T @ hs"
  using assms by (simp_all add: extends_def)

lemma spawn_cases:
  assumes "before n q T {} {} s0"
  obtains (failed) code s where "run_steps (spawn_steps K q) s0 = (Some code, s)" "stops n q T s"
  | (works) s where "run_steps (spawn_steps K q) s0 = (None, s)"
      "after n q T (left_over q) [EnterContextJob, EnterOwnJob, Resume] s"
proof -
  from assms spec_spawn [of n q T K] have "case run_steps (spawn_steps K q) s0 of
      (None, s) \<Rightarrow> after n q T (left_over q) [EnterContextJob, EnterOwnJob, Resume] s
    | (Some code, s) \<Rightarrow> stops n q T s" by (simp add: spec_def)
  then show thesis using that by (auto split: prod.splits option.splits)
qed

text \<open>A spawn as a whole: refused, failed at a pin, or with its pins.\<close>

lemma whole_spawn_cases:
  assumes "visjail_spawn W K contexts refusal signalled pid argv_blob argv_len env_blob env_len cwd profile flags rows cols
      proxy_port inbound_port (no_spawn n T) P = (r, results, s, P')"
  obtains (refused) "(r, results, s, P') = (failure refusal, [0, -1, -1, -1], no_spawn n T, P)"
  | (unpinned) ctx code s1 where "stopped n ctx T s1"
      "(r, results, s, P') = (failure code, [0, -1, -1, -1], unpin_launch (shut_all (undo s1)), P)"
  | (pinned) q s1 s2 where "before n q T {} {} s1" "start_process K q pid s1 (reclaim signalled P) = (r, results, s2, P')"
      "s = unpin_launch s2" "rq_pty q = (flags AND int VISJAIL_PTY \<noteq> 0)" "rq_merge q = (flags AND int VISJAIL_MERGE_STDERR \<noteq> 0)"
      "context_of_profile profile = Some (rq_context q)"
      "prepare_launch W contexts argv_blob argv_len env_blob env_len cwd profile flags proxy_port inbound_port = Some (rq_launch q)"
proof -
  let ?a = "admit_launch W contexts argv_blob argv_len env_blob env_len cwd profile flags proxy_port inbound_port"
  show thesis
  proof (cases "?a = None \<or> context_of_profile profile = None")
    case True
    with assms have "(r, results, s, P') = (failure refusal, [0, -1, -1, -1], no_spawn n T, P)"
      by (auto simp: visjail_spawn_def split: option.splits)
    then show ?thesis by (rule refused)
  next
    case False
    then obtain c l number where a: "?a = Some (c, l)" "context_of_profile profile = Some number" by auto
    let ?q = "\<lparr>rq_pty = flags AND int VISJAIL_PTY \<noteq> 0, rq_merge = flags AND int VISJAIL_MERGE_STDERR \<noteq> 0, rq_rows = rows,
      rq_cols = cols, rq_context = number, rq_launch = l\<rparr>"
    obtain e s1 where run: "run_steps (pin_steps W c l) (no_spawn n T) = (e, s1)" by (metis surj_pair)
    have spec: "case run_steps (pin_steps W c l) (no_spawn n T) of (None, s1) \<Rightarrow> before n ?q T {} {} s1 | (Some _, s1) \<Rightarrow> stops n ?q T s1"
      unfolding pin_steps_def by (rule spec_pins [unfolded spec_def, rule_format, OF before_no_spawn])
    show ?thesis
    proof (cases e)
      case (Some code)
      with spec run have "stopped n number T s1" by simp
      moreover have "(r, results, s, P') = (failure code, [0, -1, -1, -1], unpin_launch (shut_all (undo s1)), P)"
        using assms a run Some by (simp add: visjail_spawn_def)
      ultimately show ?thesis by (rule unpinned)
    next
      case None
      have "prepare_launch W contexts argv_blob argv_len env_blob env_len cwd profile flags proxy_port inbound_port = Some l"
        using a pins_all_taken [of "pin_outcomes W (launch_pins c (l_program l) (l_directory l))" "no_spawn n T"] run None
        by (simp add: prepare_launch_def launch_pinned_def pin_steps_def)
      moreover obtain s2 where "start_process K ?q pid s1 (reclaim signalled P) = (r, results, s2, P')" "s = unpin_launch s2"
        using assms a run None by (auto simp: visjail_spawn_def split: prod.splits)
      ultimately show ?thesis using pinned [of ?q s1 s2] spec run None a(2) by simp
    qed
  qed
qed

lemma way_out_of_failure:
  assumes "stopped n ctx T s1" "ids_below T" and s: "s = unpin_launch (shut_all (undo s1))"
  shows "vars s = (\<lambda>_. None) \<and> sp_pins s = []
    \<and> table (sp_streams s) = table T \<and> memory (sp_streams s) = memory T \<and> live_streams (sp_streams s) = live_streams T
    \<and> (\<exists>hs. closed_handles (sp_streams s) = closed_handles T @ hs \<and> mset (shut s) + mset hs = made n (next_handle s))
    \<and> Resume \<notin> set (actions s) \<and> ((\<exists>c. Create c \<in> set (actions s)) \<longrightarrow> Terminate \<in> set (actions s))"
proof -
  obtain hs where hs: "extends ctx T [] hs (sp_streams (undo s1))"
    "made n (next_handle s1) = mset (shut s1) + mset (sp_pins s1) + mset hs + slots_held (vars s1)"
    using undo_ledger [OF _ assms(2), of n ctx s1] assms(1) unfolding stopped_def by blast
  have undone: "vars (undo s1) = vars s1" "next_handle (undo s1) = next_handle s1" "shut (undo s1) = shut s1"
    "sp_pins (undo s1) = sp_pins s1" by (simp_all add: undo_def)
  have "Resume \<notin> set (actions s) \<and> ((\<exists>c. Create c \<in> set (actions s)) \<longrightarrow> Terminate \<in> set (actions s))"
    using assms(1) by (auto simp: s undo_def stopped_def)
  with hs extends_nothing [OF hs(1)] s undone show ?thesis by (auto simp: ac_simps intro!: exI [of _ hs])
qed

text \<open>C21: A spawn of a confined Windows program that fails leaves nothing.  Whichever check, pin or call fails, the
  streams are as before and so are the process records, except that completed ones may have been reclaimed; no
  variable and no pin of the launch is left, every handle the kernel gave is closed once, by the spawn or with a
  stream it had made, and a process that had been made is terminated without having run.\<close>

theorem failed_spawn_leaves_nothing:
  assumes "tables_inv (T, H)"
    and "visjail_spawn W K contexts refusal signalled pid argv_blob argv_len env_blob env_len cwd profile flags rows cols
      proxy_port inbound_port (no_spawn n T) P = (r, results, s, P')" "r \<noteq> 0"
  shows "P' \<in> {P, reclaim signalled P} \<and> results = [0, -1, -1, -1] \<and> vars s = (\<lambda>_. None) \<and> sp_pins s = []
    \<and> table (sp_streams s) = table T \<and> memory (sp_streams s) = memory T \<and> live_streams (sp_streams s) = live_streams T
    \<and> (\<exists>hs. closed_handles (sp_streams s) = closed_handles T @ hs \<and> mset (shut s) + mset hs = made n (next_handle s))
    \<and> Resume \<notin> set (actions s) \<and> ((\<exists>c. Create c \<in> set (actions s)) \<longrightarrow> Terminate \<in> set (actions s))"
proof -
  have T: "ids_below T" by (rule tables_inv_below [OF assms(1)])
  from assms(2) show ?thesis
  proof (cases rule: whole_spawn_cases)
    case refused
    then show ?thesis by (simp add: no_spawn_def)
  next
    case (unpinned ctx code s1)
    from way_out_of_failure [OF unpinned(1) T, of s] unpinned(2) show ?thesis by simp
  next
    case (pinned q s1 s2)
    from pinned(1) show ?thesis
    proof (cases rule: spawn_cases [where K = K])
      case (failed code s3)
      then have "(r, results, s2, P') = (failure code, [0, -1, -1, -1], shut_all (undo s3), reclaim signalled P)"
        using pinned(2) by (simp add: start_process_def)
      with way_out_of_failure [OF failed(2) T, of s] pinned(3) show ?thesis by simp
    next
      case (works s3)
      then show ?thesis using pinned(2) assms(3) by (simp add: start_process_def hand_over_process_def)
    qed
  qed
qed

text \<open>The handles in the stream tables once a process was handed over.\<close>

lemma handed_over_handles:
  assumes "extends ctx T L hs (sp_streams s)" "hand_over_process q pid s P = (s2, P2)"
  shows "all_handles (sp_streams s2) \<subseteq> all_handles T \<union> set hs \<union> set_mset (stream_handles L)"
proof -
  let ?T = "sp_streams s"
  have old: "handles_of t \<subseteq> all_handles T \<union> set_mset (stream_handles L)" if "memory ?T i = Some t" for i t
  proof (cases "map_of L i")
    case None
    with that assms(1) have "memory T i = Some t" by (auto simp: extends_def map_add_def)
    then show ?thesis by (auto simp: all_handles_def ran_def)
  next
    case (Some u)
    with that assms(1) have "(i, t) \<in> set L" by (auto simp: extends_def map_add_def dest: map_of_SomeD)
    then have "set_mset (mset (own_handles t)) \<subseteq> set_mset (stream_handles L)"
      by (induction L) (auto simp: stream_handles_def)
    then show ?thesis by (simp add: set_own_handles) blast
  qed
  have "handles_of t \<subseteq> all_handles T \<union> set_mset (stream_handles L)" if t: "memory (sp_streams s2) i = Some t" for i t
  proof -
    obtain u where "memory ?T i = Some u" "handles_of t = handles_of u"
      using t assms(2) by (auto simp: hand_over_process_def set_stream_def handles_of_def split: if_splits)
    with old show ?thesis by simp
  qed
  moreover have "closed_handles (sp_streams s2) = closed_handles T @ hs"
    using assms by (auto simp: hand_over_process_def set_stream_def extends_def)
  moreover have "set_option (p_output p) \<union> set_option (p_output_event p) \<subseteq> all_handles T" if "processes (sp_streams s2) i = Some p" for i p
  proof -
    from that assms have "processes T i = Some p \<or> p_output p = None \<and> p_output_event p = None"
      by (auto simp: hand_over_process_def set_stream_def extends_def split: if_splits)
    then show ?thesis by (auto simp: all_handles_def ran_def)
  qed
  moreover have "set (closed_handles T) \<subseteq> all_handles T" by (auto simp: all_handles_def)
  ultimately show ?thesis unfolding all_handles_def [of "sp_streams s2"] ran_def by (simp add: UN_subset_iff) blast
qed

lemma started_guest:
  assumes "before n q T {} {} s0" "all_handles T \<subseteq> {..<n}"
    and "start_process K q pid s0 P = (0, results, s, P')"
  shows "\<exists>c. actions s = [Create c, EnterContextJob, EnterOwnJob, Resume] \<and> cr_suspended c
    \<and> cr_launch c = rq_launch q \<and> cr_package c = rq_context q \<and> cr_capabilities c = [RegistryRead] \<and> cr_packages_opt_out c
    \<and> (cr_console c = None) = (\<not> rq_pty q)
    \<and> distinct (cr_inherit c) \<and> length (cr_inherit c) = length (inherited_slots q)
    \<and> set (cr_inherit c) \<subseteq> set (shut s) \<and> set (cr_inherit c) \<inter> all_handles (sp_streams s) = {}"
proof -
  from assms(1) show ?thesis
  proof (cases rule: spawn_cases [where K = K])
    case (works s1)
    let ?c = "creation_of q s1"
    note A = works(2) [unfolded after_def]
    obtain L hs where L: "extends (rq_context q) T L hs (sp_streams s1)"
      "made n (next_handle s1) = mset (shut s1) + mset (sp_pins s1) + mset hs + slots_held (vars s1) + stream_handles L"
      using A by (auto simp: ledger_def)
    have attributes: "cr_inherit ?c = map (the \<circ> vars s1) (inherited_slots q)" "cr_package ?c = rq_context q"
      "cr_capabilities ?c = [RegistryRead]" "cr_packages_opt_out ?c" "(cr_console ?c = None) = (\<not> rq_pty q)"
      using A by (auto simp: creation_of_def configured_def attribute_calls_def split: if_splits)
    obtain s2 where s2: "hand_over_process q pid s1 P = (s2, P')" "s = shut_all s2"
      using assms(3) works(1) by (auto simp: start_process_def split: prod.splits)
    have slots: "v \<in> left_over q \<and> v \<notin> {ProcessHandle, Job, Console}" if "v \<in> set (inherited_slots q)" for v
      using that by (auto simp: inherited_slots_def left_over_def prepared_def split: if_splits)
    have held_one: "vars s1 v = Some (the (vars s1 v))" if "v \<in> set (inherited_slots q)" for v
    proof -
      from slots [OF that] A have "v \<in> dom (vars s1)" by simp
      then show ?thesis by auto
    qed
    have inherit: "\<exists>v \<in> set (inherited_slots q). vars s1 v = Some h" if "h \<in> set (cr_inherit ?c)" for h
      using that held_one by (auto simp: attributes)
    have "h \<in> set (shut s) \<and> h \<notin> all_handles (sp_streams s)" if h: "h \<in> set (cr_inherit ?c)" for h
    proof -
      obtain v where v: "v \<in> set (inherited_slots q)" "vars s1 v = Some h" using inherit [OF h] by blast
      have "vars s2 v = Some h" using s2(1) slots [OF v(1)] v(2) by (auto simp: hand_over_process_def)
      from held_member [of "vars s2", OF this] have "h \<in># mset (shut s)" by (simp add: s2(2))
      moreover have m: "h \<in># slots_held (vars s1)" by (rule held_member [of "vars s1", OF v(2)])
      then have "h \<notin># mset hs" "h \<notin># stream_handles L"
        using made_apart [of n "next_handle s1" "slots_held (vars s1)" "mset (shut s1) + mset (sp_pins s1) + mset hs + stream_handles L" h] L(2)
        by (simp_all add: ac_simps)
      moreover have "n \<le> h"
        using m L(2) made_member [of h n "next_handle s1"] by simp
      moreover have "all_handles (sp_streams s) \<subseteq> all_handles T \<union> set hs \<union> set_mset (stream_handles L)"
        using s2 handed_over_handles [OF L(1)] by simp
      ultimately show ?thesis using assms(2) by auto
    qed
    moreover have "distinct (cr_inherit ?c)"
    proof -
      have "inj_on (the \<circ> vars s1) (set (inherited_slots q))"
      proof (rule inj_onI)
        fix v w assume vw: "v \<in> set (inherited_slots q)" "w \<in> set (inherited_slots q)" "(the \<circ> vars s1) v = (the \<circ> vars s1) w"
        then have "vars s1 w = Some (the (vars s1 v))" using held_one [OF vw(2)] by simp
        with ledger_vars(2) [of n "rq_context q" T s1 v _ w] A held_one [OF vw(1)] show "v = w" by blast
      qed
      moreover have "distinct (inherited_slots q)" by (simp add: inherited_slots_def)
      ultimately show ?thesis by (simp add: attributes distinct_map)
    qed
    ultimately show ?thesis using A s2 attributes by (auto simp: hand_over_process_def creation_of_def)
  next
    case (failed code s1)
    with assms(3) failure_not_0 [of code] show ?thesis by (simp add: start_process_def)
  qed
qed

text \<open>C20: A confined Windows program runs its first instruction inside both jobs and with the handles meant for it
  alone.  It is created suspended, with the launch that was prepared for the request, the package of its context,
  \<open>registryRead\<close> as its only capability and without the packages every container has; it enters the job of the
  context and its own before it is resumed.  It inherits copies of its station and desktop and its ends of the
  pipes, all closed by the host, none of which the host has in a stream.\<close>

theorem guest_starts_inside_its_jail:
  assumes "tables_inv (T, H)" "all_handles T \<subseteq> {..<n}"
    and "visjail_spawn W K contexts refusal signalled pid argv_blob argv_len env_blob env_len cwd profile flags rows cols
      proxy_port inbound_port (no_spawn n T) P = (0, results, s, P')"
  shows "\<exists>c. actions s = [Create c, EnterContextJob, EnterOwnJob, Resume] \<and> cr_suspended c
    \<and> prepare_launch W contexts argv_blob argv_len env_blob env_len cwd profile flags proxy_port inbound_port = Some (cr_launch c)
    \<and> context_of_profile profile = Some (cr_package c) \<and> cr_capabilities c = [RegistryRead] \<and> cr_packages_opt_out c
    \<and> (cr_console c = None) = (flags AND int VISJAIL_PTY = 0) \<and> distinct (cr_inherit c)
    \<and> length (cr_inherit c) = (if flags AND int VISJAIL_PTY \<noteq> 0 then 2 else if flags AND int VISJAIL_MERGE_STDERR \<noteq> 0 then 4 else 5)
    \<and> set (cr_inherit c) \<subseteq> set (shut s) \<and> set (cr_inherit c) \<inter> all_handles (sp_streams s) = {}"
  using assms(3)
proof (cases rule: whole_spawn_cases)
  case (pinned q s1 s2)
  from started_guest [OF pinned(1) assms(2) pinned(2)] pinned(3-) show ?thesis by (auto simp: inherited_slots_def)
qed (use failure_not_0 in \<open>metis prod.inject\<close>)+

text \<open>The handles of a started process are accounted for: each one the kernel gave is closed, in the record of the
  process or in one of its new streams; no pin is left.\<close>

theorem started_process_owns_its_handles:
  assumes "tables_inv (T, H)"
    and "visjail_spawn W K contexts refusal signalled pid argv_blob argv_len env_blob env_len cwd profile flags rows cols
      proxy_port inbound_port (no_spawn n T) P = (0, results, s, P')"
  shows "\<exists>i ctx process job console L hs. context_of_profile profile = Some ctx
    \<and> P' = register i ctx process job console pid (reclaim signalled P) \<and> sp_pins s = []
    \<and> table (sp_streams s) = map fst L @ table T \<and> closed_handles (sp_streams s) = closed_handles T @ hs
    \<and> made n (next_handle s) = mset (shut s) + mset hs + {#process, job#} + one_handle console + stream_handles L"
  using assms(2)
proof (cases rule: whole_spawn_cases)
  case (pinned q s0 s')
  from pinned(1) show ?thesis
  proof (cases rule: spawn_cases [where K = K])
    case (works s1)
    note A = works(2) [unfolded after_def]
    obtain L hs where L: "extends (rq_context q) T L hs (sp_streams s1)"
      "made n (next_handle s1) = mset (shut s1) + mset (sp_pins s1) + mset hs + slots_held (vars s1) + stream_handles L"
      using A by (auto simp: ledger_def)
    obtain s2 where s2: "hand_over_process q pid s1 (reclaim signalled P) = (s2, P')" "s' = shut_all s2"
      using pinned(2) works(1) by (auto simp: start_process_def split: prod.splits)
    have "ProcessHandle \<in> dom (vars s1)" "Job \<in> dom (vars s1)" using A by (simp_all add: left_over_def prepared_def)
    then obtain process job where h: "vars s1 ProcessHandle = Some process" "vars s1 Job = Some job" by auto
    have "slots_held (vars s1) = {#process, job#} + one_handle (vars s1 Console) + slots_held (vars s2)"
      using held_split [of "vars s1" ProcessHandle] held_split [of "(vars s1)(ProcessHandle := None)" Job]
        held_split [of "(vars s1)(ProcessHandle := None, Job := None)" Console] s2(1) h
      by (auto simp: hand_over_process_def)
    moreover have "next_handle s = next_handle s1" "mset (shut s) = mset (shut s1) + slots_held (vars s2) + mset (sp_pins s1)"
      "table (sp_streams s) = map fst L @ table T" "closed_handles (sp_streams s) = closed_handles T @ hs" "sp_pins s = []"
      using s2 L(1) pinned(3) by (auto simp: hand_over_process_def set_stream_def extends_def)
    moreover have "P' = register (sp_id s1) (rq_context q) process job (vars s1 Console) pid (reclaim signalled P)"
      using s2 h by (auto simp: hand_over_process_def)
    ultimately show ?thesis using L(2) pinned(6)
      by (intro exI [of _ "sp_id s1"] exI [of _ "rq_context q"] exI [of _ process] exI [of _ job] exI [of _ "vars s1 Console"]
        exI [of _ L] exI [of _ hs]) (simp add: ac_simps)
  next
    case (failed code s1)
    with pinned(2) failure_not_0 [of code] show ?thesis by (simp add: start_process_def)
  qed
qed (use failure_not_0 in \<open>metis prod.inject\<close>)+

text \<open>A program on pipes, with every call working, and with the last one failing.\<close>

definition sample_request :: "launch \<Rightarrow> request" where
  "sample_request l = \<lparr>rq_pty = False, rq_merge = False, rq_rows = 0, rq_cols = 0, rq_context = 7, rq_launch = l\<rparr>"

definition one_failing :: "int option \<Rightarrow> calls" where
  "one_failing e c = (if c = ResumeMain then e else None)"

text \<open>The next id, and whether the process was created; no step but the last fails.\<close>

definition sample_at :: "int \<Rightarrow> bool \<Rightarrow> spawn \<Rightarrow> bool" where
  "sample_at i m s \<longleftrightarrow> next_id (sp_streams s) = i \<and> (m \<longrightarrow> (\<exists>c. Create c \<in> set (actions s)))"

lemma sample_steps:
  "spec (\<lambda>_. False) (sample_at i m) (check_size (sample_request l)) (sample_at i m)"
  "spec (\<lambda>_. False) (sample_at i m) (pipe_pair (one_failing e) v w) (sample_at i m)"
  "x \<noteq> ResumeMain \<Longrightarrow> spec (\<lambda>_. False) (sample_at i m) (only_call (one_failing e) x) (sample_at i m)"
  "spec (\<lambda>_. False) (sample_at i m) (set_security (one_failing e) q) (sample_at i m)"
  "spec (\<lambda>_. False) (sample_at i m) (set_packages (one_failing e)) (sample_at i m)"
  "spec (\<lambda>_. False) (sample_at i m) (set_handles (one_failing e) q) (sample_at i m)"
  "x \<noteq> ResumeMain \<Longrightarrow> spec (\<lambda>_. False) (sample_at i m) (open_object (one_failing e) x v) (sample_at i m)"
  "spec (\<lambda>_. False) (sample_at i m) (new_job (one_failing e)) (sample_at i m)"
  "spec (\<lambda>_. False) (sample_at i m) (create_process (one_failing e) q) (sample_at i True)"
  "x \<noteq> ResumeMain \<Longrightarrow> spec (\<lambda>_. False) (sample_at i m) (act (one_failing e) x a) (sample_at i m)"
  by (auto simp: spec_def sample_at_def check_size_def sample_request_def pipe_pair_def only_call_def set_security_def set_packages_def
      set_handles_def open_object_def new_job_def create_process_def act_def one_failing_def)

lemma sample_ids:
  assumes "i \<noteq> 0" "i < INT_MAX"
  shows "spec (\<lambda>_. False) (sample_at i m) draw_id (sample_at (i + 1) m)"
    "spec (\<lambda>_. False) (sample_at i m) (connect (one_failing e) q v rd wr) (sample_at (i + 1) m)"
  using assms
  by (auto simp: spec_def sample_at_def draw_id_def allocate_id_def connect_def new_event_def stream_new_def one_failing_def Let_def)

lemma sample_run:
  assumes "sample_at 1 False s0"
  obtains s where "run_steps (spawn_steps (one_failing e) (sample_request l)) s0 = (e, s)" "\<exists>c. Create c \<in> set (actions s)"
proof -
  let ?K = "one_failing e" and ?q = "sample_request l"
  have q: "\<not> rq_pty ?q" "\<not> rq_merge ?q" by (simp_all add: sample_request_def)
  have ids: "spec (\<lambda>_. False) (sample_at 1 m) draw_id (sample_at 2 m)"
    "spec (\<lambda>_. False) (sample_at 2 m) (connect ?K ?q v rd wr) (sample_at 3 m)"
    "spec (\<lambda>_. False) (sample_at 3 m) (connect ?K ?q v rd wr) (sample_at 4 m)"
    "spec (\<lambda>_. False) (sample_at 4 m) (connect ?K ?q v rd wr) (sample_at 5 m)" for m v rd wr
    using sample_ids [of 1] sample_ids [of 2] sample_ids [of 3] sample_ids [of 4] by (simp_all add: INT_MAX_def)
  have w: "spec (\<lambda>_. False) (sample_at 1 False) (run_steps (butlast (spawn_steps ?K ?q))) (sample_at 5 True)"
    unfolding spawn_steps_def prepare_steps_def connect_steps_def
    by (simp add: q) ((rule spec_Cons, (rule sample_steps ids; simp))+, rule spec_end, simp)
  have split: "spawn_steps ?K ?q = butlast (spawn_steps ?K ?q) @ [act ?K ResumeMain Resume]" by (simp add: spawn_steps_def butlast_append)
  obtain r s1 where r: "run_steps (butlast (spawn_steps ?K ?q)) s0 = (r, s1)" by (metis surj_pair)
  have "case run_steps (butlast (spawn_steps ?K ?q)) s0 of (None, s1) \<Rightarrow> sample_at 5 True s1 | (Some _, s1) \<Rightarrow> False"
    by (rule w [unfolded spec_def, rule_format, OF assms])
  then have s1: "r = None" "\<exists>c. Create c \<in> set (actions s1)" by (cases r; simp add: r sample_at_def)+
  have "run_steps (spawn_steps ?K ?q) s0 = (case e of None \<Rightarrow> (None, s1\<lparr>actions := actions s1 @ [Resume]\<rparr>) | Some code \<Rightarrow> (Some code, s1))"
    by (subst split) (simp add: run_steps_append r s1(1) act_def one_failing_def split: option.splits)
  then show thesis using that s1(2) by (cases e) auto
qed

lemma pins_keep: "run_steps (map take_pin xs) s = (r, s1) \<Longrightarrow> vars s1 = vars s \<and> sp_streams s1 = sp_streams s"
  by (induction xs arbitrary: s) (fastforce simp: take_pin_def split: pin_outcome.splits)+

definition sample_spawn :: "int option \<Rightarrow> int \<times> int list \<times> spawn \<times> proc_tables" where
  "sample_spawn e = visjail_spawn sample_win32 (one_failing e) sample_contexts 0 (\<lambda>_. False) 99 (Some sample_argv) 25
     (Some sample_env) 10 (Some (''C:'' @ bs @ ''c'' @ bs @ ''Work'')) (Some ''windows:7'') 4 0 0 0 0 (no_spawn 1 initial_tables) initial_procs"

lemma sample_flags: "context_of_profile (Some ''windows:7'') = Some 7" "(4 :: int) AND int VISJAIL_PTY = 0"
  "(4 :: int) AND int VISJAIL_MERGE_STDERR = 0"
  by code_simp+

lemma sample_spawned:
  obtains results s P' where "sample_spawn e = (case e of None \<Rightarrow> 0 | Some code \<Rightarrow> failure code, results, s, P')"
    "\<exists>c. Create c \<in> set (actions s)"
proof -
  obtain l where l: "prepare_launch sample_win32 sample_contexts (Some sample_argv) 25 (Some sample_env) 10
     (Some (''C:'' @ bs @ ''c'' @ bs @ ''Work'')) (Some ''windows:7'') 4 0 0 = Some l" by (rule sample_launch_obtained)
  then obtain c where c: "admit_launch sample_win32 sample_contexts (Some sample_argv) 25 (Some sample_env) 10
     (Some (''C:'' @ bs @ ''c'' @ bs @ ''Work'')) (Some ''windows:7'') 4 0 0 = Some (c, l)" "launch_pinned sample_win32 c (l_program l) (l_directory l)"
    by (auto simp: prepare_launch_def split: option.splits if_splits)
  obtain r s0 where pins: "run_steps (pin_steps sample_win32 c l) (no_spawn 1 initial_tables) = (r, s0)" by (metis surj_pair)
  have r: "r = None"
    using pins_all_taken [of "pin_outcomes sample_win32 (launch_pins c (l_program l) (l_directory l))" "no_spawn 1 initial_tables"] c(2) pins
    by (simp add: launch_pinned_def pin_steps_def)
  have s0: "vars s0 = (\<lambda>_. None)" "sp_streams s0 = initial_tables"
    using pins_keep [OF pins [unfolded pin_steps_def]] by (simp_all add: no_spawn_def)
  have "sample_at 1 False s0" by (simp add: sample_at_def s0 initial_tables_def)
  then obtain s1 where R: "run_steps (spawn_steps (one_failing e) (sample_request l)) s0 = (e, s1)" "\<exists>c. Create c \<in> set (actions s1)"
    by (rule sample_run)
  have x: "sample_spawn e = (case start_process (one_failing e) (sample_request l) 99 s0 (reclaim (\<lambda>_. False) initial_procs) of
      (r, results, s2, P2) \<Rightarrow> (r, results, unpin_launch s2, P2))"
    unfolding sample_spawn_def visjail_spawn_def c(1) sample_flags by (simp add: pins [unfolded One_nat_def] r sample_request_def sample_flags)
  show ?thesis
  proof (cases e)
    case None
    then show ?thesis using that x R by (auto simp: start_process_def hand_over_process_def)
  next
    case (Some code)
    then show ?thesis using that x R by (auto simp: start_process_def undo_def)
  qed
qed

theorem failed_spawn_leaves_nothing_witness:
  "\<exists>results s P'. sample_spawn (Some 5) = (failure 5, results, s, P') \<and> sp_pins s = [] \<and> table (sp_streams s) = []
     \<and> Resume \<notin> set (actions s) \<and> Terminate \<in> set (actions s) \<and> (\<exists>hs. mset (shut s) + mset hs = made 1 (next_handle s))"
proof -
  obtain results s P' where v: "sample_spawn (Some 5) = (failure 5, results, s, P')" "\<exists>c. Create c \<in> set (actions s)"
    by (rule sample_spawned [of "Some 5"]) simp
  note F = failed_spawn_leaves_nothing [OF tables_inv_initial v(1) [unfolded sample_spawn_def] failure_not_0]
  from F v(2) have "sp_pins s = [] \<and> Resume \<notin> set (actions s) \<and> Terminate \<in> set (actions s)
      \<and> (\<exists>hs. mset (shut s) + mset hs = made 1 (next_handle s))" by blast
  moreover from F have "table (sp_streams s) = []" by (simp add: initial_tables_def)
  ultimately show ?thesis using v(1) by blast
qed

theorem guest_starts_inside_its_jail_witness:
  "\<exists>results s P' c h. sample_spawn None = (0, results, s, P') \<and> actions s = [Create c, EnterContextJob, EnterOwnJob, Resume]
     \<and> distinct (cr_inherit c) \<and> length (cr_inherit c) = 5 \<and> cr_capabilities c = [RegistryRead] \<and> cr_package c = 7 \<and> h \<in> set (cr_inherit c)"
proof -
  obtain results s P' where v: "sample_spawn None = (0, results, s, P')"
    by (rule sample_spawned [of None]) simp
  have h: "all_handles initial_tables \<subseteq> {..<1}" by (simp add: all_handles_def initial_tables_def)
  from guest_starts_inside_its_jail [OF tables_inv_initial h v [unfolded sample_spawn_def]] show ?thesis
  proof (elim exE conjE)
    fix c :: creation assume c: "actions s = [Create c, EnterContextJob, EnterOwnJob, Resume]" "distinct (cr_inherit c)"
      "cr_capabilities c = [RegistryRead]" "context_of_profile (Some ''windows:7'') = Some (cr_package c)"
      "length (cr_inherit c) = (if (4 :: int) AND int VISJAIL_PTY \<noteq> 0 then 2 else if (4 :: int) AND int VISJAIL_MERGE_STDERR \<noteq> 0 then 4 else 5)"
    then have "length (cr_inherit c) = 5" "cr_package c = 7" using sample_flags by simp_all
    moreover from this(1) have "hd (cr_inherit c) \<in> set (cr_inherit c)" by (intro hd_in_set) auto
    ultimately show ?thesis using c(1-3) v by blast
  qed
qed

theorem started_process_owns_its_handles_witness:
  "\<exists>process job console m. {#process, job#} + one_handle console \<subseteq># made 1 m"
proof -
  obtain results s P' where v: "sample_spawn None = (0, results, s, P')"
    by (rule sample_spawned [of None]) simp
  from started_process_owns_its_handles [OF tables_inv_initial v [unfolded sample_spawn_def]] obtain process job console L hs where
    "made 1 (next_handle s) = mset (shut s) + mset hs + {#process, job#} + one_handle console + stream_handles L" by blast
  then have "{#process, job#} + one_handle console \<subseteq># made 1 (next_handle s)" by (simp add: subset_mset.add_increasing subset_mset.add_increasing2)
  then show ?thesis by blast
qed

end
