(* ===== verification/WinDesktop.thy ===== *)
theory WinDesktop
  imports WinLaunch WinReads
begin

text \<open>
  The private desktop of a Windows context: the protocol between the launcher and its helper program
  (\<^verbatim>\<open>native/visjail/windows_ui_protocol.h\<close>), the security both agree on (\<^verbatim>\<open>windows_ui.h\<close>), and the helper
  itself (\<^verbatim>\<open>windows_ui.c\<close>).  Access lists are compared by their bytes, here by their entries.
\<close>

section \<open>The protocol\<close>

definition VISJAIL_UI_VERSION :: int where "VISJAIL_UI_VERSION = 1"

definition VISJAIL_UI_PROFILE_CHARS :: nat where "VISJAIL_UI_PROFILE_CHARS = 41"

definition UI_TRANSFER_SIZE :: int where "UI_TRANSFER_SIZE = 624"

definition UI_STATION_CHARS :: nat where "UI_STATION_CHARS = 256"

record ui_transfer =
  ut_version :: int
  ut_size :: int
  ut_error :: int
  ut_profile :: wstring
  ut_station_name :: wstring
  ut_station :: nat
  ut_desktop :: nat

definition ERROR_INVALID_DATA :: int where "ERROR_INVALID_DATA = 13"

definition ERROR_INVALID_SID :: int where "ERROR_INVALID_SID = 1337"

definition hex_digit_low :: "nat \<Rightarrow> bool" where
  "hex_digit_low c \<longleftrightarrow> (48 \<le> c \<and> c \<le> 57) \<or> (97 \<le> c \<and> c \<le> 102)"

definition ui_profile_valid :: "wstring \<Rightarrow> bool" where
  "ui_profile_valid p \<longleftrightarrow>
     (if take 8 p \<noteq> ascii ''visjail.'' \<or> p ! 40 \<noteq> 0 then False else list_all hex_digit_low (take 32 (drop 8 p)))"

text \<open>A fixed array of characters that holds a text, and the text in it.\<close>

definition in_array :: "nat \<Rightarrow> wstring \<Rightarrow> wstring" where
  "in_array n t = t @ replicate (n - length t) 0"

definition wtext :: "wstring \<Rightarrow> wstring" where
  "wtext a = takeWhile (\<lambda>c. c \<noteq> 0) a"

section \<open>Security\<close>

definition READ_CONTROL :: nat where "READ_CONTROL = 0x20000"

definition VISJAIL_UI_DESKTOP_RIGHTS :: nat where "VISJAIL_UI_DESKTOP_RIGHTS = 0x20083"

definition VISJAIL_UI_HOST_RIGHTS :: nat where "VISJAIL_UI_HOST_RIGHTS = 0xF01FF"

datatype account = HostUser | Package wstring | OwnerRights

record ace =
  ace_account :: account
  ace_rights :: nat
  ace_inherited :: bool

definition private_acl :: "wstring \<Rightarrow> nat \<Rightarrow> nat \<Rightarrow> bool \<Rightarrow> ace list" where
  "private_acl package host_rights rights directory =
     [\<lparr>ace_account = HostUser, ace_rights = host_rights, ace_inherited = directory\<rparr>,
      \<lparr>ace_account = Package package, ace_rights = rights, ace_inherited = directory\<rparr>,
      \<lparr>ace_account = OwnerRights, ace_rights = READ_CONTROL, ace_inherited = directory\<rparr>]"

datatype label = LowNoWriteUp | OtherLabel nat

record ui_security =
  us_acl :: "ace list"
  us_label :: label
  us_protected :: bool

definition ui_security_init :: "wstring \<Rightarrow> ui_security" where
  "ui_security_init package =
     \<lparr>us_acl = private_acl package VISJAIL_UI_HOST_RIGHTS VISJAIL_UI_DESKTOP_RIGHTS False, us_label = LowNoWriteUp, us_protected = True\<rparr>"

text \<open>What a handle of a user object shows: its type and name, and its security when it can be read.\<close>

datatype user_type = WindowStation | Desktop

record user_object =
  uo_type :: user_type
  uo_name :: wstring
  uo_security :: "ui_security option"

definition ui_object :: "user_object option \<Rightarrow> user_type \<Rightarrow> wstring option" where
  "ui_object seen t = (case seen of None \<Rightarrow> None | Some x \<Rightarrow> if uo_type x \<noteq> t then None else Some (uo_name x))"

definition ui_desktop_valid :: "user_object option \<Rightarrow> wstring \<Rightarrow> ui_security \<Rightarrow> bool" where
  "ui_desktop_valid seen profile security \<longleftrightarrow>
     ui_object seen Desktop = Some profile
     \<and> (case Option.bind seen uo_security of
          None \<Rightarrow> False
        | Some s \<Rightarrow> us_protected s \<and> us_acl s = us_acl security \<and> us_label s = us_label security)"

section \<open>The launcher's side\<close>

definition ui_request :: "wstring \<Rightarrow> ui_transfer" where
  "ui_request profile =
     \<lparr>ut_version = VISJAIL_UI_VERSION, ut_size = UI_TRANSFER_SIZE, ut_error = ERROR_IO_PENDING,
      ut_profile = in_array VISJAIL_UI_PROFILE_CHARS profile, ut_station_name = in_array UI_STATION_CHARS [],
      ut_station = 0, ut_desktop = 0\<rparr>"

definition helper_line :: "wstring \<Rightarrow> nat list \<Rightarrow> wstring" where
  "helper_line path handles = [QUOTE] @ path @ [QUOTE] @ concat (map (\<lambda>h. 32 # ascii (show_nat h)) handles)"

definition check_reply :: "wstring \<Rightarrow> ui_transfer \<Rightarrow> int option" where
  "check_reply profile r =
     (if ut_version r \<noteq> VISJAIL_UI_VERSION \<or> ut_size r \<noteq> UI_TRANSFER_SIZE \<or> \<not> ui_profile_valid (ut_profile r)
         \<or> ut_profile r \<noteq> in_array VISJAIL_UI_PROFILE_CHARS profile \<or> 0 \<notin> set (ut_station_name r) then Some ERROR_INVALID_DATA
      else if ut_error r \<noteq> 0 then Some (ut_error r)
      else if ut_station r = 0 \<or> ut_desktop r = 0 then Some ERROR_INVALID_DATA
      else None)"

text \<open>The check of the duplicated handles.\<close>

definition check_objects :: "wstring \<Rightarrow> ui_transfer \<Rightarrow> user_object option \<Rightarrow> user_object option \<Rightarrow> bool" where
  "check_objects profile r station desktop \<longleftrightarrow>
     ui_object station WindowStation = Some (wtext (ut_station_name r))
     \<and> ui_desktop_valid desktop profile (ui_security_init profile)"

section \<open>The helper\<close>

text \<open>A handle given as text: inheritable when the kernel says so.\<close>

definition inherited_handle :: "(nat \<Rightarrow> bool option) \<Rightarrow> wstring \<Rightarrow> nat option" where
  "inherited_handle info t =
     (if t = [] \<or> \<not> (48 \<le> hd t \<and> hd t \<le> 57) then None
      else if \<not> list_all (\<lambda>c. 48 \<le> c \<and> c \<le> 57) t then None
      else
        let value = foldl (\<lambda>v c. 10 * v + (c - 48)) 0 t in
        if value \<ge> 2 ^ 64 \<or> value = 0 then None
        else if info value = Some True then Some value else None)"

text \<open>The handles taken from the arguments, one after the other, and whether there are three different ones.\<close>

fun take_handles :: "(nat \<Rightarrow> bool option) \<Rightarrow> wstring list \<Rightarrow> nat list" where
  "take_handles info [] = []"
| "take_handles info (t # ts) = (case inherited_handle info t of None \<Rightarrow> [] | Some h \<Rightarrow> h # take_handles info ts)"

definition helper_handles :: "(nat \<Rightarrow> bool option) \<Rightarrow> wstring list \<Rightarrow> nat list \<times> bool" where
  "helper_handles info argv =
     (if length argv \<noteq> 4 then ([], False)
      else let hs = take_handles info (tl argv) in (hs, length hs = 3 \<and> distinct hs))"

record helper_calls =
  handle_info :: "nat \<Rightarrow> bool option"
  cleared :: bool
  mapped :: bool
  package_ok :: bool
  own_station :: "wstring option"
  open_station :: "nat option"
  security_ok :: bool
  create_desktop :: "nat option"
  desktop_seen :: "user_object option"
  helper_error :: int
  ready_set :: bool
  acked :: bool
  desktop_closed :: bool
  station_closed :: bool

definition request_valid :: "ui_transfer \<Rightarrow> bool" where
  "request_valid r \<longleftrightarrow> ut_version r = VISJAIL_UI_VERSION \<and> ut_size r = UI_TRANSFER_SIZE \<and> ut_error r = ERROR_IO_PENDING
     \<and> ut_station r = 0 \<and> ut_desktop r = 0 \<and> ui_profile_valid (ut_profile r)"

text \<open>The work between the request and the reply: the error, and what was opened.\<close>

definition helper_work :: "helper_calls \<Rightarrow> ui_transfer \<Rightarrow> int \<times> nat option \<times> nat option" where
  "helper_work K r =
     (if \<not> request_valid r then (ERROR_INVALID_PARAMETER, None, None)
      else if \<not> package_ok K then (ERROR_INVALID_SID, None, None)
      else if own_station K = None then (helper_error K, None, None)
      else if open_station K = None then (helper_error K, None, None)
      else if \<not> security_ok K then (helper_error K, open_station K, None)
      else if create_desktop K = None then (helper_error K, open_station K, None)
      else if \<not> ui_desktop_valid (desktop_seen K) (wtext (ut_profile r)) (ui_security_init (wtext (ut_profile r)))
      then (helper_error K, open_station K, create_desktop K)
      else (0, open_station K, create_desktop K))"

definition overwrite :: "wstring \<Rightarrow> wstring \<Rightarrow> wstring" where
  "overwrite front a = front @ drop (length front) a"

text \<open>The reply written over the request; the objects only when everything was made.\<close>

definition helper_reply :: "helper_calls \<Rightarrow> ui_transfer \<Rightarrow> ui_transfer" where
  "helper_reply K r =
     (case helper_work K r of
        (error, station, desktop) \<Rightarrow>
          (if request_valid r \<and> package_ok K \<and> security_ok K \<and> station \<noteq> None \<and> desktop \<noteq> None
              \<and> ui_desktop_valid (desktop_seen K) (wtext (ut_profile r)) (ui_security_init (wtext (ut_profile r)))
           then r\<lparr>ut_station_name := overwrite (the (own_station K) @ [0]) (ut_station_name r), ut_station := the station,
                  ut_desktop := the desktop\<rparr>
           else r)\<lparr>ut_error := error\<rparr>)"

text \<open>The whole program: its exit code, what it leaves in the shared memory if it replies, and the handles it closes.\<close>

definition helper_main :: "helper_calls \<Rightarrow> wstring list \<Rightarrow> ui_transfer \<Rightarrow> int \<times> ui_transfer option \<times> nat list" where
  "helper_main K argv shared =
     (let (hs, good) = helper_handles (handle_info K) argv; closes = remdups (rev hs) in
      if \<not> good \<or> \<not> cleared K \<or> \<not> mapped K then (1, None, closes)
      else
        case helper_work K shared of
          (error, station, desktop) \<Rightarrow>
            let answered = ready_set K \<and> acked K \<and> error = 0;
                closed_ok = (desktop = None \<or> desktop_closed K) \<and> (station = None \<or> station_closed K)
            in (if answered \<and> closed_ok then 0 else 1, Some (helper_reply K shared), closes))"

section \<open>The command line of the helper\<close>

lemma ascii_digits: "list_all (\<lambda>c. 48 \<le> c \<and> c \<le> 57) (ascii (show_nat n))"
  using show_nat_digits [of _ n] by (auto simp: list_all_iff ascii_def is_digit_def)

lemma ascii_value: "foldl (\<lambda>v c. 10 * v + (c - 48)) k (ascii t) = foldl (\<lambda>v c. 10 * v + digit_val c) k t"
  by (induction t arbitrary: k) (simp_all add: ascii_def digit_val_def)

lemma inherited_handle_decimal:
  assumes "0 < h" "h < 2 ^ 64" "info h = Some True"
  shows "inherited_handle info (ascii (show_nat h)) = Some h"
proof -
  have v: "foldl (\<lambda>v c. 10 * v + (c - 48)) 0 (ascii (show_nat h)) = h"
    using digits_val_show_nat [of h] by (simp add: ascii_value digits_val_def)
  have "ascii (show_nat h) \<noteq> []" by (simp add: ascii_def)
  with ascii_digits [of h] have "48 \<le> hd (ascii (show_nat h)) \<and> hd (ascii (show_nat h)) \<le> 57"
    by (cases "ascii (show_nat h)") auto
  with v assms ascii_digits [of h] \<open>ascii (show_nat h) \<noteq> []\<close> show ?thesis
    by (simp add: inherited_handle_def Let_def)
qed

lemma crt_arg_digits:
  "list_all (\<lambda>c. 48 \<le> c \<and> c \<le> 57) ds \<Longrightarrow> r = [] \<or> blank (hd r) \<Longrightarrow> crt_arg False (ds @ r) acc = (acc @ ds, r)"
proof (induction ds arbitrary: acc)
  case Nil
  then show ?case by (cases r) (auto simp: crt_arg_end)
next
  case (Cons c ds)
  then show ?case using crt_arg_char [of c False 0 "ds @ r" acc] by (simp add: QUOTE_def BACKSLASH_def blank_def)
qed

lemma crt_args_decimals:
  "length hs \<le> n \<Longrightarrow> crt_args n (concat (map (\<lambda>h. 32 # ascii (show_nat h)) hs)) = map (\<lambda>h. ascii (show_nat h)) hs"
proof (induction hs arbitrary: n)
  case Nil
  then show ?case by (cases n) simp_all
next
  case (Cons h hs)
  then obtain m where m: "n = Suc m" "length hs \<le> m" by (cases n) auto
  let ?r = "concat (map (\<lambda>h. 32 # ascii (show_nat h)) hs)"
  have r: "?r = [] \<or> blank (hd ?r)" by (cases hs) (simp_all add: blank_def)
  have "ascii (show_nat h) \<noteq> []" by (simp add: ascii_def)
  then obtain c cs where c: "ascii (show_nat h) = c # cs" by (cases "ascii (show_nat h)") auto
  with ascii_digits [of h] have "\<not> blank c" by (auto simp: blank_def)
  then have "dropWhile blank (32 # ascii (show_nat h) @ ?r) = ascii (show_nat h) @ ?r" by (simp add: c blank_def)
  with Cons.IH [OF m(2)] crt_arg_digits [OF ascii_digits r, of h "[]"] show ?case
    by (simp add: m(1) Let_def c)
qed

text \<open>The helper finds the handles the launcher passes.  Its command line, read by the documented rules of the C
  run-time library, is its path and the three numbers, and each number is read back as the handle it was written
  from, so the helper starts to work, with these handles in this order.\<close>

theorem helper_reads_its_handles:
  assumes "QUOTE \<notin> set path" "distinct [mapping, ready, ack]"
    and "\<forall>h \<in> {mapping, ready, ack}. 0 < h \<and> h < 2 ^ 64 \<and> info h = Some True"
  shows "hd (crt_argv (helper_line path [mapping, ready, ack])) = path
    \<and> helper_handles info (crt_argv (helper_line path [mapping, ready, ack])) = ([mapping, ready, ack], True)"
proof -
  let ?hs = "[mapping, ready, ack]"
  let ?r = "concat (map (\<lambda>h. 32 # ascii (show_nat h)) ?hs)"
  have "takeWhile (\<lambda>c. c \<noteq> QUOTE) (path @ QUOTE # ?r) = path" "dropWhile (\<lambda>c. c \<noteq> QUOTE) (path @ QUOTE # ?r) = QUOTE # ?r"
    using assms(1) by (auto simp: takeWhile_append dropWhile_append)
  moreover have "crt_args (length (helper_line path ?hs)) ?r = map (\<lambda>h. ascii (show_nat h)) ?hs"
    by (rule crt_args_decimals) (simp add: helper_line_def)
  ultimately have argv: "crt_argv (helper_line path ?hs) = path # map (\<lambda>h. ascii (show_nat h)) ?hs"
    unfolding crt_argv_def by (simp add: helper_line_def)
  have "take_handles info (map (\<lambda>h. ascii (show_nat h)) ?hs) = ?hs"
    using assms(3) inherited_handle_decimal by simp
  with assms(2) show ?thesis by (simp add: argv helper_handles_def Let_def)
qed

theorem helper_reads_its_handles_witness:
  "helper_handles (\<lambda>h. Some True) (crt_argv (helper_line [67] [12, 2048, 7])) = ([12, 2048, 7], True)"
  using helper_reads_its_handles [of "[67]" 12 2048 7 "\<lambda>h. Some True"] by (simp add: QUOTE_def)

section \<open>Agreement on the desktop\<close>

lemma profile_array: "length p = 40 \<Longrightarrow> 0 \<notin> set p \<Longrightarrow> wtext (in_array VISJAIL_UI_PROFILE_CHARS p) = p"
  by (simp add: wtext_def in_array_def VISJAIL_UI_PROFILE_CHARS_def takeWhile_append)

lemma desktop_valid_iff:
  "ui_desktop_valid seen profile (ui_security_init package) \<longleftrightarrow>
     (\<exists>x s. seen = Some x \<and> uo_type x = Desktop \<and> uo_name x = profile \<and> uo_security x = Some s
        \<and> us_protected s \<and> us_label s = LowNoWriteUp
        \<and> us_acl s = private_acl package VISJAIL_UI_HOST_RIGHTS VISJAIL_UI_DESKTOP_RIGHTS False)"
  by (cases seen) (auto simp: ui_desktop_valid_def ui_object_def ui_security_init_def split: option.splits)

lemma reply_accepted:
  assumes "helper_main K argv (ui_request profile) = (code, Some reply, closed)"
    and "ui_profile_valid (in_array VISJAIL_UI_PROFILE_CHARS profile)" "length profile = 40" "0 \<notin> set profile"
    and "\<forall>name. own_station K = Some name \<longrightarrow> length name < UI_STATION_CHARS \<and> 0 \<notin> set name"
    and "\<forall>h. open_station K = Some h \<or> create_desktop K = Some h \<longrightarrow> h \<noteq> 0"
  shows "(check_reply profile reply = None) = (\<exists>station desktop. helper_work K (ui_request profile) = (0, Some station, Some desktop)
      \<and> ut_station reply = station \<and> ut_desktop reply = desktop
      \<and> own_station K = Some (wtext (ut_station_name reply))
      \<and> ui_desktop_valid (desktop_seen K) profile (ui_security_init profile))"
proof -
  have valid: "request_valid (ui_request profile)"
    using assms(2) by (simp add: request_valid_def ui_request_def)
  have chars: "wtext (ut_profile (ui_request profile)) = profile"
    using profile_array [OF assms(3,4)] by (simp add: ui_request_def)
  have reply: "reply = helper_reply K (ui_request profile)"
    using assms(1) by (auto simp: helper_main_def Let_def split: prod.splits if_splits)
  let ?good = "package_ok K \<and> own_station K \<noteq> None \<and> open_station K \<noteq> None \<and> security_ok K \<and> create_desktop K \<noteq> None
    \<and> ui_desktop_valid (desktop_seen K) profile (ui_security_init profile)"
  show ?thesis
  proof (cases ?good)
    case True
    then obtain name station desktop where g: "own_station K = Some name" "open_station K = Some station" "create_desktop K = Some desktop"
      by blast
    have name: "length name < UI_STATION_CHARS" "0 \<notin> set name" using assms(5) g(1) by blast+
    have work: "helper_work K (ui_request profile) = (0, Some station, Some desktop)"
      using True g by (simp add: helper_work_def valid chars)
    have fields: "ut_station_name reply = overwrite (name @ [0]) (in_array UI_STATION_CHARS [])" "ut_station reply = station"
      "ut_desktop reply = desktop" "ut_error reply = 0" "ut_version reply = VISJAIL_UI_VERSION" "ut_size reply = UI_TRANSFER_SIZE"
      "ut_profile reply = in_array VISJAIL_UI_PROFILE_CHARS profile"
      using True g unfolding reply helper_reply_def work by (simp_all add: valid chars) (simp_all add: ui_request_def)
    have "wtext (ut_station_name reply) = name" using name(2) by (simp add: fields wtext_def overwrite_def takeWhile_append)
    moreover have "0 \<in> set (ut_station_name reply)" by (simp add: fields overwrite_def)
    moreover have "station \<noteq> 0" "desktop \<noteq> 0" using assms(6) g by blast+
    ultimately show ?thesis using True g work assms(2) by (simp add: check_reply_def fields)
  next
    case False
    have "reply = (ui_request profile)\<lparr>ut_error := fst (helper_work K (ui_request profile))\<rparr>"
      using False unfolding reply helper_reply_def by (auto simp: valid chars helper_work_def split: prod.splits)
    then have "check_reply profile reply \<noteq> None" by (simp add: check_reply_def ui_request_def)
    moreover have "\<not> (\<exists>station desktop. helper_work K (ui_request profile) = (0, Some station, Some desktop)
        \<and> ui_desktop_valid (desktop_seen K) profile (ui_security_init profile))"
      using False by (auto simp: helper_work_def valid chars split: if_splits)
    ultimately show ?thesis by blast
  qed
qed

text \<open>C24: The launcher takes exactly the desktop its helper made for it.  When the helper answers a request, the launcher
  accepts the reply just when the helper had no error, and what it accepts is the helper's own station and a
  desktop with the name of the profile, the three entries of the private access list, protected, and the low
  label.\<close>

theorem launcher_takes_the_private_desktop:
  assumes "helper_main K argv (ui_request profile) = (code, Some reply, closed)"
    and "ui_profile_valid (in_array VISJAIL_UI_PROFILE_CHARS profile)" "length profile = 40" "0 \<notin> set profile"
    and "\<forall>name. own_station K = Some name \<longrightarrow> length name < UI_STATION_CHARS \<and> 0 \<notin> set name"
    and "\<forall>h. open_station K = Some h \<or> create_desktop K = Some h \<longrightarrow> h \<noteq> 0"
  shows "(check_reply profile reply = None) = (\<exists>station desktop. helper_work K (ui_request profile) = (0, Some station, Some desktop)
      \<and> ut_station reply = station \<and> ut_desktop reply = desktop
      \<and> own_station K = Some (wtext (ut_station_name reply))
      \<and> (\<exists>x s. desktop_seen K = Some x \<and> uo_type x = Desktop \<and> uo_name x = profile \<and> uo_security x = Some s
          \<and> us_protected s \<and> us_label s = LowNoWriteUp
          \<and> us_acl s = private_acl profile VISJAIL_UI_HOST_RIGHTS VISJAIL_UI_DESKTOP_RIGHTS False))"
  by (rule reply_accepted [OF assms, unfolded desktop_valid_iff])

text \<open>A helper all of whose calls work.\<close>

definition sample_profile :: wstring where
  "sample_profile = ascii ''visjail.'' @ replicate 32 48"

definition willing_helper :: helper_calls where
  "willing_helper = \<lparr>handle_info = (\<lambda>_. Some True), cleared = True, mapped = True, package_ok = True, own_station = Some [83],
     open_station = Some 5, security_ok = True, create_desktop = Some 6,
     desktop_seen = Some \<lparr>uo_type = Desktop, uo_name = sample_profile, uo_security = Some (ui_security_init sample_profile)\<rparr>,
     helper_error = 0, ready_set = True, acked = True, desktop_closed = True, station_closed = True\<rparr>"

theorem launcher_takes_the_private_desktop_witness:
  "\<exists>reply :: ui_transfer. check_reply sample_profile reply = None \<and> ut_station reply = 5 \<and> ut_desktop reply = 6"
proof -
  let ?argv = "[67] # map (\<lambda>h. ascii (show_nat h)) [12, 2048, 7]"
  have h: "helper_handles (handle_info willing_helper) ?argv = ([12, 2048, 7], True)"
    using inherited_handle_decimal [of _ "handle_info willing_helper"] by (simp add: helper_handles_def willing_helper_def)
  have p: "ui_profile_valid (in_array VISJAIL_UI_PROFILE_CHARS sample_profile)" "length sample_profile = 40" "0 \<notin> set sample_profile"
    by code_simp+
  have v: "ui_desktop_valid (desktop_seen willing_helper) sample_profile (ui_security_init sample_profile)"
    by (simp add: ui_desktop_valid_def ui_object_def willing_helper_def ui_security_init_def)
  have chars: "wtext (ut_profile (ui_request sample_profile)) = sample_profile" "request_valid (ui_request sample_profile)"
    using profile_array [OF p(2,3)] p(1) by (simp_all add: ui_request_def request_valid_def)
  have w: "helper_work willing_helper (ui_request sample_profile) = (0, Some 5, Some 6)"
    using p v by (simp add: helper_work_def request_valid_def chars) (simp add: ui_request_def willing_helper_def)
  have m: "cleared willing_helper" "mapped willing_helper" by (simp_all add: willing_helper_def)
  obtain code reply closed where r: "helper_main willing_helper ?argv (ui_request sample_profile)
      = (code, Some reply, closed)"
    using h m by (simp add: helper_main_def Let_def w)
  have c: "\<forall>name. own_station willing_helper = Some name \<longrightarrow> length name < UI_STATION_CHARS \<and> 0 \<notin> set name"
    "\<forall>h. open_station willing_helper = Some h \<or> create_desktop willing_helper = Some h \<longrightarrow> h \<noteq> 0"
    by (simp_all add: willing_helper_def UI_STATION_CHARS_def)
  have "ut_station reply = 5 \<and> ut_desktop reply = 6 \<and> wtext (ut_station_name reply) = [83]"
  proof -
    have "reply = helper_reply willing_helper (ui_request sample_profile)"
      using r h m by (simp add: helper_main_def Let_def w)
    moreover have "ut_station (helper_reply willing_helper (ui_request sample_profile)) = 5
        \<and> ut_desktop (helper_reply willing_helper (ui_request sample_profile)) = 6
        \<and> wtext (ut_station_name (helper_reply willing_helper (ui_request sample_profile))) = [83]"
      using v by (simp add: helper_reply_def w chars) (simp add: ui_request_def willing_helper_def wtext_def overwrite_def)
    ultimately show ?thesis by simp
  qed
  with launcher_takes_the_private_desktop [OF r p c] w v [unfolded desktop_valid_iff] show ?thesis by (auto simp: willing_helper_def)
qed

end
