(* ===== verification/WinStage.thy ===== *)
theory WinStage
  imports WinLaunch
begin

text \<open>
  Staging and sealing the application of a Windows jail in \<^verbatim>\<open>native/visjail/visjail_windows.c\<close>: a tree of the host
  is copied into the private directory of a context, and the result is closed against writing before the first
  launch.  The tree found on the disk and the answers of Win32 are parameters; the objects created are state.
  Objects are told apart by the spelling of their paths: staging below a directory that was staged in other
  letters, which Windows takes for the same one, is outside the model.
\<close>

section \<open>Objects on the disk\<close>

text \<open>What \<open>GetFileInformationByHandle\<close> and \<open>GetFileType\<close> tell, and a tree as an enumeration finds it.\<close>

record attrs =
  reparse_point :: bool
  on_disk :: bool
  link_count :: nat

datatype source_node = Folder attrs listing | Plain attrs bytes
  and listing = End | Entry wstring source_node listing

text \<open>The access of the package to an object of the jail; a new object inherits until its list is set.\<close>

datatype access = Inherited | NoAccess | ReadExecute | ReadWrite

datatype jail_object = JailDirectory access | JailFile access bytes

fun set_access :: "access \<Rightarrow> jail_object \<Rightarrow> jail_object" where
  "set_access a (JailDirectory _) = JailDirectory a"
| "set_access a (JailFile _ content) = JailFile a content"

fun append_bytes :: "bytes \<Rightarrow> jail_object \<Rightarrow> jail_object" where
  "append_bytes more_bytes (JailDirectory a) = JailDirectory a"
| "append_bytes more_bytes (JailFile a content) = JailFile a (content @ more_bytes)"

record jail_files =
  objects :: "wstring \<Rightarrow> jail_object option"
  pinned :: "wstring list"

definition change :: "wstring \<Rightarrow> (jail_object \<Rightarrow> jail_object) \<Rightarrow> jail_files \<Rightarrow> jail_files" where
  "change path f F = F\<lparr>objects := (objects F)(path := map_option f (objects F path))\<rparr>"

definition create :: "wstring \<Rightarrow> jail_object \<Rightarrow> jail_files \<Rightarrow> jail_files" where
  "create path x F = F\<lparr>objects := (objects F)(path := Some x)\<rparr>"

text \<open>Whether the calls of Win32 on a path succeed; the \<open>n\<close>-th block of a copy; the start of an enumeration and the step
  behind a name.\<close>

datatype first_answer = FirstFound | NothingFound | FirstFailed

record disk_calls =
  opens :: "wstring \<Rightarrow> bool"
  creates :: "wstring \<Rightarrow> bool"
  secures :: "wstring \<Rightarrow> bool"
  lowers :: "wstring \<Rightarrow> bool"
  can_allocate :: "wstring \<Rightarrow> bool"
  can_pin :: "wstring \<Rightarrow> bool"
  find_first :: "wstring \<Rightarrow> first_answer"
  find_next_fails :: "wstring \<Rightarrow> wstring \<Rightarrow> bool"
  reads_block :: "wstring \<Rightarrow> nat \<Rightarrow> bool"
  writes_block :: "wstring \<Rightarrow> nat \<Rightarrow> bool"
  flushes :: "wstring \<Rightarrow> bool"

definition pin :: "disk_calls \<Rightarrow> wstring \<Rightarrow> jail_files \<Rightarrow> bool \<times> jail_files" where
  "pin K path F = (if can_pin K path then (True, F\<lparr>pinned := path # pinned F\<rparr>) else (False, F))"

text \<open>A new private directory: created, opened as a regular directory, secured and pinned.\<close>

definition private_directory :: "disk_calls \<Rightarrow> wstring \<Rightarrow> access \<Rightarrow> jail_files \<Rightarrow> bool \<times> jail_files" where
  "private_directory K path rights F =
     (if \<not> creates K path \<or> objects F path \<noteq> None then (False, F)
      else
        let F1 = create path (JailDirectory Inherited) F in
        if \<not> opens K path then (False, F1)
        else if \<not> secures K path then (False, F1)
        else
          let F2 = change path (set_access rights) F1 in
          if rights = ReadWrite \<and> \<not> lowers K path then (False, F2) else pin K path F2)"

section \<open>Copying a tree\<close>

definition regular_node :: "source_node \<Rightarrow> bool" where
  "regular_node n \<longleftrightarrow>
     (case n of
        Folder a _ \<Rightarrow> on_disk a \<and> \<not> reparse_point a
      | Plain a _ \<Rightarrow> on_disk a \<and> \<not> reparse_point a \<and> link_count a = 1)"

function copy_loop :: "disk_calls \<Rightarrow> wstring \<Rightarrow> wstring \<Rightarrow> nat \<Rightarrow> bytes \<Rightarrow> jail_files \<Rightarrow> bool \<times> jail_files" where
  "copy_loop K source destination n rest F =
     (if \<not> reads_block K source n then (False, F)
      else if rest = [] then (True, F)
      else if \<not> writes_block K destination n then (False, F)
      else copy_loop K source destination (n + 1) (drop 65536 rest) (change destination (append_bytes (take 65536 rest)) F))"
  by pat_completeness auto
termination by (relation "measure (\<lambda>(K, source, destination, n, rest, F). length rest)") auto

declare copy_loop.simps [simp del]

definition copy_file :: "disk_calls \<Rightarrow> wstring \<Rightarrow> wstring \<Rightarrow> bytes \<Rightarrow> jail_files \<Rightarrow> bool \<times> jail_files" where
  "copy_file K source destination content F =
     (if \<not> can_allocate K source then (False, F)
      else if \<not> creates K destination \<or> objects F destination \<noteq> None then (False, F)
      else
        let F1 = create destination (JailFile Inherited []) F in
        if \<not> secures K destination then (False, F1)
        else
          (case copy_loop K source destination 0 content (change destination (set_access NoAccess) F1) of
             (False, F2) \<Rightarrow> (False, F2)
           | (True, F2) \<Rightarrow> (flushes K destination, F2)))"

definition dot_name :: "wstring \<Rightarrow> bool" where
  "dot_name name \<longleftrightarrow> name = ascii ''.'' \<or> name = ascii ''..''"

fun copy_tree :: "disk_calls \<Rightarrow> nat \<Rightarrow> source_node \<Rightarrow> wstring \<Rightarrow> wstring \<Rightarrow> jail_files \<Rightarrow> bool \<times> jail_files"
  and copy_entries :: "disk_calls \<Rightarrow> nat \<Rightarrow> listing \<Rightarrow> wstring \<Rightarrow> wstring \<Rightarrow> jail_files \<Rightarrow> bool \<times> jail_files" where
  "copy_tree K depth n source destination F =
     (if depth > 128 then (False, F)
      else if \<not> opens K source then (False, F)
      else if \<not> regular_node n then (False, F)
      else
        (case n of
           Plain a content \<Rightarrow> copy_file K source destination content F
         | Folder a entries \<Rightarrow>
             (case private_directory K destination NoAccess F of
                (False, F1) \<Rightarrow> (False, F1)
              | (True, F1) \<Rightarrow>
                  if \<not> can_allocate K (join source (ascii ''*'')) then (False, F1)
                  else
                    (case find_first K source of
                       FirstFailed \<Rightarrow> (False, F1)
                     | NothingFound \<Rightarrow> (True, F1)
                     | FirstFound \<Rightarrow> copy_entries K depth entries source destination F1))))"
| "copy_entries K depth End source destination F = (True, F)"
| "copy_entries K depth (Entry name n rest) source destination F =
     (case (if dot_name name then (True, F)
            else if \<not> component name then (False, F)
            else if \<not> can_allocate K (join source name) then (False, F)
            else copy_tree K (depth + 1) n (join source name) (join destination name) F) of
        (False, F1) \<Rightarrow> (False, F1)
      | (True, F1) \<Rightarrow>
          if find_next_fails K source name then (False, F1) else copy_entries K depth rest source destination F1)"

section \<open>Staging\<close>

definition ancestors :: "disk_calls \<Rightarrow> wstring \<Rightarrow> bool" where
  "ancestors K path \<longleftrightarrow> list_all (\<lambda>p. opens K p \<and> can_pin K p) (parent_paths (take 3 path) (drop 3 path))"

definition is_directory :: "jail_object option \<Rightarrow> bool" where
  "is_directory x = (case x of Some (JailDirectory _) \<Rightarrow> True | _ \<Rightarrow> False)"

text \<open>The directories above a destination, made where they are missing; the pins are those of the call.\<close>

fun stage_parents :: "disk_calls \<Rightarrow> wstring list \<Rightarrow> jail_files \<Rightarrow> bool \<times> jail_files" where
  "stage_parents K [] F = (True, F)"
| "stage_parents K (p # ps) F =
     (case (if objects F p = None then private_directory K p NoAccess F else (True, F)) of
        (False, F1) \<Rightarrow> (False, F1)
      | (True, F1) \<Rightarrow>
          if opens K p \<and> is_directory (objects F1 p) \<and> can_pin K p then stage_parents K ps F1 else (False, F1))"

record stage_context = win_context +
  w_files :: jail_files

definition app_of :: "stage_context \<Rightarrow> wstring" where
  "app_of c = join (w_path c) (ascii ''app'')"

definition visjail_windows_stage ::
  "disk_calls \<Rightarrow> (wstring \<Rightarrow> bool) \<Rightarrow> source_node \<Rightarrow> int \<Rightarrow> wstring option \<Rightarrow> wstring option \<Rightarrow>
     (int \<Rightarrow> stage_context option) \<Rightarrow> bool \<times> (int \<Rightarrow> stage_context option)" where
  "visjail_windows_stage K fixed found i source relative contexts =
     (case (contexts i, local_path fixed source, map_option turn_slashes relative) of
        (Some c, Some src, Some rel) \<Rightarrow>
          if w_sealed c \<or> w_poisoned c then (False, contexts)
          else if \<not> relative_path (Some rel) then (False, contexts)
          else if \<not> ancestors K src then (False, contexts)
          else if \<not> can_allocate K (app_of c) \<or> \<not> can_allocate K (join (app_of c) rel) then (False, contexts)
          else
            (case stage_parents K (parent_paths (app_of c @ [BACKSLASH]) rel) (w_files c) of
               (False, F1) \<Rightarrow> (False, contexts(i := Some (c\<lparr>w_files := F1, w_poisoned := True\<rparr>)))
             | (True, F1) \<Rightarrow>
                 (case copy_tree K 0 found src (join (app_of c) rel) F1 of
                    (False, F2) \<Rightarrow> (False, contexts(i := Some (c\<lparr>w_files := F2, w_poisoned := True\<rparr>)))
                  | (True, F2) \<Rightarrow> (True, contexts(i := Some (c\<lparr>w_files := F2\<rparr>)))))
      | _ \<Rightarrow> (False, contexts))"

section \<open>Sealing\<close>

fun seal_tree :: "disk_calls \<Rightarrow> nat \<Rightarrow> source_node \<Rightarrow> wstring \<Rightarrow> jail_files \<Rightarrow> bool \<times> jail_files"
  and seal_entries :: "disk_calls \<Rightarrow> nat \<Rightarrow> listing \<Rightarrow> wstring \<Rightarrow> jail_files \<Rightarrow> bool \<times> jail_files" where
  "seal_tree K depth n path F =
     (if depth > 128 then (False, F)
      else if \<not> opens K path then (False, F)
      else if \<not> regular_node n then (False, F)
      else if \<not> secures K path then (False, F)
      else
        (case pin K path (change path (set_access ReadExecute) F) of
           (False, F1) \<Rightarrow> (False, F1)
         | (True, F1) \<Rightarrow>
             (case n of
                Plain a content \<Rightarrow> (True, F1)
              | Folder a entries \<Rightarrow>
                  if \<not> can_allocate K (join path (ascii ''*'')) then (False, F1)
                  else
                    (case find_first K path of
                       FirstFailed \<Rightarrow> (False, F1)
                     | NothingFound \<Rightarrow> (True, F1)
                     | FirstFound \<Rightarrow> seal_entries K depth entries path F1))))"
| "seal_entries K depth End path F = (True, F)"
| "seal_entries K depth (Entry name n rest) path F =
     (case (if dot_name name then (True, F)
            else if \<not> component name \<or> \<not> can_allocate K (join path name) then (False, F)
            else seal_tree K (depth + 1) n (join path name) F) of
        (False, F1) \<Rightarrow> (False, F1)
      | (True, F1) \<Rightarrow>
          if find_next_fails K path name then (False, F1) else seal_entries K depth rest path F1)"

definition visjail_windows_seal ::
  "disk_calls \<Rightarrow> source_node \<Rightarrow> int \<Rightarrow> (int \<Rightarrow> stage_context option) \<Rightarrow> bool \<times> (int \<Rightarrow> stage_context option)" where
  "visjail_windows_seal K found i contexts =
     (case contexts i of
        None \<Rightarrow> (False, contexts)
      | Some c \<Rightarrow>
          if w_poisoned c then (False, contexts)
          else if w_sealed c then (True, contexts)
          else if \<not> can_allocate K (app_of c) then (False, contexts(i := Some (c\<lparr>w_poisoned := True\<rparr>)))
          else
            (case seal_tree K 0 found (app_of c) (w_files c) of
               (False, F1) \<Rightarrow> (False, contexts(i := Some (c\<lparr>w_files := F1, w_poisoned := True\<rparr>)))
             | (True, F1) \<Rightarrow> (True, contexts(i := Some (c\<lparr>w_files := F1, w_sealed := True\<rparr>)))))"

section \<open>The directories of a new context\<close>

text \<open>The chain of directories Windows redirects the package to; each name is joined to the one before.\<close>

fun temporary_loop :: "disk_calls \<Rightarrow> wstring \<Rightarrow> wstring list \<Rightarrow> jail_files \<Rightarrow> bool \<times> jail_files" where
  "temporary_loop K path [] F = (True, F)"
| "temporary_loop K path (part # parts) F =
     (if \<not> can_allocate K (join path part) then (False, F)
      else
        (case private_directory K (join path part) ReadWrite F of
           (False, F1) \<Rightarrow> (False, F1)
         | (True, F1) \<Rightarrow> temporary_loop K (join path part) parts F1))"

definition private_temporary_directories :: "disk_calls \<Rightarrow> wstring \<Rightarrow> wstring \<Rightarrow> jail_files \<Rightarrow> bool \<times> jail_files" where
  "private_temporary_directories K profile tmp F =
     temporary_loop K tmp [ascii ''Packages'', profile, ascii ''AC'', ascii ''Temp''] F"

definition context_directories :: "disk_calls \<Rightarrow> wstring \<Rightarrow> wstring \<Rightarrow> jail_files \<Rightarrow> bool \<times> jail_files" where
  "context_directories K path profile F =
     (let app = join path (ascii ''app''); work = join path (ascii ''work''); tmp = join path (ascii ''tmp'') in
      if \<not> list_all (can_allocate K) [app, work, tmp] then (False, F)
      else
        (case private_directory K app NoAccess F of
           (False, F1) \<Rightarrow> (False, F1)
         | (True, F1) \<Rightarrow>
             (case private_directory K work ReadWrite F1 of
                (False, F2) \<Rightarrow> (False, F2)
              | (True, F2) \<Rightarrow>
                  (case private_directory K tmp ReadWrite F2 of
                     (False, F3) \<Rightarrow> (False, F3)
                   | (True, F3) \<Rightarrow> private_temporary_directories K profile tmp F3))))"

section \<open>Lemmas on copying\<close>

text \<open>The objects a copied tree consists of.\<close>

fun tree_map :: "source_node \<Rightarrow> wstring \<Rightarrow> wstring \<Rightarrow> jail_object option"
  and entries_map :: "listing \<Rightarrow> wstring \<Rightarrow> wstring \<Rightarrow> jail_object option" where
  "tree_map (Plain a content) destination = [destination \<mapsto> JailFile NoAccess content]"
| "tree_map (Folder a entries) destination = [destination \<mapsto> JailDirectory NoAccess] ++ entries_map entries destination"
| "entries_map End destination = Map.empty"
| "entries_map (Entry name n rest) destination =
     (if dot_name name then Map.empty else tree_map n (join destination name)) ++ entries_map rest destination"

text \<open>A tree of regular objects with plain names, at most so deep.\<close>

fun clean_tree :: "nat \<Rightarrow> source_node \<Rightarrow> bool" and clean_entries :: "nat \<Rightarrow> listing \<Rightarrow> bool" where
  "clean_tree depth n \<longleftrightarrow> depth \<le> 128 \<and> regular_node n \<and> (case n of Plain a content \<Rightarrow> True | Folder a entries \<Rightarrow> clean_entries depth entries)"
| "clean_entries depth End \<longleftrightarrow> True"
| "clean_entries depth (Entry name n rest) \<longleftrightarrow>
     (dot_name name \<or> plain_name name \<and> clean_tree (depth + 1) n) \<and> clean_entries depth rest"

text \<open>Documented of Win32: the enumeration of a folder finds at least its dot entries.\<close>

definition enumerates :: "disk_calls \<Rightarrow> bool" where
  "enumerates K \<longleftrightarrow> (\<forall>p. find_first K p \<noteq> NothingFound)"

lemma private_directory_made:
  assumes "private_directory K path rights F = (True, F')"
  shows "objects F path = None" "objects F' = (objects F)(path \<mapsto> JailDirectory rights)" "pinned F' = path # pinned F"
  using assms
  by (auto simp: private_directory_def pin_def create_def change_def Let_def split: if_splits)

lemma copy_loop_appends:
  "copy_loop K source destination n rest F = (True, F') \<Longrightarrow> objects F destination = Some (JailFile a content) \<Longrightarrow>
     objects F' = (objects F)(destination \<mapsto> JailFile a (content @ rest)) \<and> pinned F' = pinned F"
proof (induction K source destination n rest F arbitrary: content rule: copy_loop.induct)
  case (1 K source destination n rest F)
  show ?case
  proof (cases "rest = []")
    case True
    with 1 show ?thesis by (subst (asm) copy_loop.simps) (auto split: if_splits)
  next
    case False
    let ?F = "change destination (append_bytes (take 65536 rest)) F"
    from False 1(2) have c: "reads_block K source n" "writes_block K destination n"
        "copy_loop K source destination (n + 1) (drop 65536 rest) ?F = (True, F')"
      by (subst (asm) copy_loop.simps, simp split: if_splits)+
    have "objects ?F destination = Some (JailFile a (content @ take 65536 rest))" using 1(3) by (simp add: change_def)
    with 1(1) [of "content @ take 65536 rest"] c False show ?thesis by (auto simp: change_def)
  qed
qed

lemma copy_file_made:
  assumes "copy_file K source destination content F = (True, F')"
  shows "objects F destination = None \<and> objects F' = (objects F)(destination \<mapsto> JailFile NoAccess content) \<and> pinned F' = pinned F"
proof -
  let ?F = "change destination (set_access NoAccess) (create destination (JailFile Inherited []) F)"
  from assms obtain F2 where c: "objects F destination = None" "copy_loop K source destination 0 content ?F = (True, F2)" "F' = F2"
    by (auto simp: copy_file_def Let_def split: if_splits prod.splits bool.splits)
  have "objects ?F destination = Some (JailFile NoAccess [])" by (simp add: change_def create_def)
  from copy_loop_appends [OF c(2) this] c show ?thesis by (auto simp: change_def create_def)
qed

text \<open>Adding objects where there were none.\<close>

definition adds :: "(wstring \<Rightarrow> jail_object option) \<Rightarrow> jail_files \<Rightarrow> jail_files \<Rightarrow> bool" where
  "adds m F F' \<longleftrightarrow> objects F' = objects F ++ m \<and> dom m \<inter> dom (objects F) = {} \<and> set (pinned F) \<subseteq> set (pinned F')"

lemma adds_nothing [simp]: "adds Map.empty F F"
  by (simp add: adds_def)

lemma adds_one:
  "objects F p = None \<Longrightarrow> objects F' = (objects F)(p \<mapsto> x) \<Longrightarrow> set (pinned F) \<subseteq> set (pinned F') \<Longrightarrow> adds [p \<mapsto> x] F F'"
  by (auto simp: adds_def)

lemma adds_trans: "adds m F F1 \<Longrightarrow> adds m' F1 F2 \<Longrightarrow> adds (m ++ m') F F2"
  unfolding adds_def by auto

lemma private_directory_adds:
  "private_directory K path rights F = (True, F') \<Longrightarrow> adds [path \<mapsto> JailDirectory rights] F F'"
  using private_directory_made [of K path rights F F'] by (auto simp: adds_def)

lemma copy_tree_made:
  "copy_tree K d n source destination F = (True, F') \<Longrightarrow> enumerates K \<Longrightarrow>
     adds (tree_map n destination) F F' \<and> clean_tree d n"
  "copy_entries K d entries source destination F = (True, F') \<Longrightarrow> enumerates K \<Longrightarrow>
     adds (entries_map entries destination) F F' \<and> clean_entries d entries"
proof (induction K d n source destination F and K d entries source destination F arbitrary: F' and F'
    rule: copy_tree_copy_entries.induct)
  case (1 K depth n source destination F)
  have c: "depth \<le> 128" "opens K source" "regular_node n" using 1(2) by (auto split: if_splits)
  show ?case
  proof (cases n)
    case (Plain a content)
    with 1(2) c have "copy_file K source destination content F = (True, F')" by simp
    from copy_file_made [OF this] have "adds [destination \<mapsto> JailFile NoAccess content] F F'" by (intro adds_one) simp_all
    moreover have "tree_map n destination = [destination \<mapsto> JailFile NoAccess content]" by (simp add: Plain fun_eq_iff)
    ultimately have "adds (tree_map n destination) F F'" by simp
    with Plain c show ?thesis by (simp del: tree_map.simps)
  next
    case (Folder a entries)
    from 1(2) c Folder obtain F1 where F1: "private_directory K destination NoAccess F = (True, F1)"
      by (auto split: prod.splits bool.splits)
    with 1(2,3) c Folder have e: "can_allocate K (join source (ascii ''*''))" "find_first K source = FirstFound"
        "copy_entries K depth entries source destination F1 = (True, F')"
      by (auto simp: enumerates_def split: if_splits first_answer.splits)
    from 1(1) [OF _ _ _ Folder F1 [symmetric] _ _ e(2) e(3)] c e 1(3)
    have "adds (entries_map entries destination) F1 F' \<and> clean_entries depth entries" by simp
    with adds_trans [OF private_directory_adds [OF F1]] Folder c show ?thesis by simp
  qed
next
  case (3 K depth name n rest source destination F)
  show ?case
  proof (cases "dot_name name")
    case True
    with 3(3) have "copy_entries K depth rest source destination F = (True, F')" by (auto split: if_splits)
    with 3(2) [of True F] 3(3,4) True show ?thesis by (auto split: if_splits)
  next
    case False
    from 3(3) False obtain F1 where F1: "component name" "can_allocate K (join source name)"
        "copy_tree K (depth + 1) n (join source name) (join destination name) F = (True, F1)"
        "\<not> find_next_fails K source name" "copy_entries K depth rest source destination F1 = (True, F')"
      by (auto split: if_splits prod.splits bool.splits)
    have "adds (tree_map n (join destination name)) F F1 \<and> clean_tree (depth + 1) n"
      using 3(1) [OF False] F1 3(4) by simp
    moreover have "adds (entries_map rest destination) F1 F' \<and> clean_entries depth rest"
      using 3(2) [of True F1] F1 False 3(4) by simp
    ultimately show ?thesis using adds_trans False component_plain [OF F1(1)] by auto
  qed
qed auto

section \<open>Where objects lie\<close>

definition under :: "wstring \<Rightarrow> wstring \<Rightarrow> bool" where
  "under d p \<longleftrightarrow> p = d \<or> (\<exists>q. p = join d q)"

lemma under_refl [simp]: "under d d"
  by (simp add: under_def)

lemma under_join: "under (join d q) p \<Longrightarrow> under d p"
  by (auto simp: under_def join_def)

fun access_of :: "jail_object \<Rightarrow> access" where
  "access_of (JailDirectory a) = a"
| "access_of (JailFile a content) = a"

lemma access_set [simp]: "access_of (set_access a x) = a" "set_access a (set_access b x) = set_access a x"
  "access_of x = a \<Longrightarrow> set_access a x = x"
  by (cases x; auto)+

lemma set_access_file: "set_access a x = JailFile b content \<longleftrightarrow> b = a \<and> (\<exists>b'. x = JailFile b' content)"
  by (cases x) auto

lemma tree_map_under:
  "tree_map n d p = Some x \<Longrightarrow> under d p \<and> access_of x = NoAccess"
  "entries_map entries d p = Some x \<Longrightarrow> under d p \<and> access_of x = NoAccess"
proof (induction n d and entries d arbitrary: p x and p x rule: tree_map_entries_map.induct)
  case (4 name n rest d)
  then show ?case by (auto simp: map_add_Some_iff dest: under_join split: if_splits)
qed (auto simp: map_add_Some_iff split: if_splits)

lemma parent_paths_under: "p \<in> set (parent_paths before rest) \<Longrightarrow> \<exists>q. p = before @ q"
  by (induction before rest rule: parent_paths.induct) (force split: if_splits)+

lemma stage_parents_adds:
  "stage_parents K ps F = (True, F') \<Longrightarrow> \<exists>m. adds m F F' \<and> (\<forall>p x. m p = Some x \<longrightarrow> p \<in> set ps \<and> x = JailDirectory NoAccess)"
proof (induction ps arbitrary: F)
  case Nil
  then show ?case by (intro exI [where x = Map.empty]) simp
next
  case (Cons p ps)
  obtain F1 where F1: "(if objects F p = None then private_directory K p NoAccess F else (True, F)) = (True, F1)"
      "stage_parents K ps F1 = (True, F')"
    using Cons.prems by (auto split: prod.splits bool.splits if_splits)
  define m1 where "m1 = (if objects F p = None then [p \<mapsto> JailDirectory NoAccess] else Map.empty)"
  have "adds m1 F F1" using F1(1) private_directory_adds by (auto simp: m1_def split: if_splits)
  moreover obtain m where "adds m F1 F'" "\<forall>p x. m p = Some x \<longrightarrow> p \<in> set ps \<and> x = JailDirectory NoAccess"
    using Cons.IH [OF F1(2)] by blast
  moreover have "\<forall>q x. m1 q = Some x \<longrightarrow> q = p \<and> x = JailDirectory NoAccess" by (simp add: m1_def)
  ultimately show ?case
    by (intro exI [where x = "m1 ++ m"]) (auto simp: map_add_Some_iff intro: adds_trans)
qed

section \<open>Lemmas on sealing\<close>

fun node_paths :: "source_node \<Rightarrow> wstring \<Rightarrow> wstring set" and entry_paths :: "listing \<Rightarrow> wstring \<Rightarrow> wstring set" where
  "node_paths (Plain a content) path = {path}"
| "node_paths (Folder a entries) path = insert path (entry_paths entries path)"
| "entry_paths End path = {}"
| "entry_paths (Entry name n rest) path = (if dot_name name then {} else node_paths n (join path name)) \<union> entry_paths rest path"

definition seals :: "wstring set \<Rightarrow> jail_files \<Rightarrow> jail_files \<Rightarrow> bool" where
  "seals P F F' \<longleftrightarrow> objects F' = (\<lambda>p. if p \<in> P then map_option (set_access ReadExecute) (objects F p) else objects F p)
     \<and> P \<union> set (pinned F) \<subseteq> set (pinned F')"

lemma seals_trans: "seals P F F1 \<Longrightarrow> seals Q F1 F2 \<Longrightarrow> seals (P \<union> Q) F F2"
  by (auto simp: seals_def fun_eq_iff option.map_comp comp_def)

lemma seal_tree_seals:
  "seal_tree K d n path F = (True, F') \<Longrightarrow> enumerates K \<Longrightarrow> seals (node_paths n path) F F' \<and> clean_tree d n"
  "seal_entries K d entries path F = (True, F') \<Longrightarrow> enumerates K \<Longrightarrow> seals (entry_paths entries path) F F' \<and> clean_entries d entries"
proof (induction K d n path F and K d entries path F arbitrary: F' and F' rule: seal_tree_seal_entries.induct)
  case (1 K depth n path F)
  have c: "depth \<le> 128" "opens K path" "regular_node n" "secures K path" using 1(2) by (auto split: if_splits)
  with 1(2) obtain F1 where F1: "pin K path (change path (set_access ReadExecute) F) = (True, F1)"
    by (auto split: prod.splits bool.splits)
  then have s: "seals {path} F F1" by (auto simp: pin_def seals_def change_def fun_eq_iff split: if_splits)
  show ?case
  proof (cases n)
    case (Plain a content)
    with 1(2) c F1 have "F' = F1" by simp
    with s Plain c show ?thesis by simp
  next
    case (Folder a entries)
    with 1(2,3) c F1 have e: "can_allocate K (join path (ascii ''*''))" "find_first K path = FirstFound"
        "seal_entries K depth entries path F1 = (True, F')"
      by (auto simp: enumerates_def split: if_splits first_answer.splits)
    have "seals (entry_paths entries path) F1 F' \<and> clean_entries depth entries"
      using 1(1) [of True F1 a entries F'] F1 Folder c e 1(3) by simp
    with seals_trans [OF s] Folder c show ?thesis by (metis clean_tree.simps insert_is_Un linorder_not_le node_paths.simps(2) source_node.simps(5))
  qed
next
  case (3 K depth name n rest path F)
  show ?case
  proof (cases "dot_name name")
    case True
    with 3(2) [of True F] 3(3,4) show ?thesis by (auto split: if_splits)
  next
    case False
    from 3(3) False obtain F1 where F1: "component name" "can_allocate K (join path name)"
        "seal_tree K (depth + 1) n (join path name) F = (True, F1)"
        "\<not> find_next_fails K path name" "seal_entries K depth rest path F1 = (True, F')"
      by (auto split: if_splits prod.splits bool.splits)
    have "seals (node_paths n (join path name)) F F1 \<and> clean_tree (depth + 1) n"
      using 3(1) [OF False] F1 3(4) by simp
    moreover have "seals (entry_paths rest path) F1 F' \<and> clean_entries depth rest"
      using 3(2) [of True F1] F1 False 3(4) by simp
    ultimately show ?thesis using seals_trans False component_plain [OF F1(1)] by auto
  qed
qed (auto simp: seals_def)

section \<open>Contexts over time\<close>

definition fresh_context :: "wstring \<Rightarrow> jail_files \<Rightarrow> stage_context" where
  "fresh_context path F = \<lparr>w_path = path, w_sealed = False, w_poisoned = False, w_files = F\<rparr>"

text \<open>The second component lists the trees staged with success: context, tree and destination.  The tree a seal
  finds names every object of the application, as the documented enumeration of a pinned directory does.\<close>

type_synonym stage_state = "(int \<Rightarrow> stage_context option) \<times> (int \<times> source_node \<times> wstring) list"

inductive stage_step :: "stage_state \<Rightarrow> stage_state \<Rightarrow> bool" where
  Create: "contexts i = None \<Longrightarrow> \<forall>e \<in> set hist. fst e \<noteq> i \<Longrightarrow>
    context_directories K path profile \<lparr>objects = Map.empty, pinned = []\<rparr> = (True, F) \<Longrightarrow>
    stage_step (contexts, hist) (contexts(i := Some (fresh_context path F)), hist)"
| Staged: "contexts i = Some c \<Longrightarrow> enumerates K \<Longrightarrow>
    visjail_windows_stage K fixed found i source (Some rel) contexts = (True, contexts') \<Longrightarrow>
    stage_step (contexts, hist) (contexts', (i, found, join (app_of c) (turn_slashes rel)) # hist)"
| StageFailed: "visjail_windows_stage K fixed found i source rel contexts = (False, contexts') \<Longrightarrow>
    stage_step (contexts, hist) (contexts', hist)"
| Sealing: "enumerates K \<Longrightarrow>
    \<forall>c. contexts i = Some c \<longrightarrow> (\<forall>p. objects (w_files c) p \<noteq> None \<and> under (app_of c) p \<longrightarrow> p \<in> node_paths found (app_of c)) \<Longrightarrow>
    visjail_windows_seal K found i contexts = (ok, contexts') \<Longrightarrow>
    stage_step (contexts, hist) (contexts', hist)"
| Closing: "contexts i = Some c \<Longrightarrow>
    stage_step (contexts, hist) (contexts(i := Some (c\<lparr>w_poisoned := True\<rparr>)), hist)"
| Removed: "stage_step (contexts, hist) (contexts(i := None), hist)"

definition reachable_contexts :: "stage_state \<Rightarrow> bool" where
  "reachable_contexts S \<longleftrightarrow> stage_step\<^sup>*\<^sup>* (Map.empty, []) S"

definition app_access :: "stage_context \<Rightarrow> access" where
  "app_access c = (if w_sealed c then ReadExecute else NoAccess)"

text \<open>Every object of the application has the one access, and is pinned once sealed.\<close>

definition app_closed :: "stage_context \<Rightarrow> bool" where
  "app_closed c \<longleftrightarrow> (\<forall>p x. objects (w_files c) p = Some x \<and> under (app_of c) p \<longrightarrow>
     access_of x = app_access c \<and> (w_sealed c \<longrightarrow> p \<in> set (pinned (w_files c))))"

text \<open>The package writes in the working and the temporary directories only.\<close>

definition writable_outside :: "stage_context \<Rightarrow> bool" where
  "writable_outside c \<longleftrightarrow> (\<forall>p x. objects (w_files c) p = Some x \<and> \<not> under (app_of c) p \<longrightarrow>
     x = JailDirectory ReadWrite \<and> (under (join (w_path c) (ascii ''work'')) p \<or> under (join (w_path c) (ascii ''tmp'')) p))"

text \<open>The staged trees are there as they were found, and no other file is.\<close>

definition holds_trees :: "(source_node \<times> wstring) set \<Rightarrow> stage_context \<Rightarrow> bool" where
  "holds_trees ts c \<longleftrightarrow>
     (\<forall>(n, d) \<in> ts. clean_tree 0 n \<and> (\<forall>p x. tree_map n d p = Some x \<longrightarrow> objects (w_files c) p = Some (set_access (app_access c) x)))
     \<and> (\<forall>p a content. objects (w_files c) p = Some (JailFile a content) \<longrightarrow>
          (\<exists>(n, d) \<in> ts. tree_map n d p = Some (JailFile NoAccess content)))"

definition trees_of :: "int \<Rightarrow> (int \<times> source_node \<times> wstring) list \<Rightarrow> (source_node \<times> wstring) set" where
  "trees_of i hist = {t. (i, t) \<in> set hist}"

definition context_ok :: "(source_node \<times> wstring) set \<Rightarrow> stage_context \<Rightarrow> bool" where
  "context_ok ts c \<longleftrightarrow> \<not> w_poisoned c \<longrightarrow> app_closed c \<and> writable_outside c \<and> holds_trees ts c"

definition contexts_ok :: "stage_state \<Rightarrow> bool" where
  "contexts_ok S \<longleftrightarrow> (\<forall>i c. fst S i = Some c \<longrightarrow> context_ok (trees_of i (snd S)) c)"

lemma context_ok_poisoned [simp]: "context_ok ts (c\<lparr>w_poisoned := True\<rparr>)" "w_poisoned c \<Longrightarrow> context_ok ts c"
  by (simp_all add: context_ok_def)

lemma trees_of_Cons [simp]: "trees_of i ((j, t) # hist) = (if i = j then insert t (trees_of i hist) else trees_of i hist)"
  by (auto simp: trees_of_def)

lemma app_not_under: "\<not> under (join w (ascii ''app'')) p \<or> (\<not> under (join w (ascii ''work'')) p \<and> \<not> under (join w (ascii ''tmp'')) p)"
  by (auto simp: under_def join_def ascii_def BACKSLASH_def)

text \<open>A new context.\<close>

lemma temporary_loop_adds:
  "temporary_loop K path parts F = (True, F') \<Longrightarrow>
     \<exists>m. adds m F F' \<and> (\<forall>p x. m p = Some x \<longrightarrow> under path p \<and> x = JailDirectory ReadWrite)"
proof (induction parts arbitrary: path F)
  case Nil
  then show ?case by (intro exI [where x = Map.empty]) simp
next
  case (Cons part parts)
  obtain F1 where F1: "private_directory K (join path part) ReadWrite F = (True, F1)" "temporary_loop K (join path part) parts F1 = (True, F')"
    using Cons.prems by (auto split: prod.splits bool.splits if_splits)
  obtain m where m: "adds m F1 F'" "\<forall>p x. m p = Some x \<longrightarrow> under (join path part) p \<and> x = JailDirectory ReadWrite"
    using Cons.IH [OF F1(2)] by blast
  from adds_trans [OF private_directory_adds [OF F1(1)] m(1)] m(2) show ?case
    by (intro exI [where x = "[join path part \<mapsto> JailDirectory ReadWrite] ++ m"])
      (auto simp: map_add_Some_iff under_def [of path "join path part"] dest: under_join split: if_splits)
qed

lemma fresh_directories:
  assumes "context_directories K path profile \<lparr>objects = Map.empty, pinned = []\<rparr> = (True, F)" "objects F p = Some x"
  shows "(p = join path (ascii ''app'') \<and> x = JailDirectory NoAccess)
    \<or> (\<not> under (join path (ascii ''app'')) p \<and> x = JailDirectory ReadWrite
         \<and> (under (join path (ascii ''work'')) p \<or> under (join path (ascii ''tmp'')) p))"
proof -
  let ?app = "join path (ascii ''app'')" and ?work = "join path (ascii ''work'')" and ?tmp = "join path (ascii ''tmp'')"
  let ?F = "\<lparr>objects = Map.empty, pinned = []\<rparr>"
  obtain F1 F2 F3 where d: "private_directory K ?app NoAccess ?F = (True, F1)" "private_directory K ?work ReadWrite F1 = (True, F2)"
      "private_directory K ?tmp ReadWrite F2 = (True, F3)" "private_temporary_directories K profile ?tmp F3 = (True, F)"
    using assms(1) by (auto simp: context_directories_def Let_def split: prod.splits bool.splits if_splits)
  obtain m where m: "adds m F3 F" "\<forall>p x. m p = Some x \<longrightarrow> under ?tmp p \<and> x = JailDirectory ReadWrite"
    using temporary_loop_adds d(4) unfolding private_temporary_directories_def by blast
  have o: "objects F = [?app \<mapsto> JailDirectory NoAccess, ?work \<mapsto> JailDirectory ReadWrite, ?tmp \<mapsto> JailDirectory ReadWrite] ++ m"
    using m(1) private_directory_made(2) [OF d(1)] private_directory_made(2) [OF d(2)] private_directory_made(2) [OF d(3)]
    by (simp add: adds_def)
  then show ?thesis
    using m(2) app_not_under [of path p] assms(2) by (auto simp: map_add_Some_iff split: if_splits)
qed

lemma fresh_context_ok:
  assumes "context_directories K path profile \<lparr>objects = Map.empty, pinned = []\<rparr> = (True, F)"
  shows "context_ok {} (fresh_context path F)"
  using fresh_directories [OF assms]
  by (fastforce simp: context_ok_def app_closed_def writable_outside_def holds_trees_def fresh_context_def app_of_def app_access_def)

text \<open>Staging.\<close>

lemma context_ok_adds:
  assumes "context_ok ts c" "\<not> w_sealed c" "\<not> w_poisoned c" "adds m (w_files c) F"
    and m: "\<forall>p x. m p = Some x \<longrightarrow> under (app_of c) p \<and> access_of x = NoAccess"
    and t: "clean_tree 0 n" "\<forall>p x. tree_map n d p = Some x \<longrightarrow> m p = Some x"
      "\<forall>p a content. m p = Some (JailFile a content) \<longrightarrow> tree_map n d p = Some (JailFile NoAccess content)"
  shows "context_ok (insert (n, d) ts) (c\<lparr>w_files := F\<rparr>)"
proof -
  let ?c = "c\<lparr>w_files := F\<rparr>"
  have same: "app_of ?c = app_of c" "app_access ?c = NoAccess" "app_access c = NoAccess"
    using assms(2) by (simp_all add: app_of_def app_access_def)
  have C: "app_closed c" "writable_outside c" "holds_trees ts c" using assms(1,3) by (simp_all add: context_ok_def)
  have o: "objects F = objects (w_files c) ++ m" "dom m \<inter> dom (objects (w_files c)) = {}"
    using assms(4) by (simp_all add: adds_def)
  have cases: "objects F p = Some x \<longleftrightarrow> m p = Some x \<or> objects (w_files c) p = Some x" for p x
    using o by (auto simp: map_add_Some_iff dom_def)
  have "app_closed ?c"
    using C(1) m assms(2) unfolding app_closed_def by (auto simp: same cases)
  moreover have "writable_outside ?c"
    using C(2) m unfolding writable_outside_def by (auto simp: same cases)
  moreover have "holds_trees (insert (n, d) ts) ?c"
    unfolding holds_trees_def
  proof (intro conjI allI impI ballI)
    fix u assume u: "u \<in> insert (n, d) ts"
    show "case u of (n, d) \<Rightarrow> clean_tree 0 n \<and> (\<forall>p x. tree_map n d p = Some x \<longrightarrow>
        objects (w_files ?c) p = Some (set_access (app_access ?c) x))"
    proof (cases "u = (n, d)")
      case True
      have "set_access NoAccess x = x" if "tree_map n d p = Some x" for p x
        by (rule access_set(3)) (use that t(2) m in blast)
      with True t(1,2) show ?thesis by (simp add: same cases del: clean_tree.simps)
    next
      case False
      with u C(3) show ?thesis unfolding holds_trees_def by (fastforce simp: same cases)
    qed
  next
    fix p a content assume "objects (w_files ?c) p = Some (JailFile a content)"
    then have "m p = Some (JailFile a content) \<or> objects (w_files c) p = Some (JailFile a content)" by (simp add: cases)
    with t(3) C(3) show "\<exists>(n, d) \<in> insert (n, d) ts. tree_map n d p = Some (JailFile NoAccess content)"
      unfolding holds_trees_def by blast
  qed
  ultimately show ?thesis by (simp add: context_ok_def)
qed

text \<open>What a successful stage did.\<close>

lemma stage_made:
  assumes "contexts i = Some c" "enumerates K"
    "visjail_windows_stage K fixed found i source (Some rel) contexts = (True, contexts')"
  shows "\<exists>m F. contexts' = contexts(i := Some (c\<lparr>w_files := F\<rparr>)) \<and> \<not> w_sealed c \<and> \<not> w_poisoned c \<and> adds m (w_files c) F
    \<and> clean_tree 0 found \<and> (\<forall>p x. m p = Some x \<longrightarrow> under (app_of c) p \<and> access_of x = NoAccess)
    \<and> (\<forall>p x. tree_map found (join (app_of c) (turn_slashes rel)) p = Some x \<longrightarrow> m p = Some x)
    \<and> (\<forall>p a content. m p = Some (JailFile a content) \<longrightarrow>
         tree_map found (join (app_of c) (turn_slashes rel)) p = Some (JailFile NoAccess content))
    \<and> (\<forall>p x. m p = Some x \<longrightarrow> p \<in> set (parent_paths (app_of c @ [BACKSLASH]) (turn_slashes rel))
         \<or> tree_map found (join (app_of c) (turn_slashes rel)) p = Some x)"
proof -
  let ?d = "join (app_of c) (turn_slashes rel)"
  obtain src F1 F2 where s: "local_path fixed source = Some src" "\<not> w_sealed c" "\<not> w_poisoned c"
      "stage_parents K (parent_paths (app_of c @ [BACKSLASH]) (turn_slashes rel)) (w_files c) = (True, F1)"
      "copy_tree K 0 found src ?d F1 = (True, F2)" "contexts' = contexts(i := Some (c\<lparr>w_files := F2\<rparr>))"
    using assms(1,3)
    by (auto simp: visjail_windows_stage_def simp del: copy_tree.simps split: if_splits option.splits prod.splits bool.splits)
  obtain m0 where m0: "adds m0 (w_files c) F1"
      "\<forall>p x. m0 p = Some x \<longrightarrow> p \<in> set (parent_paths (app_of c @ [BACKSLASH]) (turn_slashes rel)) \<and> x = JailDirectory NoAccess"
    using stage_parents_adds [OF s(4)] by blast
  have u: "\<forall>p x. m0 p = Some x \<longrightarrow> under (app_of c) p \<and> x = JailDirectory NoAccess"
    using m0(2) parent_paths_under by (fastforce simp: under_def join_def)
  have T: "adds (tree_map found ?d) F1 F2" "clean_tree 0 found" using copy_tree_made(1) [OF s(5) assms(2)] by simp_all
  have k: "\<forall>p x. tree_map found ?d p = Some x \<longrightarrow> under (app_of c) p \<and> access_of x = NoAccess"
    using tree_map_under(1) under_join by blast
  let ?m = "m0 ++ tree_map found ?d"
  have "\<forall>p x. ?m p = Some x \<longrightarrow> under (app_of c) p \<and> access_of x = NoAccess"
    using u k by (fastforce simp: map_add_Some_iff)
  moreover have "\<forall>p x. tree_map found ?d p = Some x \<longrightarrow> ?m p = Some x" by (simp add: map_add_Some_iff)
  moreover have "\<forall>p a content. ?m p = Some (JailFile a content) \<longrightarrow> tree_map found ?d p = Some (JailFile NoAccess content)"
    using u k by (fastforce simp: map_add_Some_iff)
  moreover have "\<forall>p x. ?m p = Some x \<longrightarrow> p \<in> set (parent_paths (app_of c @ [BACKSLASH]) (turn_slashes rel)) \<or> tree_map found ?d p = Some x"
    using m0(2) by (auto simp: map_add_Some_iff)
  ultimately show ?thesis using s(2,3,6) adds_trans [OF m0(1) T(1)] T(2) by blast
qed

text \<open>Whatever fails halfway poisons its context.\<close>

lemma stage_failed:
  "visjail_windows_stage K fixed found i source rel contexts = (False, contexts') \<Longrightarrow>
     contexts' = contexts \<or> (\<exists>c. contexts' = contexts(i := Some c) \<and> w_poisoned c)"
  by (auto simp: visjail_windows_stage_def simp del: copy_tree.simps split: if_splits option.splits prod.splits bool.splits)

lemma seal_failed:
  "visjail_windows_seal K found i contexts = (False, contexts') \<Longrightarrow>
     contexts' = contexts \<or> (\<exists>c. contexts' = contexts(i := Some c) \<and> w_poisoned c)"
  by (auto simp: visjail_windows_seal_def simp del: seal_tree.simps split: if_splits option.splits prod.splits bool.splits)

lemma seal_made:
  assumes "visjail_windows_seal K found i contexts = (ok, contexts')" "enumerates K"
  shows "contexts' = contexts \<or> (\<exists>c. contexts' = contexts(i := Some c) \<and> w_poisoned c)
    \<or> (\<exists>c F. contexts i = Some c \<and> \<not> w_poisoned c \<and> \<not> w_sealed c \<and> contexts' = contexts(i := Some (c\<lparr>w_files := F, w_sealed := True\<rparr>))
         \<and> seals (node_paths found (app_of c)) (w_files c) F)"
  using assms seal_tree_seals(1)
  by (auto simp: visjail_windows_seal_def simp del: seal_tree.simps split: if_splits option.splits prod.splits bool.splits)

lemma context_ok_seal:
  assumes "context_ok ts c" "\<not> w_sealed c" "\<not> w_poisoned c" "seals P (w_files c) F"
    "\<forall>p. objects (w_files c) p \<noteq> None \<and> under (app_of c) p \<longrightarrow> p \<in> P" "\<forall>p \<in> P. under (app_of c) p"
  shows "context_ok ts (c\<lparr>w_files := F, w_sealed := True\<rparr>)"
proof -
  let ?c = "c\<lparr>w_files := F, w_sealed := True\<rparr>"
  have same: "app_of ?c = app_of c" "app_access ?c = ReadExecute" "app_access c = NoAccess"
    using assms(2) by (simp_all add: app_of_def app_access_def)
  have C: "app_closed c" "writable_outside c" "holds_trees ts c" using assms(1,3) by (simp_all add: context_ok_def)
  have o: "objects F = (\<lambda>p. if p \<in> P then map_option (set_access ReadExecute) (objects (w_files c) p) else objects (w_files c) p)"
    "P \<subseteq> set (pinned F)" using assms(4) by (simp_all add: seals_def)
  have app: "app_closed ?c"
    unfolding app_closed_def using assms(5) o(2) by (fastforce simp: same o(1) split: if_splits)
  have out: "writable_outside ?c"
    using C(2) assms(6) unfolding writable_outside_def by (simp add: same o(1))
  have "holds_trees ts ?c"
    unfolding holds_trees_def
  proof (intro conjI allI impI ballI)
    fix u assume u: "u \<in> ts"
    obtain n d where nd: "u = (n, d)" by (cases u)
    with u C(3) have T: "clean_tree 0 n" "\<forall>p x. tree_map n d p = Some x \<longrightarrow> objects (w_files c) p = Some (set_access NoAccess x)"
      unfolding holds_trees_def same by auto
    have "objects F p = Some (set_access ReadExecute x)" if "tree_map n d p = Some x" for p x
    proof -
      have "objects (w_files c) p = Some (set_access NoAccess x)" using T(2) that by blast
      moreover have "p \<in> P"
      proof (rule ccontr)
        assume "p \<notin> P"
        with assms(5) calculation have "\<not> under (app_of c) p" by blast
        with C(2) calculation have "set_access NoAccess x = JailDirectory ReadWrite" unfolding writable_outside_def by blast
        then show False by (cases x) simp_all
      qed
      ultimately show ?thesis by (simp add: o(1))
    qed
    with T(1) show "case u of (n, d) \<Rightarrow> clean_tree 0 n \<and> (\<forall>p x. tree_map n d p = Some x \<longrightarrow>
        objects (w_files ?c) p = Some (set_access (app_access ?c) x))"
      by (simp add: nd same del: clean_tree.simps)
  next
    fix p a content assume "objects (w_files ?c) p = Some (JailFile a content)"
    then obtain b where "objects (w_files c) p = Some (JailFile b content)"
      by (auto simp: o(1) set_access_file split: if_splits)
    with C(3) show "\<exists>(n, d) \<in> ts. tree_map n d p = Some (JailFile NoAccess content)" unfolding holds_trees_def by blast
  qed
  with app out show ?thesis by (simp add: context_ok_def)
qed

lemma node_paths_under:
  "p \<in> node_paths n d \<Longrightarrow> under d p"
  "p \<in> entry_paths entries d \<Longrightarrow> under d p"
  by (induction n d and entries d rule: node_paths_entry_paths.induct) (auto dest: under_join split: if_splits)

lemma contexts_ok_update:
  assumes "contexts_ok (contexts, hist)" "context_ok (trees_of i hist') c" "\<forall>j. j \<noteq> i \<longrightarrow> trees_of j hist' = trees_of j hist"
  shows "contexts_ok (contexts(i := Some c), hist')"
  using assms by (auto simp: contexts_ok_def)

lemma contexts_ok_step: "stage_step S S' \<Longrightarrow> contexts_ok S \<Longrightarrow> contexts_ok S'"
proof (induction rule: stage_step.induct)
  case (Create contexts i hist K path profile F)
  have "trees_of i hist = {}" using Create(2) by (auto simp: trees_of_def)
  with fresh_context_ok [OF Create(3)] show ?case by (intro contexts_ok_update [OF Create.prems]) simp_all
next
  case (Staged contexts i c K fixed found source rel contexts' hist)
  obtain m F where S: "contexts' = contexts(i := Some (c\<lparr>w_files := F\<rparr>))" "\<not> w_sealed c" "\<not> w_poisoned c" "adds m (w_files c) F"
    "\<forall>p x. m p = Some x \<longrightarrow> under (app_of c) p \<and> access_of x = NoAccess" "clean_tree 0 found"
    "\<forall>p x. tree_map found (join (app_of c) (turn_slashes rel)) p = Some x \<longrightarrow> m p = Some x"
    "\<forall>p a content. m p = Some (JailFile a content) \<longrightarrow>
       tree_map found (join (app_of c) (turn_slashes rel)) p = Some (JailFile NoAccess content)"
    using stage_made [OF Staged(1-3)] by blast
  have "context_ok (trees_of i hist) c" using Staged(1) Staged.prems by (simp add: contexts_ok_def)
  from context_ok_adds [OF this S(2,3,4,5,6,7,8)] show ?case
    unfolding S(1) by (intro contexts_ok_update [OF Staged.prems]) simp_all
next
  case (StageFailed K fixed found i source rel contexts contexts' hist)
  from stage_failed [OF StageFailed(1)] StageFailed.prems show ?case by (auto intro: contexts_ok_update)
next
  case (Sealing K contexts i found ok contexts' hist)
  from seal_made [OF Sealing(3,1)] consider "contexts' = contexts" | c where "contexts' = contexts(i := Some c)" "w_poisoned c"
    | c F where "contexts i = Some c" "\<not> w_poisoned c" "\<not> w_sealed c" "contexts' = contexts(i := Some (c\<lparr>w_files := F, w_sealed := True\<rparr>))"
        "seals (node_paths found (app_of c)) (w_files c) F" by blast
  then show ?case
  proof cases
    case 3
    have "context_ok (trees_of i hist) c" using 3(1) Sealing.prems by (simp add: contexts_ok_def)
    from context_ok_seal [OF this 3(3,2,5)] Sealing(2) 3(1) node_paths_under(1)
    show ?thesis unfolding 3(4) by (intro contexts_ok_update [OF Sealing.prems]) auto
  qed (use Sealing.prems in \<open>auto intro: contexts_ok_update\<close>)
next
  case (Closing contexts i c hist)
  show ?case by (intro contexts_ok_update [OF Closing.prems]) simp_all
next
  case (Removed contexts hist i)
  then show ?case by (auto simp: contexts_ok_def)
qed

lemma reachable_contexts_ok: "reachable_contexts S \<Longrightarrow> contexts_ok S"
  unfolding reachable_contexts_def
  by (induction rule: rtranclp_induct) (auto simp: contexts_ok_def dest: contexts_ok_step [unfolded contexts_ok_def])

section \<open>What a launch finds\<close>

text \<open>The contexts as a launch sees them.\<close>

definition launch_view :: "(int \<Rightarrow> stage_context option) \<Rightarrow> int \<Rightarrow> win_context option" where
  "launch_view contexts i = map_option win_context.truncate (contexts i)"

text \<open>Staging copies a tree exactly.  When a copy succeeds, the objects it added are those of the tree it found,
  with the same contents, hidden from the package, at the places under the destination; nothing that was there
  was touched; and the tree holds only regular objects of the disk with one link and plain names, at most 128
  levels deep.\<close>

theorem staged_copy_is_exact:
  assumes "copy_tree K d n source destination F = (True, F')" "enumerates K"
  shows "objects F' = objects F ++ tree_map n destination \<and> dom (tree_map n destination) \<inter> dom (objects F) = {}
    \<and> clean_tree d n \<and> (\<forall>p x. tree_map n destination p = Some x \<longrightarrow> under destination p \<and> access_of x = NoAccess)"
  using copy_tree_made(1) [OF assms] tree_map_under(1) [of n destination] unfolding adds_def by blast

text \<open>A stage or a seal that fails changes nothing, or leaves a context in which no program starts: whatever
  was done halfway poisons it.\<close>

theorem failed_stage_never_launches:
  assumes "visjail_windows_stage K fixed found i source rel contexts = (False, contexts')
    \<or> visjail_windows_seal K found i contexts = (False, contexts')"
  shows "contexts' = contexts \<or>
    (\<forall>W argv_blob argv_len env_blob env_len cwd profile flags proxy_port inbound_port.
       context_of_profile profile = Some i \<longrightarrow>
         prepare_launch W (launch_view contexts') argv_blob argv_len env_blob env_len cwd profile flags proxy_port inbound_port = None)"
proof -
  have "contexts' = contexts \<or> (\<exists>c. contexts' = contexts(i := Some c) \<and> w_poisoned c)"
    using assms stage_failed seal_failed by blast
  then show ?thesis
  proof
    assume "\<exists>c. contexts' = contexts(i := Some c) \<and> w_poisoned c"
    then have v: "launch_view contexts' i = Some c \<Longrightarrow> w_poisoned c" for c
      by (auto simp: launch_view_def win_context.truncate_def)
    show ?thesis
      by (intro disjI2 allI impI, rule ccontr) (use v prepare_launchD in fastforce)
  qed simp
qed

text \<open>C14: A confined Windows program starts only in a context that is complete and closed.  In every state the
  creation, staging, sealing and closing of contexts can lead to, a launch that is prepared finds an application
  all of whose objects the package can read and run but not write, and which are pinned; its files are those of
  the trees staged, each tree whole and nothing else; the package can write in the working and the temporary
  directories only.\<close>

theorem launch_finds_closed_application:
  assumes "reachable_contexts (contexts, hist)"
    and "prepare_launch K (launch_view contexts) argv_blob argv_len env_blob env_len cwd profile flags proxy_port inbound_port = Some l"
  shows "\<exists>i c. contexts i = Some c \<and> context_of_profile profile = Some i
    \<and> (\<forall>p x. objects (w_files c) p = Some x \<and> under (app_of c) p \<longrightarrow> access_of x = ReadExecute \<and> p \<in> set (pinned (w_files c)))
    \<and> (\<forall>p x. objects (w_files c) p = Some x \<and> access_of x = ReadWrite \<longrightarrow>
         under (join (w_path c) (ascii ''work'')) p \<or> under (join (w_path c) (ascii ''tmp'')) p)
    \<and> (\<forall>n d. (i, n, d) \<in> set hist \<longrightarrow> clean_tree 0 n \<and>
         (\<forall>p x. tree_map n d p = Some x \<longrightarrow> objects (w_files c) p = Some (set_access ReadExecute x)))
    \<and> (\<forall>p a content. objects (w_files c) p = Some (JailFile a content) \<longrightarrow>
         (\<exists>n d. (i, n, d) \<in> set hist \<and> tree_map n d p = Some (JailFile NoAccess content)))"
proof -
  obtain i v where v: "launch_view contexts i = Some v" "context_of_profile profile = Some i" "w_sealed v" "\<not> w_poisoned v"
    using prepare_launchD [OF assms(2)] by blast
  then obtain c where c: "contexts i = Some c" "w_sealed c" "\<not> w_poisoned c"
    by (auto simp: launch_view_def win_context.truncate_def)
  with reachable_contexts_ok [OF assms(1)] have "context_ok (trees_of i hist) c" by (simp add: contexts_ok_def)
  with c have C: "app_closed c" "writable_outside c" "holds_trees (trees_of i hist) c" "app_access c = ReadExecute"
    by (simp_all add: context_ok_def app_access_def)
  have "\<forall>p x. objects (w_files c) p = Some x \<and> under (app_of c) p \<longrightarrow> access_of x = ReadExecute \<and> p \<in> set (pinned (w_files c))"
    using C(1,4) c(2) by (simp add: app_closed_def)
  moreover have "\<forall>p x. objects (w_files c) p = Some x \<and> access_of x = ReadWrite \<longrightarrow>
      under (join (w_path c) (ascii ''work'')) p \<or> under (join (w_path c) (ascii ''tmp'')) p"
    using calculation C(2) unfolding writable_outside_def by fastforce
  moreover have "\<forall>n d. (i, n, d) \<in> set hist \<longrightarrow> clean_tree 0 n \<and>
      (\<forall>p x. tree_map n d p = Some x \<longrightarrow> objects (w_files c) p = Some (set_access ReadExecute x))"
    using C(3) unfolding holds_trees_def C(4) trees_of_def by blast
  moreover have "\<forall>p a content. objects (w_files c) p = Some (JailFile a content) \<longrightarrow>
      (\<exists>n d. (i, n, d) \<in> set hist \<and> tree_map n d p = Some (JailFile NoAccess content))"
    using C(3) unfolding holds_trees_def trees_of_def by blast
  ultimately show ?thesis using c(1) v(2) by blast
qed

text \<open>One program is staged into a new context, sealed and launched.\<close>

definition sample_disk :: disk_calls where
  "sample_disk = \<lparr>opens = (\<lambda>p. True), creates = (\<lambda>p. True), secures = (\<lambda>p. True), lowers = (\<lambda>p. True),
     can_allocate = (\<lambda>p. True), can_pin = (\<lambda>p. True), find_first = (\<lambda>p. FirstFound), find_next_fails = (\<lambda>p name. False),
     reads_block = (\<lambda>p n. True), writes_block = (\<lambda>p n. True), flushes = (\<lambda>p. True)\<rparr>"

definition sample_attrs :: attrs where
  "sample_attrs = \<lparr>reparse_point = False, on_disk = True, link_count = 1\<rparr>"

definition sample_program :: source_node where
  "sample_program = Plain sample_attrs ''MZ''"

definition sample_name :: wstring where
  "sample_name = ascii ''p.exe''"

definition sample_source :: wstring where
  "sample_source = ascii (''D:'' @ bs @ ''p.exe'')"

definition sample_found :: source_node where
  "sample_found = Folder sample_attrs (Entry sample_name sample_program End)"

definition sample_path :: wstring where
  "sample_path = ascii (''C:'' @ bs @ ''c'')"

definition sample_fresh :: jail_files where
  "sample_fresh = snd (context_directories sample_disk sample_path (ascii ''v'') \<lparr>objects = Map.empty, pinned = []\<rparr>)"

definition sample_created :: "int \<Rightarrow> stage_context option" where
  "sample_created = Map.empty(7 := Some (fresh_context sample_path sample_fresh))"

definition sample_staged :: "int \<Rightarrow> stage_context option" where
  "sample_staged = snd (visjail_windows_stage sample_disk (\<lambda>d. True) sample_program 7
     (Some sample_source) (Some sample_name) sample_created)"

definition sample_sealed :: "int \<Rightarrow> stage_context option" where
  "sample_sealed = snd (visjail_windows_seal sample_disk sample_found 7 sample_staged)"

definition sample_sealed_launch :: "launch option" where
  "sample_sealed_launch = prepare_launch sample_win32 (launch_view sample_sealed) (Some sample_argv) 25 (Some sample_env) 10
     (Some (''C:'' @ bs @ ''c'' @ bs @ ''Work'')) (Some ''windows:7'') 4 0 0"

lemmas sample_simps = sample_disk_def sample_path_def private_directory_def pin_def create_def change_def join_def ascii_def bs_def
  BACKSLASH_def

lemma sample_directories:
  "fst (context_directories sample_disk sample_path (ascii ''v'') \<lparr>objects = Map.empty, pinned = []\<rparr>)"
  by (simp add: context_directories_def private_temporary_directories_def sample_simps Let_def)

lemma sample_local: "local_path (\<lambda>d. True) (Some sample_source) = Some sample_source"
  by code_simp

lemma sample_relative: "turn_slashes sample_name = sample_name" "relative_path (Some sample_name)" "component sample_name"
   "\<not> dot_name sample_name" "parent_paths before sample_name = []"
  by (code_simp, code_simp, code_simp, simp_all add: sample_name_def dot_name_def ascii_def BACKSLASH_def)

lemma sample_app_free: "objects sample_fresh (join (join sample_path (ascii ''app'')) sample_name) = None"
proof (rule ccontr)
  assume "objects sample_fresh (join (join sample_path (ascii ''app'')) sample_name) \<noteq> None"
  then obtain x where "objects sample_fresh (join (join sample_path (ascii ''app'')) sample_name) = Some x" by blast
  moreover have "context_directories sample_disk sample_path (ascii ''v'') \<lparr>objects = Map.empty, pinned = []\<rparr> = (True, sample_fresh)"
    using sample_directories by (cases "context_directories sample_disk sample_path (ascii ''v'') \<lparr>objects = Map.empty, pinned = []\<rparr>")
      (simp add: sample_fresh_def)
  ultimately show False using fresh_directories by (fastforce simp: under_def join_def)
qed

lemma sample_copy:
  "fst (copy_tree sample_disk 0 sample_program source destination F)" if "objects F destination = None"
  using that by (simp add: sample_program_def sample_attrs_def regular_node_def copy_file_def copy_loop.simps sample_disk_def Let_def)

lemma sample_stage:
  "visjail_windows_stage sample_disk (\<lambda>d. True) sample_program 7
     (Some sample_source) (Some sample_name) sample_created = (True, sample_staged)"
proof -
  let ?src = sample_source and ?d = "join (join sample_path (ascii ''app'')) sample_name"
  obtain F where "copy_tree sample_disk 0 sample_program ?src ?d sample_fresh = (True, F)"
    using sample_copy [OF sample_app_free] by (metis prod.collapse)
  moreover have "ancestors sample_disk ?src" by (simp add: ancestors_def sample_disk_def list_all_iff)
  ultimately have "fst (visjail_windows_stage sample_disk (\<lambda>d. True) sample_program 7 (Some ?src) (Some sample_name) sample_created)"
    by (simp add: visjail_windows_stage_def sample_created_def sample_local sample_relative fresh_context_def app_of_def
        sample_disk_def [THEN arg_cong, of can_allocate] del: copy_tree.simps)
  then show ?thesis by (simp add: sample_staged_def prod_eq_iff)
qed

lemma sample_fresh_made: "context_directories sample_disk sample_path (ascii ''v'') \<lparr>objects = Map.empty, pinned = []\<rparr> = (True, sample_fresh)"
  using sample_directories by (cases "context_directories sample_disk sample_path (ascii ''v'') \<lparr>objects = Map.empty, pinned = []\<rparr>")
    (simp add: sample_fresh_def)

lemma sample_enumerates: "enumerates sample_disk"
  by (simp add: enumerates_def sample_disk_def)

lemma sample_staged_context:
  "\<exists>F. sample_staged = [7 \<mapsto> (fresh_context sample_path sample_fresh)\<lparr>w_files := F\<rparr>]
     \<and> (\<forall>p. objects F p \<noteq> None \<and> under (join sample_path (ascii ''app'')) p \<longrightarrow> p \<in> node_paths sample_found (join sample_path (ascii ''app'')))"
proof -
  let ?c = "fresh_context sample_path sample_fresh"
  have c: "sample_created 7 = Some ?c" by (simp add: sample_created_def)
  have app: "app_of ?c = join sample_path (ascii ''app'')" by (simp add: app_of_def fresh_context_def)
  obtain m F where S: "sample_staged = sample_created(7 := Some (?c\<lparr>w_files := F\<rparr>))" "adds m (w_files ?c) F"
    "\<forall>p x. m p = Some x \<longrightarrow> p \<in> set (parent_paths (app_of ?c @ [BACKSLASH]) (turn_slashes sample_name))
         \<or> tree_map sample_program (join (app_of ?c) (turn_slashes sample_name)) p = Some x"
    using stage_made [OF c sample_enumerates sample_stage] by blast
  have o: "objects F = objects sample_fresh ++ m" using S(2) by (simp add: adds_def fresh_context_def)
  have m: "m p = Some x \<Longrightarrow> p = join (join sample_path (ascii ''app'')) sample_name" for p x
    using S(3) by (auto simp: sample_relative app sample_program_def split: if_splits)
  have "p \<in> node_paths sample_found (join sample_path (ascii ''app''))"
    if "objects F p = Some x" "under (join sample_path (ascii ''app'')) p" for p x
  proof -
    have "p = join sample_path (ascii ''app'') \<or> p = join (join sample_path (ascii ''app'')) sample_name"
      using that m fresh_directories [OF sample_fresh_made] by (auto simp: o map_add_Some_iff)
    then show ?thesis by (auto simp: sample_found_def sample_program_def sample_relative)
  qed
  with S(1) show ?thesis by (auto simp: sample_created_def)
qed

lemma sample_seal: "fst (seal_tree sample_disk 0 sample_found path F)"
  by (simp add: sample_found_def sample_program_def sample_attrs_def regular_node_def sample_disk_def pin_def sample_relative)

lemma sample_sealed_reached:
  "\<exists>contexts. reachable_contexts (contexts, [(7, sample_program, join (join sample_path (ascii ''app'')) sample_name)])
     \<and> launch_view contexts = sample_contexts"
proof -
  let ?app = "join sample_path (ascii ''app'')" and ?c = "fresh_context sample_path sample_fresh"
  let ?hist = "[(7, sample_program, join ?app sample_name)]"
  have app: "app_of (?c\<lparr>w_files := F\<rparr>) = ?app" "app_of ?c = ?app" for F by (simp_all add: app_of_def fresh_context_def)
  have flags: "w_sealed ?c = False" "w_poisoned ?c = False" "can_allocate sample_disk p" for p
    by (simp_all add: fresh_context_def sample_disk_def)
  obtain F where F: "sample_staged = [7 \<mapsto> ?c\<lparr>w_files := F\<rparr>]"
      "\<forall>p. objects F p \<noteq> None \<and> under ?app p \<longrightarrow> p \<in> node_paths sample_found ?app" using sample_staged_context by blast
  obtain F1 where F1: "seal_tree sample_disk 0 sample_found ?app F = (True, F1)"
    using sample_seal [of ?app F] by (cases "seal_tree sample_disk 0 sample_found ?app F") simp
  let ?sealed = "[7 \<mapsto> ?c\<lparr>w_files := F1, w_sealed := True\<rparr>]"
  have "visjail_windows_seal sample_disk sample_found 7 sample_staged = (True, ?sealed)"
    using F1 by (simp add: visjail_windows_seal_def F(1) app flags del: seal_tree.simps)
  moreover have "\<forall>c. sample_staged 7 = Some c \<longrightarrow> (\<forall>p. objects (w_files c) p \<noteq> None \<and> under (app_of c) p \<longrightarrow>
      p \<in> node_paths sample_found (app_of c))" using F(2) by (simp add: F(1) app)
  ultimately have 3: "stage_step (sample_staged, ?hist) (?sealed, ?hist)" by (intro stage_step.Sealing [OF sample_enumerates])
  have 1: "stage_step (Map.empty, []) (sample_created, [])"
    unfolding sample_created_def by (rule stage_step.Create [OF _ _ sample_fresh_made]) simp_all
  have 2: "stage_step (sample_created, []) (sample_staged, ?hist)"
    using stage_step.Staged [OF _ sample_enumerates sample_stage, of ?c] by (simp add: sample_created_def app sample_relative)
  have "reachable_contexts (?sealed, ?hist)"
    unfolding reachable_contexts_def using 1 2 3 by (meson converse_rtranclp_into_rtranclp rtranclp.rtrancl_refl)
  moreover have "launch_view ?sealed = sample_contexts"
    by (auto simp: fun_eq_iff launch_view_def sample_contexts_def win_context.truncate_def fresh_context_def sample_path_def)
  ultimately show ?thesis by blast
qed

theorem launch_finds_closed_application_witness:
  "\<exists>contexts c. launch_view contexts = sample_contexts \<and> contexts 7 = Some c
     \<and> objects (w_files c) (join (join sample_path (ascii ''app'')) sample_name) = Some (JailFile ReadExecute ''MZ'')"
proof -
  let ?d = "join (join sample_path (ascii ''app'')) sample_name"
  obtain contexts where R: "reachable_contexts (contexts, [(7, sample_program, ?d)])" "launch_view contexts = sample_contexts"
    using sample_sealed_reached by blast
  obtain l where l: "prepare_launch sample_win32 (launch_view contexts) (Some sample_argv) 25 (Some sample_env) 10
     (Some (''C:'' @ bs @ ''c'' @ bs @ ''Work'')) (Some ''windows:7'') 4 0 0 = Some l"
    using sample_launch_obtained unfolding R(2) by blast
  have i: "context_of_profile (Some ''windows:7'') = Some 7" by code_simp
  have t: "tree_map sample_program ?d ?d = Some (JailFile NoAccess ''MZ'')" by (simp add: sample_program_def)
  from launch_finds_closed_application [OF R(1) l] obtain i c where c: "contexts i = Some c"
      "context_of_profile (Some ''windows:7'') = Some i"
      "\<forall>n d. (i, n, d) \<in> set [(7, sample_program, ?d)] \<longrightarrow> clean_tree 0 n
         \<and> (\<forall>p x. tree_map n d p = Some x \<longrightarrow> objects (w_files c) p = Some (set_access ReadExecute x))" by blast
  have "i = 7" using c(2) i by simp
  moreover have "(i, sample_program, ?d) \<in> set [(7, sample_program, ?d)]" using calculation by simp
  ultimately have "contexts 7 = Some c" "\<forall>p x. tree_map sample_program ?d p = Some x \<longrightarrow> objects (w_files c) p = Some (set_access ReadExecute x)"
    using c(1,3) by blast+
  with t R(2) show ?thesis by (intro exI [where x = contexts] exI [where x = c]) auto
qed

theorem staged_copy_is_exact_witness:
  "\<exists>F' :: jail_files. objects F' = objects sample_fresh ++ tree_map sample_program (join (join sample_path (ascii ''app'')) sample_name)"
proof -
  obtain F where F: "copy_tree sample_disk 0 sample_program sample_source (join (join sample_path (ascii ''app'')) sample_name) sample_fresh = (True, F)"
    using sample_copy [OF sample_app_free] by (metis prod.collapse)
  from staged_copy_is_exact [OF F sample_enumerates] show ?thesis by blast
qed

text \<open>A program whose file cannot be created.\<close>

theorem failed_stage_never_launches_witness:
  "\<exists>contexts'. contexts' \<noteq> sample_created
     \<and> prepare_launch sample_win32 (launch_view contexts') (Some sample_argv) 25 (Some sample_env) 10
         (Some (''C:'' @ bs @ ''c'' @ bs @ ''Work'')) (Some ''windows:7'') 4 0 0 = None"
proof -
  let ?K = "sample_disk\<lparr>creates := \<lambda>p. False\<rparr>" and ?c = "fresh_context sample_path sample_fresh"
  let ?contexts = "sample_created(7 := Some (?c\<lparr>w_poisoned := True\<rparr>))"
  have copy: "copy_tree ?K 0 sample_program sample_source d F = (False, F)" for d F
    by (simp add: sample_program_def copy_file_def)
  have flags: "w_sealed ?c = False" "w_poisoned ?c = False" "w_files ?c = sample_fresh" "?c\<lparr>w_files := sample_fresh\<rparr> = ?c"
    by (simp_all add: fresh_context_def)
  have K: "can_allocate sample_disk p" "ancestors ?K p" for p by (simp_all add: ancestors_def sample_disk_def list_all_iff)
  have "visjail_windows_stage ?K (\<lambda>d. True) sample_program 7 (Some sample_source) (Some sample_name) sample_created = (False, ?contexts)"
    by (simp add: visjail_windows_stage_def sample_created_def sample_local sample_relative copy flags K del: copy_tree.simps)
  then have F: "?contexts = sample_created \<or> (\<forall>W argv_blob argv_len env_blob env_len cwd profile flags proxy_port inbound_port.
      context_of_profile profile = Some 7 \<longrightarrow>
        prepare_launch W (launch_view ?contexts) argv_blob argv_len env_blob env_len cwd profile flags proxy_port inbound_port = None)"
    by (intro failed_stage_never_launches disjI1)
  have "?contexts 7 \<noteq> sample_created 7" by (simp add: sample_created_def fresh_context_def)
  then have n: "?contexts \<noteq> sample_created" by metis
  have "context_of_profile (Some ''windows:7'') = Some 7" by code_simp
  with F n show ?thesis by blast
qed

end
