(* ===== verification/WinCreate.thy ===== *)
theory WinCreate
  imports WinSteps WinDesktop WinStage
begin

text \<open>
  Making and unmaking a context of the Windows jail in \<^verbatim>\<open>native/visjail/visjail_windows.c\<close>: the private desktop as
  the launcher gets it, \<^verbatim>\<open>visjail_windows_create\<close> with its way out of every failure, and the steps of
  \<^verbatim>\<open>visjail_windows_destroy\<close> that concern the context itself.  Handles are numbers the kernel does not give
  twice; which calls work is a parameter.
\<close>

section \<open>Contexts and the kernel\<close>

record jail_context =
  jc_id :: int
  jc_poisoned :: bool
  jc_profile :: "wstring option"
  jc_pins :: "nat list"
  jc_job :: "nat option"
  jc_station :: "nat option"
  jc_desktop :: "nat option"
  jc_ui_process :: "nat option"
  jc_ui_job :: "nat option"
  jc_ui_pins :: "nat list"

text \<open>The count of handles given, those closed, the profiles that exist, and the next id of the library.\<close>

record kernel =
  k_next :: nat
  k_closed :: "nat list"
  k_profiles :: "wstring list"
  k_next_id :: int

definition close_all :: "nat option list \<Rightarrow> 'a kernel_scheme \<Rightarrow> 'a kernel_scheme" where
  "close_all hs k = k\<lparr>k_closed := k_closed k @ List.map_filter id hs\<rparr>"

definition unpin :: "nat list \<Rightarrow> 'a kernel_scheme \<Rightarrow> 'a kernel_scheme" where
  "unpin pins k = k\<lparr>k_closed := k_closed k @ pins\<rparr>"

section \<open>Closing the parts of a context\<close>

text \<open>What is found out about the exit of a helper: it was over, it could be terminated, it was over by then, and the
  last wait saw its end.\<close>

record helper_exit =
  over_before :: bool
  terminated :: bool
  over_meanwhile :: bool
  over_in_time :: bool
  over_error :: int

definition helper_gone :: "helper_exit \<Rightarrow> bool" where
  "helper_gone e \<longleftrightarrow>
     (if over_before e then True
      else if \<not> terminated e \<and> \<not> over_meanwhile e then False
      else over_in_time e)"

definition close_ui_helper :: "helper_exit \<Rightarrow> jail_context \<Rightarrow> 'a kernel_scheme \<Rightarrow> bool \<times> jail_context \<times> 'a kernel_scheme" where
  "close_ui_helper e c k =
     (if jc_ui_process c \<noteq> None \<and> \<not> helper_gone e then (False, c, k)
      else (True, c\<lparr>jc_ui_process := None, jc_ui_job := None, jc_ui_pins := []\<rparr>,
            unpin (jc_ui_pins c) (close_all [jc_ui_process c, jc_ui_job c] k)))"

definition close_desktop :: "bool \<Rightarrow> bool \<Rightarrow> jail_context \<Rightarrow> 'a kernel_scheme \<Rightarrow> bool \<times> jail_context \<times> 'a kernel_scheme" where
  "close_desktop desktop_ok station_ok c k =
     (if jc_desktop c \<noteq> None \<and> \<not> desktop_ok then (False, c, k)
      else
        let c1 = c\<lparr>jc_desktop := None\<rparr>; k1 = close_all [jc_desktop c] k in
        if jc_station c \<noteq> None \<and> \<not> station_ok then (False, c1, k1)
        else (True, c1\<lparr>jc_station := None\<rparr>, close_all [jc_station c] k1))"

text \<open>A deletion that fails is tried once more.\<close>

definition delete_profile :: "bool \<Rightarrow> bool \<Rightarrow> wstring \<Rightarrow> 'a kernel_scheme \<Rightarrow> bool \<times> 'a kernel_scheme" where
  "delete_profile first again name k =
     (if first \<or> again then (True, k\<lparr>k_profiles := remove1 name (k_profiles k)\<rparr>) else (False, k))"

record dispose_calls =
  d_exit :: helper_exit
  d_desktop :: bool
  d_station :: bool
  d_delete :: bool
  d_delete_again :: bool
  d_error :: int

text \<open>What is left of the context when a part could not be closed; \<open>None\<close> when it is gone.\<close>

definition dispose_failed_context ::
  "dispose_calls \<Rightarrow> jail_context \<Rightarrow> 'a kernel_scheme \<Rightarrow> jail_context option \<times> 'a kernel_scheme" where
  "dispose_failed_context D c k =
     (case close_ui_helper (d_exit D) c k of
        (False, c1, k1) \<Rightarrow> (Some c1, k1)
      | (True, c1, k1) \<Rightarrow>
          (case close_desktop (d_desktop D) (d_station D) c1 k1 of
             (False, c2, k2) \<Rightarrow> (Some c2, k2)
           | (True, c2, k2) \<Rightarrow>
               (case (case jc_profile c2 of None \<Rightarrow> (True, k2) | Some name \<Rightarrow> delete_profile (d_delete D) (d_delete_again D) name k2) of
                  (False, k3) \<Rightarrow> (Some c2, k3)
                | (True, k3) \<Rightarrow> (None, close_all [jc_job c2] (unpin (jc_pins c2) k3)))))"

section \<open>The steps of a creation\<close>

datatype create_call = ContextMemory | PathText | LocalPath | OpenDirectory | EmptyDirectory | RegistryRead | Random
  | CreateProfile | Permissions | DirectoryPin | PathMemory | ContextJob
  | UiMemory | UiModule | UiPathLength | MakeMapping | MakeReady | MakeAck | MapView | UiLine | UiListMemory | UiListInit | UiHandles | UiJob
  | UiProcess | UiUninherit | UiAssign | UiResume | UiWaitReady | TakeStation | TakeDesktop | UiObjects | UiSetAck
  | UiWaitExit | UiExitCode

text \<open>The calls of \<open>private_directory\<close>; where the directory cannot be opened, \<open>regular\<close> may have had a handle and
  closed it again.\<close>

record dir_calls =
  dir_made :: "int option"
  dir_opened :: "int option"
  dir_closed_again :: bool
  dir_permitted :: "int option"
  dir_labelled :: "int option"
  dir_memory :: "int option"

definition private_directory_outcome :: "bool \<Rightarrow> dir_calls \<Rightarrow> pin_outcome" where
  "private_directory_outcome writable d =
     (case dir_made d of Some e \<Rightarrow> NotOpened e
      | None \<Rightarrow> (case dir_opened d of Some e \<Rightarrow> if dir_closed_again d then OpenedAndClosed e else NotOpened e
      | None \<Rightarrow> (case dir_permitted d of Some e \<Rightarrow> OpenedAndClosed e
      | None \<Rightarrow> (case (if writable then dir_labelled d else None) of Some e \<Rightarrow> OpenedAndClosed e
      | None \<Rightarrow> (case dir_memory d of Some e \<Rightarrow> OpenedAndClosed e | None \<Rightarrow> Pinned)))))"

text \<open>The error of each call, and whether a failing one had a handle that it closed again.\<close>

record create_calls =
  failed :: "create_call \<Rightarrow> int option"
  closed_again :: "create_call \<Rightarrow> bool"
  pin_path :: "wstring \<Rightarrow> pin_outcome"
  private_path :: "wstring \<Rightarrow> dir_calls"
  random_bytes :: "nat list"
  helper_path :: wstring
  helper_reply_seen :: ui_transfer
  station_shown :: "user_object option"
  desktop_shown :: "user_object option"
  ui_exit :: helper_exit

record creating = kernel +
  cr_context :: jail_context
  cr_directory :: "nat option"
  cr_mapping :: "nat option"
  cr_ready :: "nat option"
  cr_ack :: "nat option"
  cr_thread :: "nat option"

type_synonym create_step = "(creating, int) step"

definition call :: "create_calls \<Rightarrow> create_call \<Rightarrow> create_step" where
  "call K x s = (failed K x, s)"

text \<open>A call that gives a handle, stored by an update.\<close>

definition open_into :: "create_calls \<Rightarrow> create_call \<Rightarrow> (nat \<Rightarrow> creating \<Rightarrow> creating) \<Rightarrow> create_step" where
  "open_into K x put s =
     (case failed K x of Some e \<Rightarrow> (Some e, s) | None \<Rightarrow> (None, put (k_next s) (s\<lparr>k_next := k_next s + 1\<rparr>)))"

text \<open>\<open>regular\<close> and \<open>new_job\<close> check or set up the object they opened, and close it where that fails.\<close>

definition open_checked :: "create_calls \<Rightarrow> create_call \<Rightarrow> (nat \<Rightarrow> creating \<Rightarrow> creating) \<Rightarrow> create_step" where
  "open_checked K x put s =
     (case failed K x of
        None \<Rightarrow> (None, put (k_next s) (s\<lparr>k_next := k_next s + 1\<rparr>))
      | Some e \<Rightarrow> (Some e, if closed_again K x then s\<lparr>k_next := k_next s + 1, k_closed := k_closed s @ [k_next s]\<rparr> else s))"

definition in_context :: "(jail_context \<Rightarrow> jail_context) \<Rightarrow> creating \<Rightarrow> creating" where
  "in_context f s = s\<lparr>cr_context := f (cr_context s)\<rparr>"

text \<open>Pinning for the context, or for its helper.\<close>

definition pin_into :: "pin_outcome \<Rightarrow> bool \<Rightarrow> create_step" where
  "pin_into outcome ui s =
     (case outcome of
        NotOpened e \<Rightarrow> (Some e, s)
      | OpenedAndClosed e \<Rightarrow> (Some e, s\<lparr>k_next := k_next s + 1, k_closed := k_closed s @ [k_next s]\<rparr>)
      | Pinned \<Rightarrow>
          (None, in_context (\<lambda>c. if ui then c\<lparr>jc_ui_pins := k_next s # jc_ui_pins c\<rparr> else c\<lparr>jc_pins := k_next s # jc_pins c\<rparr>)
             (s\<lparr>k_next := k_next s + 1\<rparr>)))"

definition pin_ancestors :: "create_calls \<Rightarrow> wstring \<Rightarrow> bool \<Rightarrow> create_step" where
  "pin_ancestors K path ui = run_steps (map (\<lambda>p. pin_into (pin_path K p) ui) (parent_paths (take 3 path) (drop 3 path)))"

text \<open>The three objects are made one after the other before the check.\<close>

definition make_objects :: "create_calls \<Rightarrow> create_step" where
  "make_objects K s =
     (let (e1, s1) = open_into K MakeMapping (\<lambda>h. cr_mapping_update (\<lambda>_. Some h)) s;
          (e2, s2) = open_into K MakeReady (\<lambda>h. cr_ready_update (\<lambda>_. Some h)) s1;
          (e3, s3) = open_into K MakeAck (\<lambda>h. cr_ack_update (\<lambda>_. Some h)) s2
      in (if e3 \<noteq> None then e3 else if e2 \<noteq> None then e2 else e1, s3))"

definition start_helper :: "create_calls \<Rightarrow> create_step" where
  "start_helper K s =
     (case failed K UiProcess of
        Some e \<Rightarrow> (Some e, s)
      | None \<Rightarrow>
          (None, in_context (jc_ui_process_update (\<lambda>_. Some (k_next s))) (s\<lparr>k_next := k_next s + 2, cr_thread := Some (k_next s + 1)\<rparr>)))"

definition check_profile :: "create_step" where
  "check_profile s =
     (if ui_profile_valid (in_array VISJAIL_UI_PROFILE_CHARS (case jc_profile (cr_context s) of None \<Rightarrow> [] | Some p \<Rightarrow> p))
      then (None, s) else (Some 0, s))"

definition check_answer :: "create_calls \<Rightarrow> create_step" where
  "check_answer K s =
     (check_reply (case jc_profile (cr_context s) of None \<Rightarrow> [] | Some p \<Rightarrow> p) (helper_reply_seen K), s)"

definition check_taken :: "create_calls \<Rightarrow> create_step" where
  "check_taken K s =
     (if failed K UiObjects = None
         \<and> check_objects (case jc_profile (cr_context s) of None \<Rightarrow> [] | Some p \<Rightarrow> p) (helper_reply_seen K) (station_shown K) (desktop_shown K)
      then (None, s)
      else (Some (case failed K UiObjects of Some e \<Rightarrow> if e = 0 then ERROR_INVALID_DATA else e | None \<Rightarrow> ERROR_INVALID_DATA), s))"

definition desktop_steps :: "create_calls \<Rightarrow> create_step list" where
  "desktop_steps K =
     [call K UiMemory, check_profile, call K UiModule, call K UiPathLength, pin_ancestors K (helper_path K) True,
      pin_into (pin_path K (helper_path K)) True, make_objects K, call K MapView, call K UiLine, call K UiListMemory, call K UiListInit,
      call K UiHandles, open_checked K UiJob (\<lambda>h. in_context (jc_ui_job_update (\<lambda>_. Some h))), start_helper K, call K UiUninherit,
      call K UiAssign, call K UiResume, call K UiWaitReady, check_answer K,
      open_into K TakeStation (\<lambda>h. in_context (jc_station_update (\<lambda>_. Some h))),
      open_into K TakeDesktop (\<lambda>h. in_context (jc_desktop_update (\<lambda>_. Some h))),
      check_taken K, call K UiSetAck, call K UiWaitExit, call K UiExitCode]"

definition private_desktop :: "create_calls \<Rightarrow> create_step" where
  "private_desktop K s =
     (let (e, s1) = run_steps (desktop_steps K) s;
          (gone, c, s2) = close_ui_helper (ui_exit K) (cr_context s1) s1;
          s3 = close_all [cr_thread s2, cr_mapping s2, cr_ready s2, cr_ack s2] s2
      in ((case (if gone then e else Some (over_error (ui_exit K))) of
             Some code \<Rightarrow> Some (if code = 0 then ERROR_GEN_FAILURE else code)
           | None \<Rightarrow> None),
          s3\<lparr>cr_context := c, cr_thread := None, cr_mapping := None, cr_ready := None, cr_ack := None\<rparr>))"

text \<open>The name of the profile: sixteen random bytes in hexadecimal.\<close>

definition hex_char :: "nat \<Rightarrow> nat" where
  "hex_char d = (if d < 10 then 48 + d else 87 + d)"

definition profile_name :: "nat list \<Rightarrow> wstring" where
  "profile_name random = ascii ''visjail.'' @ concat (map (\<lambda>b. [hex_char (b div 16), hex_char (b mod 16)]) random)"

definition ERROR_ALREADY_EXISTS :: int where "ERROR_ALREADY_EXISTS = 183"

definition create_profile :: "create_calls \<Rightarrow> create_step" where
  "create_profile K s =
     (let name = profile_name (random_bytes K) in
      case failed K CreateProfile of
        Some e \<Rightarrow> (Some e, s)
      | None \<Rightarrow>
          if name \<in> set (k_profiles s) then (Some ERROR_ALREADY_EXISTS, s)
          else (None, in_context (jc_profile_update (\<lambda>_. Some name)) (s\<lparr>k_profiles := name # k_profiles s\<rparr>)))"

definition pin_directory :: "create_calls \<Rightarrow> create_step" where
  "pin_directory K s =
     (case failed K DirectoryPin of
        Some e \<Rightarrow> (Some e, close_all [cr_directory s] (s\<lparr>cr_directory := None\<rparr>))
      | None \<Rightarrow>
          (None, in_context (\<lambda>c. c\<lparr>jc_pins := List.map_filter id [cr_directory s] @ jc_pins c\<rparr>) (s\<lparr>cr_directory := None\<rparr>)))"

text \<open>The private directories with whether the guest writes in them; each of the last four is in the one before.\<close>

definition private_paths :: "wstring \<Rightarrow> wstring \<Rightarrow> (wstring \<times> bool) list" where
  "private_paths path profile =
     (let tmp = join path (ascii ''tmp''); p1 = join tmp (ascii ''Packages''); p2 = join p1 profile; p3 = join p2 (ascii ''AC'') in
      [(join path (ascii ''app''), False), (join path (ascii ''work''), True), (tmp, True), (p1, True), (p2, True), (p3, True),
       (join p3 (ascii ''Temp''), True)])"

definition make_private_directories :: "create_calls \<Rightarrow> wstring \<Rightarrow> create_step" where
  "make_private_directories K path s =
     run_steps (map (\<lambda>(p, writable). pin_into (private_directory_outcome writable (private_path K p)) False)
       (private_paths path (profile_name (random_bytes K)))) s"

definition draw_context_id :: create_step where
  "draw_context_id s =
     (if k_next_id s = INT_MAX then (Some ERROR_TOO_MANY_OPEN_FILES, s)
      else (None, in_context (jc_id_update (\<lambda>_. k_next_id s)) (s\<lparr>k_next_id := k_next_id s + 1\<rparr>)))"

definition create_steps :: "create_calls \<Rightarrow> wstring \<Rightarrow> create_step list" where
  "create_steps K path =
     [call K ContextMemory, call K PathText, call K LocalPath, pin_ancestors K path False,
      open_checked K OpenDirectory (\<lambda>h. cr_directory_update (\<lambda>_. Some h)), call K EmptyDirectory, call K RegistryRead, call K Random,
      create_profile K, private_desktop K, call K Permissions, pin_directory K, call K PathMemory, make_private_directories K path,
      open_checked K ContextJob (\<lambda>h. in_context (jc_job_update (\<lambda>_. Some h))), draw_context_id]"

section \<open>The life of the contexts\<close>

record win_jail = kernel +
  wj_contexts :: "jail_context list"
  wj_failed :: "jail_context option"
  wj_leaving :: "jail_context list"

definition put_kernel :: "'a kernel_scheme \<Rightarrow> win_jail \<Rightarrow> win_jail" where
  "put_kernel k J = J\<lparr>k_next := k_next k, k_closed := k_closed k, k_profiles := k_profiles k, k_next_id := k_next_id k\<rparr>"

definition new_context :: jail_context where
  "new_context = \<lparr>jc_id = 0, jc_poisoned = False, jc_profile = None, jc_pins = [], jc_job = None, jc_station = None,
     jc_desktop = None, jc_ui_process = None, jc_ui_job = None, jc_ui_pins = []\<rparr>"

definition begin_create :: "win_jail \<Rightarrow> creating" where
  "begin_create J = \<lparr>k_next = k_next J, k_closed = k_closed J, k_profiles = k_profiles J, k_next_id = k_next_id J,
     cr_context = new_context, cr_directory = None, cr_mapping = None, cr_ready = None, cr_ack = None, cr_thread = None\<rparr>"

text \<open>A context that failed earlier is finished first; while it is not, no other is made.\<close>

definition finish_prior :: "dispose_calls \<Rightarrow> win_jail \<Rightarrow> win_jail" where
  "finish_prior D J =
     (case wj_failed J of
        None \<Rightarrow> J
      | Some c \<Rightarrow> (case dispose_failed_context D c J of (rest, J1) \<Rightarrow> J1\<lparr>wj_failed := rest\<rparr>))"

definition visjail_windows_create :: "create_calls \<Rightarrow> dispose_calls \<Rightarrow> dispose_calls \<Rightarrow> wstring \<Rightarrow> win_jail \<Rightarrow> int \<times> win_jail" where
  "visjail_windows_create K prior D path J =
     (let J1 = finish_prior prior J in
      if wj_failed J1 \<noteq> None then (failure (d_error prior), J1)
      else
        (case run_steps (create_steps K path) (begin_create J1) of
           (None, s) \<Rightarrow> (jc_id (cr_context s), (put_kernel s J1)\<lparr>wj_contexts := cr_context s # wj_contexts J1\<rparr>)
         | (Some e, s) \<Rightarrow>
             (case dispose_failed_context D (cr_context s) (close_all [cr_directory s] s) of
                (rest, s1) \<Rightarrow> (failure (if rest = None then e else d_error D), (put_kernel s1 J1)\<lparr>wj_failed := rest\<rparr>))))"

text \<open>The destruction of a context: it is poisoned, and unlinked when its job has ended; a failure on the way links it
  again; at last its desktop, pins and job are closed and its profile is deleted.\<close>

definition without :: "int \<Rightarrow> jail_context list \<Rightarrow> jail_context list" where
  "without i cs = filter (\<lambda>c. jc_id c \<noteq> i) cs"

definition destroy_begin :: "int \<Rightarrow> bool \<Rightarrow> win_jail \<Rightarrow> bool \<times> win_jail" where
  "destroy_begin i job_ended J =
     (case find (\<lambda>c. jc_id c = i) (wj_contexts J) of
        None \<Rightarrow> (False, J)
      | Some c \<Rightarrow>
          let c1 = c\<lparr>jc_poisoned := True\<rparr> in
          if jc_job c \<noteq> None \<and> \<not> job_ended
          then (False, J\<lparr>wj_contexts := map (\<lambda>x. if jc_id x = i then c1 else x) (wj_contexts J)\<rparr>)
          else (True, J\<lparr>wj_contexts := without i (wj_contexts J), wj_leaving := c1 # wj_leaving J\<rparr>))"

definition link_again :: "jail_context \<Rightarrow> win_jail \<Rightarrow> win_jail" where
  "link_again c J = J\<lparr>wj_leaving := without (jc_id c) (wj_leaving J), wj_contexts := c # wj_contexts J\<rparr>"

definition destroy_retry :: "int \<Rightarrow> win_jail \<Rightarrow> win_jail" where
  "destroy_retry i J = (case find (\<lambda>c. jc_id c = i) (wj_leaving J) of None \<Rightarrow> J | Some c \<Rightarrow> link_again c J)"

definition destroy_end :: "dispose_calls \<Rightarrow> int \<Rightarrow> win_jail \<Rightarrow> bool \<times> win_jail" where
  "destroy_end D i J =
     (case find (\<lambda>c. jc_id c = i) (wj_leaving J) of
        None \<Rightarrow> (False, J)
      | Some c \<Rightarrow>
          (case close_desktop (d_desktop D) (d_station D) c J of
             (False, c1, J1) \<Rightarrow> (False, link_again c1 J1)
           | (True, c1, J1) \<Rightarrow>
               let J2 = close_all [jc_job c1] (unpin (jc_pins c1) J1); c2 = c1\<lparr>jc_pins := [], jc_job := None\<rparr> in
               (case delete_profile (d_delete D) (d_delete_again D) (case jc_profile c2 of None \<Rightarrow> [] | Some p \<Rightarrow> p) J2 of
                  (False, J3) \<Rightarrow> (False, link_again c2 J3)
                | (True, J3) \<Rightarrow> (True, J3\<lparr>wj_leaving := without i (wj_leaving J3)\<rparr>))))"

definition poison :: "int \<Rightarrow> win_jail \<Rightarrow> win_jail" where
  "poison i J = J\<lparr>wj_contexts := map (\<lambda>c. if jc_id c = i then c\<lparr>jc_poisoned := True\<rparr> else c) (wj_contexts J)\<rparr>"

inductive jail_step :: "win_jail \<Rightarrow> win_jail \<Rightarrow> bool" where
  CreateContext: "jail_step J (snd (visjail_windows_create K prior D path J))"
| BeginDestroy: "jail_step J (snd (destroy_begin i job_ended J))"
| RetryDestroy: "jail_step J (destroy_retry i J)"
| EndDestroy: "jail_step J (snd (destroy_end D i J))"
| PoisonContext: "jail_step J (poison i J)"
| OtherId: "k_next_id J < INT_MAX \<Longrightarrow> jail_step J (J\<lparr>k_next_id := k_next_id J + 1\<rparr>)"

definition initial_jail :: win_jail where
  "initial_jail = \<lparr>k_next = 1, k_closed = [], k_profiles = [], k_next_id = 1, wj_contexts = [], wj_failed = None, wj_leaving = []\<rparr>"

definition reachable_jail :: "win_jail \<Rightarrow> bool" where
  "reachable_jail J \<longleftrightarrow> jail_step\<^sup>*\<^sup>* initial_jail J"
section \<open>Closing keeps the ledger\<close>

definition ctx_handles :: "jail_context \<Rightarrow> nat multiset" where
  "ctx_handles c = mset (jc_pins c) + mset (jc_ui_pins c) + one_handle (jc_job c) + one_handle (jc_station c)
     + one_handle (jc_desktop c) + one_handle (jc_ui_process c) + one_handle (jc_ui_job c)"

lemma mset_some [simp]: "mset (List.map_filter id hs) = (\<Sum>h \<leftarrow> hs. one_handle h)"
  by (induction hs) (auto simp: List.map_filter_def one_handle_def split: option.splits)

lemma mset_some_one [simp]: "mset (case h of None \<Rightarrow> List.map_filter id [] | Some x \<Rightarrow> x # List.map_filter id []) = one_handle h"
  by (cases h) (simp_all add: List.map_filter_def)

lemma close_all_simps [simp]:
  "k_next (close_all hs k) = k_next k" "k_profiles (close_all hs k) = k_profiles k" "k_next_id (close_all hs k) = k_next_id k"
  "mset (k_closed (close_all hs k)) = mset (k_closed k) + (\<Sum>h \<leftarrow> hs. one_handle h)" "kernel.more (close_all hs k) = kernel.more k"
  by (simp_all add: close_all_def)

lemma unpin_simps [simp]:
  "k_next (unpin hs k) = k_next k" "k_profiles (unpin hs k) = k_profiles k" "k_next_id (unpin hs k) = k_next_id k"
  "mset (k_closed (unpin hs k)) = mset (k_closed k) + mset hs" "kernel.more (unpin hs k) = kernel.more k"
  by (simp_all add: unpin_def)

lemma close_all_variables [simp]:
  "cr_directory (close_all hs s) = cr_directory s" "cr_mapping (close_all hs s) = cr_mapping s" "cr_ready (close_all hs s) = cr_ready s"
  "cr_ack (close_all hs s) = cr_ack s" "cr_thread (close_all hs s) = cr_thread s" "cr_context (close_all hs s) = cr_context s"
  by (simp_all add: close_all_def)

text \<open>The parts of the kernel closing leaves alone, and the ledger of one context.\<close>

definition only_closes :: "jail_context \<Rightarrow> 'a kernel_scheme \<Rightarrow> jail_context \<Rightarrow> 'a kernel_scheme \<Rightarrow> bool" where
  "only_closes c k c1 k1 \<longleftrightarrow>
     mset (k_closed k1) + ctx_handles c1 = mset (k_closed k) + ctx_handles c \<and> k_next k1 = k_next k \<and> k_profiles k1 = k_profiles k
     \<and> k_next_id k1 = k_next_id k \<and> kernel.more k1 = kernel.more k
     \<and> jc_id c1 = jc_id c \<and> jc_poisoned c1 = jc_poisoned c \<and> jc_profile c1 = jc_profile c"

lemma only_closes_trans: "only_closes c k c1 k1 \<Longrightarrow> only_closes c1 k1 c2 k2 \<Longrightarrow> only_closes c k c2 k2"
  by (simp add: only_closes_def)

lemma close_ui_helper_closes:
  assumes "close_ui_helper e c k = (gone, c1, k1)"
  shows "only_closes c k c1 k1"
    "jc_job c1 = jc_job c \<and> jc_station c1 = jc_station c \<and> jc_desktop c1 = jc_desktop c \<and> jc_pins c1 = jc_pins c"
    "gone \<Longrightarrow> jc_ui_process c1 = None \<and> jc_ui_job c1 = None \<and> jc_ui_pins c1 = []"
  using assms by (auto simp: close_ui_helper_def only_closes_def ctx_handles_def split: if_splits)

lemma close_desktop_closes:
  assumes "close_desktop a b c k = (gone, c1, k1)"
  shows "only_closes c k c1 k1"
    "jc_job c1 = jc_job c \<and> jc_pins c1 = jc_pins c \<and> jc_ui_process c1 = jc_ui_process c \<and> jc_ui_job c1 = jc_ui_job c
      \<and> jc_ui_pins c1 = jc_ui_pins c"
    "gone \<Longrightarrow> jc_station c1 = None \<and> jc_desktop c1 = None"
  using assms by (auto simp: close_desktop_def Let_def only_closes_def ctx_handles_def split: if_splits)

text \<open>What disposing of a context leaves: all of it, or a context that still has its profile.\<close>

definition rest_handles :: "jail_context option \<Rightarrow> nat multiset" where
  "rest_handles r = (case r of None \<Rightarrow> {#} | Some c \<Rightarrow> ctx_handles c)"

definition profile_of :: "jail_context \<Rightarrow> wstring list" where
  "profile_of c = (case jc_profile c of None \<Rightarrow> [] | Some name \<Rightarrow> [name])"

lemma profile_of_simps [simp]: "jc_profile c = None \<Longrightarrow> profile_of c = []" "jc_profile c = Some name \<Longrightarrow> profile_of c = [name]"
  by (simp_all add: profile_of_def)

lemma profile_of_cong: "jc_profile c1 = jc_profile c \<Longrightarrow> profile_of c1 = profile_of c"
  by (simp add: profile_of_def)

lemma dispose_closes:
  assumes "dispose_failed_context D c k = (rest, k1)"
  shows "mset (k_closed k1) + rest_handles rest = mset (k_closed k) + ctx_handles c"
    "k_next k1 = k_next k" "k_next_id k1 = k_next_id k" "kernel.more k1 = kernel.more k"
    "case rest of None \<Rightarrow> k_profiles k1 = (case jc_profile c of None \<Rightarrow> k_profiles k | Some p \<Rightarrow> remove1 p (k_profiles k))
      | Some c1 \<Rightarrow> k_profiles k1 = k_profiles k \<and> jc_profile c1 = jc_profile c"
proof -
  obtain gone1 c1 ka where a: "close_ui_helper (d_exit D) c k = (gone1, c1, ka)" by (metis prod_cases3)
  obtain gone2 c2 kb where b: "close_desktop (d_desktop D) (d_station D) c1 ka = (gone2, c2, kb)" by (metis prod_cases3)
  note A = close_ui_helper_closes [OF a]
  note B = close_desktop_closes [OF b]
  note C = only_closes_trans [OF A(1) B(1)]
  consider "\<not> gone1" | "gone1" "\<not> gone2" | "gone1" "gone2" by blast
  then have "mset (k_closed k1) + rest_handles rest = mset (k_closed k) + ctx_handles c
    \<and> k_next k1 = k_next k \<and> k_next_id k1 = k_next_id k \<and> kernel.more k1 = kernel.more k
    \<and> (case rest of None \<Rightarrow> k_profiles k1 = (case jc_profile c of None \<Rightarrow> k_profiles k | Some p \<Rightarrow> remove1 p (k_profiles k))
        | Some c1 \<Rightarrow> k_profiles k1 = k_profiles k \<and> jc_profile c1 = jc_profile c)"
  proof cases
    case 1
    with assms a have "rest = Some c1" "k1 = ka" by (simp_all add: dispose_failed_context_def)
    with A(1) show ?thesis by (simp add: only_closes_def rest_handles_def)
  next
    case 2
    with assms a b have "rest = Some c2" "k1 = kb" by (simp_all add: dispose_failed_context_def)
    with C show ?thesis by (simp add: only_closes_def rest_handles_def)
  next
    case 3
    have p: "jc_profile c2 = jc_profile c" using C by (simp add: only_closes_def)
    have none: "jc_ui_process c2 = None" "jc_ui_job c2 = None" "jc_ui_pins c2 = []" "jc_station c2 = None" "jc_desktop c2 = None"
      using 3 A(3) B(2,3) by simp_all
    have own: "ctx_handles c2 = mset (jc_pins c2) + one_handle (jc_job c2)" by (simp add: ctx_handles_def none)
    show ?thesis
    proof (cases "jc_profile c")
      case None
      with assms C 3 own show ?thesis
        by (auto simp: dispose_failed_context_def a b p only_closes_def rest_handles_def ac_simps)
    next
      case (Some name)
      with assms C 3 own show ?thesis
        by (auto simp: dispose_failed_context_def a b p delete_profile_def only_closes_def rest_handles_def ac_simps
          split: if_splits)
    qed
  qed
  then show "mset (k_closed k1) + rest_handles rest = mset (k_closed k) + ctx_handles c"
    "k_next k1 = k_next k" "k_next_id k1 = k_next_id k" "kernel.more k1 = kernel.more k"
    "case rest of None \<Rightarrow> k_profiles k1 = (case jc_profile c of None \<Rightarrow> k_profiles k | Some p \<Rightarrow> remove1 p (k_profiles k))
      | Some c1 \<Rightarrow> k_profiles k1 = k_profiles k \<and> jc_profile c1 = jc_profile c"
    by blast+
qed

section \<open>Each step of a creation keeps the ledger\<close>

text \<open>Beside the context that is made others hold the handles \<open>X\<close> and the profiles \<open>Ps\<close>.\<close>

definition ledger :: "nat \<Rightarrow> nat multiset \<Rightarrow> wstring list \<Rightarrow> creating \<Rightarrow> bool" where
  "ledger n X Ps s \<longleftrightarrow> n \<le> k_next s
     \<and> made n (k_next s) = mset (k_closed s) + X + ctx_handles (cr_context s) + one_handle (cr_directory s)
         + one_handle (cr_mapping s) + one_handle (cr_ready s) + one_handle (cr_ack s) + one_handle (cr_thread s)
     \<and> k_profiles s = profile_of (cr_context s) @ Ps \<and> distinct (profile_of (cr_context s) @ Ps)"

text \<open>Which variables are set: directory, mapping, ready, ack, thread, then profile, job, station, desktop, helper and
  job of the helper.\<close>

definition shape :: "creating \<Rightarrow> bool list" where
  "shape s = map (\<lambda>h. h \<noteq> None) [cr_directory s, cr_mapping s, cr_ready s, cr_ack s, cr_thread s]
     @ [jc_profile (cr_context s) \<noteq> None]
     @ (let c = cr_context s in map (\<lambda>h. h \<noteq> None) [jc_job c, jc_station c, jc_desktop c, jc_ui_process c, jc_ui_job c])"

text \<open>What holds also where a step fails; \<open>quiet\<close> says that the variables of the desktop are not in use.\<close>

definition base :: "nat \<Rightarrow> nat multiset \<Rightarrow> wstring list \<Rightarrow> int \<Rightarrow> bool \<Rightarrow> creating \<Rightarrow> bool" where
  "base n X Ps i quiet s \<longleftrightarrow> ledger n X Ps s \<and> k_next_id s = i \<and> \<not> jc_poisoned (cr_context s)
     \<and> (quiet \<longrightarrow> cr_mapping s = None \<and> cr_ready s = None \<and> cr_ack s = None \<and> cr_thread s = None)"

definition stage :: "nat \<Rightarrow> nat multiset \<Rightarrow> wstring list \<Rightarrow> int \<Rightarrow> bool \<Rightarrow> bool list \<Rightarrow> creating \<Rightarrow> bool" where
  "stage n X Ps i quiet sh s \<longleftrightarrow> base n X Ps i quiet s \<and> shape s = sh \<and> (quiet \<longrightarrow> jc_ui_pins (cr_context s) = [])"

lemmas stage_defs = spec_def stage_def base_def ledger_def shape_def in_context_def ctx_handles_def Let_def profile_of_def

lemma spec_call: "spec (base n X Ps i b) (stage n X Ps i b sh) (call K x) (stage n X Ps i b sh)"
  by (simp add: spec_def call_def stage_def split: option.splits)

lemma spec_pin_into: "\<not> (b \<and> ui) \<Longrightarrow> spec (base n X Ps i b) (stage n X Ps i b sh) (pin_into out ui) (stage n X Ps i b sh)"
  by (cases out; cases ui) (auto simp: stage_defs pin_into_def)

lemma spec_pin_all:
  "\<not> (b \<and> ui) \<Longrightarrow> spec (base n X Ps i b) (stage n X Ps i b sh) (run_steps (map (\<lambda>p. pin_into (out p) ui) ps)) (stage n X Ps i b sh)"
proof (induction ps)
  case (Cons p ps)
  show ?case unfolding list.map by (rule spec_Cons [OF spec_pin_into [OF Cons.prems] Cons.IH [OF Cons.prems]])
qed (simp only: list.map spec_Nil)

lemma spec_ancestors:
  "\<not> (b \<and> ui) \<Longrightarrow> spec (base n X Ps i b) (stage n X Ps i b sh) (pin_ancestors K path ui) (stage n X Ps i b sh)"
  unfolding pin_ancestors_def by (rule spec_pin_all)

lemma spec_make_objects:
  "spec (base n X Ps i False) (stage n X Ps i False [d, False, False, False, t, p, j, st, dt, up, uj])
     (make_objects K) (stage n X Ps i False [d, True, True, True, t, p, j, st, dt, up, uj])"
  by (cases "failed K MakeMapping"; cases "failed K MakeReady"; cases "failed K MakeAck")
    (clarsimp simp: stage_defs make_objects_def open_into_def)+

lemma spec_start_helper:
  "spec (base n X Ps i False) (stage n X Ps i False [d, m, r, a, False, p, j, st, dt, False, uj])
     (start_helper K) (stage n X Ps i False [d, m, r, a, True, p, j, st, dt, True, uj])"
  by (cases "failed K UiProcess") (clarsimp simp: stage_defs start_helper_def numeral_2_eq_2)+

lemma spec_ui_job:
  "spec (base n X Ps i False) (stage n X Ps i False [d, m, r, a, t, p, j, st, dt, up, False])
     (open_checked K UiJob (\<lambda>h. in_context (jc_ui_job_update (\<lambda>_. Some h)))) (stage n X Ps i False [d, m, r, a, t, p, j, st, dt, up, True])"
  by (cases "failed K UiJob") (clarsimp simp: stage_defs open_checked_def)+

lemma spec_station:
  "spec (base n X Ps i False) (stage n X Ps i False [d, m, r, a, t, p, j, False, dt, up, uj])
     (open_into K TakeStation (\<lambda>h. in_context (jc_station_update (\<lambda>_. Some h)))) (stage n X Ps i False [d, m, r, a, t, p, j, True, dt, up, uj])"
  by (cases "failed K TakeStation") (clarsimp simp: stage_defs open_into_def)+

lemma spec_desktop:
  "spec (base n X Ps i False) (stage n X Ps i False [d, m, r, a, t, p, j, st, False, up, uj])
     (open_into K TakeDesktop (\<lambda>h. in_context (jc_desktop_update (\<lambda>_. Some h)))) (stage n X Ps i False [d, m, r, a, t, p, j, st, True, up, uj])"
  by (cases "failed K TakeDesktop") (clarsimp simp: stage_defs open_into_def)+

lemma spec_checks:
  "spec (base n X Ps i b) (stage n X Ps i b sh) check_profile (stage n X Ps i b sh)"
  "spec (base n X Ps i b) (stage n X Ps i b sh) (check_answer K) (stage n X Ps i b sh)"
  "spec (base n X Ps i b) (stage n X Ps i b sh) (check_taken K) (stage n X Ps i b sh)"
  by (simp_all add: spec_def stage_def check_profile_def check_answer_def check_taken_def split: option.splits)

lemmas spec_pins = spec_ancestors spec_pin_into

lemma desktop_steps_keep_the_ledger:
  "spec (base n X Ps i False) (stage n X Ps i False [d, False, False, False, False, p, j, False, False, False, False])
     (run_steps (desktop_steps K)) (stage n X Ps i False [d, True, True, True, True, p, j, True, True, True, True])"
  unfolding desktop_steps_def
  by (rule spec_Cons [OF spec_call] spec_Cons [OF spec_checks(1)] spec_Cons [OF spec_checks(2)] spec_Cons [OF spec_checks(3)]
      spec_Cons [OF spec_ancestors] spec_Cons [OF spec_pin_into] spec_Cons [OF spec_make_objects] spec_Cons [OF spec_ui_job]
      spec_Cons [OF spec_start_helper] spec_Cons [OF spec_station] spec_Cons [OF spec_desktop] spec_Nil | simp)+

text \<open>Whatever becomes of the desktop, its variables are given up, and where it works the helper is gone.\<close>

lemma spec_private_desktop:
  "spec (base n X Ps i True) (stage n X Ps i True [d, False, False, False, False, p, j, False, False, False, False])
     (private_desktop K) (stage n X Ps i True [d, False, False, False, False, p, j, True, True, False, False])"
  unfolding spec_def
proof (intro allI impI)
  fix s
  assume s: "stage n X Ps i True [d, False, False, False, False, p, j, False, False, False, False] s"
  obtain e s1 where run: "run_steps (desktop_steps K) s = (e, s1)" by (metis prod.exhaust)
  obtain gone c s2 where helper: "close_ui_helper (ui_exit K) (cr_context s1) s1 = (gone, c, s2)" by (metis prod_cases3)
  note H = close_ui_helper_closes [OF helper]
  have more: "creating.cr_directory s2 = cr_directory s1 \<and> cr_mapping s2 = cr_mapping s1 \<and> cr_ready s2 = cr_ready s1
      \<and> cr_ack s2 = cr_ack s1 \<and> cr_thread s2 = cr_thread s1"
    using H(1) by (cases s1; cases s2) (simp add: only_closes_def)
  have "stage n X Ps i False [d, False, False, False, False, p, j, False, False, False, False] s"
    using s by (simp add: stage_def base_def)
  from desktop_steps_keep_the_ledger [unfolded spec_def, rule_format, OF this, of K]
  have after: "case e of None \<Rightarrow> stage n X Ps i False [d, True, True, True, True, p, j, True, True, True, True] s1
      | Some _ \<Rightarrow> base n X Ps i False s1"
    unfolding run by (cases e) simp_all
  then have b: "base n X Ps i False s1" by (simp add: stage_def split: option.splits)
  let ?s3 = "(close_all [cr_thread s2, cr_mapping s2, cr_ready s2, cr_ack s2] s2)
    \<lparr>cr_context := c, cr_thread := None, cr_mapping := None, cr_ready := None, cr_ack := None\<rparr>"
  have "made n (k_next s1) = (mset (k_closed s2) + ctx_handles c) + X + one_handle (cr_directory s1) + one_handle (cr_mapping s1)
      + one_handle (cr_ready s1) + one_handle (cr_ack s1) + one_handle (cr_thread s1)"
    using b H(1) by (simp add: base_def ledger_def only_closes_def ac_simps)
  then have ok: "base n X Ps i True ?s3"
    using b H(1) more by (simp add: base_def ledger_def only_closes_def profile_of_def ac_simps)
  have fine: "stage n X Ps i True [d, False, False, False, False, p, j, True, True, False, False] ?s3" if "e = None" "gone"
  proof -
    have "shape s1 = [d, True, True, True, True, p, j, True, True, True, True]" using after that(1) by (simp add: stage_def)
    then have "shape ?s3 = [d, False, False, False, False, p, j, True, True, False, False]"
      using H(1,2) H(3) [OF that(2)] more by (simp add: shape_def Let_def only_closes_def)
    then show ?thesis using ok H(3) [OF that(2)] by (simp add: stage_def)
  qed
  show "case private_desktop K s of
      (None, s1) \<Rightarrow> stage n X Ps i True [d, False, False, False, False, p, j, True, True, False, False] s1
    | (Some _, s1) \<Rightarrow> base n X Ps i True s1"
    using ok fine by (auto simp: private_desktop_def run helper split: option.splits)
qed

lemma spec_directory:
  "spec (base n X Ps i b) (stage n X Ps i b [False, m, r, a, t, p, j, st, dt, up, uj])
     (open_checked K OpenDirectory (\<lambda>h. cr_directory_update (\<lambda>_. Some h))) (stage n X Ps i b [True, m, r, a, t, p, j, st, dt, up, uj])"
  by (cases "failed K OpenDirectory") (clarsimp simp: stage_defs open_checked_def)+

lemma spec_job:
  "spec (base n X Ps i b) (stage n X Ps i b [d, m, r, a, t, p, False, st, dt, up, uj])
     (open_checked K ContextJob (\<lambda>h. in_context (jc_job_update (\<lambda>_. Some h)))) (stage n X Ps i b [d, m, r, a, t, p, True, st, dt, up, uj])"
  by (cases "failed K ContextJob") (clarsimp simp: stage_defs open_checked_def)+

lemma spec_create_profile:
  "spec (base n X Ps i b) (stage n X Ps i b [d, m, r, a, t, False, j, st, dt, up, uj])
     (create_profile K) (stage n X Ps i b [d, m, r, a, t, True, j, st, dt, up, uj])"
  by (cases "failed K CreateProfile") (clarsimp simp: stage_defs create_profile_def)+

lemma spec_pin_directory:
  "spec (base n X Ps i b) (stage n X Ps i b [d, m, r, a, t, p, j, st, dt, up, uj])
     (pin_directory K) (stage n X Ps i b [False, m, r, a, t, p, j, st, dt, up, uj])"
  by (cases "failed K DirectoryPin") (clarsimp simp: stage_defs pin_directory_def)+

lemma spec_private_directories:
  "spec (base n X Ps i b) (stage n X Ps i b sh) (make_private_directories K path) (stage n X Ps i b sh)"
proof -
  have "make_private_directories K path = run_steps (map (\<lambda>q. pin_into (private_directory_outcome (snd q) (private_path K (fst q))) False)
      (private_paths path (profile_name (random_bytes K))))"
    by (rule ext) (simp add: make_private_directories_def case_prod_unfold)
  then show ?thesis by (simp add: spec_pin_all)
qed

text \<open>What a finished creation leaves, and the steps of it from the start.\<close>

definition created :: "nat \<Rightarrow> nat multiset \<Rightarrow> wstring list \<Rightarrow> int \<Rightarrow> creating \<Rightarrow> bool" where
  "created n X Ps i s \<longleftrightarrow>
     stage n X Ps (i + 1) True [False, False, False, False, False, True, True, True, True, False, False] s
     \<and> jc_id (cr_context s) = i \<and> i < INT_MAX"

lemma spec_draw:
  assumes "i \<le> INT_MAX"
  shows "spec (base n X Ps i True) (stage n X Ps i True [False, False, False, False, False, True, True, True, True, False, False])
     draw_context_id (created n X Ps i)"
  using assms by (clarsimp simp: stage_defs created_def draw_context_id_def)

lemma create_steps_keep_the_ledger:
  assumes "i \<le> INT_MAX"
  shows "spec (base n X Ps i True)
     (stage n X Ps i True [False, False, False, False, False, False, False, False, False, False, False])
     (run_steps (create_steps K path)) (created n X Ps i)"
  unfolding create_steps_def
  by (rule spec_Cons [OF spec_call] spec_Cons [OF spec_ancestors] spec_Cons [OF spec_directory] spec_Cons [OF spec_create_profile]
      spec_Cons [OF spec_private_desktop] spec_Cons [OF spec_pin_directory] spec_Cons [OF spec_private_directories]
      spec_Cons [OF spec_job] spec_Cons [OF spec_draw [OF assms]] spec_Nil | simp)+

section \<open>The invariant of the contexts\<close>

definition jail_handles :: "win_jail \<Rightarrow> nat multiset" where
  "jail_handles J = (\<Sum>c \<leftarrow> wj_contexts J @ wj_leaving J. ctx_handles c) + rest_handles (wj_failed J)"

definition jail_profiles :: "win_jail \<Rightarrow> wstring multiset" where
  "jail_profiles J = (\<Sum>c \<leftarrow> wj_contexts J @ wj_leaving J. mset (profile_of c))
     + (case wj_failed J of None \<Rightarrow> {#} | Some c \<Rightarrow> mset (profile_of c))"

text \<open>A context the library still lists, or one that is being destroyed.\<close>

definition sound_context :: "int \<Rightarrow> jail_context \<Rightarrow> bool" where
  "sound_context i c \<longleftrightarrow> 0 < jc_id c \<and> jc_id c < i \<and> jc_profile c \<noteq> None
     \<and> jc_ui_process c = None \<and> jc_ui_job c = None \<and> jc_ui_pins c = []
     \<and> (\<not> jc_poisoned c \<longrightarrow> jc_job c \<noteq> None \<and> jc_station c \<noteq> None \<and> jc_desktop c \<noteq> None)"

definition jail_inv :: "win_jail \<Rightarrow> bool" where
  "jail_inv J \<longleftrightarrow> 0 < k_next J \<and> 0 < k_next_id J \<and> k_next_id J \<le> INT_MAX
     \<and> made 1 (k_next J) = mset (k_closed J) + jail_handles J
     \<and> mset (k_profiles J) = jail_profiles J \<and> distinct (k_profiles J)
     \<and> distinct (map jc_id (wj_contexts J @ wj_leaving J))
     \<and> (\<forall>c \<in> set (wj_contexts J @ wj_leaving J). sound_context (k_next_id J) c)
     \<and> (\<forall>c \<in> set (wj_leaving J). jc_poisoned c)"

lemma initial_jail_inv: "jail_inv initial_jail"
  by (simp add: jail_inv_def initial_jail_def jail_handles_def jail_profiles_def rest_handles_def INT_MAX_def)

text \<open>Finishing the failed context.\<close>

lemma finish_prior_inv:
  assumes J: "jail_inv J"
  shows "jail_inv (finish_prior D J)" "wj_contexts (finish_prior D J) = wj_contexts J" "wj_leaving (finish_prior D J) = wj_leaving J"
proof -
  have "jail_inv (finish_prior D J) \<and> wj_contexts (finish_prior D J) = wj_contexts J \<and> wj_leaving (finish_prior D J) = wj_leaving J"
  proof (cases "wj_failed J")
    case None
    then show ?thesis using J by (simp add: finish_prior_def)
  next
    case (Some c)
    obtain rest k1 where d: "dispose_failed_context D c J = (rest, k1)" by (metis prod.exhaust)
    note C = dispose_closes [OF d]
    have same: "wj_contexts k1 = wj_contexts J" "wj_leaving k1 = wj_leaving J"
      using C(4) by (cases J; cases k1; simp)+
    have hs: "mset (k_closed k1) + (Sum + rest_handles rest) = mset (k_closed J) + (Sum + ctx_handles c)" for Sum
      using C(1) by (simp add: ac_simps)
    have ps: "mset (k_profiles k1) = (\<Sum>c \<leftarrow> wj_contexts J @ wj_leaving J. mset (profile_of c))
        + (case rest of None \<Rightarrow> {#} | Some c \<Rightarrow> mset (profile_of c))"
      and dis: "distinct (k_profiles k1)"
      using C(5) J by (auto simp: jail_inv_def jail_profiles_def Some profile_of_def split: option.splits)
    show ?thesis
      using J C(2,3) hs ps dis same
      by (simp add: finish_prior_def Some d jail_inv_def jail_handles_def jail_profiles_def rest_handles_def [of "Some c"])
  qed
  then show "jail_inv (finish_prior D J)" "wj_contexts (finish_prior D J) = wj_contexts J" "wj_leaving (finish_prior D J) = wj_leaving J"
    by blast+
qed

text \<open>Making a context.\<close>

lemma begin_create_stage:
  assumes "jail_inv J" "wj_failed J = None"
  shows "stage 1 (jail_handles J) (k_profiles J) (k_next_id J) True
    [False, False, False, False, False, False, False, False, False, False, False] (begin_create J)"
  using assms
  by (simp add: stage_def base_def ledger_def shape_def begin_create_def new_context_def ctx_handles_def jail_inv_def Let_def Suc_le_eq)

lemma put_kernel_simps [simp]:
  "k_next (put_kernel k J) = k_next k" "k_closed (put_kernel k J) = k_closed k" "k_profiles (put_kernel k J) = k_profiles k"
  "k_next_id (put_kernel k J) = k_next_id k" "wj_contexts (put_kernel k J) = wj_contexts J" "wj_failed (put_kernel k J) = wj_failed J"
  "wj_leaving (put_kernel k J) = wj_leaving J"
  by (simp_all add: put_kernel_def)

lemma sound_context_mono: "sound_context i c \<Longrightarrow> i \<le> j \<Longrightarrow> sound_context j c"
  by (auto simp: sound_context_def)

lemma created_inv:
  assumes J: "jail_inv J" "wj_failed J = None" and s: "created 1 (jail_handles J) (k_profiles J) (k_next_id J) s"
  shows "jail_inv ((put_kernel s J)\<lparr>wj_contexts := cr_context s # wj_contexts J\<rparr>)" (is "jail_inv ?J")
proof -
  let ?c = "cr_context s"
  have sh: "stage 1 (jail_handles J) (k_profiles J) (k_next_id J + 1) True
      [False, False, False, False, False, True, True, True, True, False, False] s"
    and id: "jc_id ?c = k_next_id J" "k_next_id J < INT_MAX"
    using s by (simp_all add: created_def)
  have sound: "sound_context (k_next_id J + 1) ?c"
    using sh id J by (simp add: sound_context_def stage_def shape_def base_def Let_def jail_inv_def)
  have made: "made 1 (k_next s) = mset (k_closed s) + jail_handles ?J" and pos: "0 < k_next s"
    using sh J(2) by (auto simp: stage_def shape_def base_def ledger_def Let_def jail_handles_def ac_simps)
  have profiles: "mset (k_profiles s) = jail_profiles ?J" "distinct (k_profiles s)"
    using sh J by (auto simp: stage_def base_def ledger_def jail_inv_def jail_profiles_def ac_simps)
  have old: "\<forall>c \<in> set (wj_contexts J @ wj_leaving J). sound_context (k_next_id J) c"
    and leaving: "\<forall>c \<in> set (wj_leaving J). jc_poisoned c" and dis: "distinct (map jc_id (wj_contexts J @ wj_leaving J))"
    using J(1) by (simp_all add: jail_inv_def)
  have fresh: "jc_id ?c \<notin> set (map jc_id (wj_contexts J @ wj_leaving J))"
    using old by (auto simp: id sound_context_def)
  have i: "k_next_id s = k_next_id J + 1" using sh by (simp add: stage_def base_def)
  have all: "\<forall>c \<in> set (wj_contexts ?J @ wj_leaving ?J). sound_context (k_next_id ?J) c"
    using old sound by (auto simp: i intro: sound_context_mono [where i = "k_next_id J"])
  show ?thesis
    unfolding jail_inv_def
    using made pos profiles all leaving dis fresh id J(1) by (simp add: jail_inv_def i)
qed

lemma not_created_inv:
  assumes J: "jail_inv J" "wj_failed J = None" and s: "base 1 (jail_handles J) (k_profiles J) (k_next_id J) True s"
    and d: "dispose_failed_context D (cr_context s) (close_all [cr_directory s] s) = (rest, s1)"
  shows "jail_inv ((put_kernel s1 J)\<lparr>wj_failed := rest\<rparr>)" (is "jail_inv ?J")
proof -
  note C = dispose_closes [OF d]
  have closed: "mset (k_closed s1) + rest_handles rest = mset (k_closed s) + one_handle (cr_directory s) + ctx_handles (cr_context s)"
    using C(1) by simp
  have "made 1 (k_next s) = (mset (k_closed s) + one_handle (cr_directory s) + ctx_handles (cr_context s)) + jail_handles J"
    using s by (simp add: base_def ledger_def ac_simps)
  then have made: "made 1 (k_next s) = mset (k_closed s1) + jail_handles ?J"
    unfolding closed [symmetric] by (simp add: jail_handles_def J(2) rest_handles_def [of None] ac_simps)
  have old: "mset (k_profiles J) = jail_profiles J" using J(1) by (simp add: jail_inv_def)
  have profiles: "mset (k_profiles s1) = jail_profiles ?J" "distinct (k_profiles s1)"
    using s C(5) old J(2) by (auto simp: base_def ledger_def jail_profiles_def profile_of_def ac_simps split: option.splits)
  show ?thesis
    unfolding jail_inv_def
    using made profiles s C(2,3) J(1) by (simp add: base_def ledger_def jail_inv_def)
qed

lemma create_inv:
  assumes J: "jail_inv J"
  shows "jail_inv (snd (visjail_windows_create K prior D path J))"
proof (cases "wj_failed (finish_prior prior J)")
  case (Some c)
  then show ?thesis using finish_prior_inv [OF J] by (simp add: visjail_windows_create_def Let_def)
next
  case None
  let ?J = "finish_prior prior J"
  note P = finish_prior_inv(1) [OF J, of prior]
  obtain e s where run: "run_steps (create_steps K path) (begin_create ?J) = (e, s)" by (metis prod.exhaust)
  have "k_next_id ?J \<le> INT_MAX" using P by (simp add: jail_inv_def)
  from create_steps_keep_the_ledger [OF this, unfolded spec_def, rule_format, OF begin_create_stage [OF P None], of K path]
  have after: "case e of None \<Rightarrow> created 1 (jail_handles ?J) (k_profiles ?J) (k_next_id ?J) s
      | Some _ \<Rightarrow> base 1 (jail_handles ?J) (k_profiles ?J) (k_next_id ?J) True s"
    unfolding run by (cases e) simp_all
  show ?thesis
  proof (cases e)
    case e: None
    with after show ?thesis using created_inv [OF P None] None by (simp add: visjail_windows_create_def Let_def run)
  next
    case e: (Some code)
    obtain rest s1 where d: "dispose_failed_context D (cr_context s) (close_all [cr_directory s] s) = (rest, s1)"
      by (metis prod.exhaust)
    from after e show ?thesis using not_created_inv [OF P None _ d] None by (simp add: visjail_windows_create_def Let_def run e d)
  qed
qed

text \<open>Taking a context out of a list, by its id.\<close>

lemma without_other: "i \<notin> set (map jc_id cs) \<Longrightarrow> without i cs = cs"
  by (induction cs) (auto simp: without_def)

lemma without_found:
  assumes "find (\<lambda>c. jc_id c = i) cs = Some c" "distinct (map jc_id cs)"
  shows "jc_id c = i" "c \<in> set cs" "(\<Sum>c \<leftarrow> cs. f c) = (f c + (\<Sum>c \<leftarrow> without i cs. f c) :: 'b multiset)"
proof -
  have "jc_id c = i \<and> c \<in> set cs \<and> (\<Sum>c \<leftarrow> cs. f c) = (f c + (\<Sum>c \<leftarrow> without i cs. f c))"
    using assms
  proof (induction cs)
    case (Cons x cs)
    show ?case
    proof (cases "jc_id x = i")
      case True
      with Cons.prems have "without i (x # cs) = cs" using without_other [of i cs] by (simp add: without_def)
      with True Cons.prems show ?thesis by simp
    next
      case False
      with Cons show ?thesis by (simp add: without_def ac_simps)
    qed
  qed simp
  then show "jc_id c = i" "c \<in> set cs" "(\<Sum>c \<leftarrow> cs. f c) = (f c + (\<Sum>c \<leftarrow> without i cs. f c))" by blast+
qed

lemma without_set [simp]: "set (without i cs) = {c \<in> set cs. jc_id c \<noteq> i}"
  by (simp add: without_def)

lemma without_distinct: "distinct (map jc_id (xs @ ys)) \<Longrightarrow> distinct (map jc_id (xs @ without j ys))"
  by (auto simp: without_def distinct_map_filter)

lemma poisoned_same [simp]:
  "ctx_handles (c\<lparr>jc_poisoned := b\<rparr>) = ctx_handles c" "profile_of (c\<lparr>jc_poisoned := b\<rparr>) = profile_of c"
  by (simp_all add: ctx_handles_def profile_of_def)

lemma sound_poisoned: "sound_context i c \<Longrightarrow> sound_context i (c\<lparr>jc_poisoned := True\<rparr>)"
  by (simp add: sound_context_def)

lemma poison_inv:
  assumes "jail_inv J"
  shows "jail_inv (poison i J)"
proof -
  let ?p = "\<lambda>c. if jc_id c = i then c\<lparr>jc_poisoned := True\<rparr> else c"
  have same: "ctx_handles \<circ> ?p = ctx_handles" "(\<lambda>c. mset (profile_of c)) \<circ> ?p = (\<lambda>c. mset (profile_of c))" "jc_id \<circ> ?p = jc_id"
    by (simp_all add: fun_eq_iff)
  have parts: "jail_handles (poison i J) = jail_handles J" "jail_profiles (poison i J) = jail_profiles J"
    "map jc_id (wj_contexts (poison i J)) = map jc_id (wj_contexts J)"
    by (simp_all add: poison_def jail_handles_def jail_profiles_def same)
  have kept: "k_next (poison i J) = k_next J" "k_closed (poison i J) = k_closed J" "k_profiles (poison i J) = k_profiles J"
    "k_next_id (poison i J) = k_next_id J" "wj_leaving (poison i J) = wj_leaving J"
    by (simp_all add: poison_def)
  have "\<forall>c \<in> set (wj_contexts (poison i J)). sound_context (k_next_id J) c"
    using assms by (auto simp: poison_def jail_inv_def intro: sound_poisoned)
  then show ?thesis
    using assms unfolding jail_inv_def parts kept map_append by auto
qed

lemma destroy_begin_inv:
  assumes J: "jail_inv J"
  shows "jail_inv (snd (destroy_begin i ended J))"
proof (cases "find (\<lambda>c. jc_id c = i) (wj_contexts J)")
  case None
  then show ?thesis using J by (simp add: destroy_begin_def)
next
  case (Some c)
  have dis: "distinct (map jc_id (wj_contexts J))" using J by (simp add: jail_inv_def)
  note F = without_found [OF Some dis]
  show ?thesis
  proof (cases "jc_job c \<noteq> None \<and> \<not> ended")
    case True
    have "map (\<lambda>x. if jc_id x = i then c\<lparr>jc_poisoned := True\<rparr> else x) (wj_contexts J)
      = map (\<lambda>c. if jc_id c = i then c\<lparr>jc_poisoned := True\<rparr> else c) (wj_contexts J)"
      using dis F(1,2) by (auto simp: distinct_map inj_on_def)
    then have "snd (destroy_begin i ended J) = poison i J" using True by (simp add: destroy_begin_def Some poison_def)
    then show ?thesis using poison_inv [OF J] by simp
  next
    case False
    let ?J = "J\<lparr>wj_contexts := without i (wj_contexts J), wj_leaving := c\<lparr>jc_poisoned := True\<rparr> # wj_leaving J\<rparr>"
    have parts: "jail_handles ?J = jail_handles J" "jail_profiles ?J = jail_profiles J"
      by (simp_all add: jail_handles_def jail_profiles_def F(3) ac_simps)
    have ids: "distinct (map jc_id (wj_contexts ?J @ wj_leaving ?J))"
      using J F(1,2) by (auto simp: jail_inv_def distinct_map_filter without_def)
    have "jail_inv ?J"
      using J F(1,2) parts ids unfolding jail_inv_def by (auto intro: sound_poisoned)
    then show ?thesis using False by (auto simp: destroy_begin_def Some Let_def)
  qed
qed

text \<open>A context that could not be destroyed is listed again, with what is left of it.\<close>

lemma only_closes_record:
  assumes "only_closes c J c1 J1"
  shows "wj_contexts J1 = wj_contexts J" "wj_leaving J1 = wj_leaving J" "wj_failed J1 = wj_failed J"
  using assms by (cases J; cases J1; simp add: only_closes_def)+

lemma link_again_inv:
  assumes J: "jail_inv J" and c: "find (\<lambda>c. jc_id c = i) (wj_leaving J) = Some c"
    and closed: "only_closes c J c1 J1" and gone: "jc_ui_process c1 = None" "jc_ui_job c1 = None" "jc_ui_pins c1 = []"
  shows "jail_inv (link_again c1 J1)" (is "jail_inv ?J")
proof -
  have "distinct (map jc_id (wj_leaving J))" using J by (simp add: jail_inv_def)
  note F = without_found [OF c this]
  note R = only_closes_record [OF closed]
  have id: "jc_id c1 = i" "jc_profile c1 = jc_profile c" "jc_poisoned c1 = jc_poisoned c"
    using closed F(1) by (simp_all add: only_closes_def)
  have listed: "wj_contexts ?J = c1 # wj_contexts J" "wj_leaving ?J = without i (wj_leaving J)" "wj_failed ?J = wj_failed J"
    using R id by (simp_all add: link_again_def)
  have kept: "k_next ?J = k_next J" "k_profiles ?J = k_profiles J" "k_next_id ?J = k_next_id J" "k_closed ?J = k_closed J1"
    using closed by (simp_all add: link_again_def only_closes_def)
  have "mset (k_closed J1) + ctx_handles c1 = mset (k_closed J) + ctx_handles c" using closed by (simp add: only_closes_def)
  then have sum: "mset (k_closed J1) + (ctx_handles c1 + X) = mset (k_closed J) + (ctx_handles c + X)" for X
    by (simp add: add.assoc [symmetric])
  have handles: "mset (k_closed J1) + jail_handles ?J = mset (k_closed J) + jail_handles J"
    using sum by (simp add: jail_handles_def listed F(3) ac_simps)
  have profiles: "jail_profiles ?J = jail_profiles J"
    by (simp add: jail_profiles_def listed F(3) profile_of_cong [OF id(2)] ac_simps)
  have ids: "distinct (map jc_id (wj_contexts ?J @ wj_leaving ?J))"
    using J F(1,2) by (auto simp: jail_inv_def listed id distinct_map_filter without_def)
  have "sound_context (k_next_id J) c" "jc_poisoned c" using J F(2) by (simp_all add: jail_inv_def)
  then have sound: "sound_context (k_next_id J) c1" using id gone F(1) by (simp add: sound_context_def)
  show ?thesis
    using J handles profiles ids sound unfolding jail_inv_def kept listed by auto
qed

text \<open>At the end of a destruction all of the context is closed.\<close>

lemma destroyed_inv:
  assumes J: "jail_inv J" and c: "find (\<lambda>c. jc_id c = i) (wj_leaving J) = Some c"
    and closed: "only_closes c J c1 J1" and all: "ctx_handles c1 = {#}" and name: "jc_profile c1 = Some name"
  shows "jail_inv (J1\<lparr>k_profiles := remove1 name (k_profiles J1), wj_leaving := without i (wj_leaving J1)\<rparr>)" (is "jail_inv ?J")
proof -
  have "distinct (map jc_id (wj_leaving J))" using J by (simp add: jail_inv_def)
  note F = without_found [OF c this]
  note R = only_closes_record [OF closed]
  have kept: "k_next J1 = k_next J" "k_profiles J1 = k_profiles J" "k_next_id J1 = k_next_id J" "jc_profile c = Some name"
    and hs: "mset (k_closed J1) = mset (k_closed J) + ctx_handles c"
    using closed all name by (simp_all add: only_closes_def)
  have handles: "mset (k_closed ?J) + jail_handles ?J = mset (k_closed J) + jail_handles J"
    by (simp add: jail_handles_def R F(3) hs ac_simps)
  have profiles: "jail_profiles J = add_mset name (jail_profiles ?J)"
    by (simp add: jail_profiles_def R F(3) kept)
  then have profiles': "mset (k_profiles ?J) = jail_profiles ?J"
    using J by (simp add: jail_inv_def kept)
  have ids: "distinct (map jc_id (wj_contexts J @ without i (wj_leaving J)))"
    using J by (intro without_distinct) (simp add: jail_inv_def)
  show ?thesis
    using J handles profiles' ids unfolding jail_inv_def by (auto simp: kept R)
qed

lemma destroy_end_inv:
  assumes J: "jail_inv J"
  shows "jail_inv (snd (destroy_end D i J))"
proof (cases "find (\<lambda>c. jc_id c = i) (wj_leaving J)")
  case None
  then show ?thesis using J by (simp add: destroy_end_def)
next
  case (Some c)
  have dis: "distinct (map jc_id (wj_leaving J))" using J by (simp add: jail_inv_def)
  note F = without_found [OF Some dis]
  have sound: "sound_context (k_next_id J) c" using J F(2) by (simp add: jail_inv_def)
  obtain gone c1 J1 where d: "close_desktop (d_desktop D) (d_station D) c J = (gone, c1, J1)" by (metis prod_cases3)
  note C = close_desktop_closes [OF d]
  have ui: "jc_ui_process c1 = None" "jc_ui_job c1 = None" "jc_ui_pins c1 = []"
    using C(2) sound by (simp_all add: sound_context_def)
  show ?thesis
  proof (cases gone)
    case False
    then show ?thesis using link_again_inv [OF J Some C(1) ui] by (simp add: destroy_end_def Some d)
  next
    case True
    let ?c2 = "c1\<lparr>jc_pins := [], jc_job := None\<rparr>"
    let ?J2 = "close_all [jc_job c1] (unpin (jc_pins c1) J1)"
    have two: "only_closes c J ?c2 ?J2"
      by (rule only_closes_trans [OF C(1)]) (simp add: only_closes_def ctx_handles_def ac_simps)
    have all: "ctx_handles ?c2 = {#}" using C(3) [OF True] ui by (simp add: ctx_handles_def)
    obtain name where name: "jc_profile ?c2 = Some name" using two sound by (auto simp: only_closes_def sound_context_def)
    have out: "delete_profile (d_delete D) (d_delete_again D) (case jc_profile ?c2 of None \<Rightarrow> [] | Some p \<Rightarrow> p) ?J2
      = (if d_delete D \<or> d_delete_again D then (True, ?J2\<lparr>k_profiles := remove1 name (k_profiles ?J2)\<rparr>) else (False, ?J2))"
      using name by (simp add: delete_profile_def)
    show ?thesis
    proof (cases "d_delete D \<or> d_delete_again D")
      case T: True
      show ?thesis using destroyed_inv [OF J Some two all name] True T out by (simp add: destroy_end_def Some d Let_def)
    next
      case F: False
      show ?thesis using link_again_inv [OF J Some two] ui True F out by (simp add: destroy_end_def Some d Let_def)
    qed
  qed
qed

lemma destroy_retry_inv:
  assumes J: "jail_inv J"
  shows "jail_inv (destroy_retry i J)"
proof (cases "find (\<lambda>c. jc_id c = i) (wj_leaving J)")
  case None
  then show ?thesis using J by (simp add: destroy_retry_def)
next
  case (Some c)
  have dis: "distinct (map jc_id (wj_leaving J))" using J by (simp add: jail_inv_def)
  have "sound_context (k_next_id J) c" using J without_found(2) [OF Some dis] by (simp add: jail_inv_def)
  then have ui: "jc_ui_process c = None" "jc_ui_job c = None" "jc_ui_pins c = []" by (simp_all add: sound_context_def)
  have "only_closes c J c J" by (simp add: only_closes_def)
  from link_again_inv [OF J Some this ui] show ?thesis by (simp add: destroy_retry_def Some)
qed

lemma other_id_inv: "jail_inv J \<Longrightarrow> k_next_id J < INT_MAX \<Longrightarrow> jail_inv (J\<lparr>k_next_id := k_next_id J + 1\<rparr>)"
  by (auto simp: jail_inv_def jail_handles_def jail_profiles_def intro: sound_context_mono [where i = "k_next_id J"])

lemma jail_step_inv: "jail_step J J1 \<Longrightarrow> jail_inv J \<Longrightarrow> jail_inv J1"
  by (induction rule: jail_step.induct)
    (simp_all add: create_inv destroy_begin_inv destroy_retry_inv destroy_end_inv poison_inv other_id_inv)

lemma reachable_jail_inv: "reachable_jail J \<Longrightarrow> jail_inv J"
  unfolding reachable_jail_def
  by (induction rule: rtranclp_induct) (auto intro: initial_jail_inv jail_step_inv)

section \<open>The properties of the contexts\<close>

text \<open>C22: Whatever contexts were made and destroyed, and whatever calls failed on the way, no handle is lost, shared or
  closed twice: each handle the kernel gave was closed once, or is held by one context that is listed, being
  destroyed, or waiting for its failed creation to be finished.  In the same way each AppContainer profile that
  exists belongs to one of these contexts.  A listed context has an id of its own, and as long as it is not
  poisoned it has its profile, its job, its private station and desktop, and no helper is left in it.\<close>

theorem contexts_own_profiles_and_handles:
  assumes "reachable_jail J"
  shows "made 1 (k_next J) = mset (k_closed J) + jail_handles J
    \<and> mset (k_profiles J) = jail_profiles J \<and> distinct (k_profiles J)
    \<and> distinct (map jc_id (wj_contexts J @ wj_leaving J))
    \<and> (\<forall>c \<in> set (wj_contexts J). \<not> jc_poisoned c \<longrightarrow>
        (\<exists>name job station desktop. jc_profile c = Some name \<and> jc_job c = Some job \<and> jc_station c = Some station
          \<and> jc_desktop c = Some desktop)
        \<and> jc_ui_process c = None \<and> jc_ui_job c = None \<and> jc_ui_pins c = [])"
proof -
  have inv: "jail_inv J" by (rule reachable_jail_inv [OF assms])
  then have "\<forall>c \<in> set (wj_contexts J). sound_context (k_next_id J) c" by (simp add: jail_inv_def)
  with inv show ?thesis by (auto simp: jail_inv_def sound_context_def)
qed

text \<open>A context all of whose parts can be closed.\<close>

definition closable :: "dispose_calls \<Rightarrow> bool" where
  "closable D \<longleftrightarrow> helper_gone (d_exit D) \<and> d_desktop D \<and> d_station D \<and> (d_delete D \<or> d_delete_again D)"

lemma dispose_closable: "closable D \<Longrightarrow> fst (dispose_failed_context D c k) = None"
  by (auto simp: closable_def dispose_failed_context_def close_ui_helper_def close_desktop_def delete_profile_def Let_def
    split: option.splits)

lemma finish_prior_closable: "closable D \<Longrightarrow> wj_failed (finish_prior D J) = None"
  using dispose_closable [of D "the (wj_failed J)" J] by (auto simp: finish_prior_def split: option.splits prod.splits)

text \<open>The two ways a creation ends.\<close>

lemma create_cases:
  assumes J: "jail_inv J" and r: "visjail_windows_create K prior D path J = (r, J1)"
  obtains (refused) e where "r = failure e" "wj_contexts J1 = wj_contexts J" "wj_leaving J1 = wj_leaving J"
      "closable prior \<Longrightarrow> closable D \<Longrightarrow> wj_failed J1 = None"
  | (listed) c where "r = jc_id c" "r = k_next_id J" "wj_contexts J1 = c # wj_contexts J" "\<not> jc_poisoned c"
      "wj_failed J1 = None" "k_next_id J1 = k_next_id J + 1"
proof (cases "wj_failed (finish_prior prior J)")
  case (Some c)
  with r finish_prior_inv [OF J, of prior] finish_prior_closable [of prior J] show ?thesis
    by (intro refused) (auto simp: visjail_windows_create_def Let_def)
next
  case None
  let ?J = "finish_prior prior J"
  note P = finish_prior_inv [OF J, of prior]
  have i: "k_next_id ?J = k_next_id J"
    by (cases "wj_failed J") (auto simp: finish_prior_def dest: dispose_closes(3) split: prod.splits)
  obtain e s where run: "run_steps (create_steps K path) (begin_create ?J) = (e, s)" by (metis prod.exhaust)
  show ?thesis
  proof (cases e)
    case e: None
    have "k_next_id ?J \<le> INT_MAX" using P(1) by (simp add: jail_inv_def)
    from create_steps_keep_the_ledger [OF this, unfolded spec_def, rule_format, OF begin_create_stage [OF P(1) None], of K path]
    have "created 1 (jail_handles ?J) (k_profiles ?J) (k_next_id ?J) s" unfolding run e by simp
    then have "jc_id (cr_context s) = k_next_id ?J" "\<not> jc_poisoned (cr_context s)" "k_next_id s = k_next_id ?J + 1"
      by (simp_all add: created_def stage_def base_def)
    with r e None P(2,3) i show ?thesis
      by (intro listed [of "cr_context s"]) (auto simp: visjail_windows_create_def Let_def run)
  next
    case e: (Some code)
    obtain rest s1 where d: "dispose_failed_context D (cr_context s) (close_all [cr_directory s] s) = (rest, s1)"
      by (metis prod.exhaust)
    have "closable D \<Longrightarrow> rest = None" using dispose_closable [of D "cr_context s" "close_all [cr_directory s] s"] by (simp add: d)
    with r e None P(2,3) d show ?thesis
      by (intro refused [of "if rest = None then code else d_error D"]) (auto simp: visjail_windows_create_def Let_def run)
  qed
qed

text \<open>C23: A creation that is refused leaves nothing.  The contexts are those from before; and when what was made so far
  can be closed again, no context is left over, so that every profile that exists and every handle that is open
  belongs to a context from before.  A creation that answers an id lists one new context under the id.\<close>

theorem refused_creation_leaves_nothing:
  assumes "reachable_jail J" "visjail_windows_create K prior D path J = (r, J1)"
  shows "(\<exists>c. r = jc_id c \<and> r = k_next_id J \<and> wj_contexts J1 = c # wj_contexts J \<and> \<not> jc_poisoned c)
    \<or> ((\<exists>e. r = failure e) \<and> wj_contexts J1 = wj_contexts J \<and> wj_leaving J1 = wj_leaving J
      \<and> (closable prior \<and> closable D \<longrightarrow> wj_failed J1 = None
        \<and> mset (k_profiles J1) = (\<Sum>c \<leftarrow> wj_contexts J @ wj_leaving J. mset (profile_of c))
        \<and> made 1 (k_next J1) = mset (k_closed J1) + (\<Sum>c \<leftarrow> wj_contexts J @ wj_leaving J. ctx_handles c)))"
proof -
  have J: "jail_inv J" by (rule reachable_jail_inv [OF assms(1)])
  have J1: "jail_inv J1" using create_inv [OF J, of K prior D path] assms(2) by simp
  show ?thesis
  proof (cases rule: create_cases [OF J assms(2)])
    case (1 e)
    with J1 show ?thesis by (auto simp: jail_inv_def jail_handles_def jail_profiles_def rest_handles_def)
  next
    case (2 c)
    then show ?thesis by blast
  qed
qed

section \<open>A creation whose calls work\<close>

text \<open>The name drawn from sixteen random bytes is one the helper takes.\<close>

lemma hex_char_low: "d < 16 \<Longrightarrow> hex_digit_low (hex_char d)"
  by (simp add: hex_char_def hex_digit_low_def)

lemma profile_name_hex:
  assumes "\<forall>b \<in> set bytes. b < 256"
  shows "length (concat (map (\<lambda>b. [hex_char (b div 16), hex_char (b mod 16)]) bytes)) = 2 * length bytes
    \<and> list_all hex_digit_low (concat (map (\<lambda>b. [hex_char (b div 16), hex_char (b mod 16)]) bytes))"
  using assms by (induction bytes) (auto intro!: hex_char_low)

lemma profile_name_valid:
  assumes "length bytes = 16" "\<forall>b \<in> set bytes. b < 256"
  shows "ui_profile_valid (in_array VISJAIL_UI_PROFILE_CHARS (profile_name bytes))"
proof -
  let ?h = "concat (map (\<lambda>b. [hex_char (b div 16), hex_char (b mod 16)]) bytes)"
  have h: "length ?h = 32" "list_all hex_digit_low ?h" using profile_name_hex [OF assms(2)] assms(1) by simp_all
  have l: "length (ascii ''visjail.'') = 8" by (simp add: ascii_def)
  have "in_array VISJAIL_UI_PROFILE_CHARS (profile_name bytes) = ascii ''visjail.'' @ ?h @ [0]"
    using h(1) l by (simp add: in_array_def profile_name_def VISJAIL_UI_PROFILE_CHARS_def)
  with h l show ?thesis by (simp add: ui_profile_valid_def nth_append)
qed

definition all_work :: "create_calls \<Rightarrow> bool" where
  "all_work K \<longleftrightarrow> failed K = (\<lambda>_. None) \<and> pin_path K = (\<lambda>_. Pinned) \<and> helper_gone (ui_exit K)
     \<and> private_path K = (\<lambda>_. \<lparr>dir_made = None, dir_opened = None, dir_closed_again = False, dir_permitted = None, dir_labelled = None, dir_memory = None\<rparr>)
     \<and> length (random_bytes K) = 16 \<and> (\<forall>b \<in> set (random_bytes K). b < 256)
     \<and> check_reply (profile_name (random_bytes K)) (helper_reply_seen K) = None
     \<and> check_objects (profile_name (random_bytes K)) (helper_reply_seen K) (station_shown K) (desktop_shown K)"

text \<open>The profile of the context, and that its name is free while there is none; no step fails.\<close>

definition going :: "wstring \<Rightarrow> int \<Rightarrow> bool \<Rightarrow> creating \<Rightarrow> bool" where
  "going name i has s \<longleftrightarrow> k_next_id s = i \<and> jc_profile (cr_context s) = (if has then Some name else None)
     \<and> (\<not> has \<longrightarrow> name \<notin> set (k_profiles s))"

abbreviation works :: "(creating \<Rightarrow> bool) \<Rightarrow> create_step \<Rightarrow> (creating \<Rightarrow> bool) \<Rightarrow> bool" where
  "works \<equiv> spec (\<lambda>_. False)"

lemma works_call: "failed K x = None \<Longrightarrow> works P (call K x) P"
  by (simp add: spec_def call_def)

lemma works_open:
  "failed K x = None \<Longrightarrow> (\<And>h s. going name i has s \<Longrightarrow> going name i has (put h (s\<lparr>k_next := k_next s + 1\<rparr>)))
    \<Longrightarrow> works (going name i has) (open_into K x put) (going name i has)"
  by (simp add: spec_def open_into_def)

lemma works_checked:
  "failed K x = None \<Longrightarrow> (\<And>h s. going name i has s \<Longrightarrow> going name i has (put h (s\<lparr>k_next := k_next s + 1\<rparr>)))
    \<Longrightarrow> works (going name i has) (open_checked K x put) (going name i has)"
  by (simp add: spec_def open_checked_def)

lemma works_pin: "out = Pinned \<Longrightarrow> works (going name i has) (pin_into out ui) (going name i has)"
  by (simp add: spec_def pin_into_def going_def in_context_def)

lemma works_pins:
  "(\<And>p. out p = Pinned) \<Longrightarrow> works (going name i has) (run_steps (map (\<lambda>p. pin_into (out p) (ui p)) ps)) (going name i has)"
proof (induction ps)
  case (Cons p ps)
  show ?case unfolding list.map by (rule spec_Cons [OF works_pin [OF Cons.prems] Cons.IH [OF Cons.prems]])
qed (simp only: list.map spec_Nil)

lemma works_desktop:
  assumes K: "all_work K" and name: "name = profile_name (random_bytes K)"
  shows "works (going name i True) (run_steps (desktop_steps K)) (going name i True)"
proof -
  note A = K [unfolded all_work_def]
  have f: "failed K x = None" for x using A by simp
  have pins: "works (going name i True) (pin_ancestors K p True) (going name i True)" for p
    unfolding pin_ancestors_def using A by (intro works_pins) simp
  have pin: "works (going name i True) (pin_into (pin_path K p) True) (going name i True)" for p
    using A by (intro works_pin) simp
  have profile: "works (going name i True) check_profile (going name i True)"
    using A profile_name_valid [of "random_bytes K"] by (simp add: spec_def check_profile_def going_def name)
  have answer: "works (going name i True) (check_answer K) (going name i True)"
    using A by (simp add: spec_def check_answer_def going_def name)
  have taken: "works (going name i True) (check_taken K) (going name i True)"
    using A by (simp add: spec_def check_taken_def going_def name)
  have objects: "works (going name i True) (make_objects K) (going name i True)"
    using A by (simp add: spec_def make_objects_def open_into_def going_def)
  have start: "works (going name i True) (start_helper K) (going name i True)"
    using A by (simp add: spec_def start_helper_def going_def in_context_def)
  show ?thesis
    unfolding desktop_steps_def
    by (intro spec_Cons [OF works_call [OF f]] spec_Cons [OF pins] spec_Cons [OF pin] spec_Cons [OF profile] spec_Cons [OF answer]
        spec_Cons [OF taken] spec_Cons [OF objects] spec_Cons [OF start] spec_Cons [OF works_open [OF f]] spec_Cons [OF works_checked [OF f]] spec_Nil)
      (simp_all add: going_def in_context_def)
qed

lemma works_private_desktop:
  assumes K: "all_work K" and name: "name = profile_name (random_bytes K)"
  shows "works (going name i True) (private_desktop K) (going name i True)"
  unfolding spec_def
proof (intro allI impI)
  fix s assume s: "going name i True s"
  obtain e s1 where run: "run_steps (desktop_steps K) s = (e, s1)" by (metis prod.exhaust)
  obtain gone c s2 where helper: "close_ui_helper (ui_exit K) (cr_context s1) s1 = (gone, c, s2)" by (metis prod_cases3)
  have "e = None \<and> going name i True s1"
    using works_desktop [OF K name, unfolded spec_def, rule_format, OF s] by (simp add: run split: option.splits)
  moreover have "gone" using K helper by (simp add: all_work_def close_ui_helper_def split: if_splits)
  moreover note close_ui_helper_closes(1) [OF helper]
  ultimately show "case private_desktop K s of (None, s1) \<Rightarrow> going name i True s1 | (Some _, s1) \<Rightarrow> False"
    by (simp add: private_desktop_def run helper only_closes_def going_def)
qed

lemma works_create:
  assumes K: "all_work K" and name: "name = profile_name (random_bytes K)" and i: "i < INT_MAX"
  shows "works (going name i False) (run_steps (create_steps K path)) (going name (i + 1) True)"
proof -
  note A = K [unfolded all_work_def]
  have f: "failed K x = None" for x using A by simp
  have pins: "works (going name i False) (pin_ancestors K path False) (going name i False)"
    unfolding pin_ancestors_def using A by (intro works_pins) simp
  have profile: "works (going name i False) (create_profile K) (going name i True)"
    using A by (simp add: spec_def create_profile_def going_def in_context_def name Let_def)
  have directory: "works (going name i True) (pin_directory K) (going name i True)"
    using A by (simp add: spec_def pin_directory_def going_def in_context_def)
  have out: "private_directory_outcome w (private_path K p) = Pinned" for w p
    using A by (simp add: private_directory_outcome_def)
  have "make_private_directories K path = run_steps (map (\<lambda>q. pin_into (private_directory_outcome (snd q) (private_path K (fst q))) False)
      (private_paths path (profile_name (random_bytes K))))"
    by (rule ext) (simp add: make_private_directories_def case_prod_unfold)
  then have dirs: "works (going name i True) (make_private_directories K path) (going name i True)"
    using out by (simp add: works_pins)
  have draw: "works (going name i True) draw_context_id (going name (i + 1) True)"
    using i by (simp add: spec_def draw_context_id_def going_def in_context_def)
  show ?thesis
    unfolding create_steps_def
    by (intro spec_Cons [OF works_call [OF f]] spec_Cons [OF pins] spec_Cons [OF profile] spec_Cons [OF directory] spec_Cons [OF dirs]
        spec_Cons [OF works_private_desktop [OF K name]] spec_Cons [OF draw] spec_Cons [OF works_open [OF f]] spec_Cons [OF works_checked [OF f]] spec_Nil)
      (simp_all add: going_def in_context_def)
qed

text \<open>A creation succeeds when it can: with no failed context to finish, an id left, a name that is not taken, and
  calls that work (among them a helper whose reply passes the check), the answer is the next id, and a context with
  this id, the drawn profile, a job and a private desktop is listed.\<close>

theorem creation_lists_a_context:
  assumes "reachable_jail J" "wj_failed J = None" "k_next_id J < INT_MAX" "all_work K"
    and "profile_name (random_bytes K) \<notin> set (k_profiles J)"
  shows "\<exists>c J1. visjail_windows_create K prior D path J = (k_next_id J, J1) \<and> wj_contexts J1 = c # wj_contexts J
    \<and> jc_id c = k_next_id J \<and> \<not> jc_poisoned c \<and> jc_profile c = Some (profile_name (random_bytes K))
    \<and> jc_job c \<noteq> None \<and> jc_station c \<noteq> None \<and> jc_desktop c \<noteq> None
    \<and> set (k_profiles J1) = insert (profile_name (random_bytes K)) (set (k_profiles J))"
proof -
  let ?p = "profile_name (random_bytes K)"
  have inv: "jail_inv J" by (rule reachable_jail_inv [OF assms(1)])
  obtain e s where run: "run_steps (create_steps K path) (begin_create J) = (e, s)" by (metis prod.exhaust)
  have "going ?p (k_next_id J) False (begin_create J)"
    using assms(5) by (simp add: going_def begin_create_def new_context_def)
  from works_create [OF assms(4) refl assms(3), unfolded spec_def, rule_format, OF this, of path]
  have e: "e = None" and profile: "jc_profile (cr_context s) = Some ?p" by (simp_all add: run going_def split: option.splits)
  have "k_next_id J \<le> INT_MAX" using assms(3) by simp
  from create_steps_keep_the_ledger [OF this, unfolded spec_def, rule_format, OF begin_create_stage [OF inv assms(2)], of K path]
  have "created 1 (jail_handles J) (k_profiles J) (k_next_id J) s" unfolding run e by simp
  then have "jc_id (cr_context s) = k_next_id J" "\<not> jc_poisoned (cr_context s)" "jc_job (cr_context s) \<noteq> None"
    "jc_station (cr_context s) \<noteq> None" "jc_desktop (cr_context s) \<noteq> None" "set (k_profiles s) = insert ?p (set (k_profiles J))"
    using profile by (simp_all add: created_def stage_def base_def ledger_def shape_def Let_def)
  with profile show ?thesis by (simp add: visjail_windows_create_def finish_prior_def assms(2) Let_def run e)
qed

section \<open>Examples\<close>

definition sample_exit :: helper_exit where
  "sample_exit = \<lparr>over_before = True, terminated = False, over_meanwhile = False, over_in_time = False, over_error = 0\<rparr>"

definition sample_dispose :: dispose_calls where
  "sample_dispose = \<lparr>d_exit = sample_exit, d_desktop = True, d_station = True, d_delete = False, d_delete_again = True, d_error = 5\<rparr>"

text \<open>Calls that all work, up to one that may be given.\<close>

definition sample_create :: "create_call option \<Rightarrow> create_calls" where
  "sample_create failing =
     \<lparr>failed = (\<lambda>x. if Some x = failing then Some 5 else None), closed_again = (\<lambda>_. False), pin_path = (\<lambda>_. Pinned),
      private_path = (\<lambda>_. \<lparr>dir_made = None, dir_opened = None, dir_closed_again = False, dir_permitted = None, dir_labelled = None, dir_memory = None\<rparr>),
      random_bytes = replicate 16 0, helper_path = [67, 58, 92, 86],
      helper_reply_seen = (ui_request sample_profile)\<lparr>ut_error := 0, ut_station_name := in_array UI_STATION_CHARS [83], ut_station := 5, ut_desktop := 6\<rparr>,
      station_shown = Some \<lparr>uo_type = WindowStation, uo_name = [83], uo_security = None\<rparr>,
      desktop_shown = Some \<lparr>uo_type = Desktop, uo_name = sample_profile, uo_security = Some (ui_security_init sample_profile)\<rparr>,
      ui_exit = sample_exit\<rparr>"

lemma sample_all_work: "all_work (sample_create None)"
proof -
  have p: "profile_name (replicate 16 0) = sample_profile" "ui_profile_valid (in_array VISJAIL_UI_PROFILE_CHARS sample_profile)"
    by code_simp+
  have "wtext (in_array UI_STATION_CHARS [83]) = [83]" "0 \<in> set (in_array UI_STATION_CHARS [83])"
    by (simp_all add: wtext_def in_array_def UI_STATION_CHARS_def takeWhile_append)
  then show ?thesis
    by (simp add: all_work_def sample_create_def p check_reply_def ui_request_def check_objects_def ui_object_def ui_desktop_valid_def
        helper_gone_def sample_exit_def ui_security_init_def)
qed

lemma sample_start: "reachable_jail initial_jail" "wj_failed initial_jail = None" "k_next_id initial_jail = 1" "k_profiles initial_jail = []"
  by (simp_all add: reachable_jail_def initial_jail_def)

theorem creation_lists_a_context_witness:
  "\<exists>J1 :: win_jail. length (wj_contexts J1) = 1 \<and> fst (visjail_windows_create (sample_create None) sample_dispose sample_dispose [67] initial_jail) = 1"
proof -
  have "1 < INT_MAX" by (simp add: INT_MAX_def)
  with creation_lists_a_context [OF sample_start(1,2) _ sample_all_work, of sample_dispose sample_dispose "[67]"] sample_start(3,4)
  obtain J1 where "visjail_windows_create (sample_create None) sample_dispose sample_dispose [67] initial_jail = (1, J1)"
    "length (wj_contexts J1) = 1 + length (wj_contexts initial_jail)" by fastforce
  then show ?thesis by (auto simp: initial_jail_def)
qed

theorem contexts_own_profiles_and_handles_witness:
  "\<exists>J :: win_jail. wj_contexts J \<noteq> [] \<and> k_profiles J \<noteq> [] \<and> made 1 (k_next J) = mset (k_closed J) + jail_handles J"
proof -
  let ?p = "profile_name (replicate 16 0)"
  obtain e s where run: "run_steps (create_steps (sample_create None) [67]) (begin_create initial_jail) = (e, s)" by (metis prod.exhaust)
  have r: "random_bytes (sample_create None) = replicate 16 0" by (simp add: sample_create_def)
  have "going ?p 1 False (begin_create initial_jail)"
    by (simp add: going_def begin_create_def new_context_def initial_jail_def)
  moreover have "works (going ?p 1 False) (run_steps (create_steps (sample_create None) [67])) (going ?p (1 + 1) True)"
    by (rule works_create [OF sample_all_work]) (simp_all add: r INT_MAX_def)
  ultimately have e: "e = None" by (auto simp: spec_def run split: option.splits)
  let ?J = "snd (visjail_windows_create (sample_create None) sample_dispose sample_dispose [67] initial_jail)"
  have "wj_failed initial_jail = None" by (rule sample_start)
  then have listed: "wj_contexts ?J \<noteq> []" by (simp add: visjail_windows_create_def finish_prior_def run e Let_def)
  have reached: "reachable_jail ?J"
    unfolding reachable_jail_def by (rule r_into_rtranclp) (rule CreateContext)
  note J = listed reached
  have "jail_profiles ?J \<noteq> {#}"
  proof -
    have "\<forall>c \<in> set (wj_contexts ?J). sound_context (k_next_id ?J) c" using reachable_jail_inv [OF J(2)] by (simp add: jail_inv_def)
    with J(1) show ?thesis by (cases "wj_contexts ?J") (auto simp: jail_profiles_def sound_context_def)
  qed
  with contexts_own_profiles_and_handles [OF J(2)] J(1) show ?thesis by (intro exI [of _ ?J]) auto
qed

text \<open>A creation that gets no profile, with its directory open.\<close>

theorem refused_creation_leaves_nothing_witness:
  "\<exists>J1 :: win_jail. wj_contexts J1 = [] \<and> wj_failed J1 = None \<and> k_profiles J1 = [] \<and> made 1 (k_next J1) = mset (k_closed J1)"
proof -
  let ?K = "sample_create (Some CreateProfile)"
  obtain r J1 where v: "visjail_windows_create ?K sample_dispose sample_dispose [67] initial_jail = (r, J1)"
    by (metis prod.exhaust)
  have c: "closable sample_dispose" by (simp add: closable_def sample_dispose_def helper_gone_def sample_exit_def)
  have f: "failed ?K x = (if x = CreateProfile then Some 5 else None)" for x by (simp add: sample_create_def)
  obtain s where run: "run_steps (create_steps ?K [67]) (begin_create initial_jail) = (Some 5, s)"
    by (simp add: create_steps_def call_def f pin_ancestors_def open_checked_def create_profile_def Let_def)
  have "wj_contexts initial_jail = []" by (simp add: initial_jail_def)
  then have "wj_contexts J1 = []"
    using v by (auto simp: visjail_windows_create_def finish_prior_def sample_start run Let_def split: prod.splits)
  with refused_creation_leaves_nothing [OF sample_start(1) v] c show ?thesis by (auto simp: initial_jail_def)
qed

end
