(* ===== verification/WinPort.thy ===== *)
theory WinPort
  imports WinLaunch "HOL-Library.Signed_Division"
begin

text \<open>
  The Windows port of the embedding in \<^verbatim>\<open>native/vispython/vispython_windows.h\<close>: clocks and timed waits, error
  numbers, directory listings, and the canonical paths the confinement compares.  What Win32 answers is a
  parameter.
\<close>

section \<open>Time\<close>

text \<open>Seconds and nanoseconds, from ticks of a millisecond and of 100 nanoseconds since 1601.\<close>

definition monotonic_time :: "int \<Rightarrow> int \<times> int" where
  "monotonic_time ticks = (ticks div 1000, ticks mod 1000 * 1000000)"

definition realtime_time :: "int \<Rightarrow> int \<times> int" where
  "realtime_time ticks =
     (let since_1970 = (ticks - 116444736000000000) mod 2 ^ 64
      in (since_1970 div 10000000, since_1970 mod 10000000 * 100))"

definition INFINITE :: int where "INFINITE = 4294967295"

text \<open>The milliseconds of a timed wait; the division of C rounds towards zero.\<close>

definition wait_ms :: "int \<times> int \<Rightarrow> int \<times> int \<Rightarrow> int" where
  "wait_ms deadline now =
     (let ms = (fst deadline - fst now) * 1000 + ((snd deadline - snd now + 999999) sdiv 1000000);
          ms1 = (if ms < 0 then 0 else ms)
      in if ms1 \<ge> INFINITE then INFINITE - 1 else ms1)"

datatype wait_result = Woken | TimedOut | Invalid

text \<open>What the sleep answers: \<open>None\<close> when woken, else the error.\<close>

definition ERROR_TIMEOUT :: int where "ERROR_TIMEOUT = 1460"

definition pthread_cond_timedwait :: "(int \<Rightarrow> int option) \<Rightarrow> int \<times> int \<Rightarrow> int \<times> int \<Rightarrow> wait_result" where
  "pthread_cond_timedwait sleep deadline now =
     (case sleep (wait_ms deadline now) of
        None \<Rightarrow> Woken
      | Some code \<Rightarrow> if code = ERROR_TIMEOUT then TimedOut else Invalid)"

section \<open>Names\<close>

text \<open>The device names an ordinary path must not hold, by the part before the first dot.\<close>

definition vis_py_win_component_safe :: "wstring \<Rightarrow> bool" where
  "vis_py_win_component_safe part \<longleftrightarrow>
     (if part = [] \<or> last part = 46 \<or> last part = 32 then False
      else
        let stem = length (takeWhile (\<lambda>c. c \<noteq> 46) part) in
        if (stem = 3 \<and> (same_text (take 3 part) (ascii ''CON'') \<or> same_text (take 3 part) (ascii ''PRN'')
              \<or> same_text (take 3 part) (ascii ''AUX'') \<or> same_text (take 3 part) (ascii ''NUL'')))
            \<or> (stem = 6 \<and> same_text (take 6 part) (ascii ''CONIN$'')) \<or> (stem = 7 \<and> same_text (take 7 part) (ascii ''CONOUT$''))
        then False
        else if stem = 4 \<and> (same_text (take 3 part) (ascii ''COM'') \<or> same_text (take 3 part) (ascii ''LPT''))
            \<and> ((49 \<le> part ! 3 \<and> part ! 3 \<le> 57) \<or> part ! 3 = 185 \<or> part ! 3 = 178 \<or> part ! 3 = 179)
        then False
        else True)"

section \<open>Canonical paths\<close>

text \<open>Callers give a buffer that is not empty.\<close>

definition WIN_PATH_MAX :: nat where "WIN_PATH_MAX = 32768"

text \<open>Opening a path: the final path of what is there when the kernel tells it, nothing there, or refused.\<close>

datatype open_answer = Opened "wstring option" | Missing | Denied

record win_paths =
  wide_of :: "bytes \<Rightarrow> wstring option"
  full_path :: "wstring \<Rightarrow> wstring option"
  drive_remote :: "wstring \<Rightarrow> bool"
  open_path :: "wstring \<Rightarrow> open_answer"
  utf8_of :: "wstring \<Rightarrow> bytes option"
  buffers_ok :: bool

definition vis_py_win_wide :: "win_paths \<Rightarrow> bytes option \<Rightarrow> wstring option" where
  "vis_py_win_wide K s = (case s of None \<Rightarrow> None | Some p \<Rightarrow> if length p \<ge> WIN_PATH_MAX then None else wide_of K p)"

function trim_end :: "wstring \<Rightarrow> wstring" where
  "trim_end p = (if length p > 3 \<and> last p = BACKSLASH then trim_end (butlast p) else p)"
  by pat_completeness auto
termination by (relation "measure length") auto

declare trim_end.simps [simp del]

text \<open>The loop over the characters behind the drive, with the component read so far.\<close>

definition reserved :: "nat \<Rightarrow> bool" where
  "reserved c \<longleftrightarrow> c < 32 \<or> c \<in> set (ascii '':*?'' @ [QUOTE] @ ascii ''<>|'')"

fun check_parts :: "bool \<Rightarrow> wstring \<Rightarrow> wstring \<Rightarrow> bool" where
  "check_parts started part [] = (started \<longrightarrow> vis_py_win_component_safe part)"
| "check_parts started part (c # rest) =
     (if c = BACKSLASH then (if started \<and> \<not> vis_py_win_component_safe part then False else check_parts True [] rest)
      else if reserved c then False
      else check_parts True (part @ [c]) rest)"

text \<open>The parent of a path: up to its last backslash, but not above the drive.\<close>

function drop_name :: "wstring \<Rightarrow> wstring" where
  "drop_name p = (if length p > 3 \<and> last p \<noteq> BACKSLASH then drop_name (butlast p) else p)"
  by pat_completeness auto
termination by (relation "measure length") auto

declare drop_name.simps [simp del]

definition parent :: "wstring \<Rightarrow> wstring" where
  "parent p = (let q = drop_name p in if length q > 3 then butlast q else q)"

lemma length_drop_name: "length (drop_name p) \<le> length p"
  by (induction p rule: drop_name.induct) (subst drop_name.simps, auto)

lemma drop_name_shorter: "length p > 3 \<Longrightarrow> last p \<noteq> BACKSLASH \<Longrightarrow> length (drop_name p) < length p"
  using length_drop_name [of "butlast p"] by (subst drop_name.simps) auto

lemma parent_shorter: "length p > 3 \<Longrightarrow> length (parent p) < length p"
  using drop_name_shorter [of p] length_drop_name [of p]
  by (cases "last p = BACKSLASH") (auto simp: parent_def Let_def drop_name.simps [of p])

function climb :: "win_paths \<Rightarrow> wstring \<Rightarrow> (wstring \<times> wstring) option" where
  "climb K work =
     (case open_path K work of
        Opened final \<Rightarrow> map_option (\<lambda>f. (work, f)) final
      | Denied \<Rightarrow> None
      | Missing \<Rightarrow> if length work \<le> 3 then None else climb K (parent work))"
  by pat_completeness auto
termination by (relation "measure (\<lambda>(K, work). length work)") (auto simp: parent_shorter)

declare climb.simps [simp del]

text \<open>The final path without its namespace prefix.\<close>

definition plain_final :: "wstring \<Rightarrow> wstring option" where
  "plain_final f =
     (if length f < 7 \<or> length f \<ge> WIN_PATH_MAX \<or> take 4 f \<noteq> [BACKSLASH, BACKSLASH, 63, BACKSLASH] \<or> f ! 5 \<noteq> 58 \<or> f ! 6 \<noteq> BACKSLASH
      then None else Some (trim_end (drop 4 f)))"

text \<open>The rest of the path behind the part that exists.\<close>

definition add_tail :: "wstring \<Rightarrow> wstring \<Rightarrow> nat \<Rightarrow> wstring option" where
  "add_tail resolved absolute kept =
     (if kept < length absolute then
        let tail = (if absolute ! kept = BACKSLASH then kept + 1 else kept) in
        if length resolved + 1 + length absolute - tail \<ge> WIN_PATH_MAX then None
        else Some ((if last resolved \<noteq> BACKSLASH then resolved @ [BACKSLASH] else resolved) @ drop tail absolute)
      else Some resolved)"

definition back_slashes :: "wstring \<Rightarrow> wstring" where
  "back_slashes = map (\<lambda>c. if c = BACKSLASH then 47 else c)"

definition starts_with_two_slashes :: "wstring \<Rightarrow> bool" where
  "starts_with_two_slashes p \<longleftrightarrow> length p \<ge> 2 \<and> p ! 0 \<in> {BACKSLASH, 47} \<and> p ! 1 \<in> {BACKSLASH, 47}"

definition vis_py_win_canonical :: "win_paths \<Rightarrow> bytes option \<Rightarrow> nat \<Rightarrow> bytes option" where
  "vis_py_win_canonical K path cap =
     (case vis_py_win_wide K path of
        None \<Rightarrow> None
      | Some input \<Rightarrow>
          if input = [] \<or> starts_with_two_slashes input \<or> \<not> buffers_ok K then None
          else
            (case full_path K input of
               None \<Rightarrow> None
             | Some given \<Rightarrow>
                 if length given < 3 \<or> length given \<ge> WIN_PATH_MAX \<or> given ! 1 \<noteq> 58 \<or> given ! 2 \<noteq> BACKSLASH then None
                 else if drive_remote K (take 3 given) then None
                 else
                   let absolute = trim_end given in
                   if \<not> check_parts False [] (drop 3 absolute) then None
                   else
                     (case climb K absolute of
                        None \<Rightarrow> None
                      | Some (work, final) \<Rightarrow>
                          (case Option.bind (plain_final final) (\<lambda>resolved. add_tail resolved absolute (length work)) of
                             None \<Rightarrow> None
                           | Some whole \<Rightarrow>
                               (case (if cap \<le> nat INT_MAX then utf8_of K (back_slashes whole) else None) of
                                  None \<Rightarrow> None
                                | Some out \<Rightarrow> if length out < cap then Some out else None)))))"

section \<open>Listing a directory\<close>

text \<open>What an enumeration finds in order; a name that is no UTF-16 text has no UTF-8.\<close>

record directory =
  found :: "wstring list"
  first :: bool

definition opendir :: "win_paths \<Rightarrow> (wstring \<Rightarrow> wstring list option) \<Rightarrow> bytes option \<Rightarrow> directory option" where
  "opendir K entries_of path =
     (case vis_py_win_wide K path of
        None \<Rightarrow> None
      | Some w \<Rightarrow>
          if \<not> buffers_ok K then None
          else map_option (\<lambda>names. \<lparr>found = names, first = True\<rparr>) (entries_of (w @ [BACKSLASH, 42])))"

definition readdir :: "win_paths \<Rightarrow> directory \<Rightarrow> bytes option \<times> directory" where
  "readdir K d =
     (let next = (if first d then found d else tl (found d)) in
      case next of
        [] \<Rightarrow> (None, d)
      | name # _ \<Rightarrow>
          (case utf8_of K name of
             None \<Rightarrow> (None, d\<lparr>found := next, first := False\<rparr>)
           | Some out \<Rightarrow> (if length out < WIN_PATH_MAX then Some out else None, d\<lparr>found := next, first := False\<rparr>)))"

section \<open>Error numbers\<close>

text \<open>The numbers of the errors of Win32, and those of the C run-time library for \<open>errno\<close>.\<close>

definition vis_py_win_set_errno :: "int \<Rightarrow> int" where
  "vis_py_win_set_errno code =
     (if code \<in> {2, 3} then 2
      else if code \<in> {5, 32, 33} then 13
      else if code \<in> {183, 80} then 17
      else if code = 17 then 18
      else if code = 267 then 20
      else if code = 145 then 41
      else if code = 112 then 28
      else if code \<in> {8, 14} then 12
      else if code \<in> {123, 87} then 22
      else 5)"

section \<open>Lemmas\<close>

lemma sdiv_bounds:
  fixes d :: int
  shows "d \<le> ((d + 999999) sdiv 1000000) * 1000000" "((d + 999999) sdiv 1000000) * 1000000 < d + 2000000"
proof -
  have "(d + 999999) sdiv 1000000 = (if 0 \<le> d + 999999 then (d + 999999) div 1000000 else - ((- (d + 999999)) div 1000000))"
    by (auto simp: signed_divide_int_def sgn_if)
  then show "d \<le> ((d + 999999) sdiv 1000000) * 1000000" "((d + 999999) sdiv 1000000) * 1000000 < d + 2000000"
    by (auto split: if_splits)
qed

text \<open>A timed wait of the Windows port does not end before its deadline, at most two milliseconds after it, and is
  never the endless one.  The milliseconds it sleeps reach the deadline, unless that is further away than the
  longest sleep; they pass it by less than two milliseconds when there is anything to wait for.\<close>

theorem timed_wait_reaches_deadline:
  assumes "d = (fst deadline - fst now) * 1000000000 + (snd deadline - snd now)"
  shows "0 \<le> wait_ms deadline now \<and> wait_ms deadline now < INFINITE
    \<and> (wait_ms deadline now < INFINITE - 1 \<longrightarrow> d \<le> wait_ms deadline now * 1000000)
    \<and> (0 < wait_ms deadline now \<longrightarrow> wait_ms deadline now * 1000000 < d + 2000000)"
proof -
  let ?n = "(snd deadline - snd now + 999999) sdiv 1000000"
  note B = sdiv_bounds [of "snd deadline - snd now"]
  let ?ms = "(fst deadline - fst now) * 1000 + ?n"
  have "d \<le> ?ms * 1000000" "?ms * 1000000 < d + 2000000" using B unfolding assms by (simp_all add: algebra_simps)
  then show ?thesis by (simp add: wait_ms_def Let_def INFINITE_def)
qed

text \<open>Windows sleeps for at least the time asked; a wait whose deadline has come and gone.\<close>

theorem timed_wait_reaches_deadline_witness:
  "wait_ms (10, 500000) (10, 0) = 1 \<and> (500000 :: int) \<le> wait_ms (10, 500000) (10, 0) * 1000000"
proof -
  have w: "wait_ms (10, 500000) (10, 0) = 1" by (simp add: wait_ms_def signed_divide_int_def INFINITE_def)
  have "(500000 :: int) = (fst (10, 500000) - fst (10, 0)) * 1000000000 + (snd (10 :: int, 500000) - snd (10 :: int, 0))" by simp
  from timed_wait_reaches_deadline [OF this] w show ?thesis by (simp add: INFINITE_def)
qed

section \<open>Two checks of names\<close>

lemma component_iff:
  "component s \<longleftrightarrow> s \<noteq> [] \<and> last s \<noteq> 46 \<and> last s \<noteq> 32 \<and> \<not> list_ex forbidden s
     \<and> \<not> device_base (take 15 (takeWhile (\<lambda>c. c \<noteq> 46) s))"
proof
  assume "component s"
  then show "s \<noteq> [] \<and> last s \<noteq> 46 \<and> last s \<noteq> 32 \<and> \<not> list_ex forbidden s \<and> \<not> device_base (take 15 (takeWhile (\<lambda>c. c \<noteq> 46) s))"
    using component_plain [of s] by (simp add: plain_name_def)
next
  assume s: "s \<noteq> [] \<and> last s \<noteq> 46 \<and> last s \<noteq> 32 \<and> \<not> list_ex forbidden s \<and> \<not> device_base (take 15 (takeWhile (\<lambda>c. c \<noteq> 46) s))"
  have "\<not> list_ex forbidden s \<Longrightarrow> length base \<le> 15 \<Longrightarrow>
      \<exists>rest. scan_base s base = Some (take 15 (base @ takeWhile (\<lambda>c. c \<noteq> 46) s), rest) \<and> \<not> list_ex forbidden rest" for base
  proof (induction s base rule: scan_base.induct)
    case (2 c cs base)
    have f: "\<not> forbidden c" "\<not> list_ex forbidden cs" using 2(2) by simp_all
    show ?case
    proof (cases "c = 46")
      case False
      have le: "length (if length base < 15 then base @ [c] else base) \<le> 15" using 2(3) by simp
      obtain rest where "scan_base cs (if length base < 15 then base @ [c] else base)
          = Some (take 15 ((if length base < 15 then base @ [c] else base) @ takeWhile (\<lambda>c. c \<noteq> 46) cs), rest)"
          "\<not> list_ex forbidden rest"
        using 2(1) [OF f(1) False f(2)] le by blast
      with False f(1) 2(3) show ?thesis by (cases "length base < 15") simp_all
    qed (use 2 in simp)
  qed simp
  from this [of "[]"] s obtain rest where "scan_base s [] = Some (take 15 (takeWhile (\<lambda>c. c \<noteq> 46) s), rest)" "\<not> list_ex forbidden rest"
    by auto
  with s show "component s" by (simp add: component_def)
qed

text \<open>The names a device of number zero has: refused by the jail, not by the embedding.\<close>

definition zero_device :: "wstring \<Rightarrow> bool" where
  "zero_device s \<longleftrightarrow> length (takeWhile (\<lambda>c. c \<noteq> 46) s) = 4
     \<and> (same_text (take 3 s) (ascii ''COM'') \<or> same_text (take 3 s) (ascii ''LPT'')) \<and> s ! 3 = 48"

lemma same_text_length: "same_text a b \<Longrightarrow> length a = length b"
  unfolding same_text_def wlower_def by (drule arg_cong [where f = length]) simp

lemma device_base_long: "15 \<le> length b \<Longrightarrow> \<not> device_base b"
  using same_text_length [of b] by (force simp: device_base_def ascii_def)

lemma device_base_cases:
  "device_base b \<longleftrightarrow>
     (length b = 3 \<and> (same_text b (ascii ''CON'') \<or> same_text b (ascii ''PRN'') \<or> same_text b (ascii ''AUX'') \<or> same_text b (ascii ''NUL'')))
     \<or> (length b = 6 \<and> same_text b (ascii ''CONIN$'')) \<or> (length b = 7 \<and> same_text b (ascii ''CONOUT$''))
     \<or> (length b = 4 \<and> (same_text (take 3 b) (ascii ''COM'') \<or> same_text (take 3 b) (ascii ''LPT''))
        \<and> ((48 \<le> b ! 3 \<and> b ! 3 \<le> 57) \<or> b ! 3 = 185 \<or> b ! 3 = 178 \<or> b ! 3 = 179))"
proof -
  have l: "same_text b (ascii ''CON'') \<Longrightarrow> length b = 3" "same_text b (ascii ''PRN'') \<Longrightarrow> length b = 3"
    "same_text b (ascii ''AUX'') \<Longrightarrow> length b = 3" "same_text b (ascii ''NUL'') \<Longrightarrow> length b = 3"
    "same_text b (ascii ''CONIN$'') \<Longrightarrow> length b = 6" "same_text b (ascii ''CONOUT$'') \<Longrightarrow> length b = 7"
    by (auto dest: same_text_length simp: ascii_def)
  have "(\<exists>d \<in> {''CON'', ''PRN'', ''AUX'', ''NUL'', ''CONIN$'', ''CONOUT$''}. same_text b (ascii d)) \<longleftrightarrow>
      same_text b (ascii ''CON'') \<or> same_text b (ascii ''PRN'') \<or> same_text b (ascii ''AUX'') \<or> same_text b (ascii ''NUL'')
      \<or> same_text b (ascii ''CONIN$'') \<or> same_text b (ascii ''CONOUT$'')"
    by blast
  then show ?thesis unfolding device_base_def using l by argo
qed

text \<open>C28: The jail and the embedding agree on what a plain name is on Windows.  A name without the characters Windows
  forbids passes the check of the jail exactly when it passes that of the embedding and is not a serial or
  printer port of number zero, which only the jail refuses.\<close>

theorem name_checks_agree:
  "component s \<longleftrightarrow> vis_py_win_component_safe s \<and> \<not> list_ex forbidden s \<and> \<not> zero_device s"
proof -
  define stem where "stem = takeWhile (\<lambda>c. c \<noteq> 46) s"
  have t: "take k s = take k stem" if "k \<le> length stem" for k
  proof -
    have "s = stem @ dropWhile (\<lambda>c. c \<noteq> 46) s" by (simp add: stem_def)
    then have "take k s = take k (stem @ dropWhile (\<lambda>c. c \<noteq> 46) s)" by simp
    with that show ?thesis by simp
  qed
  define named where "named \<longleftrightarrow>
      (length stem = 3 \<and> (same_text stem (ascii ''CON'') \<or> same_text stem (ascii ''PRN'') \<or> same_text stem (ascii ''AUX'') \<or> same_text stem (ascii ''NUL'')))
      \<or> (length stem = 6 \<and> same_text stem (ascii ''CONIN$'')) \<or> (length stem = 7 \<and> same_text stem (ascii ''CONOUT$''))"
  define port where "port \<longleftrightarrow> length stem = 4 \<and> (same_text (take 3 s) (ascii ''COM'') \<or> same_text (take 3 s) (ascii ''LPT''))"
  have "device_base (take 15 stem) \<longleftrightarrow> device_base stem"
    using device_base_long [of stem] device_base_long [of "take 15 stem"] by (cases "length stem \<le> 15") auto
  moreover have "device_base stem \<longleftrightarrow> named \<or> port \<and> ((48 \<le> s ! 3 \<and> s ! 3 \<le> 57) \<or> s ! 3 = 185 \<or> s ! 3 = 178 \<or> s ! 3 = 179)"
  proof -
    have "stem ! 3 = s ! 3" "take 3 stem = take 3 s" if "length stem = 4"
      using that t [of 3] by (simp_all add: stem_def takeWhile_nth)
    then show ?thesis unfolding device_base_cases named_def port_def by (cases "length stem = 4") simp_all
  qed
  moreover have "vis_py_win_component_safe s \<longleftrightarrow> s \<noteq> [] \<and> last s \<noteq> 46 \<and> last s \<noteq> 32
      \<and> \<not> (named \<or> port \<and> ((49 \<le> s ! 3 \<and> s ! 3 \<le> 57) \<or> s ! 3 = 185 \<or> s ! 3 = 178 \<or> s ! 3 = 179))"
  proof -
    have "take 3 s = stem" if "length stem = 3" using that t [of 3] by simp
    moreover have "take 6 s = stem" if "length stem = 6" using that t [of 6] by simp
    moreover have "take 7 s = stem" if "length stem = 7" using that t [of 7] by simp
    ultimately show ?thesis
      unfolding vis_py_win_component_safe_def Let_def stem_def [symmetric] named_def port_def
      by (cases "length stem = 3 \<or> length stem = 6 \<or> length stem = 7") (elim disjE, simp_all)
  qed
  moreover have "zero_device s \<longleftrightarrow> port \<and> s ! 3 = 48" by (simp add: zero_device_def port_def stem_def)
  ultimately show ?thesis
    unfolding component_iff stem_def [symmetric] by (cases "s ! 3 = 48") auto
qed
section \<open>Canonical paths are the deepest existing directory and the rest\<close>

lemma segments_append:
  "BACKSLASH \<notin> set part \<Longrightarrow> segments (part @ w) = (part @ hd (segments w)) # tl (segments w)"
proof (induction part)
  case Nil
  have "segments w \<noteq> []" by (subst segments_step) simp
  then show ?case by simp
qed simp

lemma check_parts_safe:
  "check_parts True part w \<Longrightarrow> BACKSLASH \<notin> set part \<Longrightarrow>
     (\<forall>c \<in> set w. \<not> reserved c) \<and> (\<forall>s \<in> set (segments (part @ w)). vis_py_win_component_safe s)"
proof (induction w arbitrary: part)
  case Nil
  then show ?case using segments_append [of part "[]"] by simp
next
  case (Cons c w)
  have r: "\<not> reserved BACKSLASH" by (simp add: reserved_def BACKSLASH_def QUOTE_def ascii_def)
  show ?case
  proof (cases "c = BACKSLASH")
    case True
    with Cons.prems Cons.IH [of "[]"] r show ?thesis by (auto simp: segments_append split: if_splits)
  next
    case False
    with Cons.prems Cons.IH [of "part @ [c]"] show ?thesis by (auto split: if_splits)
  qed
qed

lemma check_parts_start:
  assumes "check_parts False [] w"
  shows "(\<forall>c \<in> set w. \<not> reserved c) \<and> (\<forall>s \<in> set (segments w). s = [] \<or> vis_py_win_component_safe s)"
proof (cases w)
  case (Cons c rest)
  have r: "\<not> reserved BACKSLASH" by (simp add: reserved_def BACKSLASH_def QUOTE_def ascii_def)
  from assms Cons check_parts_safe [of "[]" rest] check_parts_safe [of "[c]" rest] r show ?thesis
    by (auto split: if_splits)
qed simp

lemma drop_name_prefix: "prefix (drop_name p) p"
proof (induction p rule: drop_name.induct)
  case (1 p)
  then show ?case
    by (subst drop_name.simps) (auto intro: prefix_order.trans simp: prefixeq_butlast)
qed

lemma parent_prefix: "prefix (parent p) p"
  using drop_name_prefix [of p] prefixeq_butlast [of "drop_name p"]
  by (auto simp: parent_def Let_def intro: prefix_order.trans)

lemma ancestor_prefix: "prefix ((parent ^^ n) p) p"
  by (induction n) (auto intro: prefix_order.trans parent_prefix)

lemma climb_deepest:
  "climb K p = Some (work, final) \<Longrightarrow>
     \<exists>n. work = (parent ^^ n) p \<and> open_path K work = Opened (Some final) \<and> (\<forall>m < n. open_path K ((parent ^^ m) p) = Missing)"
proof (induction K p rule: climb.induct)
  case (1 K p)
  show ?case
  proof (cases "open_path K p")
    case (Opened f)
    with 1(2) show ?thesis by (intro exI [of _ 0]) (auto simp: climb.simps)
  next
    case Missing
    with 1(2) have "climb K (parent p) = Some (work, final)" "\<not> length p \<le> 3"
      by (auto simp: climb.simps [of K p] split: if_splits)
    with 1(1) [OF Missing] obtain n where n: "work = (parent ^^ n) (parent p)" "open_path K work = Opened (Some final)"
      "\<forall>m < n. open_path K ((parent ^^ m) (parent p)) = Missing" by blast
    with Missing have "\<forall>m < Suc n. open_path K ((parent ^^ m) p) = Missing"
      by (auto simp: less_Suc_eq_0_disj funpow_swap1)
    with n show ?thesis by (intro exI [of _ "Suc n"]) (simp add: funpow_swap1)
  qed (use 1(2) in \<open>simp add: climb.simps\<close>)
qed

text \<open>A path below a directory.\<close>

definition below :: "wstring \<Rightarrow> wstring \<Rightarrow> wstring" where
  "below dir rest = (if last dir = BACKSLASH then dir else dir @ [BACKSLASH]) @ rest"

lemma add_tail_below:
  assumes "add_tail resolved p (length work) = Some whole" "prefix work p"
  shows "(work = p \<and> whole = resolved) \<or> (\<exists>rest. p \<in> {work @ rest, work @ BACKSLASH # rest} \<and> whole = below resolved rest)"
proof -
  from assms(2) obtain r where p: "p = work @ r" by (auto simp: prefix_def)
  show ?thesis
  proof (cases r)
    case Nil
    with assms(1) p show ?thesis by (simp add: add_tail_def)
  next
    case (Cons c cs)
    with assms(1) p show ?thesis
      by (cases "c = BACKSLASH") (auto simp: add_tail_def below_def nth_append Let_def split: if_splits)
  qed
qed

lemma canonical_run:
  assumes "vis_py_win_canonical K path cap = Some out"
  shows "\<exists>input given work final resolved whole. vis_py_win_wide K path = Some input \<and> full_path K input = Some given
    \<and> \<not> drive_remote K (take 3 given) \<and> check_parts False [] (drop 3 (trim_end given))
    \<and> climb K (trim_end given) = Some (work, final) \<and> plain_final final = Some resolved
    \<and> add_tail resolved (trim_end given) (length work) = Some whole
    \<and> utf8_of K (back_slashes whole) = Some out \<and> length out < cap"
proof -
  note D = assms [unfolded vis_py_win_canonical_def Let_def]
  obtain input where i: "vis_py_win_wide K path = Some input" using D by (cases "vis_py_win_wide K path") simp_all
  obtain given where g: "full_path K input = Some given" using D i by (cases "full_path K input") (simp_all split: if_splits)
  note D2 = D [unfolded i g option.case]
  obtain work final where c: "climb K (trim_end given) = Some (work, final)"
    using D2 by (cases "climb K (trim_end given)") (simp_all split: if_splits prod.splits)
  note D3 = D2 [unfolded c option.case prod.case]
  obtain whole where w: "Option.bind (plain_final final) (\<lambda>r. add_tail r (trim_end given) (length work)) = Some whole"
    using D3 by (cases "Option.bind (plain_final final) (\<lambda>r. add_tail r (trim_end given) (length work))") (simp_all split: if_splits)
  note D4 = D3 [unfolded w option.case]
  have "\<not> drive_remote K (take 3 given)" "check_parts False [] (drop 3 (trim_end given))" using D4 by (auto split: if_splits)
  moreover have "utf8_of K (back_slashes whole) = Some out" "length out < cap"
    using D4 by (auto split: if_splits option.splits)
  ultimately show ?thesis using i g c w by (auto simp: Option.bind_eq_Some_conv)
qed

text \<open>C27: A canonical path of the Windows embedding is the deepest existing directory, resolved, plus the rest as written.
  The path is on a local drive; of it and its parents the longest that can be opened is taken, every longer
  one being reported missing, never refused; what the kernel says that one is, without the namespace prefix,
  is the front of the answer, and the rest of the path the back.  No name in the path that was given is a device,
  holds a character Windows reserves, or ends in a dot or a space.\<close>

theorem win_canonical_is_deepest:
  assumes "vis_py_win_canonical K path cap = Some out"
  shows "\<exists>input given n final resolved whole. vis_py_win_wide K path = Some input \<and> full_path K input = Some given
    \<and> \<not> drive_remote K (take 3 given)
    \<and> open_path K ((parent ^^ n) (trim_end given)) = Opened (Some final) \<and> plain_final final = Some resolved
    \<and> (\<forall>m < n. open_path K ((parent ^^ m) (trim_end given)) = Missing)
    \<and> ((parent ^^ n) (trim_end given) = trim_end given \<and> whole = resolved
       \<or> (\<exists>rest. trim_end given \<in> {(parent ^^ n) (trim_end given) @ rest, (parent ^^ n) (trim_end given) @ BACKSLASH # rest}
            \<and> whole = below resolved rest))
    \<and> utf8_of K (back_slashes whole) = Some out \<and> length out < cap
    \<and> (\<forall>c \<in> set (drop 3 (trim_end given)). \<not> reserved c)
    \<and> (\<forall>s \<in> set (segments (drop 3 (trim_end given))). s = [] \<or> vis_py_win_component_safe s)"
proof -
  obtain input given work final resolved whole where
    r: "vis_py_win_wide K path = Some input" "full_path K input = Some given" "\<not> drive_remote K (take 3 given)"
      "check_parts False [] (drop 3 (trim_end given))" "climb K (trim_end given) = Some (work, final)"
      "plain_final final = Some resolved" "add_tail resolved (trim_end given) (length work) = Some whole"
      "utf8_of K (back_slashes whole) = Some out" "length out < cap"
    using canonical_run [OF assms] by blast
  obtain n where n: "work = (parent ^^ n) (trim_end given)" "open_path K work = Opened (Some final)"
    "\<forall>m < n. open_path K ((parent ^^ m) (trim_end given)) = Missing" using climb_deepest [OF r(5)] by blast
  have "prefix work (trim_end given)" unfolding n(1) by (rule ancestor_prefix)
  note t = add_tail_below [OF r(7) this, unfolded n(1)]
  show ?thesis
    by (rule exI [of _ input], rule exI [of _ given], rule exI [of _ n], rule exI [of _ final], rule exI [of _ resolved],
        rule exI [of _ whole]) (use r n t check_parts_start [OF r(4)] in simp)
qed

text \<open>A file to be made in a directory that is a link to another.\<close>

definition link_paths :: win_paths where
  "link_paths =
     \<lparr>wide_of = \<lambda>p. Some (ascii p), full_path = Some, drive_remote = \<lambda>_. False,
      open_path = \<lambda>p. if p = [67, 58, BACKSLASH, 97] then Opened (Some [BACKSLASH, BACKSLASH, 63, BACKSLASH, 67, 58, BACKSLASH, 66]) else Missing,
      utf8_of = \<lambda>w. Some (map char_of w), buffers_ok = True\<rparr>"

lemma link_run: "vis_py_win_canonical link_paths (Some (map char_of [67, 58, BACKSLASH, 97, BACKSLASH, 98 :: nat])) 100 = Some ''C:/B/b''"
proof -
  have drop: "drop_name [67, 58, BACKSLASH, 97, BACKSLASH, 98] = [67, 58, BACKSLASH, 97, BACKSLASH]"
    by (simp add: drop_name.simps BACKSLASH_def)
  have opens: "open_path link_paths [67, 58, BACKSLASH, 97, BACKSLASH, 98] = Missing" "open_path link_paths [67, 58, BACKSLASH, 97]
      = Opened (Some [BACKSLASH, BACKSLASH, 63, BACKSLASH, 67, 58, BACKSLASH, 66])" by (simp_all add: link_paths_def)
  have "climb link_paths [67, 58, BACKSLASH, 97, BACKSLASH, 98]
      = Some ([67, 58, BACKSLASH, 97], [BACKSLASH, BACKSLASH, 63, BACKSLASH, 67, 58, BACKSLASH, 66])"
    using drop opens by (simp add: climb.simps [of link_paths "[67, 58, 92, 97, 92, 98]"]
        climb.simps [of link_paths "[67, 58, 92, 97]"] parent_def BACKSLASH_def)
  moreover have "trim_end [67, 58, BACKSLASH, 97, BACKSLASH, 98] = [67, 58, BACKSLASH, 97, BACKSLASH, 98]"
    "trim_end [67, 58, BACKSLASH, 66] = [67, 58, BACKSLASH, 66]" by (simp_all add: trim_end.simps BACKSLASH_def)
  moreover have "check_parts False [] [97, BACKSLASH, 98]"
    by (simp add: vis_py_win_component_safe_def Let_def reserved_def BACKSLASH_def QUOTE_def ascii_def)
  moreover have "vis_py_win_wide link_paths (Some (map char_of [67, 58, BACKSLASH, 97, BACKSLASH, 98 :: nat]))
      = Some [67, 58, BACKSLASH, 97, BACKSLASH, 98]"
    by (simp add: vis_py_win_wide_def link_paths_def WIN_PATH_MAX_def ascii_def BACKSLASH_def)
  moreover have "map char_of [67, 58, 47, 66, 47, 98 :: nat] = ''C:/B/b''" by code_simp
  ultimately show ?thesis
    by (simp add: vis_py_win_canonical_def Let_def plain_final_def add_tail_def back_slashes_def starts_with_two_slashes_def
        link_paths_def WIN_PATH_MAX_def BACKSLASH_def INT_MAX_def)
qed

theorem win_canonical_is_deepest_witness:
  "vis_py_win_canonical link_paths (Some (map char_of [67, 58, BACKSLASH, 97, BACKSLASH, 98 :: nat])) 100 = Some ''C:/B/b''
   \<and> (\<exists>given n. open_path link_paths ((parent ^^ n) (trim_end given)) \<noteq> Missing)"
  using link_run win_canonical_is_deepest [OF link_run] by (metis open_answer.distinct(1))
section \<open>A listing stops at a name without UTF-8\<close>

text \<open>The loop of a caller, up to the first \<open>NULL\<close>.\<close>

fun names_read :: "win_paths \<Rightarrow> nat \<Rightarrow> directory \<Rightarrow> bytes list" where
  "names_read K 0 d = []"
| "names_read K (Suc n) d = (case readdir K d of (None, _) \<Rightarrow> [] | (Some name, d') \<Rightarrow> name # names_read K n d')"

definition readable_name :: "win_paths \<Rightarrow> wstring \<Rightarrow> bool" where
  "readable_name K name \<longleftrightarrow> (case utf8_of K name of None \<Rightarrow> False | Some out \<Rightarrow> length out < WIN_PATH_MAX)"

lemma names_read_behind:
  "length names < n \<Longrightarrow>
     names_read K n \<lparr>found = x # names, first = False\<rparr> = map (the \<circ> utf8_of K) (takeWhile (readable_name K) names)"
proof (induction names arbitrary: n x)
  case Nil
  then show ?case by (cases n) (simp_all add: readdir_def)
next
  case (Cons y names)
  then obtain m where n: "n = Suc m" "length names < m" by (cases n) auto
  from Cons.IH [OF n(2)] show ?case
    by (cases "utf8_of K y") (auto simp: n(1) readdir_def Let_def readable_name_def)
qed

theorem listing_stops_at_unreadable_name:
  "names_read K (Suc (length names)) \<lparr>found = names, first = True\<rparr>
     = map (the \<circ> utf8_of K) (takeWhile (readable_name K) names)"
proof (cases names)
  case (Cons x xs)
  have "names_read K (length names) \<lparr>found = x # xs, first = False\<rparr> = map (the \<circ> utf8_of K) (takeWhile (readable_name K) xs)"
    by (rule names_read_behind) (simp add: Cons)
  then show ?thesis
    by (cases "utf8_of K x") (auto simp: Cons readdir_def Let_def readable_name_def simp del: names_read.simps(1))
qed (simp add: readdir_def)

section \<open>The pipe that wakes the event loop\<close>

datatype wake_handle = Reader | Writer | Event | Descriptor

datatype wake_op = Make wake_handle | Adopt | Shut wake_handle

text \<open>What the calls answer: whether each object was made, how the connection went, and the last steps.\<close>

datatype connection = Connected | Pending bool | AlreadyConnected | Refused

record wake_answers =
  reader_made :: bool
  writer_made :: bool
  event_made :: bool
  connected :: connection
  mode_set :: bool
  descriptor_made :: bool
  tuple_made :: bool

text \<open>The cleanup closes what the three variables still hold.\<close>

definition wake_done :: "bool \<Rightarrow> bool \<Rightarrow> bool \<Rightarrow> wake_op list" where
  "wake_done event reader writer =
     (if event then [Shut Event] else []) @ (if reader then [Shut Reader] else []) @ (if writer then [Shut Writer] else [])"

definition vis_py_win_wakeup_pipe :: "wake_answers \<Rightarrow> bool \<times> wake_op list" where
  "vis_py_win_wakeup_pipe A =
     (if \<not> reader_made A then (False, wake_done False False False)
      else if \<not> writer_made A then (False, [Make Reader] @ wake_done False True False)
      else if \<not> event_made A then (False, [Make Reader, Make Writer] @ wake_done False True True)
      else
        let made = [Make Reader, Make Writer, Make Event] in
        if connected A = Pending False \<or> connected A = Refused then (False, made @ wake_done True True True)
        else if \<not> mode_set A then (False, made @ wake_done True True True)
        else if \<not> descriptor_made A then (False, made @ wake_done True True True)
        else if \<not> tuple_made A then (False, made @ [Adopt, Shut Descriptor] @ wake_done True True False)
        else (True, made @ [Adopt] @ wake_done True False False))"

text \<open>The objects open after some operations; \<open>None\<close> when one was used that is not open.\<close>

fun objects_open :: "wake_op list \<Rightarrow> wake_handle list \<Rightarrow> wake_handle list option" where
  "objects_open [] live = Some live"
| "objects_open (Make h # ops) live = (if h \<in> set live then None else objects_open ops (live @ [h]))"
| "objects_open (Adopt # ops) live =
     (if Writer \<in> set live then objects_open ops (remove1 Writer live @ [Descriptor]) else None)"
| "objects_open (Shut h # ops) live = (if h \<in> set live then objects_open ops (remove1 h live) else None)"

theorem wakeup_pipe_owns_two_ends:
  "objects_open (snd (vis_py_win_wakeup_pipe A)) [] = Some (if fst (vis_py_win_wakeup_pipe A) then [Reader, Descriptor] else [])"
  by (simp add: vis_py_win_wakeup_pipe_def Let_def wake_done_def)

end
