(* ===== verification/Spec2Isabelle.thy ===== *)
theory Spec2Isabelle
  imports PoolSafety TrustedFs Startup NetBridge StackDump WinSpawn WinCreate WinPort
begin

text \<open>
  A model of vis-python-runtime: a native library that embeds CPython behind a C boundary, confines the code
  of a guest to the paths and capabilities its host granted, and starts child programs in a jail.  The
  program's own code is modelled from its C sources; CPython, the C library, the kernel and the Java host
  are parameters, with what the code relies on of them stated as hypotheses.

  \<^bold>\<open>How the parts work together.\<close>  The host starts the interpreter (\<^verbatim>\<open>vispython_initialize\<close>) and calls into
  it through entry points that hand text over in caller-owned buffers.  Each call pushes the session it runs
  for on a stack of the thread; upcalls, trust and interrupts are decided by that stack.  The audit hook asks
  the path boundary about every file a guest names.  A guest may run thunks on a pool of worker threads
  (\<^verbatim>\<open>par\<close>), which run as the block that submitted them and are stopped with it.  What happens is recorded
  in a ring of log lines.  The jail is a second library: it decodes the host's argument and environment
  blobs, spawns a child on pipes or a terminal, and may pass the child's connections through a bridge.

  \<^bold>\<open>Theories\<close>, in the order of their dependencies; all sources are under \<^verbatim>\<open>src/native\<close>.

  \<^item> \<^verbatim>\<open>CPrelude\<close>: C strings, caller buffers, \<^verbatim>\<open>int\<close> conversion, the fragment of \<^verbatim>\<open>printf\<close> and \<^verbatim>\<open>sscanf\<close> used,
    the answers of system calls.
  \<^item> \<^verbatim>\<open>Boundary\<close> (\<^verbatim>\<open>vis_py_copy_out\<close>, \<^verbatim>\<open>vis_py_stash\<close>, \<^verbatim>\<open>vispython_take_result\<close>, \<^verbatim>\<open>vis_py_take_error\<close>): the
    protocol that delivers a text larger than the buffer in two calls, and its round trip.
  \<^item> \<^verbatim>\<open>EventLog\<close> (\<^verbatim>\<open>vis_py_record\<close>, \<^verbatim>\<open>vispython_drain_log\<close>, \<^verbatim>\<open>vispython_logging\<close>): the ring refines a bounded
    queue that forgets its oldest record (locale \<open>bounded_log\<close>); a drain ends and delivers everything once.
  \<^item> \<^verbatim>\<open>ThreadPolicy\<close> (\<^verbatim>\<open>vispython_threads\<close>, \<^verbatim>\<open>vis_py_worker_target\<close>): bounds on threads, workers and quota.
  \<^item> \<^verbatim>\<open>Paths\<close> (\<^verbatim>\<open>vis_py_canonical\<close>, \<^verbatim>\<open>vis_py_under\<close>): canonical paths as the deepest resolvable ancestor and a
    tail, and the byte comparison as containment of components.
  \<^item> \<^verbatim>\<open>Confinement\<close> (\<^verbatim>\<open>vis_py_audit\<close>, \<^verbatim>\<open>vis_py_check\<close>, \<^verbatim>\<open>vispython_confine\<close>, \<^verbatim>\<open>vispython_network\<close>): the roots, and
    which audit events pass, on POSIX and on Windows; the canonical paths of the Windows build are a parameter here,
    \<open>vis_py_win_canonical\<close> of \<^verbatim>\<open>WinPort\<close> in the code.
  \<^item> \<^verbatim>\<open>Sessions\<close> (\<^verbatim>\<open>vis_py_run_push\<close>, \<^verbatim>\<open>vis_py_current_session\<close>, \<^verbatim>\<open>vispython_trust\<close>, \<^verbatim>\<open>vis_py_host_call\<close>): the run
    stack, the trust table as a set of names, upcalls.
  \<^item> \<^verbatim>\<open>ScanBudget\<close> (\<^verbatim>\<open>vis_py_scandir_next\<close>, \<^verbatim>\<open>vis_py_listdir\<close>): the directory entries a block may see.
  \<^item> \<^verbatim>\<open>TaskQueue\<close>, \<^verbatim>\<open>WorkerPool\<close>, \<^verbatim>\<open>PoolInvariants\<close>, \<^verbatim>\<open>PoolSafety\<close> (\<^verbatim>\<open>vis_py_par\<close>, \<^verbatim>\<open>vis_py_worker_main\<close>,
    \<^verbatim>\<open>vis_py_task_run\<close>, \<^verbatim>\<open>vis_py_interrupt_batches\<close>): the linked queue refines a list; each critical section of the
    pool is one definition, \<open>pool_step\<close> interleaves them, and invariants of all reachable states give the safety
    properties of \<^verbatim>\<open>par\<close>.
  \<^item> \<^verbatim>\<open>TrustedFs\<close> (\<^verbatim>\<open>vis_py_fs_*\<close>): the file operations only trusted sessions may use.
  \<^item> \<^verbatim>\<open>EntryPoints\<close> (\<^verbatim>\<open>vispython_eval\<close>, \<^verbatim>\<open>_exec\<close>, \<^verbatim>\<open>_run\<close>, \<^verbatim>\<open>_run_block\<close>, \<^verbatim>\<open>_interrupt\<close>): every path through a call,
    over a parameter for what CPython does, which may call back into the entry points to any depth.
  \<^item> \<^verbatim>\<open>Startup\<close> (\<^verbatim>\<open>vispython_initialize\<close>): a start works as a whole or not at all.
  \<^item> \<^verbatim>\<open>StackDump\<close> (\<^verbatim>\<open>vispython_stack_diagnostics\<close>, \<^verbatim>\<open>vispython_dump_stacks\<close>): the stack artifact, over a memory that
    may change between any two reads.
  \<^item> \<^verbatim>\<open>JailSpawn\<close> (\<^verbatim>\<open>visjail/visjail.c\<close>, and \<^verbatim>\<open>blob\<close> of \<^verbatim>\<open>Jail.java\<close>): blobs, the descriptor table of a spawn, the
    child up to its \<^verbatim>\<open>exec\<close>.
  \<^item> \<^verbatim>\<open>NetBridge\<close> (\<^verbatim>\<open>visjail/network_bridge.c\<close>): the byte relay, closing of descriptors, entry into a private network
    namespace, the processes on both sides of it, and what descriptors a spawned child has in the end.
  \<^item> \<^verbatim>\<open>WinLaunch\<close> (\<^verbatim>\<open>visjail/visjail_windows.c\<close>: \<^verbatim>\<open>component\<close>, \<^verbatim>\<open>local_path\<close>, \<^verbatim>\<open>command_line\<close>,
    \<^verbatim>\<open>environment_block\<close>, the checks of \<^verbatim>\<open>visjail_spawn\<close>): what a confined Windows program is started with, and
    that it reads back the arguments of the host.
  \<^item> \<^verbatim>\<open>WinStreams\<close> (\<^verbatim>\<open>visjail/visjail_windows.c\<close>: \<^verbatim>\<open>stream_new\<close>, \<^verbatim>\<open>stream_get\<close>, \<^verbatim>\<open>stream_dispose\<close>, \<^verbatim>\<open>visjail_close\<close>): the
    reference counts of the stream table, as a step relation of the threads that hold streams.
  \<^item> \<^verbatim>\<open>WinReads\<close> (\<^verbatim>\<open>visjail_read\<close>, \<^verbatim>\<open>visjail_poll\<close>, \<^verbatim>\<open>read_ready\<close>, \<^verbatim>\<open>stream_io\<close>): reading with one byte fetched ahead
    delivers a pipe in order and ends where it ends.
  \<^item> \<^verbatim>\<open>WinStage\<close> (\<^verbatim>\<open>visjail_windows_stage\<close>, \<^verbatim>\<open>visjail_windows_seal\<close>, \<^verbatim>\<open>copy_tree\<close>, \<^verbatim>\<open>seal_tree\<close>): the objects of a
    context over time, from its creation to a launch.
  \<^item> \<^verbatim>\<open>WinProcess\<close> (\<^verbatim>\<open>visjail_wait\<close>, \<^verbatim>\<open>finish_job\<close>, \<^verbatim>\<open>drain_console\<close>, parts of \<^verbatim>\<open>visjail_spawn\<close> and
    \<^verbatim>\<open>visjail_windows_destroy\<close>): the process records under all threads, with a ledger of their handles.
  \<^item> \<^verbatim>\<open>WinSteps\<close>: sequences of calls with one way out of every failure, and the rules by which a property is carried
    through them step by step; the ledger of handles.
  \<^item> \<^verbatim>\<open>WinSpawn\<close> (\<^verbatim>\<open>visjail_spawn\<close> of \<^verbatim>\<open>visjail_windows.c\<close> from its pins on, \<^verbatim>\<open>pipe_pair\<close>, \<^verbatim>\<open>new_job\<close>): where a
    spawn fails, whichever call it is, nothing is left; a guest runs only inside its jail.
  \<^item> \<^verbatim>\<open>WinDesktop\<close> (\<^verbatim>\<open>visjail/windows_ui.c\<close>, \<^verbatim>\<open>windows_ui.h\<close>, \<^verbatim>\<open>windows_ui_protocol.h\<close>): the helper program that makes
    the private desktop of a context, and its agreement with the launcher.
  \<^item> \<^verbatim>\<open>WinCreate\<close> (\<^verbatim>\<open>visjail_windows_create\<close>, \<^verbatim>\<open>private_desktop\<close>, \<^verbatim>\<open>dispose_failed_context\<close>,
    \<^verbatim>\<open>visjail_windows_destroy\<close>): the life of contexts, as a step relation in which any call may fail; handles and
    profiles are accounted for, and a creation succeeds when its calls do (\<open>creation_lists_a_context\<close>).
  \<^item> \<^verbatim>\<open>WinPort\<close> (\<^verbatim>\<open>vispython/vispython_windows.h\<close>: \<^verbatim>\<open>vis_py_win_canonical\<close>, \<^verbatim>\<open>vis_py_win_component_safe\<close>,
    \<^verbatim>\<open>readdir\<close>, \<^verbatim>\<open>pthread_cond_timedwait\<close>, \<^verbatim>\<open>vis_py_win_wakeup_pipe\<close>): canonical paths on Windows, and that both
    libraries agree on plain names.
  \<^item> \<^verbatim>\<open>Spec2Isabelle\<close>: the properties that span components.

  \<^bold>\<open>State and interleaving.\<close>  Static variables of the C files are fields of a record per component, thread-local
  ones a record per thread.  A critical section is one step; code that runs outside the locks is cut where it
  takes or releases one.  Errors are values: \<^verbatim>\<open>errno\<close> or a status in a sum, \<open>None\<close> where an allocation or a call
  fails.

  \<^bold>\<open>Bounds.\<close>  Loops over data recurse over it.  A loop that asks the kernel until something happens recurses over
  the list of answers and is \<open>None\<close> while they last no longer; for each of them a theorem gives a number of
  answers that is enough: the relay of the bridge ends within 16385 turns once both peers have closed, a stack
  dump within 4226 writes, a drain of the log and a trusted read when their source is used up.  Texts are bounded
  by the buffers of the code: lines of 255 bytes in the log, of 2200 in the stack artifact, paths of \<open>PATH_MAX\<close>.

  \<^bold>\<open>Not modelled.\<close>  Reference counts of Python objects; the macOS branches (Seatbelt, \<^verbatim>\<open>mach_vm_read\<close>); bubblewrap,
  which the bridge calls and which is not part of the repository; the texts of \<^verbatim>\<open>strerror\<close>; fairness of the
  scheduler, beyond the existence of a step; that Windows finds a staged directory under other letter case; the shims of the Windows port that are one Win32 call; what the
  Win32 calls of the Windows jail do beyond working or not, the bytes of access lists, and the Windows test
  probes and guest programs.
\<close>

section \<open>Properties across components\<close>




text \<open>C32: The doors of the trusted file system open for a block exactly when the session it runs in is trusted,
  as far as the run stack keeps the name.  Code that \<open>vispython_run\<close> runs, however deep inside other blocks up to
  the depth the run stack keeps, finds them open if and only if its own session is in the trusted table; the
  sessions of the enclosing blocks do not count.  A name of 128 bytes or more is no name the table can hold: for it
  they open if and only if its first 127 bytes are the name of a trusted session, which is another one.\<close>

theorem doors_open_for_trusted_block_only:
  assumes "runs_as (runs (thread p)) enclosing" "length enclosing < VIS_PY_RUN_DEPTH"
  shows "(length s < 128 \<longrightarrow>
      (vis_py_fs_allowed (runs (thread (push_run (Some s) (PyGILState_Ensure p)))) T \<longleftrightarrow> s \<noteq> [] \<and> s \<in> trusted_set T))
    \<and> (128 \<le> length s \<longrightarrow>
      (vis_py_fs_allowed (runs (thread (push_run (Some s) (PyGILState_Ensure p)))) T \<longleftrightarrow> take 127 s \<in> trusted_set T))"
proof -
  have "runs_as (runs (thread (push_run (Some s) (PyGILState_Ensure p)))) (enclosing @ [s])"
    using runs_as_push [OF assms(1), of "Some s"] by (simp add: push_run_def)
  from current_session_owner [OF this] assms(2)
  have "vis_py_fs_allowed (runs (thread (push_run (Some s) (PyGILState_Ensure p)))) T \<longleftrightarrow> s \<noteq> [] \<and> take 127 s \<in> trusted_set T"
    by (auto simp: vis_py_fs_allowed_def owner_of_def session_trusted_iff session_trusted_None)
  then show ?thesis by auto
qed

theorem doors_open_for_trusted_block_only_witness:
  "vis_py_fs_allowed (runs (thread (push_run (Some ''ext'') (PyGILState_Ensure idle_process)))) (initial_trusted[0 := ''ext''])
   \<and> \<not> vis_py_fs_allowed (runs (thread (push_run (Some ''block'') (PyGILState_Ensure idle_process)))) (initial_trusted[0 := ''ext''])"
proof -
  have 1: "runs_as (runs (thread idle_process)) []" "length ([] :: bytes list) < VIS_PY_RUN_DEPTH"
    by (simp_all add: idle_process_def runs_as_initial VIS_PY_RUN_DEPTH_def)
  have "set (initial_trusted[0 := ''ext'']) = {''ext'', []}"
    by (simp add: initial_trusted_def VIS_PY_TRUSTED_MAX_def eval_nat_numeral insert_commute)
  then show ?thesis
    using doors_open_for_trusted_block_only [OF 1, of "''ext''"] doors_open_for_trusted_block_only [OF 1, of "''block''"]
    by (simp add: trusted_set_def)
qed

end
